(* ===== verification/Prelude.thy ===== *)
theory Prelude
  imports Main "HOL-Library.Word" "HOL-Library.Monad_Syntax"
begin

text \<open>
  What every theory of the development shares: names for the machine integers of the
  32-bit target, the kernel's error codes, the collections of rewrite and introduction
  rules the component proofs draw on, and generic facts about the option monad, lists and
  words.

  The C functions are modelled in the option monad with the state passed explicitly.
  \<^const>\<open>None\<close> is undefined behaviour of the C program: a NULL pointer that is followed,
  an index outside its array, a list node that is taken for a structure it is not part of,
  or a loop that never ends. An error code is an ordinary return value.
\<close>

unbundle bit_operations_syntax

section \<open>Machine integers and error codes\<close>

type_synonym u8 = "8 word"
type_synonym u16 = "16 word"
type_synonym u32 = "32 word"

text \<open>
  \<open>rt_err_t\<close> is a 32-bit \<open>long\<close>; a function returns a code negated, so \<open>- RT_ERROR\<close>
  is the word with all bits set. (\<open>include/rtdef.h\<close>)
\<close>

type_synonym rt_err = u32

definition RT_EOK :: rt_err where "RT_EOK = 0"
definition RT_ERROR :: rt_err where "RT_ERROR = 1"
definition RT_ETIMEOUT :: rt_err where "RT_ETIMEOUT = 2"
definition RT_EFULL :: rt_err where "RT_EFULL = 3"
definition RT_EEMPTY :: rt_err where "RT_EEMPTY = 4"
definition RT_ENOMEM :: rt_err where "RT_ENOMEM = 5"
definition RT_EINTR :: rt_err where "RT_EINTR = 9"

named_theorems err_defs "the numeric values of the error codes"
declare RT_EOK_def [err_defs] RT_ERROR_def [err_defs] RT_ETIMEOUT_def [err_defs]
  RT_EFULL_def [err_defs] RT_EEMPTY_def [err_defs] RT_ENOMEM_def [err_defs]
  RT_EINTR_def [err_defs]

lemma err_distinct [simp]:
  "- RT_ERROR \<noteq> RT_EOK" "- RT_ETIMEOUT \<noteq> RT_EOK" "- RT_ERROR \<noteq> - RT_ETIMEOUT"
  "RT_EOK \<noteq> - RT_ERROR" "RT_EOK \<noteq> - RT_ETIMEOUT" "- RT_ETIMEOUT \<noteq> - RT_ERROR"
  by (simp_all add: err_defs)

section \<open>The option monad\<close>

lemma bind_SomeI: "m = Some x \<Longrightarrow> f x = r \<Longrightarrow> Option.bind m f = r"
  by simp

lemma bind_SomeE:
  assumes "Option.bind m f = Some y"
  obtains x where "m = Some x" and "f x = Some y"
  using assms by (cases m) auto

lemma if_bind [simp]:
  "Option.bind (if b then m else m') f = (if b then Option.bind m f else Option.bind m' f)"
  by simp

lemma exI2: "P x y \<Longrightarrow> \<exists>x y. P x y"
  by blast

text \<open>An assertion that fails stops the system.\<close>

definition RT_ASSERT :: "bool \<Rightarrow> unit option" where
  "RT_ASSERT b = (if b then Some () else None)"

lemma RT_ASSERT_True [simp]: "RT_ASSERT True = Some ()"
  by (simp add: RT_ASSERT_def)

section \<open>Lists\<close>

lemma remove1_notin [simp]: "x \<notin> set xs \<Longrightarrow> remove1 x xs = xs"
  by (rule remove1_idem)

lemma remove1_split:
  "x \<notin> set xs \<Longrightarrow> remove1 x (xs @ x # ys) = xs @ ys"
  by (simp add: remove1_append)

lemma map_remove1: "inj f \<Longrightarrow> map f (remove1 x xs) = remove1 (f x) (map f xs)"
  by (induction xs) (auto dest: injD)

lemma set_remove1_distinct: "distinct xs \<Longrightarrow> set (remove1 x xs) = set xs - {x}"
  by (rule set_remove1_eq)

lemma sorted_wrt_remove1: "sorted_wrt P xs \<Longrightarrow> sorted_wrt P (remove1 x xs)"
  by (induction xs) (auto dest: notin_set_remove1 intro: ccontr)

section \<open>Words\<close>

lemma word_and_not_bit:
  "bit (w AND NOT v) n \<longleftrightarrow> bit w n \<and> \<not> bit v n" for w :: "'a::len word"
  by (auto simp: bit_simps dest: bit_imp_le_length)

lemma unat_diff_mono_iff:
  fixes a b c :: "'a::len word"
  assumes "unat (c - a) \<le> unat (b - a)"
  shows "unat (b - c) = unat (b - a) - unat (c - a)"
proof -
  have "b - c = (b - a) - (c - a)" by simp
  then show ?thesis using assms by (metis unat_sub word_le_nat_alt)
qed

lemma unat_diff_wrap:
  fixes a b c :: "'a::len word"
  assumes "unat (b - a) < unat (c - a)"
  shows "unat (b - c) = 2 ^ LENGTH('a) - (unat (c - a) - unat (b - a))"
proof -
  have "b - c = (b - a) - (c - a)" by simp
  then show ?thesis using assms unat_sub_if_size [of "b - a" "c - a"]
    by (simp add: word_le_nat_alt word_size)
qed

end
