(* ===== verification/Rt_List.thy ===== *)
theory Rt_List
  imports Prelude
begin

text \<open>
  The intrusive doubly linked lists of \<open>include/rtservice.h\<close>, on which every queue of the
  kernel is built. A node is a member of a structure; its address is a value of the type
  \<open>'n\<close>. The store maps an address to the node's \<open>next\<close> and \<open>prev\<close> fields; a field that
  holds NULL is \<^const>\<open>None\<close>. The operations are the assignments of the inline functions,
  in their order. A list is a ring through its head node, and \<open>rings\<close> says which rings the
  store holds: it is the separation argument of every later proof.
\<close>

section \<open>The store and the operations\<close>

record 'n lstore =
  nxt :: "'n \<Rightarrow> 'n option"
  prv :: "'n \<Rightarrow> 'n option"

text \<open>\<open>l->next = l->prev = l\<close>\<close>

definition rt_list_init :: "'n \<Rightarrow> ('n, 'z) lstore_scheme \<Rightarrow> ('n, 'z) lstore_scheme" where
  "rt_list_init l s =
     (let s = s\<lparr>prv := (prv s)(l := Some l)\<rparr>
      in s\<lparr>nxt := (nxt s)(l := Some l)\<rparr>)"

definition rt_list_insert_before ::
  "'n \<Rightarrow> 'n \<Rightarrow> ('n, 'z) lstore_scheme \<Rightarrow> ('n, 'z) lstore_scheme option" where
  "rt_list_insert_before l n s = do {
     lp \<leftarrow> prv s l;
     let s = s\<lparr>nxt := (nxt s)(lp := Some n)\<rparr>;
     let s = s\<lparr>prv := (prv s)(n := prv s l)\<rparr>;
     let s = s\<lparr>prv := (prv s)(l := Some n)\<rparr>;
     let s = s\<lparr>nxt := (nxt s)(n := Some l)\<rparr>;
     Some s }"

definition rt_list_insert_after ::
  "'n \<Rightarrow> 'n \<Rightarrow> ('n, 'z) lstore_scheme \<Rightarrow> ('n, 'z) lstore_scheme option" where
  "rt_list_insert_after l n s = do {
     ln \<leftarrow> nxt s l;
     let s = s\<lparr>prv := (prv s)(ln := Some n)\<rparr>;
     let s = s\<lparr>nxt := (nxt s)(n := nxt s l)\<rparr>;
     let s = s\<lparr>nxt := (nxt s)(l := Some n)\<rparr>;
     let s = s\<lparr>prv := (prv s)(n := Some l)\<rparr>;
     Some s }"

definition rt_list_remove ::
  "'n \<Rightarrow> ('n, 'z) lstore_scheme \<Rightarrow> ('n, 'z) lstore_scheme option" where
  "rt_list_remove n s = do {
     nn \<leftarrow> nxt s n;
     let s = s\<lparr>prv := (prv s)(nn := prv s n)\<rparr>;
     np \<leftarrow> prv s n;
     let s = s\<lparr>nxt := (nxt s)(np := nxt s n)\<rparr>;
     let s = s\<lparr>prv := (prv s)(n := Some n)\<rparr>;
     let s = s\<lparr>nxt := (nxt s)(n := Some n)\<rparr>;
     Some s }"

definition rt_list_isempty :: "'n \<Rightarrow> ('n, 'z) lstore_scheme \<Rightarrow> bool" where
  "rt_list_isempty l s \<longleftrightarrow> nxt s l = Some l"

text \<open>The \<open>while\<close> loop of \<open>rt_list_len\<close>, entered with the cursor \<open>p\<close> and the count so far.\<close>

partial_function (option) rt_list_len_loop ::
  "'n \<Rightarrow> 'n \<Rightarrow> u32 \<Rightarrow> ('n, 'z) lstore_scheme \<Rightarrow> u32 option" where
  "rt_list_len_loop l p len s = do {
     q \<leftarrow> nxt s p;
     if q \<noteq> l then rt_list_len_loop l q (len + 1) s else Some len }"

declare rt_list_len_loop.simps [code]

definition rt_list_len :: "'n \<Rightarrow> ('n, 'z) lstore_scheme \<Rightarrow> u32 option" where
  "rt_list_len l s = rt_list_len_loop l l 0 s"

section \<open>Chains and rings\<close>

fun chain :: "('n \<Rightarrow> 'n option) \<Rightarrow> ('n \<Rightarrow> 'n option) \<Rightarrow> 'n list \<Rightarrow> bool" where
  "chain nx pv (x # y # zs) \<longleftrightarrow> nx x = Some y \<and> pv y = Some x \<and> chain nx pv (y # zs)"
| "chain nx pv _ \<longleftrightarrow> True"

definition ring :: "('n \<Rightarrow> 'n option) \<Rightarrow> ('n \<Rightarrow> 'n option) \<Rightarrow> 'n \<Rightarrow> 'n list \<Rightarrow> bool" where
  "ring nx pv h xs \<longleftrightarrow> distinct (h # xs) \<and> chain nx pv (h # xs @ [h])"

lemma chain_append:
  "chain nx pv (xs @ ys) \<longleftrightarrow> chain nx pv xs \<and> chain nx pv ys \<and>
     (xs \<noteq> [] \<longrightarrow> ys \<noteq> [] \<longrightarrow> nx (last xs) = Some (hd ys) \<and> pv (hd ys) = Some (last xs))"
proof (induction xs rule: induct_list012)
  case (2 x)
  then show ?case by (cases ys) auto
qed auto

lemma chain_cong:
  "(\<And>x. x \<in> set (butlast zs) \<Longrightarrow> nx' x = nx x) \<Longrightarrow> (\<And>x. x \<in> set (tl zs) \<Longrightarrow> pv' x = pv x)
   \<Longrightarrow> chain nx' pv' zs = chain nx pv zs"
proof (induction nx pv zs rule: chain.induct)
  case (1 nx pv x y zs)
  then have "chain nx' pv' (y # zs) = chain nx pv (y # zs)"
    by (cases zs) auto
  with 1 show ?case by auto
qed simp_all

lemma ring_append:
  "ring nx pv h (xs @ ys) \<longleftrightarrow> distinct (h # xs @ ys) \<and>
     chain nx pv (h # xs) \<and> chain nx pv (ys @ [h]) \<and>
     nx (last (h # xs)) = Some (hd (ys @ [h])) \<and> pv (hd (ys @ [h])) = Some (last (h # xs))"
  using chain_append [of nx pv "h # xs" "ys @ [h]"] by (auto simp: ring_def)

lemma ring_nil [simp]: "ring nx pv h [] \<longleftrightarrow> nx h = Some h \<and> pv h = Some h"
  by (auto simp: ring_def)

lemma ring_first: "ring nx pv h xs \<Longrightarrow> nx h = Some (hd (xs @ [h]))"
  using ring_append [of nx pv h "[]" xs] by simp

lemma ring_last: "ring nx pv h xs \<Longrightarrow> pv h = Some (last (h # xs))"
  using ring_append [of nx pv h xs "[]"] by simp

lemma ring_cong:
  assumes "\<And>x. x \<in> set (h # xs) \<Longrightarrow> nx' x = nx x \<and> pv' x = pv x"
  shows "ring nx' pv' h xs = ring nx pv h xs"
proof -
  have "chain nx' pv' (h # xs @ [h]) = chain nx pv (h # xs @ [h])"
    using assms by (intro chain_cong) (auto dest: in_set_butlastD)
  then show ?thesis by (simp add: ring_def)
qed

lemma ring_insert:
  assumes r: "ring nx pv h (xs @ ys)" and n: "n \<notin> set (h # xs @ ys)"
  shows "ring (nx(last (h # xs) := Some n, n := Some (hd (ys @ [h]))))
              (pv(n := Some (last (h # xs)), hd (ys @ [h]) := Some n)) h (xs @ n # ys)"
    (is "ring ?nx ?pv h _")
proof -
  let ?a = "last (h # xs)" and ?b = "hd (ys @ [h])"
  have d: "distinct (h # xs @ ys)" and c: "chain nx pv (h # xs)" "chain nx pv (ys @ [h])"
    using r by (auto simp: ring_append)
  have a: "?a \<in> set (h # xs)" by (rule last_in_set) simp
  have b: "?b \<in> set (h # ys)" by (cases ys) auto
  have ab: "?a \<notin> set (butlast (h # xs))"
    using d by (cases xs rule: rev_cases) auto
  have ay: "?a \<notin> set ys" using a d by auto
  have bt: "?b \<notin> set (tl (ys @ [h]))" "?b \<notin> set xs" using d by (cases ys; auto)+
  have "chain ?nx ?pv (h # xs) = chain nx pv (h # xs)"
    using ab bt n by (intro chain_cong) (auto dest: in_set_butlastD)
  moreover have "chain ?nx ?pv (ys @ [h]) = chain nx pv (ys @ [h])"
    using ay bt n by (intro chain_cong) (auto simp: butlast_append dest: in_set_butlastD list.set_sel(2) [rotated])
  moreover have "?nx ?a = Some n" "?nx n = Some ?b" "?pv n = Some ?a" "?pv ?b = Some n"
    using n a b by auto
  ultimately show ?thesis
    using d n c chain_append [of ?nx ?pv "h # xs" "n # ys @ [h]"]
      chain_append [of ?nx ?pv "[n]" "ys @ [h]"]
    by (auto simp: ring_def)
qed

lemma ring_delete:
  assumes r: "ring nx pv h (xs @ n # ys)"
  shows "ring (nx(last (h # xs) := Some (hd (ys @ [h])), n := Some n))
              (pv(hd (ys @ [h]) := Some (last (h # xs)), n := Some n)) h (xs @ ys)"
    (is "ring ?nx ?pv h _")
proof -
  let ?a = "last (h # xs)" and ?b = "hd (ys @ [h])"
  have d: "distinct (h # xs @ n # ys)"
    and c: "chain nx pv (h # xs)" "chain nx pv (n # ys @ [h])"
    using r ring_append [of nx pv h xs "n # ys"] by auto
  have c2: "chain nx pv (ys @ [h])"
    using c(2) by (cases "ys @ [h]") auto
  have a: "?a \<in> set (h # xs)" by (rule last_in_set) simp
  have b: "?b \<in> set (h # ys)" by (cases ys) auto
  have ab: "?a \<notin> set (butlast (h # xs))"
    using d by (cases xs rule: rev_cases) auto
  have ay: "?a \<notin> set ys" using a d by auto
  have bt: "?b \<notin> set (tl (ys @ [h]))" "?b \<notin> set xs" using d by (cases ys; auto)+
  have "chain ?nx ?pv (h # xs) = chain nx pv (h # xs)"
    using ab bt d by (intro chain_cong) (auto dest: in_set_butlastD)
  moreover have "chain ?nx ?pv (ys @ [h]) = chain nx pv (ys @ [h])"
    using ay bt d by (intro chain_cong) (auto simp: butlast_append dest: in_set_butlastD list.set_sel(2) [rotated])
  moreover have "?nx ?a = Some ?b" "?pv ?b = Some ?a"
    using d a b by auto
  ultimately show ?thesis
    using d c c2 ring_append [of ?nx ?pv h xs ys] by auto
qed

text \<open>The outcome of the operations, with the neighbours read off the store.\<close>

lemma rt_list_insert_before_eq:
  "prv s l = Some lp \<Longrightarrow> rt_list_insert_before l n s =
     Some (s\<lparr>nxt := (nxt s)(lp := Some n, n := Some l),
            prv := (prv s)(n := Some lp, l := Some n)\<rparr>)"
  by (simp add: rt_list_insert_before_def)

lemma rt_list_insert_after_eq:
  "nxt s l = Some ln \<Longrightarrow> rt_list_insert_after l n s =
     Some (s\<lparr>nxt := (nxt s)(n := Some ln, l := Some n),
            prv := (prv s)(ln := Some n, n := Some l)\<rparr>)"
  by (simp add: rt_list_insert_after_def)

lemma rt_list_remove_eq:
  "nxt s n = Some nn \<Longrightarrow> prv s n = Some np \<Longrightarrow> rt_list_remove n s =
     Some (s\<lparr>nxt := (nxt s)(np := Some nn, n := Some n),
            prv := (prv s)(nn := Some np, n := Some n)\<rparr>)"
  by (simp add: rt_list_remove_def fun_upd_idem)

lemma rt_list_insert_before_null: "prv s l = None \<Longrightarrow> rt_list_insert_before l n s = None"
  by (simp add: rt_list_insert_before_def)

lemma rt_list_insert_after_null: "nxt s l = None \<Longrightarrow> rt_list_insert_after l n s = None"
  by (simp add: rt_list_insert_after_def)

lemma rt_list_remove_null: "nxt s n = None \<Longrightarrow> rt_list_remove n s = None"
  by (simp add: rt_list_remove_def)

section \<open>All the rings of a store\<close>

text \<open>
  A layout names the heads of the store's rings and what each ring holds, in order. A node
  in no list is the head of an empty ring of its own, as \<open>rt_list_init\<close> and
  \<open>rt_list_remove\<close> leave it; an uninitialised node is in no ring at all.
\<close>

type_synonym 'n layout = "'n \<rightharpoonup> 'n list"

definition rings :: "('n \<Rightarrow> 'n option) \<Rightarrow> ('n \<Rightarrow> 'n option) \<Rightarrow> 'n layout \<Rightarrow> bool" where
  "rings nx pv L \<longleftrightarrow>
     (\<forall>h xs. L h = Some xs \<longrightarrow> ring nx pv h xs) \<and>
     (\<forall>h xs g ys. L h = Some xs \<longrightarrow> L g = Some ys \<longrightarrow> h \<noteq> g \<longrightarrow>
        set (h # xs) \<inter> set (g # ys) = {})"

text \<open>\<open>n\<close> is a node of some ring of the layout.\<close>

definition linked :: "'n layout \<Rightarrow> 'n \<Rightarrow> bool" where
  "linked L n \<longleftrightarrow> (\<exists>h xs. L h = Some xs \<and> n \<in> set (h # xs))"

text \<open>\<open>n\<close> is in no list: alone, or not initialised yet.\<close>

definition free_node :: "'n layout \<Rightarrow> 'n \<Rightarrow> bool" where
  "free_node L n \<longleftrightarrow> L n = Some [] \<or> \<not> linked L n"

lemma free_node_lone [simp]: "L n = Some [] \<Longrightarrow> free_node L n"
  by (simp add: free_node_def)

text \<open>Taking a node out of its list, and putting a lone node into one.\<close>

definition unlink :: "'n \<Rightarrow> 'n layout \<Rightarrow> 'n layout" where
  "unlink n L = (\<lambda>h. if h = n then Some [] else map_option (remove1 n) (L h))"

definition put_list :: "'n \<Rightarrow> 'n list \<Rightarrow> 'n \<Rightarrow> 'n layout \<Rightarrow> 'n layout" where
  "put_list h xs n L = L(h \<mapsto> xs, n := None)"

lemma ringsD: "rings nx pv L \<Longrightarrow> L h = Some xs \<Longrightarrow> ring nx pv h xs"
  by (simp add: rings_def)

lemma rings_distinct: "rings nx pv L \<Longrightarrow> L h = Some xs \<Longrightarrow> distinct (h # xs)"
  by (auto dest!: ringsD simp: ring_def)

lemma rings_disjoint:
  "rings nx pv L \<Longrightarrow> L h = Some xs \<Longrightarrow> L g = Some ys \<Longrightarrow> h \<noteq> g \<Longrightarrow>
     set (h # xs) \<inter> set (g # ys) = {}"
  by (simp only: rings_def) blast

lemma rings_unique:
  assumes "rings nx pv L" "L h = Some xs" "L g = Some ys" "n \<in> set (h # xs)" "n \<in> set (g # ys)"
  shows "h = g"
  using rings_disjoint [OF assms(1-3)] assms(4,5) by blast

lemma rings_member_not_head:
  "rings nx pv L \<Longrightarrow> L h = Some xs \<Longrightarrow> n \<in> set xs \<Longrightarrow> L n = None"
  using rings_unique [of nx pv L h xs n _ n] rings_distinct [of nx pv L h xs]
  by (cases "L n") auto

lemma rings_isempty:
  "rings (nxt s) (prv s) L \<Longrightarrow> L h = Some xs \<Longrightarrow> rt_list_isempty h s \<longleftrightarrow> xs = []"
  using ring_first [of "nxt s" "prv s" h xs] rings_distinct [of "nxt s" "prv s" L h xs]
  by (cases xs) (auto simp: rt_list_isempty_def dest: ringsD)

lemma rings_nxt:
  "rings nx pv L \<Longrightarrow> L h = Some xs \<Longrightarrow> nx h = Some (hd (xs @ [h]))"
  by (blast dest: ringsD ring_first)

lemma rings_prv:
  "rings nx pv L \<Longrightarrow> L h = Some xs \<Longrightarrow> pv h = Some (last (h # xs))"
  by (blast dest: ringsD ring_last)

text \<open>
  The general frame rule: the store differs only on \<open>D\<close>, and each ring of the new layout
  either avoids \<open>D\<close> and was there before, or lies in \<open>D\<close> and is a ring of the new store.
\<close>

lemma rings_update:
  assumes R: "rings nx pv L"
    and same: "\<And>x. x \<notin> D \<Longrightarrow> nx' x = nx x \<and> pv' x = pv x"
    and cases: "\<And>h xs. L' h = Some xs \<Longrightarrow>
      L h = Some xs \<and> set (h # xs) \<inter> D = {} \<or> ring nx' pv' h xs \<and> set (h # xs) \<subseteq> D"
    and disj: "\<And>h xs g ys. L' h = Some xs \<Longrightarrow> L' g = Some ys \<Longrightarrow> h \<noteq> g \<Longrightarrow>
      set (h # xs) \<subseteq> D \<Longrightarrow> set (g # ys) \<subseteq> D \<Longrightarrow> set (h # xs) \<inter> set (g # ys) = {}"
  shows "rings nx' pv' L'"
  unfolding rings_def
proof (intro conjI allI impI)
  fix h xs
  assume L': "L' h = Some xs"
  show "ring nx' pv' h xs"
    using cases [OF L']
  proof
    assume *: "L h = Some xs \<and> set (h # xs) \<inter> D = {}"
    then have "ring nx pv h xs" using R by (blast dest: ringsD)
    moreover have "ring nx' pv' h xs = ring nx pv h xs"
      using * by (intro ring_cong same) auto
    ultimately show ?thesis by simp
  qed simp
next
  fix h xs g ys
  assume h: "L' h = Some xs" and g: "L' g = Some ys" and "h \<noteq> g"
  show "set (h # xs) \<inter> set (g # ys) = {}"
    using cases [OF h] cases [OF g] rings_disjoint [OF R, of h xs g ys] disj [OF h g] \<open>h \<noteq> g\<close>
    by blast
qed

lemma free_node_notin:
  assumes "rings nx pv L" "free_node L n" "L g = Some zs" "g \<noteq> n"
  shows "n \<notin> set (g # zs)"
  using assms(2) unfolding free_node_def
proof
  assume "L n = Some []"
  then show ?thesis using rings_disjoint [OF assms(1,3), of n "[]"] assms(4) by auto
next
  assume "\<not> linked L n"
  then show ?thesis using assms(3) by (auto simp: linked_def)
qed

lemma free_node_linked:
  assumes "free_node L n" "linked L m" "m \<noteq> n"
  obtains g zs where "L g = Some zs" "m \<in> set (g # zs)" "g \<noteq> n"
proof -
  obtain g zs where g: "L g = Some zs" "m \<in> set (g # zs)" using assms(2) by (auto simp: linked_def)
  moreover have "g \<noteq> n"
    using assms(1) unfolding free_node_def
  proof
    assume "L n = Some []"
    then show ?thesis using g assms(3) by auto
  next
    assume "\<not> linked L n"
    then show ?thesis using g by (auto simp: linked_def)
  qed
  ultimately show ?thesis by (rule that)
qed

lemma rings_insert:
  assumes R: "rings nx pv L" and h: "L h = Some (xs @ ys)" and n: "free_node L n" and "h \<noteq> n"
  shows "rings (nx(last (h # xs) := Some n, n := Some (hd (ys @ [h]))))
               (pv(n := Some (last (h # xs)), hd (ys @ [h]) := Some n))
               (put_list h (xs @ n # ys) n L)"
    (is "rings ?nx ?pv ?L")
proof -
  let ?D = "set (h # xs @ ys) \<union> {n}"
  have nh: "n \<notin> set (h # xs @ ys)"
    using free_node_notin [OF R n h \<open>h \<noteq> n\<close>] by auto
  have ends: "last (h # xs) \<in> ?D" "hd (ys @ [h]) \<in> ?D"
    using last_in_set [of "h # xs"] by (auto simp: hd_append intro: hd_in_set)
  have new: "ring ?nx ?pv h (xs @ n # ys)"
    by (rule ring_insert [OF ringsD [OF R h] nh])
  have other: "L g = Some zs \<and> set (g # zs) \<inter> ?D = {}"
    if "?L g = Some zs" "g \<noteq> h" for g zs
    using that rings_disjoint [OF R _ h, of g zs] free_node_notin [OF R n, of g zs]
    by (auto simp: put_list_def split: if_splits)
  show ?thesis
  proof (rule rings_update [OF R, of ?D])
    show "?nx x = nx x \<and> ?pv x = pv x" if "x \<notin> ?D" for x using that ends by auto
    show "L g = Some zs \<and> set (g # zs) \<inter> ?D = {} \<or> ring ?nx ?pv g zs \<and> set (g # zs) \<subseteq> ?D"
      if "?L g = Some zs" for g zs
      using that other [OF that] new \<open>h \<noteq> n\<close> by (cases "g = h") (auto simp: put_list_def)
    show "set (g # zs) \<inter> set (k # us) = {}"
      if "?L g = Some zs" "?L k = Some us" "g \<noteq> k" "set (g # zs) \<subseteq> ?D" "set (k # us) \<subseteq> ?D"
      for g zs k us
      using other [OF that(1)] other [OF that(2)] that(3-5) by auto
  qed
qed

lemma rings_delete:
  assumes R: "rings nx pv L" and h: "L h = Some (xs @ n # ys)"
  shows "rings (nx(last (h # xs) := Some (hd (ys @ [h])), n := Some n))
               (pv(hd (ys @ [h]) := Some (last (h # xs)), n := Some n)) (unlink n L)"
    (is "rings ?nx ?pv ?L")
proof -
  let ?D = "set (h # xs @ n # ys)"
  have d: "distinct (h # xs @ n # ys)" using rings_distinct [OF R h] .
  have ends: "last (h # xs) \<in> ?D" "hd (ys @ [h]) \<in> ?D"
    using last_in_set [of "h # xs"] by (auto simp: hd_append intro: hd_in_set)
  have Lh: "?L h = Some (xs @ ys)" using d h by (auto simp: unlink_def remove1_append)
  have Ln: "?L n = Some []" by (simp add: unlink_def)
  have new: "ring ?nx ?pv h (xs @ ys)" "ring ?nx ?pv n []"
    using ring_delete [OF ringsD [OF R h]] by auto
  have other: "L g = Some zs \<and> set (g # zs) \<inter> ?D = {}"
    if g: "?L g = Some zs" "g \<noteq> h" "g \<noteq> n" for g zs
  proof -
    obtain us where us: "L g = Some us" "zs = remove1 n us" using g by (auto simp: unlink_def)
    then have "set (g # us) \<inter> ?D = {}" using rings_disjoint [OF R us(1) h] g by blast
    with us show ?thesis by auto
  qed
  show ?thesis
  proof (rule rings_update [OF R, of ?D])
    show "?nx x = nx x \<and> ?pv x = pv x" if "x \<notin> ?D" for x using that ends by auto
    show "L g = Some zs \<and> set (g # zs) \<inter> ?D = {} \<or> ring ?nx ?pv g zs \<and> set (g # zs) \<subseteq> ?D"
      if "?L g = Some zs" for g zs
      using that other [OF that] new Lh Ln by (cases "g = h \<or> g = n") auto
    show "set (g # zs) \<inter> set (k # us) = {}"
      if "?L g = Some zs" "?L k = Some us" "g \<noteq> k" "set (g # zs) \<subseteq> ?D" "set (k # us) \<subseteq> ?D"
      for g zs k us
    proof -
      have "{g, k} = {h, n}" using other [OF that(1)] other [OF that(2)] that(3-5) by auto
      then show ?thesis using that(1-3) d Lh Ln by (auto simp: doubleton_eq_iff)
    qed
  qed
qed

lemma unlink_same [simp]: "unlink n L n = Some []"
  by (simp add: unlink_def)

lemma unlink_other [simp]: "h \<noteq> n \<Longrightarrow> unlink n L h = map_option (remove1 n) (L h)"
  by (simp add: unlink_def)

lemma put_list_head [simp]: "h \<noteq> n \<Longrightarrow> put_list h xs n L h = Some xs"
  by (simp add: put_list_def)

lemma put_list_node [simp]: "put_list h xs n L n = None"
  by (simp add: put_list_def)

lemma put_list_other [simp]: "g \<noteq> h \<Longrightarrow> g \<noteq> n \<Longrightarrow> put_list h xs n L g = L g"
  by (simp add: put_list_def)

lemma linkedI: "L h = Some xs \<Longrightarrow> n \<in> set (h # xs) \<Longrightarrow> linked L n"
  unfolding linked_def by blast

lemma unlink_lone: "rings nx pv L \<Longrightarrow> L n = Some [] \<Longrightarrow> unlink n L = L"
proof
  fix h
  assume R: "rings nx pv L" and n: "L n = Some []"
  have "n \<notin> set xs" if "L h = Some xs" for xs
    using rings_member_not_head [OF R that, of n] n by auto
  then show "unlink n L h = L h"
    using n by (cases "L h") (auto simp: unlink_def)
qed

lemma linked_cases:
  assumes "linked L n" and "n \<in> dom L \<Longrightarrow> L n = Some []"
  obtains (lone) "L n = Some []" | (member) h xs ys where "L h = Some (xs @ n # ys)"
proof -
  from assms(1) obtain h zs where h: "L h = Some zs" "n \<in> set (h # zs)" by (auto simp: linked_def)
  show ?thesis
  proof (cases "n \<in> dom L")
    case True
    then show ?thesis using assms(2) lone by blast
  next
    case False
    then have "n \<in> set zs" using h by auto
    then show ?thesis using h(1) member by (metis in_set_conv_decomp)
  qed
qed

lemma linked_unlink:
  assumes "rings nx pv L" "linked L n" "n \<in> dom L \<longrightarrow> L n = Some []"
  shows "linked (unlink n L) m \<longleftrightarrow> linked L m"
proof -
  consider "L n = Some []" | h xs ys where "L h = Some (xs @ n # ys)"
    using linked_cases [OF assms(2)] assms(3) by metis
  then show ?thesis
  proof cases
    case 1
    then show ?thesis by (simp add: unlink_lone [OF assms(1)])
  next
    case (2 h xs ys)
    have "L n = None" using rings_member_not_head [OF assms(1) 2, of n] by simp
    then have keep: "g \<noteq> n" if "L g = Some zs" for g zs using that by auto
    have "linked (unlink n L) m" if "L g = Some zs" "m \<in> set (g # zs)" for g zs
    proof (cases "m = n")
      case True
      then show ?thesis by (intro linkedI [of _ n "[]"]) auto
    next
      case False
      then show ?thesis using that keep [OF that(1)]
        by (intro linkedI [of _ g "remove1 n zs"]) auto
    qed
    moreover have "linked L m" if "unlink n L g = Some zs" "m \<in> set (g # zs)" for g zs
    proof (cases "g = n")
      case True
      then show ?thesis using that 2 by (intro linkedI [of _ h]) auto
    next
      case False
      with that obtain us where "L g = Some us" "zs = remove1 n us" by auto
      then show ?thesis using that(2) by (intro linkedI [of _ g us]) (auto dest: notin_set_remove1 intro: ccontr)
    qed
    ultimately show ?thesis unfolding linked_def by blast
  qed
qed

lemma linked_put_list:
  assumes h: "L h = Some (xs @ ys)" and "h \<noteq> n" and n: "free_node L n"
  shows "linked (put_list h (xs @ n # ys) n L) m \<longleftrightarrow> linked L m \<or> m = n"
proof
  assume "linked (put_list h (xs @ n # ys) n L) m"
  then obtain g zs where g: "put_list h (xs @ n # ys) n L g = Some zs" "m \<in> set (g # zs)"
    by (auto simp: linked_def)
  then show "linked L m \<or> m = n"
    using linkedI [of L h "xs @ ys" m, OF h] linkedI [of L g zs m]
    by (cases "g = h") (auto simp: put_list_def split: if_splits)
next
  assume m: "linked L m \<or> m = n"
  show "linked (put_list h (xs @ n # ys) n L) m"
  proof (cases "m = n")
    case True
    then show ?thesis using \<open>h \<noteq> n\<close> by (intro linkedI [of _ h "xs @ n # ys"]) auto
  next
    case False
    with m have "linked L m" by simp
    then obtain g zs where "L g = Some zs" "m \<in> set (g # zs)" "g \<noteq> n"
      by (rule free_node_linked [OF n _ False])
    then show ?thesis using h \<open>h \<noteq> n\<close>
        linkedI [of "put_list h (xs @ n # ys) n L" h "xs @ n # ys" m]
        linkedI [of "put_list h (xs @ n # ys) n L" g zs m]
      by (cases "g = h") auto
  qed
qed

text \<open>Initialising a node that is in no list.\<close>

lemma rings_init:
  assumes R: "rings nx pv L" and n: "free_node L n"
  shows "rings (nx(n := Some n)) (pv(n := Some n)) (L(n \<mapsto> []))"
proof (rule rings_update [OF R, of "{n}"])
  show "L g = Some zs \<and> set (g # zs) \<inter> {n} = {} \<or>
      ring (nx(n := Some n)) (pv(n := Some n)) g zs \<and> set (g # zs) \<subseteq> {n}"
    if "(L(n \<mapsto> [])) g = Some zs" for g zs
    using that free_node_notin [OF R n, of g zs] by (cases "g = n") auto
qed auto

lemma linked_init:
  assumes "free_node L n"
  shows "linked (L(n \<mapsto> [])) m \<longleftrightarrow> linked L m \<or> m = n"
proof
  assume "linked (L(n \<mapsto> [])) m"
  then show "linked L m \<or> m = n" by (auto simp: linked_def split: if_splits)
next
  assume m: "linked L m \<or> m = n"
  show "linked (L(n \<mapsto> [])) m"
  proof (cases "m = n")
    case False
    with m have "linked L m" by simp
    then obtain g zs where "L g = Some zs" "m \<in> set (g # zs)" "g \<noteq> n"
      by (rule free_node_linked [OF assms _ False])
    then show ?thesis by (intro linkedI [of _ g zs]) auto
  qed (auto intro!: linkedI [of _ n "[]"])
qed

text \<open>A node that \<open>rt_list_remove\<close> may be given: in a list, or alone.\<close>

definition movable :: "'n layout \<Rightarrow> 'n \<Rightarrow> bool" where
  "movable L n \<longleftrightarrow> linked L n \<and> (n \<in> dom L \<longrightarrow> L n = Some [])"

lemma movable_lone: "L n = Some [] \<Longrightarrow> movable L n"
  by (auto simp: movable_def intro: linkedI)

lemma movable_member: "rings nx pv L \<Longrightarrow> L h = Some xs \<Longrightarrow> n \<in> set xs \<Longrightarrow> movable L n"
  using rings_member_not_head [of nx pv L h xs n] by (auto simp: movable_def intro: linkedI)

section \<open>The contract of the list operations\<close>

text \<open>
  What the kernel relies on: inserting a lone node before or after a position of a list, and
  removing a node from whatever list it is in, succeed, move exactly that node, and touch
  nothing but the links. The composed moves of the kernel follow from these laws alone.
\<close>

locale intrusive_list =
  fixes before :: "'n \<Rightarrow> 'n \<Rightarrow> 's \<Rightarrow> 's option"
    and after :: "'n \<Rightarrow> 'n \<Rightarrow> 's \<Rightarrow> 's option"
    and remove :: "'n \<Rightarrow> 's \<Rightarrow> 's option"
    and holds :: "'s \<Rightarrow> 'n layout \<Rightarrow> bool"
    and links_only :: "'s \<Rightarrow> 's \<Rightarrow> bool"
  assumes before_law: "holds s L \<Longrightarrow> L h = Some (xs @ ys) \<Longrightarrow> free_node L n \<Longrightarrow> h \<noteq> n \<Longrightarrow>
      \<exists>s'. before (hd (ys @ [h])) n s = Some s' \<and>
        holds s' (put_list h (xs @ n # ys) n L) \<and> links_only s s'"
    and after_law: "holds s L \<Longrightarrow> L h = Some (xs @ ys) \<Longrightarrow> free_node L n \<Longrightarrow> h \<noteq> n \<Longrightarrow>
      \<exists>s'. after (last (h # xs)) n s = Some s' \<and>
        holds s' (put_list h (xs @ n # ys) n L) \<and> links_only s s'"
    and remove_law: "holds s L \<Longrightarrow> movable L n \<Longrightarrow>
      \<exists>s'. remove n s = Some s' \<and> holds s' (unlink n L) \<and> links_only s s'"
    and frame_trans: "links_only s s' \<Longrightarrow> links_only s' s'' \<Longrightarrow> links_only s s''"
begin

lemma append_tail:
  assumes "holds s L" "L h = Some xs" "free_node L n" "h \<noteq> n"
  shows "\<exists>s'. before h n s = Some s' \<and> holds s' (put_list h (xs @ [n]) n L) \<and> links_only s s'"
  using before_law [of s L h xs "[]" n] assms by simp

lemma push_front:
  assumes "holds s L" "L h = Some xs" "free_node L n" "h \<noteq> n"
  shows "\<exists>s'. after h n s = Some s' \<and> holds s' (put_list h (n # xs) n L) \<and> links_only s s'"
  using after_law [of s L h "[]" xs n] assms by simp

lemma move_to_tail:
  assumes "holds s L" "movable L n" "L h = Some xs" "h \<noteq> n"
  shows "\<exists>s' s''. remove n s = Some s' \<and> before h n s' = Some s'' \<and>
    holds s'' (put_list h (remove1 n xs @ [n]) n (unlink n L)) \<and> links_only s s''"
proof -
  obtain s' where s': "remove n s = Some s'" "holds s' (unlink n L)" "links_only s s'"
    using remove_law [OF assms(1,2)] by blast
  moreover have "unlink n L h = Some (remove1 n xs)" using assms(3,4) by simp
  ultimately show ?thesis
    using append_tail [OF s'(2), of h "remove1 n xs" n] assms(4) frame_trans [OF s'(3)]
    by auto
qed

end

definition links_only :: "('n, 'z) lstore_scheme \<Rightarrow> ('n, 'z) lstore_scheme \<Rightarrow> bool" where
  "links_only s s' \<longleftrightarrow> lstore.more s' = lstore.more s"

lemma links_only_iff: "links_only s s' \<longleftrightarrow> (\<exists>nx pv. s' = s\<lparr>nxt := nx, prv := pv\<rparr>)"
  by (cases s; cases s') (auto simp: links_only_def)

definition holds_rings :: "('n, 'z) lstore_scheme \<Rightarrow> 'n layout \<Rightarrow> bool" where
  "holds_rings s L \<longleftrightarrow> rings (nxt s) (prv s) L"

lemma ring_neighbours:
  "ring nx pv h (xs @ ys) \<Longrightarrow>
     nx (last (h # xs)) = Some (hd (ys @ [h])) \<and> pv (hd (ys @ [h])) = Some (last (h # xs))"
  by (simp add: ring_append)

lemma rt_list_insert_before_rings:
  assumes "rings (nxt s) (prv s) L" "L h = Some (xs @ ys)" "free_node L n" "h \<noteq> n"
  shows "\<exists>nx pv. rt_list_insert_before (hd (ys @ [h])) n s = Some (s\<lparr>nxt := nx, prv := pv\<rparr>) \<and>
    rings nx pv (put_list h (xs @ n # ys) n L)"
  using rt_list_insert_before_eq [of s "hd (ys @ [h])" "last (h # xs)" n]
    ring_neighbours [OF ringsD [OF assms(1,2)]] rings_insert [OF assms] by blast

lemma rt_list_insert_after_rings:
  assumes "rings (nxt s) (prv s) L" "L h = Some (xs @ ys)" "free_node L n" "h \<noteq> n"
  shows "\<exists>nx pv. rt_list_insert_after (last (h # xs)) n s = Some (s\<lparr>nxt := nx, prv := pv\<rparr>) \<and>
    rings nx pv (put_list h (xs @ n # ys) n L)"
proof -
  let ?a = "last (h # xs)" and ?b = "hd (ys @ [h])"
  have "n \<notin> {?a, ?b}"
    using free_node_notin [OF assms(1,3,2,4)] last_in_set [of "h # xs"] by (cases ys) auto
  then have "(nxt s)(n := Some ?b, ?a := Some n) = (nxt s)(?a := Some n, n := Some ?b)"
    and "(prv s)(?b := Some n, n := Some ?a) = (prv s)(n := Some ?a, ?b := Some n)"
    by (auto intro: fun_upd_twist)
  then show ?thesis
    using rt_list_insert_after_eq [of s ?a ?b n] ring_neighbours [OF ringsD [OF assms(1,2)]]
      rings_insert [OF assms] by metis
qed

lemma rt_list_remove_rings:
  assumes R: "rings (nxt s) (prv s) L" and "movable L n"
  shows "\<exists>nx pv. rt_list_remove n s = Some (s\<lparr>nxt := nx, prv := pv\<rparr>) \<and>
    rings nx pv (unlink n L)"
proof -
  consider "L n = Some []" | h xs ys where "L h = Some (xs @ n # ys)"
    using assms(2) linked_cases [of L n] unfolding movable_def by metis
  then show ?thesis
  proof cases
    case 1
    then have *: "nxt s n = Some n" "prv s n = Some n" using ringsD [OF R 1] by auto
    then have "rt_list_remove n s = Some (s\<lparr>nxt := nxt s, prv := prv s\<rparr>)"
      by (simp add: rt_list_remove_eq fun_upd_idem)
    then show ?thesis using R unlink_lone [OF R 1] by metis
  next
    case (2 h xs ys)
    have "prv s n = Some (last (h # xs))" "nxt s n = Some (hd (ys @ [h]))"
      using ring_neighbours [OF ringsD [OF R], of h xs "n # ys"]
        ring_neighbours [OF ringsD [OF R], of h "xs @ [n]" ys] 2 by auto
    then show ?thesis using rings_delete [OF R 2] rt_list_remove_eq [of s n] by blast
  qed
qed

text \<open>The two uses the kernel makes of the insertions: at the tail and at the front.\<close>

lemma rt_list_append_rings:
  assumes "rings (nxt s) (prv s) L" "L h = Some xs" "free_node L n" "h \<noteq> n"
  shows "\<exists>nx pv. rt_list_insert_before h n s = Some (s\<lparr>nxt := nx, prv := pv\<rparr>) \<and>
    rings nx pv (put_list h (xs @ [n]) n L)"
  using rt_list_insert_before_rings [of s L h xs "[]" n] assms by simp

lemma rt_list_push_rings:
  assumes "rings (nxt s) (prv s) L" "L h = Some xs" "free_node L n" "h \<noteq> n"
  shows "\<exists>nx pv. rt_list_insert_after h n s = Some (s\<lparr>nxt := nx, prv := pv\<rparr>) \<and>
    rings nx pv (put_list h (n # xs) n L)"
  using rt_list_insert_after_rings [of s L h "[]" xs n] assms by simp

interpretation rt_list: intrusive_list rt_list_insert_before rt_list_insert_after rt_list_remove
  "holds_rings :: ('n, 'z) lstore_scheme \<Rightarrow> _" links_only
proof
  fix s :: "('n, 'z) lstore_scheme" and L h xs ys n
  assume *: "holds_rings s L" "L h = Some (xs @ ys)" "free_node L n" "h \<noteq> n"
  show "\<exists>s'. rt_list_insert_before (hd (ys @ [h])) n s = Some s' \<and>
        holds_rings s' (put_list h (xs @ n # ys) n L) \<and> links_only s s'"
    using rt_list_insert_before_rings [OF * [unfolded holds_rings_def]]
    by (auto simp: holds_rings_def links_only_def)
  show "\<exists>s'. rt_list_insert_after (last (h # xs)) n s = Some s' \<and>
        holds_rings s' (put_list h (xs @ n # ys) n L) \<and> links_only s s'"
    using rt_list_insert_after_rings [OF * [unfolded holds_rings_def]]
    by (auto simp: holds_rings_def links_only_def)
next
  fix s :: "('n, 'z) lstore_scheme" and L n
  assume *: "holds_rings s L" "movable L n"
  show "\<exists>s'. rt_list_remove n s = Some s' \<and> holds_rings s' (unlink n L) \<and> links_only s s'"
    using rt_list_remove_rings [OF * [unfolded holds_rings_def]]
    by (auto simp: holds_rings_def links_only_def)
next
  show "links_only s s' \<Longrightarrow> links_only s' s'' \<Longrightarrow> links_only s s''"
    for s s' s'' :: "('n, 'z) lstore_scheme"
    by (simp add: links_only_def)
qed

section \<open>The length loop\<close>

lemma rt_list_len_loop_ring:
  "ring (nxt s) (prv s) h (xs @ ys) \<Longrightarrow>
     rt_list_len_loop h (last (h # xs)) len s = Some (len + of_nat (length ys))"
proof (induction ys arbitrary: xs len)
  case Nil
  then show ?case using ring_neighbours [of "nxt s" "prv s" h xs "[]"]
    by (simp add: rt_list_len_loop.simps)
next
  case (Cons y ys)
  have "nxt s (last (h # xs)) = Some y" using ring_neighbours [OF Cons.prems] by simp
  moreover have "y \<noteq> h" using Cons.prems by (auto simp: ring_def)
  moreover have "rt_list_len_loop h y (len + 1) s = Some (len + 1 + of_nat (length ys))"
    using Cons.IH [of "xs @ [y]" "len + 1"] Cons.prems by simp
  ultimately show ?case
    by (subst rt_list_len_loop.simps) (simp del: last.simps)
qed

end
