(* ===== verification/Kernel_State.thy ===== *)
theory Kernel_State
  imports Rt_List
begin

text \<open>
  The data of the kernel: the structures of \<open>include/rtdef.h\<close>, the global variables of
  \<open>rtt_source/*.c\<close> and \<open>rtt_ports/cpuport.c\<close>, and the interrupt bookkeeping of
  \<open>rtt_source/irq.c\<close>.

  Threads, timers and semaphores are numbered. Every \<open>rt_list_t\<close> member of a structure
  and every global list head is a node: the address \<open>&thread->tlist\<close> is \<open>Tlist t\<close>, and
  \<open>rt_list_entry\<close> is the inverse of the constructor. A structure's scalar members are a
  record; its list members are in the store the record \<open>kernel\<close> extends. The first members
  of every structure are those of \<open>struct rt_object\<close>, through which the object functions
  see it; they are kept in \<open>objects\<close>.
\<close>

section \<open>Addresses\<close>

datatype timer_ref =
    Thread_Timer nat  \<comment> \<open>\<open>thread->thread_timer\<close>\<close>
  | Sys_Timer nat     \<comment> \<open>a \<open>struct rt_timer\<close> of its own\<close>

datatype obj_ref = Thread_Obj nat | Timer_Obj timer_ref | Sem_Obj nat

datatype node =
    Prio_Node nat       \<comment> \<open>\<open>rt_thread_priority_table[i]\<close>\<close>
  | Defunct_Node        \<comment> \<open>\<open>rt_thread_defunct\<close>\<close>
  | Timer_List_Node     \<comment> \<open>\<open>rt_timer_list[0]\<close>\<close>
  | Container_Node nat  \<comment> \<open>\<open>rt_object_container[c].object_list\<close>\<close>
  | Tlist nat           \<comment> \<open>\<open>thread->tlist\<close>\<close>
  | Row timer_ref       \<comment> \<open>\<open>timer->row[0]\<close>\<close>
  | Obj_List obj_ref    \<comment> \<open>\<open>object->list\<close>\<close>
  | Suspend nat         \<comment> \<open>\<open>sem->parent.suspend_thread\<close>\<close>

text \<open>\<open>rt_list_entry\<close> at the two types the kernel takes out of a list.\<close>

fun thread_entry_of :: "node \<Rightarrow> nat option" where
  "thread_entry_of (Tlist t) = Some t"
| "thread_entry_of _ = None"

fun timer_entry_of :: "node \<Rightarrow> timer_ref option" where
  "timer_entry_of (Row t) = Some t"
| "timer_entry_of _ = None"

text \<open>
  Which nodes a list may hold: a layout is well formed if ready lists, waiting lists and the
  defunct list hold threads, the timer list holds timers and a container holds objects. A
  node of a thread, timer or object holds nothing: it is in a list or alone.
\<close>

fun may_hold :: "node \<Rightarrow> node \<Rightarrow> bool" where
  "may_hold (Prio_Node _) (Tlist _) \<longleftrightarrow> True"
| "may_hold (Suspend _) (Tlist _) \<longleftrightarrow> True"
| "may_hold Defunct_Node (Tlist _) \<longleftrightarrow> True"
| "may_hold Timer_List_Node (Row _) \<longleftrightarrow> True"
| "may_hold (Container_Node _) (Obj_List _) \<longleftrightarrow> True"
| "may_hold _ _ \<longleftrightarrow> False"

definition wf_layout :: "node layout \<Rightarrow> bool" where
  "wf_layout L \<longleftrightarrow> (\<forall>h xs. L h = Some xs \<longrightarrow> (\<forall>x\<in>set xs. may_hold h x))"

definition leaf :: "node \<Rightarrow> bool" where
  "leaf n \<longleftrightarrow> (\<forall>x. \<not> may_hold n x)"

lemma leaf_simps [simp]:
  "leaf (Tlist t)" "leaf (Row r)" "leaf (Obj_List ob)"
  by (simp_all add: leaf_def)

lemma not_leaf_simps [simp]:
  "\<not> leaf (Prio_Node p)" "\<not> leaf (Suspend k)" "\<not> leaf Defunct_Node" "\<not> leaf Timer_List_Node"
  "\<not> leaf (Container_Node c)"
  unfolding leaf_def by (metis may_hold.simps(1-5))+

lemma wf_layout_leaf: "wf_layout L \<Longrightarrow> leaf n \<Longrightarrow> L n = Some xs \<Longrightarrow> xs = []"
  unfolding wf_layout_def leaf_def by (cases xs) (simp, metis list.set_intros(1))

lemma wf_layout_movable: "wf_layout L \<Longrightarrow> leaf n \<Longrightarrow> movable L n \<longleftrightarrow> linked L n"
  by (auto simp: movable_def dest: wf_layout_leaf)

lemma wf_layout_unlink: "wf_layout L \<Longrightarrow> wf_layout (unlink n L)"
  by (auto simp: wf_layout_def unlink_def split: if_splits dest: notin_set_remove1)

lemma wf_layout_put_list:
  "wf_layout L \<Longrightarrow> L h = Some (xs @ ys) \<Longrightarrow> may_hold h n \<Longrightarrow> wf_layout (put_list h (xs @ n # ys) n L)"
  by (auto simp: wf_layout_def put_list_def split: if_splits)

lemma wf_layoutD: "wf_layout L \<Longrightarrow> L h = Some xs \<Longrightarrow> x \<in> set xs \<Longrightarrow> may_hold h x"
  by (auto simp: wf_layout_def)

text \<open>The links of a kernel state form the rings of a well-formed layout.\<close>

definition lay :: "(node \<Rightarrow> node option) \<Rightarrow> (node \<Rightarrow> node option) \<Rightarrow> node layout \<Rightarrow> bool" where
  "lay nx pv L \<longleftrightarrow> rings nx pv L \<and> wf_layout L"

lemma lay_rings: "lay nx pv L \<Longrightarrow> rings nx pv L"
  by (simp add: lay_def)

lemma lay_wf: "lay nx pv L \<Longrightarrow> wf_layout L"
  by (simp add: lay_def)

lemma lay_remove:
  assumes "lay (nxt s) (prv s) L" "leaf n" "linked L n"
  shows "\<exists>nx pv. rt_list_remove n s = Some (s\<lparr>nxt := nx, prv := pv\<rparr>) \<and> lay nx pv (unlink n L)"
  using rt_list_remove_rings [of s L n] assms
  by (auto simp: lay_def wf_layout_movable wf_layout_unlink)

lemma lay_append:
  assumes "lay (nxt s) (prv s) L" "L h = Some xs" "free_node L n" "may_hold h n" "leaf n"
  shows "\<exists>nx pv. rt_list_insert_before h n s = Some (s\<lparr>nxt := nx, prv := pv\<rparr>) \<and>
    lay nx pv (put_list h (xs @ [n]) n L)"
proof -
  have "h \<noteq> n" using assms(4,5) by (auto simp: leaf_def)
  then show ?thesis
    using rt_list_append_rings [of s L h xs n] wf_layout_put_list [of L h xs "[]" n] assms
    by (auto simp: lay_def)
qed

lemma lay_insert_after:
  assumes "lay (nxt s) (prv s) L" "L h = Some (xs @ ys)" "free_node L n" "may_hold h n" "leaf n"
  shows "\<exists>nx pv. rt_list_insert_after (last (h # xs)) n s = Some (s\<lparr>nxt := nx, prv := pv\<rparr>) \<and>
    lay nx pv (put_list h (xs @ n # ys) n L)"
proof -
  have "h \<noteq> n" using assms(4,5) by (auto simp: leaf_def)
  then show ?thesis
    using rt_list_insert_after_rings [of s L h xs ys n] wf_layout_put_list [of L h xs ys n] assms
    by (auto simp: lay_def)
qed

lemma lay_insert_before:
  assumes "lay (nxt s) (prv s) L" "L h = Some (xs @ ys)" "free_node L n" "may_hold h n" "leaf n"
  shows "\<exists>nx pv. rt_list_insert_before (hd (ys @ [h])) n s = Some (s\<lparr>nxt := nx, prv := pv\<rparr>) \<and>
    lay nx pv (put_list h (xs @ n # ys) n L)"
proof -
  have "h \<noteq> n" using assms(4,5) by (auto simp: leaf_def)
  then show ?thesis
    using rt_list_insert_before_rings [of s L h xs ys n] wf_layout_put_list [of L h xs ys n] assms
    by (auto simp: lay_def)
qed

lemma lay_init:
  "lay nx pv L \<Longrightarrow> free_node L n \<Longrightarrow> lay (nx(n := Some n)) (pv(n := Some n)) (L(n \<mapsto> []))"
  using rings_init [of nx pv L n] by (auto simp: lay_def wf_layout_def)

lemma rt_list_init_eq:
  "rt_list_init n s = s\<lparr>nxt := (nxt s)(n := Some n), prv := (prv s)(n := Some n)\<rparr>"
  by (simp add: rt_list_init_def)

lemma linked_unlink_leaf:
  "lay nx pv L \<Longrightarrow> leaf n \<Longrightarrow> linked L n \<Longrightarrow> linked (unlink n L) m \<longleftrightarrow> linked L m"
  by (intro linked_unlink [where nx = nx and pv = pv]) (auto simp: lay_def dest: wf_layout_leaf)

lemma lay_nxt: "lay nx pv L \<Longrightarrow> L h = Some xs \<Longrightarrow> nx h = Some (hd (xs @ [h]))"
  by (auto simp: lay_def dest: rings_nxt)

lemma lay_isempty:
  "lay (nxt s) (prv s) L \<Longrightarrow> L h = Some xs \<Longrightarrow> rt_list_isempty h s \<longleftrightarrow> xs = []"
  by (auto simp: lay_def dest: rings_isempty)

lemma lay_unique:
  "lay nx pv L \<Longrightarrow> L h = Some xs \<Longrightarrow> L g = Some ys \<Longrightarrow> n \<in> set (h # xs) \<Longrightarrow> n \<in> set (g # ys) \<Longrightarrow> h = g"
  by (rule rings_unique [OF lay_rings])

lemma lay_distinct: "lay nx pv L \<Longrightarrow> L h = Some xs \<Longrightarrow> distinct (h # xs)"
  by (rule rings_distinct [OF lay_rings])

lemma lay_holds: "lay nx pv L \<Longrightarrow> L h = Some xs \<Longrightarrow> x \<in> set xs \<Longrightarrow> may_hold h x"
  by (auto simp: lay_def wf_layout_def)

section \<open>Structures\<close>

text \<open>Function pointers and \<open>void *\<close> arguments of timers.\<close>

datatype timeout_fn = Fn_rt_thread_timeout | Fn_user nat

datatype void_ptr = Null_Ptr | Thread_Ptr nat | Int_Ptr u32

record rt_object =
  ob_name :: "u8 list"
  ob_type :: u8
  ob_flag :: u8

record rt_object_information =
  oi_type :: u8
  oi_size :: u32

record rt_timer =
  tm_timeout_func :: timeout_fn
  tm_parameter :: void_ptr
  tm_init_tick :: u32
  tm_timeout_tick :: u32

record rt_semaphore =
  sem_value :: u16
  sem_reserved :: u16

record rt_thread =
  th_sp :: u32
  th_entry :: u32
  th_parameter :: u32
  th_stack_addr :: u32
  th_stack_size :: u32
  th_init_tick :: u32
  th_remaining_tick :: u32
  th_cleanup :: u32
  th_current_priority :: u8
  th_init_priority :: u8
  th_number_mask :: u32
  th_error :: rt_err
  th_stat :: u8

record thread_info =
  ti_delayticks :: u32
  ti_prio :: u32
  ti_state :: u32
  ti_left_ticks :: u32

section \<open>Constants\<close>

abbreviation (input) RT_THREAD_PRIORITY_MAX :: nat where "RT_THREAD_PRIORITY_MAX \<equiv> 32"
abbreviation (input) RT_NAME_MAX :: nat where "RT_NAME_MAX \<equiv> 8"

abbreviation (input) RT_THREAD_INIT :: u8 where "RT_THREAD_INIT \<equiv> 0"
abbreviation (input) RT_THREAD_READY :: u8 where "RT_THREAD_READY \<equiv> 1"
abbreviation (input) RT_THREAD_SUSPEND :: u8 where "RT_THREAD_SUSPEND \<equiv> 2"
abbreviation (input) RT_THREAD_CLOSE :: u8 where "RT_THREAD_CLOSE \<equiv> 4"
abbreviation (input) RT_THREAD_STAT_MASK :: u8 where "RT_THREAD_STAT_MASK \<equiv> 0x0f"

abbreviation (input) RT_Object_Class_Thread :: u8 where "RT_Object_Class_Thread \<equiv> 0"
abbreviation (input) RT_Object_Class_Semaphore :: u8 where "RT_Object_Class_Semaphore \<equiv> 1"
abbreviation (input) RT_Object_Class_Mutex :: u8 where "RT_Object_Class_Mutex \<equiv> 2"
abbreviation (input) RT_Object_Class_Event :: u8 where "RT_Object_Class_Event \<equiv> 3"
abbreviation (input) RT_Object_Class_MailBox :: u8 where "RT_Object_Class_MailBox \<equiv> 4"
abbreviation (input) RT_Object_Class_MessageQueue :: u8 where "RT_Object_Class_MessageQueue \<equiv> 5"
abbreviation (input) RT_Object_Class_Timer :: u8 where "RT_Object_Class_Timer \<equiv> 9"
abbreviation (input) RT_Object_Class_Static :: u8 where "RT_Object_Class_Static \<equiv> 0x80"

abbreviation (input) RT_IPC_FLAG_FIFO :: u8 where "RT_IPC_FLAG_FIFO \<equiv> 0"
abbreviation (input) RT_IPC_FLAG_PRIO :: u8 where "RT_IPC_FLAG_PRIO \<equiv> 1"
abbreviation (input) RT_IPC_CMD_RESET :: u32 where "RT_IPC_CMD_RESET \<equiv> 1"

abbreviation (input) RT_TIMER_FLAG_ACTIVATED :: u8 where "RT_TIMER_FLAG_ACTIVATED \<equiv> 1"
abbreviation (input) RT_TIMER_FLAG_ONE_SHOT :: u8 where "RT_TIMER_FLAG_ONE_SHOT \<equiv> 0"
abbreviation (input) RT_TIMER_FLAG_PERIODIC :: u8 where "RT_TIMER_FLAG_PERIODIC \<equiv> 2"
abbreviation (input) RT_TIMER_CTRL_SET_TIME :: u32 where "RT_TIMER_CTRL_SET_TIME \<equiv> 0"
abbreviation (input) RT_TIMER_CTRL_GET_TIME :: u32 where "RT_TIMER_CTRL_GET_TIME \<equiv> 1"
abbreviation (input) RT_TIMER_CTRL_SET_ONESHOT :: u32 where "RT_TIMER_CTRL_SET_ONESHOT \<equiv> 2"
abbreviation (input) RT_TIMER_CTRL_SET_PERIODIC :: u32 where "RT_TIMER_CTRL_SET_PERIODIC \<equiv> 3"

text \<open>\<open>RT_TICK_MAX / 2\<close>, an unsigned division\<close>

abbreviation (input) RT_TICK_HALF :: u32 where "RT_TICK_HALF \<equiv> 0x7fffffff"

section \<open>The state\<close>

record kernel = "node lstore" +
  objects :: "obj_ref \<Rightarrow> rt_object"
  threads :: "nat \<Rightarrow> rt_thread"
  timers :: "timer_ref \<Rightarrow> rt_timer"
  semaphores :: "nat \<Rightarrow> rt_semaphore"
  rt_object_container :: "rt_object_information list"
  rt_current_thread :: "nat option"
  rt_thread_ready_priority_group :: u32
  rt_current_priority :: u8
  rt_scheduler_lock_nest :: u16
  rt_tick :: u32
  random_nr :: u32
  rt_interrupt_nest :: u8
  rt_interrupt_from_thread :: "nat option"
  rt_interrupt_to_thread :: "nat option"
  rt_thread_switch_interrupt_flag :: u32
  rt_idletask_ctr :: u32
  memory :: "u32 \<Rightarrow> u32"
  primask :: bool
  pendsv :: bool
  psp :: u32
  r4_r11 :: "u32 list"

abbreviation upd_thread :: "nat \<Rightarrow> (rt_thread \<Rightarrow> rt_thread) \<Rightarrow> kernel \<Rightarrow> kernel" where
  "upd_thread t f s \<equiv> s\<lparr>threads := (threads s)(t := f (threads s t))\<rparr>"

abbreviation upd_timer :: "timer_ref \<Rightarrow> (rt_timer \<Rightarrow> rt_timer) \<Rightarrow> kernel \<Rightarrow> kernel" where
  "upd_timer r f s \<equiv> s\<lparr>timers := (timers s)(r := f (timers s r))\<rparr>"

abbreviation upd_object :: "obj_ref \<Rightarrow> (rt_object \<Rightarrow> rt_object) \<Rightarrow> kernel \<Rightarrow> kernel" where
  "upd_object ob f s \<equiv> s\<lparr>objects := (objects s)(ob := f (objects s ob))\<rparr>"

abbreviation upd_sem :: "nat \<Rightarrow> (rt_semaphore \<Rightarrow> rt_semaphore) \<Rightarrow> kernel \<Rightarrow> kernel" where
  "upd_sem k f s \<equiv> s\<lparr>semaphores := (semaphores s)(k := f (semaphores s k))\<rparr>"

text \<open>
  A normal form of updated states: the updates in the order of the fields. It lets the
  simplifier see that two ways through the code reach the same state.
\<close>

lemma kernel_update_order [simp]:
  fixes s :: kernel
  shows
  "nxt_update f0 (prv_update f1 s) = prv_update f1 (nxt_update f0 s)"
  "nxt_update f0 (objects_update f2 s) = objects_update f2 (nxt_update f0 s)"
  "nxt_update f0 (threads_update f3 s) = threads_update f3 (nxt_update f0 s)"
  "nxt_update f0 (timers_update f4 s) = timers_update f4 (nxt_update f0 s)"
  "nxt_update f0 (semaphores_update f5 s) = semaphores_update f5 (nxt_update f0 s)"
  "nxt_update f0 (rt_current_thread_update f6 s) = rt_current_thread_update f6 (nxt_update f0 s)"
  "nxt_update f0 (rt_thread_ready_priority_group_update f7 s) = rt_thread_ready_priority_group_update f7 (nxt_update f0 s)"
  "nxt_update f0 (rt_current_priority_update f8 s) = rt_current_priority_update f8 (nxt_update f0 s)"
  "nxt_update f0 (rt_scheduler_lock_nest_update f9 s) = rt_scheduler_lock_nest_update f9 (nxt_update f0 s)"
  "nxt_update f0 (rt_tick_update f10 s) = rt_tick_update f10 (nxt_update f0 s)"
  "nxt_update f0 (random_nr_update f11 s) = random_nr_update f11 (nxt_update f0 s)"
  "nxt_update f0 (rt_interrupt_from_thread_update f12 s) = rt_interrupt_from_thread_update f12 (nxt_update f0 s)"
  "nxt_update f0 (rt_interrupt_to_thread_update f13 s) = rt_interrupt_to_thread_update f13 (nxt_update f0 s)"
  "nxt_update f0 (rt_thread_switch_interrupt_flag_update f14 s) = rt_thread_switch_interrupt_flag_update f14 (nxt_update f0 s)"
  "nxt_update f0 (memory_update f15 s) = memory_update f15 (nxt_update f0 s)"
  "nxt_update f0 (primask_update f16 s) = primask_update f16 (nxt_update f0 s)"
  "nxt_update f0 (pendsv_update f17 s) = pendsv_update f17 (nxt_update f0 s)"
  "prv_update f1 (objects_update f2 s) = objects_update f2 (prv_update f1 s)"
  "prv_update f1 (threads_update f3 s) = threads_update f3 (prv_update f1 s)"
  "prv_update f1 (timers_update f4 s) = timers_update f4 (prv_update f1 s)"
  "prv_update f1 (semaphores_update f5 s) = semaphores_update f5 (prv_update f1 s)"
  "prv_update f1 (rt_current_thread_update f6 s) = rt_current_thread_update f6 (prv_update f1 s)"
  "prv_update f1 (rt_thread_ready_priority_group_update f7 s) = rt_thread_ready_priority_group_update f7 (prv_update f1 s)"
  "prv_update f1 (rt_current_priority_update f8 s) = rt_current_priority_update f8 (prv_update f1 s)"
  "prv_update f1 (rt_scheduler_lock_nest_update f9 s) = rt_scheduler_lock_nest_update f9 (prv_update f1 s)"
  "prv_update f1 (rt_tick_update f10 s) = rt_tick_update f10 (prv_update f1 s)"
  "prv_update f1 (random_nr_update f11 s) = random_nr_update f11 (prv_update f1 s)"
  "prv_update f1 (rt_interrupt_from_thread_update f12 s) = rt_interrupt_from_thread_update f12 (prv_update f1 s)"
  "prv_update f1 (rt_interrupt_to_thread_update f13 s) = rt_interrupt_to_thread_update f13 (prv_update f1 s)"
  "prv_update f1 (rt_thread_switch_interrupt_flag_update f14 s) = rt_thread_switch_interrupt_flag_update f14 (prv_update f1 s)"
  "prv_update f1 (memory_update f15 s) = memory_update f15 (prv_update f1 s)"
  "prv_update f1 (primask_update f16 s) = primask_update f16 (prv_update f1 s)"
  "prv_update f1 (pendsv_update f17 s) = pendsv_update f17 (prv_update f1 s)"
  "objects_update f2 (threads_update f3 s) = threads_update f3 (objects_update f2 s)"
  "objects_update f2 (timers_update f4 s) = timers_update f4 (objects_update f2 s)"
  "objects_update f2 (semaphores_update f5 s) = semaphores_update f5 (objects_update f2 s)"
  "objects_update f2 (rt_current_thread_update f6 s) = rt_current_thread_update f6 (objects_update f2 s)"
  "objects_update f2 (rt_thread_ready_priority_group_update f7 s) = rt_thread_ready_priority_group_update f7 (objects_update f2 s)"
  "objects_update f2 (rt_current_priority_update f8 s) = rt_current_priority_update f8 (objects_update f2 s)"
  "objects_update f2 (rt_scheduler_lock_nest_update f9 s) = rt_scheduler_lock_nest_update f9 (objects_update f2 s)"
  "objects_update f2 (rt_tick_update f10 s) = rt_tick_update f10 (objects_update f2 s)"
  "objects_update f2 (random_nr_update f11 s) = random_nr_update f11 (objects_update f2 s)"
  "objects_update f2 (rt_interrupt_from_thread_update f12 s) = rt_interrupt_from_thread_update f12 (objects_update f2 s)"
  "objects_update f2 (rt_interrupt_to_thread_update f13 s) = rt_interrupt_to_thread_update f13 (objects_update f2 s)"
  "objects_update f2 (rt_thread_switch_interrupt_flag_update f14 s) = rt_thread_switch_interrupt_flag_update f14 (objects_update f2 s)"
  "objects_update f2 (memory_update f15 s) = memory_update f15 (objects_update f2 s)"
  "objects_update f2 (primask_update f16 s) = primask_update f16 (objects_update f2 s)"
  "objects_update f2 (pendsv_update f17 s) = pendsv_update f17 (objects_update f2 s)"
  "threads_update f3 (timers_update f4 s) = timers_update f4 (threads_update f3 s)"
  "threads_update f3 (semaphores_update f5 s) = semaphores_update f5 (threads_update f3 s)"
  "threads_update f3 (rt_current_thread_update f6 s) = rt_current_thread_update f6 (threads_update f3 s)"
  "threads_update f3 (rt_thread_ready_priority_group_update f7 s) = rt_thread_ready_priority_group_update f7 (threads_update f3 s)"
  "threads_update f3 (rt_current_priority_update f8 s) = rt_current_priority_update f8 (threads_update f3 s)"
  "threads_update f3 (rt_scheduler_lock_nest_update f9 s) = rt_scheduler_lock_nest_update f9 (threads_update f3 s)"
  "threads_update f3 (rt_tick_update f10 s) = rt_tick_update f10 (threads_update f3 s)"
  "threads_update f3 (random_nr_update f11 s) = random_nr_update f11 (threads_update f3 s)"
  "threads_update f3 (rt_interrupt_from_thread_update f12 s) = rt_interrupt_from_thread_update f12 (threads_update f3 s)"
  "threads_update f3 (rt_interrupt_to_thread_update f13 s) = rt_interrupt_to_thread_update f13 (threads_update f3 s)"
  "threads_update f3 (rt_thread_switch_interrupt_flag_update f14 s) = rt_thread_switch_interrupt_flag_update f14 (threads_update f3 s)"
  "threads_update f3 (memory_update f15 s) = memory_update f15 (threads_update f3 s)"
  "threads_update f3 (primask_update f16 s) = primask_update f16 (threads_update f3 s)"
  "threads_update f3 (pendsv_update f17 s) = pendsv_update f17 (threads_update f3 s)"
  "timers_update f4 (semaphores_update f5 s) = semaphores_update f5 (timers_update f4 s)"
  "timers_update f4 (rt_current_thread_update f6 s) = rt_current_thread_update f6 (timers_update f4 s)"
  "timers_update f4 (rt_thread_ready_priority_group_update f7 s) = rt_thread_ready_priority_group_update f7 (timers_update f4 s)"
  "timers_update f4 (rt_current_priority_update f8 s) = rt_current_priority_update f8 (timers_update f4 s)"
  "timers_update f4 (rt_scheduler_lock_nest_update f9 s) = rt_scheduler_lock_nest_update f9 (timers_update f4 s)"
  "timers_update f4 (rt_tick_update f10 s) = rt_tick_update f10 (timers_update f4 s)"
  "timers_update f4 (random_nr_update f11 s) = random_nr_update f11 (timers_update f4 s)"
  "timers_update f4 (rt_interrupt_from_thread_update f12 s) = rt_interrupt_from_thread_update f12 (timers_update f4 s)"
  "timers_update f4 (rt_interrupt_to_thread_update f13 s) = rt_interrupt_to_thread_update f13 (timers_update f4 s)"
  "timers_update f4 (rt_thread_switch_interrupt_flag_update f14 s) = rt_thread_switch_interrupt_flag_update f14 (timers_update f4 s)"
  "timers_update f4 (memory_update f15 s) = memory_update f15 (timers_update f4 s)"
  "timers_update f4 (primask_update f16 s) = primask_update f16 (timers_update f4 s)"
  "timers_update f4 (pendsv_update f17 s) = pendsv_update f17 (timers_update f4 s)"
  "semaphores_update f5 (rt_current_thread_update f6 s) = rt_current_thread_update f6 (semaphores_update f5 s)"
  "semaphores_update f5 (rt_thread_ready_priority_group_update f7 s) = rt_thread_ready_priority_group_update f7 (semaphores_update f5 s)"
  "semaphores_update f5 (rt_current_priority_update f8 s) = rt_current_priority_update f8 (semaphores_update f5 s)"
  "semaphores_update f5 (rt_scheduler_lock_nest_update f9 s) = rt_scheduler_lock_nest_update f9 (semaphores_update f5 s)"
  "semaphores_update f5 (rt_tick_update f10 s) = rt_tick_update f10 (semaphores_update f5 s)"
  "semaphores_update f5 (random_nr_update f11 s) = random_nr_update f11 (semaphores_update f5 s)"
  "semaphores_update f5 (rt_interrupt_from_thread_update f12 s) = rt_interrupt_from_thread_update f12 (semaphores_update f5 s)"
  "semaphores_update f5 (rt_interrupt_to_thread_update f13 s) = rt_interrupt_to_thread_update f13 (semaphores_update f5 s)"
  "semaphores_update f5 (rt_thread_switch_interrupt_flag_update f14 s) = rt_thread_switch_interrupt_flag_update f14 (semaphores_update f5 s)"
  "semaphores_update f5 (memory_update f15 s) = memory_update f15 (semaphores_update f5 s)"
  "semaphores_update f5 (primask_update f16 s) = primask_update f16 (semaphores_update f5 s)"
  "semaphores_update f5 (pendsv_update f17 s) = pendsv_update f17 (semaphores_update f5 s)"
  "rt_current_thread_update f6 (rt_thread_ready_priority_group_update f7 s) = rt_thread_ready_priority_group_update f7 (rt_current_thread_update f6 s)"
  "rt_current_thread_update f6 (rt_current_priority_update f8 s) = rt_current_priority_update f8 (rt_current_thread_update f6 s)"
  "rt_current_thread_update f6 (rt_scheduler_lock_nest_update f9 s) = rt_scheduler_lock_nest_update f9 (rt_current_thread_update f6 s)"
  "rt_current_thread_update f6 (rt_tick_update f10 s) = rt_tick_update f10 (rt_current_thread_update f6 s)"
  "rt_current_thread_update f6 (random_nr_update f11 s) = random_nr_update f11 (rt_current_thread_update f6 s)"
  "rt_current_thread_update f6 (rt_interrupt_from_thread_update f12 s) = rt_interrupt_from_thread_update f12 (rt_current_thread_update f6 s)"
  "rt_current_thread_update f6 (rt_interrupt_to_thread_update f13 s) = rt_interrupt_to_thread_update f13 (rt_current_thread_update f6 s)"
  "rt_current_thread_update f6 (rt_thread_switch_interrupt_flag_update f14 s) = rt_thread_switch_interrupt_flag_update f14 (rt_current_thread_update f6 s)"
  "rt_current_thread_update f6 (memory_update f15 s) = memory_update f15 (rt_current_thread_update f6 s)"
  "rt_current_thread_update f6 (primask_update f16 s) = primask_update f16 (rt_current_thread_update f6 s)"
  "rt_current_thread_update f6 (pendsv_update f17 s) = pendsv_update f17 (rt_current_thread_update f6 s)"
  "rt_thread_ready_priority_group_update f7 (rt_current_priority_update f8 s) = rt_current_priority_update f8 (rt_thread_ready_priority_group_update f7 s)"
  "rt_thread_ready_priority_group_update f7 (rt_scheduler_lock_nest_update f9 s) = rt_scheduler_lock_nest_update f9 (rt_thread_ready_priority_group_update f7 s)"
  "rt_thread_ready_priority_group_update f7 (rt_tick_update f10 s) = rt_tick_update f10 (rt_thread_ready_priority_group_update f7 s)"
  "rt_thread_ready_priority_group_update f7 (random_nr_update f11 s) = random_nr_update f11 (rt_thread_ready_priority_group_update f7 s)"
  "rt_thread_ready_priority_group_update f7 (rt_interrupt_from_thread_update f12 s) = rt_interrupt_from_thread_update f12 (rt_thread_ready_priority_group_update f7 s)"
  "rt_thread_ready_priority_group_update f7 (rt_interrupt_to_thread_update f13 s) = rt_interrupt_to_thread_update f13 (rt_thread_ready_priority_group_update f7 s)"
  "rt_thread_ready_priority_group_update f7 (rt_thread_switch_interrupt_flag_update f14 s) = rt_thread_switch_interrupt_flag_update f14 (rt_thread_ready_priority_group_update f7 s)"
  "rt_thread_ready_priority_group_update f7 (memory_update f15 s) = memory_update f15 (rt_thread_ready_priority_group_update f7 s)"
  "rt_thread_ready_priority_group_update f7 (primask_update f16 s) = primask_update f16 (rt_thread_ready_priority_group_update f7 s)"
  "rt_thread_ready_priority_group_update f7 (pendsv_update f17 s) = pendsv_update f17 (rt_thread_ready_priority_group_update f7 s)"
  "rt_current_priority_update f8 (rt_scheduler_lock_nest_update f9 s) = rt_scheduler_lock_nest_update f9 (rt_current_priority_update f8 s)"
  "rt_current_priority_update f8 (rt_tick_update f10 s) = rt_tick_update f10 (rt_current_priority_update f8 s)"
  "rt_current_priority_update f8 (random_nr_update f11 s) = random_nr_update f11 (rt_current_priority_update f8 s)"
  "rt_current_priority_update f8 (rt_interrupt_from_thread_update f12 s) = rt_interrupt_from_thread_update f12 (rt_current_priority_update f8 s)"
  "rt_current_priority_update f8 (rt_interrupt_to_thread_update f13 s) = rt_interrupt_to_thread_update f13 (rt_current_priority_update f8 s)"
  "rt_current_priority_update f8 (rt_thread_switch_interrupt_flag_update f14 s) = rt_thread_switch_interrupt_flag_update f14 (rt_current_priority_update f8 s)"
  "rt_current_priority_update f8 (memory_update f15 s) = memory_update f15 (rt_current_priority_update f8 s)"
  "rt_current_priority_update f8 (primask_update f16 s) = primask_update f16 (rt_current_priority_update f8 s)"
  "rt_current_priority_update f8 (pendsv_update f17 s) = pendsv_update f17 (rt_current_priority_update f8 s)"
  "rt_scheduler_lock_nest_update f9 (rt_tick_update f10 s) = rt_tick_update f10 (rt_scheduler_lock_nest_update f9 s)"
  "rt_scheduler_lock_nest_update f9 (random_nr_update f11 s) = random_nr_update f11 (rt_scheduler_lock_nest_update f9 s)"
  "rt_scheduler_lock_nest_update f9 (rt_interrupt_from_thread_update f12 s) = rt_interrupt_from_thread_update f12 (rt_scheduler_lock_nest_update f9 s)"
  "rt_scheduler_lock_nest_update f9 (rt_interrupt_to_thread_update f13 s) = rt_interrupt_to_thread_update f13 (rt_scheduler_lock_nest_update f9 s)"
  "rt_scheduler_lock_nest_update f9 (rt_thread_switch_interrupt_flag_update f14 s) = rt_thread_switch_interrupt_flag_update f14 (rt_scheduler_lock_nest_update f9 s)"
  "rt_scheduler_lock_nest_update f9 (memory_update f15 s) = memory_update f15 (rt_scheduler_lock_nest_update f9 s)"
  "rt_scheduler_lock_nest_update f9 (primask_update f16 s) = primask_update f16 (rt_scheduler_lock_nest_update f9 s)"
  "rt_scheduler_lock_nest_update f9 (pendsv_update f17 s) = pendsv_update f17 (rt_scheduler_lock_nest_update f9 s)"
  "rt_tick_update f10 (random_nr_update f11 s) = random_nr_update f11 (rt_tick_update f10 s)"
  "rt_tick_update f10 (rt_interrupt_from_thread_update f12 s) = rt_interrupt_from_thread_update f12 (rt_tick_update f10 s)"
  "rt_tick_update f10 (rt_interrupt_to_thread_update f13 s) = rt_interrupt_to_thread_update f13 (rt_tick_update f10 s)"
  "rt_tick_update f10 (rt_thread_switch_interrupt_flag_update f14 s) = rt_thread_switch_interrupt_flag_update f14 (rt_tick_update f10 s)"
  "rt_tick_update f10 (memory_update f15 s) = memory_update f15 (rt_tick_update f10 s)"
  "rt_tick_update f10 (primask_update f16 s) = primask_update f16 (rt_tick_update f10 s)"
  "rt_tick_update f10 (pendsv_update f17 s) = pendsv_update f17 (rt_tick_update f10 s)"
  "random_nr_update f11 (rt_interrupt_from_thread_update f12 s) = rt_interrupt_from_thread_update f12 (random_nr_update f11 s)"
  "random_nr_update f11 (rt_interrupt_to_thread_update f13 s) = rt_interrupt_to_thread_update f13 (random_nr_update f11 s)"
  "random_nr_update f11 (rt_thread_switch_interrupt_flag_update f14 s) = rt_thread_switch_interrupt_flag_update f14 (random_nr_update f11 s)"
  "random_nr_update f11 (memory_update f15 s) = memory_update f15 (random_nr_update f11 s)"
  "random_nr_update f11 (primask_update f16 s) = primask_update f16 (random_nr_update f11 s)"
  "random_nr_update f11 (pendsv_update f17 s) = pendsv_update f17 (random_nr_update f11 s)"
  "rt_interrupt_from_thread_update f12 (rt_interrupt_to_thread_update f13 s) = rt_interrupt_to_thread_update f13 (rt_interrupt_from_thread_update f12 s)"
  "rt_interrupt_from_thread_update f12 (rt_thread_switch_interrupt_flag_update f14 s) = rt_thread_switch_interrupt_flag_update f14 (rt_interrupt_from_thread_update f12 s)"
  "rt_interrupt_from_thread_update f12 (memory_update f15 s) = memory_update f15 (rt_interrupt_from_thread_update f12 s)"
  "rt_interrupt_from_thread_update f12 (primask_update f16 s) = primask_update f16 (rt_interrupt_from_thread_update f12 s)"
  "rt_interrupt_from_thread_update f12 (pendsv_update f17 s) = pendsv_update f17 (rt_interrupt_from_thread_update f12 s)"
  "rt_interrupt_to_thread_update f13 (rt_thread_switch_interrupt_flag_update f14 s) = rt_thread_switch_interrupt_flag_update f14 (rt_interrupt_to_thread_update f13 s)"
  "rt_interrupt_to_thread_update f13 (memory_update f15 s) = memory_update f15 (rt_interrupt_to_thread_update f13 s)"
  "rt_interrupt_to_thread_update f13 (primask_update f16 s) = primask_update f16 (rt_interrupt_to_thread_update f13 s)"
  "rt_interrupt_to_thread_update f13 (pendsv_update f17 s) = pendsv_update f17 (rt_interrupt_to_thread_update f13 s)"
  "rt_thread_switch_interrupt_flag_update f14 (memory_update f15 s) = memory_update f15 (rt_thread_switch_interrupt_flag_update f14 s)"
  "rt_thread_switch_interrupt_flag_update f14 (primask_update f16 s) = primask_update f16 (rt_thread_switch_interrupt_flag_update f14 s)"
  "rt_thread_switch_interrupt_flag_update f14 (pendsv_update f17 s) = pendsv_update f17 (rt_thread_switch_interrupt_flag_update f14 s)"
  "memory_update f15 (primask_update f16 s) = primask_update f16 (memory_update f15 s)"
  "memory_update f15 (pendsv_update f17 s) = pendsv_update f17 (memory_update f15 s)"
  "primask_update f16 (pendsv_update f17 s) = pendsv_update f17 (primask_update f16 s)"
  by simp_all

section \<open>Outcomes\<close>

text \<open>
  \<open>succeeds m s L\<close>: the call \<open>m\<close> does not fault and leaves the scalars of \<open>s\<close>, with the links
  forming the rings of \<open>L\<close>. \<open>returns m r s L\<close>: it also returns \<open>r\<close>. What the links are, node
  by node, never matters beyond that.
\<close>

definition succeeds :: "kernel option \<Rightarrow> kernel \<Rightarrow> node layout \<Rightarrow> bool" where
  "succeeds m s L \<longleftrightarrow> (\<exists>nx pv. m = Some (s\<lparr>nxt := nx, prv := pv\<rparr>) \<and> lay nx pv L)"

definition returns :: "('r \<times> kernel) option \<Rightarrow> 'r \<Rightarrow> kernel \<Rightarrow> node layout \<Rightarrow> bool" where
  "returns m r s L \<longleftrightarrow> (\<exists>nx pv. m = Some (r, s\<lparr>nxt := nx, prv := pv\<rparr>) \<and> lay nx pv L)"

lemma succeeds_bind:
  assumes "succeeds m s L" "\<And>nx pv. lay nx pv L \<Longrightarrow> P (f (s\<lparr>nxt := nx, prv := pv\<rparr>))"
  shows "P (Option.bind m f)"
  using assms by (auto simp: succeeds_def)

lemma returns_bind:
  assumes "returns m r s L" "\<And>nx pv. lay nx pv L \<Longrightarrow> P (f (r, s\<lparr>nxt := nx, prv := pv\<rparr>))"
  shows "P (Option.bind m f)"
  using assms by (auto simp: returns_def)

lemma succeeds_Some:
  "lay (nxt s1) (prv s1) L \<Longrightarrow> s\<lparr>nxt := nxt s1, prv := prv s1\<rparr> = s1 \<Longrightarrow> succeeds (Some s1) s L"
  unfolding succeeds_def by metis

lemma returns_Some:
  "lay (nxt s1) (prv s1) L \<Longrightarrow> s\<lparr>nxt := nxt s1, prv := prv s1\<rparr> = s1 \<Longrightarrow> r' = r \<Longrightarrow>
     returns (Some (r', s1)) r s L"
  unfolding returns_def by metis

lemma succeeds_links:
  "succeeds m s L \<Longrightarrow> s'\<lparr>nxt := nxt s, prv := prv s\<rparr> = s \<Longrightarrow> succeeds m s' L"
  unfolding succeeds_def
  by (elim exE, rename_tac nx pv, drule_tac f = "\<lambda>s. s\<lparr>nxt := nx, prv := pv\<rparr>" in arg_cong,
      intro exI2) (auto simp del: kernel_update_order)

lemma returnsD:
  "returns m r s L \<Longrightarrow> \<exists>s'. m = Some (r, s') \<and> lay (nxt s') (prv s') L \<and> s' = s\<lparr>nxt := nxt s', prv := prv s'\<rparr>"
  by (auto simp: returns_def)

lemma succeedsD:
  "succeeds m s L \<Longrightarrow> \<exists>s'. m = Some s' \<and> lay (nxt s') (prv s') L \<and> s' = s\<lparr>nxt := nxt s', prv := prv s'\<rparr>"
  by (auto simp: succeeds_def)

text \<open>The list operations, as calls of this kind.\<close>

lemma remove_succeeds:
  fixes s :: kernel
  assumes "lay (nxt s) (prv s) L" "leaf n" "linked L n"
  shows "succeeds (rt_list_remove n s) s (unlink n L)"
  using lay_remove [OF assms] by (simp add: succeeds_def)

lemma append_succeeds:
  fixes s :: kernel
  assumes "lay (nxt s) (prv s) L" "L h = Some xs" "free_node L n" "may_hold h n" "leaf n"
  shows "succeeds (rt_list_insert_before h n s) s (put_list h (xs @ [n]) n L)"
  using lay_append [OF assms] by (simp add: succeeds_def)

lemma insert_after_succeeds:
  fixes s :: kernel
  assumes "lay (nxt s) (prv s) L" "L h = Some (xs @ ys)" "free_node L n" "may_hold h n" "leaf n"
  shows "succeeds (rt_list_insert_after (last (h # xs)) n s) s (put_list h (xs @ n # ys) n L)"
  using lay_insert_after [OF assms] by (simp add: succeeds_def)

lemma push_succeeds:
  fixes s :: kernel
  assumes "lay (nxt s) (prv s) L" "L h = Some ys" "free_node L n" "may_hold h n" "leaf n"
  shows "succeeds (rt_list_insert_after h n s) s (put_list h (n # ys) n L)"
  using insert_after_succeeds [of s L h "[]" ys n] assms by simp

lemma insert_before_succeeds:
  fixes s :: kernel
  assumes "lay (nxt s) (prv s) L" "L h = Some (xs @ ys)" "free_node L n" "may_hold h n" "leaf n"
  shows "succeeds (rt_list_insert_before (hd (ys @ [h])) n s) s (put_list h (xs @ n # ys) n L)"
  using lay_insert_before [OF assms] by (simp add: succeeds_def)

lemma init_lay:
  fixes s :: kernel
  assumes "lay (nxt s) (prv s) L" "free_node L n"
  shows "succeeds (Some (rt_list_init n s)) s (L(n \<mapsto> []))"
  using lay_init [OF assms] by (auto simp: succeeds_def rt_list_init_eq)

section \<open>Masking interrupts\<close>

text \<open>
  \<open>rt_hw_interrupt_disable\<close> returns PRIMASK and sets it; \<open>rt_hw_interrupt_enable\<close> writes it
  back. (\<open>rtt_ports/context_rvde.s\<close>) \<open>rt_Thread_critical_in\<close> and \<open>rt_Thread_critical_out\<close>
  of \<open>irq.c\<close> do the same through the compiler's intrinsics.
\<close>

definition rt_hw_interrupt_disable :: "kernel \<Rightarrow> bool \<times> kernel" where
  "rt_hw_interrupt_disable s = (primask s, s\<lparr>primask := True\<rparr>)"

definition rt_hw_interrupt_enable :: "bool \<Rightarrow> kernel \<Rightarrow> kernel" where
  "rt_hw_interrupt_enable level s = s\<lparr>primask := level\<rparr>"

definition rt_interrupt_enter :: "kernel \<Rightarrow> kernel" where
  "rt_interrupt_enter s =
     (let (level, s) = rt_hw_interrupt_disable s;
          s = s\<lparr>rt_interrupt_nest := rt_interrupt_nest s + 1\<rparr>
      in rt_hw_interrupt_enable level s)"

definition rt_interrupt_leave :: "kernel \<Rightarrow> kernel" where
  "rt_interrupt_leave s =
     (let (level, s) = rt_hw_interrupt_disable s;
          s = s\<lparr>rt_interrupt_nest := rt_interrupt_nest s - 1\<rparr>
      in rt_hw_interrupt_enable level s)"

definition rt_Thread_critical_in :: "kernel \<Rightarrow> bool \<times> kernel" where
  "rt_Thread_critical_in s = (let m = primask s in (m, s\<lparr>primask := True\<rparr>))"

definition rt_Thread_critical_out :: "bool \<Rightarrow> kernel \<Rightarrow> kernel" where
  "rt_Thread_critical_out status s = s\<lparr>primask := status\<rparr>"

named_theorems hw_defs "masking and unmasking interrupts"
declare rt_hw_interrupt_disable_def [hw_defs] rt_hw_interrupt_enable_def [hw_defs]

text \<open>An interrupt that is entered and left restores the nesting count and PRIMASK.\<close>

lemma rt_interrupt_enter_leave: "rt_interrupt_leave (rt_interrupt_enter s) = s"
  by (simp add: rt_interrupt_enter_def rt_interrupt_leave_def hw_defs)

lemma rt_Thread_critical_balanced:
  "rt_Thread_critical_in s = (m, s') \<Longrightarrow> rt_Thread_critical_out m s' = s"
  by (auto simp: rt_Thread_critical_in_def rt_Thread_critical_out_def)

end
