(* ===== verification/Cpuport.thy ===== *)
theory Cpuport
  imports Kernel_State
begin

text \<open>
  The Cortex-M3 port: \<open>rt_hw_stack_init\<close> of \<open>rtt_ports/cpuport.c\<close>, which prepares the
  stack of a new thread, and the context switch of \<open>rtt_ports/context_rvde.s\<close>, which the
  scheduler requests and the PendSV exception carries out. Stack memory is a map from word
  addresses to words; the registers are those the handler moves itself, \<open>r4\<close> to \<open>r11\<close> and
  the process stack pointer. The eight words the hardware stacks and unstacks around an
  exception are left in place on the stack.
\<close>

section \<open>The initial stack frame\<close>

definition RT_ALIGN_DOWN :: "u32 \<Rightarrow> u32 \<Rightarrow> u32" where
  "RT_ALIGN_DOWN x align = x AND NOT (align - 1)"

text \<open>Byte offsets of \<open>struct stack_frame\<close> and \<open>struct exception_stack_frame\<close>.\<close>

definition store_words :: "u32 \<Rightarrow> u32 list \<Rightarrow> (u32 \<Rightarrow> u32) \<Rightarrow> u32 \<Rightarrow> u32" where
  "store_words a ws m = fold (\<lambda>i m. m(a + 4 * of_nat i := ws ! i)) [0..<length ws] m"

definition load_words :: "u32 \<Rightarrow> nat \<Rightarrow> (u32 \<Rightarrow> u32) \<Rightarrow> u32 list" where
  "load_words a n m = map (\<lambda>i. m (a + 4 * of_nat i)) [0..<n]"

definition rt_hw_stack_init ::
  "u32 \<Rightarrow> u32 \<Rightarrow> u32 \<Rightarrow> (u32 \<Rightarrow> u32) \<Rightarrow> u32 \<times> (u32 \<Rightarrow> u32)" where
  "rt_hw_stack_init tentry parameter stack_addr m =
     (let stk = stack_addr + 4;
          stk = RT_ALIGN_DOWN stk 8;
          stk = stk - 64;
          m = store_words stk (replicate 16 0xdeadbeef) m;
          m = m(stk + 32 := parameter);  \<comment> \<open>\<open>r0\<close>\<close>
          m = m(stk + 36 := 0);          \<comment> \<open>\<open>r1\<close>\<close>
          m = m(stk + 40 := 0);          \<comment> \<open>\<open>r2\<close>\<close>
          m = m(stk + 44 := 0);          \<comment> \<open>\<open>r3\<close>\<close>
          m = m(stk + 48 := 0);          \<comment> \<open>\<open>r12\<close>\<close>
          m = m(stk + 52 := 0);          \<comment> \<open>\<open>lr\<close>\<close>
          m = m(stk + 56 := tentry);     \<comment> \<open>\<open>pc\<close>\<close>
          m = m(stk + 60 := 0x01000000)  \<comment> \<open>\<open>psr\<close>\<close>
      in (stk, m))"

section \<open>The context switch\<close>

definition rt_hw_context_switch_to :: "nat \<Rightarrow> kernel \<Rightarrow> kernel" where
  "rt_hw_context_switch_to to_thread s =
     s\<lparr>rt_interrupt_to_thread := Some to_thread,
       rt_interrupt_from_thread := None,
       rt_thread_switch_interrupt_flag := 1,
       pendsv := True,
       primask := False\<rparr>"

definition rt_hw_context_switch :: "nat \<Rightarrow> nat \<Rightarrow> kernel \<Rightarrow> kernel" where
  "rt_hw_context_switch from_thread to_thread s =
     (let s = (if rt_thread_switch_interrupt_flag s = 1 then s
               else s\<lparr>rt_thread_switch_interrupt_flag := 1,
                      rt_interrupt_from_thread := Some from_thread\<rparr>)
      in s\<lparr>rt_interrupt_to_thread := Some to_thread, pendsv := True\<rparr>)"

text \<open>
  The handler runs once PendSV is pending and interrupts are not masked. A thread is named by
  the address of its \<open>sp\<close> member.
\<close>

definition switch_to_thread :: "kernel \<Rightarrow> kernel option" where
  "switch_to_thread s = do {
     t \<leftarrow> rt_interrupt_to_thread s;
     let r1 = th_sp (threads s t);
     let s = s\<lparr>r4_r11 := load_words r1 8 (memory s)\<rparr>;
     Some (s\<lparr>psp := r1 + 32\<rparr>) }"

definition PendSV_Handler :: "kernel \<Rightarrow> kernel option" where
  "PendSV_Handler s =
     (let r2 = primask s;
          s = s\<lparr>primask := True, pendsv := False\<rparr>
      in if rt_thread_switch_interrupt_flag s = 0 then Some (s\<lparr>primask := r2\<rparr>)
         else
           (let s = s\<lparr>rt_thread_switch_interrupt_flag := 0\<rparr>;
                s = (case rt_interrupt_from_thread s of
                       None \<Rightarrow> s
                     | Some f \<Rightarrow>
                         (let r1 = psp s - 32;
                              s = s\<lparr>memory := store_words r1 (r4_r11 s) (memory s)\<rparr>
                          in upd_thread f (\<lambda>th. th\<lparr>th_sp := r1\<rparr>) s))
            in do { s \<leftarrow> switch_to_thread s; Some (s\<lparr>primask := r2\<rparr>) }))"

section \<open>Stack words\<close>

lemma unat_word_offset: "i < 2 ^ 30 \<Longrightarrow> unat (4 * of_nat i :: u32) = 4 * i"
  by (simp add: unat_word_ariths unat_of_nat)

lemma word_offset_inj:
  "i < 2 ^ 30 \<Longrightarrow> j < 2 ^ 30 \<Longrightarrow> (a::u32) + 4 * of_nat i = a + 4 * of_nat j \<longleftrightarrow> i = j"
  by (metis add_left_cancel mult_left_cancel unat_word_offset zero_neq_numeral)

lemma store_words_Cons_last:
  "store_words a (ws @ [w]) m = (store_words a ws m)(a + 4 * of_nat (length ws) := w)"
proof -
  have "fold (\<lambda>i m. m(a + 4 * of_nat i := (ws @ [w]) ! i)) [0..<length ws] m =
        fold (\<lambda>i m. m(a + 4 * of_nat i := ws ! i)) [0..<length ws] m"
    by (rule fold_cong) (auto simp: nth_append)
  then show ?thesis by (simp add: store_words_def)
qed

lemma store_words_same:
  "length ws \<le> 2 ^ 30 \<Longrightarrow> i < length ws \<Longrightarrow> store_words a ws m (a + 4 * of_nat i) = ws ! i"
proof (induction ws rule: rev_induct)
  case (snoc w ws)
  then show ?case
    using word_offset_inj [of i "length ws" a]
    by (cases "i = length ws") (auto simp: store_words_Cons_last nth_append)
qed simp

lemma store_words_other:
  "(\<And>i. i < length ws \<Longrightarrow> x \<noteq> a + 4 * of_nat i) \<Longrightarrow> store_words a ws m x = m x"
  by (induction ws rule: rev_induct) (auto simp: store_words_Cons_last store_words_def [of _ "[]"])

lemma load_store_words:
  "length ws \<le> 2 ^ 30 \<Longrightarrow> load_words a (length ws) (store_words a ws m) = ws"
  by (rule nth_equalityI) (auto simp: load_words_def store_words_same)

lemma load_words_cong:
  "(\<And>i. i < n \<Longrightarrow> m (a + 4 * of_nat i) = m' (a + 4 * of_nat i)) \<Longrightarrow>
     load_words a n m = load_words a n m'"
  by (simp add: load_words_def)

text \<open>\<open>words_at a n\<close>: the addresses of \<open>n\<close> words from \<open>a\<close> on.\<close>

definition words_at :: "u32 \<Rightarrow> nat \<Rightarrow> u32 set" where
  "words_at a n = {a + 4 * of_nat i | i. i < n}"

lemma words_at_disjoint:
  assumes "n \<le> d" "d + m \<le> 2 ^ 30"
  shows "words_at a n \<inter> words_at (a + 4 * of_nat d) m = {}"
proof -
  have "a + 4 * of_nat i \<noteq> a + 4 * of_nat d + 4 * of_nat j" if "i < n" "j < m" for i j
    using word_offset_inj [of i "d + j" a] that assms by (simp add: algebra_simps)
  then show ?thesis by (auto simp: words_at_def)
qed

lemma store_words_outside: "x \<notin> words_at a (length ws) \<Longrightarrow> store_words a ws m x = m x"
  by (rule store_words_other) (auto simp: words_at_def)

lemma load_words_outside:
  "words_at a n \<inter> words_at b (length ws) = {} \<Longrightarrow> load_words a n (store_words b ws m) = load_words a n m"
  by (rule load_words_cong, rule store_words_outside) (auto simp: words_at_def)

lemma store_words_update:
  assumes "length ws \<le> 2 ^ 30" "i < length ws"
  shows "(store_words a ws m)(a + 4 * of_nat i := v) = store_words a (ws[i := v]) m"
proof
  fix x
  show "((store_words a ws m)(a + 4 * of_nat i := v)) x = store_words a (ws[i := v]) m x"
  proof (cases "x \<in> words_at a (length ws)")
    case True
    then obtain j where "x = a + 4 * of_nat j" "j < length ws" by (auto simp: words_at_def)
    then show ?thesis using assms word_offset_inj [of j i a]
      by (auto simp: store_words_same nth_list_update)
  next
    case False
    then have "x \<noteq> a + 4 * of_nat i" using assms(2) by (auto simp: words_at_def)
    then show ?thesis using False by (simp add: store_words_outside)
  qed
qed

section \<open>The initial frame is the one the context switch expects\<close>

definition initial_frame :: "u32 \<Rightarrow> u32 \<Rightarrow> u32 list" where
  "initial_frame tentry parameter =
     replicate 8 0xdeadbeef @ [parameter, 0, 0, 0, 0, 0, tentry, 0x01000000]"

lemma rt_hw_stack_init_frame:
  "rt_hw_stack_init tentry parameter stack_addr m =
     (let stk = RT_ALIGN_DOWN (stack_addr + 4) 8 - 64
      in (stk, store_words stk (initial_frame tentry parameter) m))"
proof -
  have off: "stk + 32 = stk + 4 * of_nat 8" "stk + 36 = stk + 4 * of_nat 9"
    "stk + 40 = stk + 4 * of_nat 10" "stk + 44 = stk + 4 * of_nat 11"
    "stk + 48 = stk + 4 * of_nat 12" "stk + 52 = stk + 4 * of_nat 13"
    "stk + 56 = stk + 4 * of_nat 14" "stk + 60 = stk + 4 * of_nat 15" for stk :: u32
    by simp_all
  have fr: "(replicate 16 (0xdeadbeef::u32))[8 := parameter, 9 := 0, 10 := 0, 11 := 0, 12 := 0,
      13 := 0, 14 := tentry, 15 := 0x01000000] = initial_frame tentry parameter"
    by (simp add: initial_frame_def numeral_eq_Suc)
  show ?thesis
    unfolding rt_hw_stack_init_def Let_def off
    by (simp add: store_words_update fr del: of_nat_numeral)
qed

lemma align_down_8: "unat (RT_ALIGN_DOWN x 8) = unat x - unat x mod 8"
proof -
  have "(x AND 7) + (x AND NOT 7) = (x AND 7) OR (x AND NOT 7)"
    by (rule disjunctive_add) (auto simp: bit_simps)
  also have "\<dots> = x" by (rule bit_word_eqI) (auto simp: bit_simps)
  finally have "x AND NOT 7 = x - (x AND 7)" by (simp add: eq_diff_eq add.commute)
  moreover have "unat (x AND 7) = unat x mod 8"
  proof -
    have "take_bit 3 x = x AND 7" by (simp add: take_bit_eq_mask mask_eq_exp_minus_1)
    moreover have "unat (take_bit 3 x) = unat x mod 8"
      unfolding unsigned_take_bit_eq by (simp add: take_bit_eq_mod)
    ultimately show ?thesis by simp
  qed
  moreover have "x AND 7 \<le> x" by (rule word_and_le2)
  ultimately show ?thesis by (simp add: RT_ALIGN_DOWN_def unat_sub)
qed

end
