(* ===== verification/Kservice.thy ===== *)
theory Kservice
  imports Prelude
begin

text \<open>
  \<open>rtt_source/kservice.c\<close>: the bounded string copy that fills an object's name, and the
  search for the lowest set bit on which the scheduler rests. The C function \<open>__rt_ffs\<close> is
  \<open>rt_ffs\<close> here.
\<close>

section \<open>rt_strncpy\<close>

text \<open>
  A buffer is the list of its bytes; an access outside it is \<^const>\<open>None\<close>. The indices
  \<open>d\<close> and \<open>i\<close> stand for the moving pointers \<open>d\<close> and \<open>s\<close>.
\<close>

definition buf_get :: "u8 list \<Rightarrow> nat \<Rightarrow> u8 option" where
  "buf_get b i = (if i < length b then Some (b ! i) else None)"

definition buf_put :: "u8 list \<Rightarrow> nat \<Rightarrow> u8 \<Rightarrow> u8 list option" where
  "buf_put b i v = (if i < length b then Some (b[i := v]) else None)"

text \<open>\<open>while (--n != 0) *d++ = 0;\<close>\<close>

partial_function (option) strncpy_pad :: "u8 list \<Rightarrow> nat \<Rightarrow> u32 \<Rightarrow> u8 list option" where
  "strncpy_pad dst d n =
     (if n - 1 \<noteq> 0 then do {
        dst \<leftarrow> buf_put dst d 0;
        strncpy_pad dst (Suc d) (n - 1) }
      else Some dst)"

declare strncpy_pad.simps [code]

partial_function (option) strncpy_loop ::
  "u8 list \<Rightarrow> u8 list \<Rightarrow> nat \<Rightarrow> nat \<Rightarrow> u32 \<Rightarrow> u8 list option" where
  "strncpy_loop dst src d i n = do {
     c \<leftarrow> buf_get src i;
     dst \<leftarrow> buf_put dst d c;
     if c = 0 then strncpy_pad dst (Suc d) n
     else if n - 1 \<noteq> 0 then strncpy_loop dst src (Suc d) (Suc i) (n - 1)
     else Some dst }"

declare strncpy_loop.simps [code]

definition rt_strncpy :: "u8 list \<Rightarrow> u8 list \<Rightarrow> u32 \<Rightarrow> u8 list option" where
  "rt_strncpy dst src n = (if n \<noteq> 0 then strncpy_loop dst src 0 0 n else Some dst)"

section \<open>__rt_ffs\<close>

definition lowest_bit_bitmap :: "u8 list" where
  "lowest_bit_bitmap = [
     0xff, 0, 1, 0, 2, 0, 1, 0, 3, 0, 1, 0, 2, 0, 1, 0,
     4, 0, 1, 0, 2, 0, 1, 0, 3, 0, 1, 0, 2, 0, 1, 0,
     5, 0, 1, 0, 2, 0, 1, 0, 3, 0, 1, 0, 2, 0, 1, 0,
     4, 0, 1, 0, 2, 0, 1, 0, 3, 0, 1, 0, 2, 0, 1, 0,
     6, 0, 1, 0, 2, 0, 1, 0, 3, 0, 1, 0, 2, 0, 1, 0,
     4, 0, 1, 0, 2, 0, 1, 0, 3, 0, 1, 0, 2, 0, 1, 0,
     5, 0, 1, 0, 2, 0, 1, 0, 3, 0, 1, 0, 2, 0, 1, 0,
     4, 0, 1, 0, 2, 0, 1, 0, 3, 0, 1, 0, 2, 0, 1, 0,
     7, 0, 1, 0, 2, 0, 1, 0, 3, 0, 1, 0, 2, 0, 1, 0,
     4, 0, 1, 0, 2, 0, 1, 0, 3, 0, 1, 0, 2, 0, 1, 0,
     5, 0, 1, 0, 2, 0, 1, 0, 3, 0, 1, 0, 2, 0, 1, 0,
     4, 0, 1, 0, 2, 0, 1, 0, 3, 0, 1, 0, 2, 0, 1, 0,
     6, 0, 1, 0, 2, 0, 1, 0, 3, 0, 1, 0, 2, 0, 1, 0,
     4, 0, 1, 0, 2, 0, 1, 0, 3, 0, 1, 0, 2, 0, 1, 0,
     5, 0, 1, 0, 2, 0, 1, 0, 3, 0, 1, 0, 2, 0, 1, 0,
     4, 0, 1, 0, 2, 0, 1, 0, 3, 0, 1, 0, 2, 0, 1, 0
   ]"

definition rt_ffs :: "u32 \<Rightarrow> u32" where
  "rt_ffs value =
     (if value = 0 then 0
      else if value AND 0xff \<noteq> 0
      then ucast (lowest_bit_bitmap ! unat (value AND 0xff)) + 1
      else if value AND 0xff00 \<noteq> 0
      then ucast (lowest_bit_bitmap ! unat (drop_bit 8 (value AND 0xff00))) + 9
      else if value AND 0xff0000 \<noteq> 0
      then ucast (lowest_bit_bitmap ! unat (drop_bit 16 (value AND 0xff0000))) + 17
      else ucast (lowest_bit_bitmap ! unat (drop_bit 24 (value AND 0xff000000))) + 25)"

section \<open>Correctness of the copy\<close>

lemma unat_minus_one_word: "n \<noteq> 0 \<Longrightarrow> unat (n - 1) = unat n - 1" for n :: "'a::len word"
  by (simp add: unat_minus_one)

lemma strncpy_pad_spec:
  "n \<noteq> 0 \<Longrightarrow> d + unat n \<le> Suc (length dst) \<Longrightarrow>
     strncpy_pad dst d n = Some (take d dst @ replicate (unat n - 1) 0 @ drop (d + unat n - 1) dst)"
proof (induction "unat n" arbitrary: dst d n)
  case 0
  then show ?case by (simp add: unat_eq_zero)
next
  case (Suc m)
  show ?case
  proof (cases "n - 1 = 0")
    case True
    then have "n = 1" by simp
    then show ?thesis by (simp add: strncpy_pad.simps)
  next
    case False
    have m: "unat (n - 1) = m" using Suc by (simp add: unat_minus_one_word)
    with False have "m \<noteq> 0" by (simp add: unat_eq_zero [symmetric])
    then have d: "d < length dst" using Suc by simp
    have "strncpy_pad (dst[d := 0]) (Suc d) (n - 1) =
        Some (take (Suc d) (dst[d := 0]) @ replicate (m - 1) 0 @ drop (Suc d + m - 1) (dst[d := 0]))"
      using Suc.hyps(1) [OF m [symmetric] False, of "Suc d" "dst[d := 0]"] Suc m by simp
    moreover have "take (Suc d) (dst[d := 0]) = take d dst @ [0]"
      using d by (simp add: take_Suc_conv_app_nth)
    moreover have "replicate m (0::u8) = 0 # replicate (m - 1) 0"
      using \<open>m \<noteq> 0\<close> by (cases m) auto
    ultimately show ?thesis
      using False d m \<open>m \<noteq> 0\<close> Suc(2)
      by (subst strncpy_pad.simps) (simp add: buf_put_def Suc(2) [symmetric])
  qed
qed

text \<open>
  The characters up to, not including, the terminating NUL; and what the copy leaves in the
  first \<open>n\<close> bytes of the destination.
\<close>

definition c_string :: "u8 list \<Rightarrow> u8 list" where
  "c_string b = takeWhile (\<lambda>c. c \<noteq> 0) b"

definition padded :: "nat \<Rightarrow> u8 list \<Rightarrow> u8 list" where
  "padded n b = take n (c_string b @ replicate n 0)"

lemma padded_zero: "n > 0 \<Longrightarrow> padded n (0 # b) = 0 # replicate (n - 1) 0"
  by (cases n) (simp_all add: padded_def c_string_def)

lemma padded_Suc: "c \<noteq> 0 \<Longrightarrow> padded (Suc n) (c # b) = c # padded n b"
  by (simp add: padded_def c_string_def replicate_append_same [symmetric])

lemma length_padded [simp]: "length (padded n b) = n"
  by (simp add: padded_def)

lemma strncpy_loop_spec:
  "n \<noteq> 0 \<Longrightarrow> d + unat n \<le> length dst \<Longrightarrow>
   i + unat n \<le> length src \<or> 0 \<in> set (drop i src) \<Longrightarrow>
     strncpy_loop dst src d i n =
       Some (take d dst @ padded (unat n) (drop i src) @ drop (d + unat n) dst)"
proof (induction "unat n" arbitrary: dst d i n)
  case 0
  then show ?case by (simp add: unat_eq_zero)
next
  case (Suc m)
  have d: "d < length dst" using Suc(2,4) by simp
  have i: "i < length src" using Suc(2,5) by (cases "i < length src") auto
  then have src: "drop i src = src ! i # drop (Suc i) src" by (simp add: Cons_nth_drop_Suc)
  let ?dst = "dst[d := src ! i]"
  have m: "unat (n - 1) = m" using Suc(2,3) by (simp add: unat_minus_one_word)
  have tk: "take (Suc d) ?dst = take d dst @ [src ! i]" using d by (simp add: take_Suc_conv_app_nth)
  show ?case
  proof (cases "src ! i = 0")
    case True
    have "strncpy_pad ?dst (Suc d) n =
      Some (take (Suc d) ?dst @ replicate (unat n - 1) 0 @ drop (d + unat n) ?dst)"
      using strncpy_pad_spec [of n "Suc d" ?dst] Suc(3,4) by simp
    then show ?thesis using True d i tk Suc(2) padded_zero [of "unat n" "drop (Suc i) src"]
      by (subst strncpy_loop.simps) (simp add: buf_get_def buf_put_def src)
  next
    case False
    note nz = False
    show ?thesis
    proof (cases "n - 1 = 0")
      case True
      then have "unat n = 1" by simp
      then show ?thesis using nz True d i tk padded_Suc [OF nz, of 0 "drop (Suc i) src"]
        by (subst strncpy_loop.simps) (simp add: buf_get_def buf_put_def src padded_def upd_conv_take_nth_drop)
    next
      case False
      have "strncpy_loop ?dst src (Suc d) (Suc i) (n - 1) =
        Some (take (Suc d) ?dst @ padded m (drop (Suc i) src) @ drop (Suc d + m) ?dst)"
        using Suc.hyps(1) [OF m [symmetric] False, of "Suc d" ?dst "Suc i"] Suc(2,4,5) m nz src by auto
      then show ?thesis using nz False d i tk padded_Suc [OF nz, of m "drop (Suc i) src"]
        by (subst strncpy_loop.simps) (simp add: buf_get_def buf_put_def src Suc(2) [symmetric])
    qed
  qed
qed

lemma rt_strncpy_eq:
  assumes "unat n \<le> length dst" and "unat n \<le> length src \<or> 0 \<in> set src"
  shows "rt_strncpy dst src n = Some (padded (unat n) src @ drop (unat n) dst)"
  using strncpy_loop_spec [of n 0 dst 0 src] assms
  by (cases "n = 0") (auto simp: rt_strncpy_def padded_def)

section \<open>Correctness of the bit search\<close>


section \<open>Correctness of the bit search\<close>

text \<open>
  The table is checked entry by entry: entry \<open>k\<close> is the number of the lowest set bit of
  \<open>k\<close>. A word's lowest set bit is then found byte by byte.
\<close>

definition low_bit_ok :: "nat \<Rightarrow> u8 \<Rightarrow> bool" where
  "low_bit_ok k w \<longleftrightarrow> k = 0 \<or> unat w < 8 \<and> k mod 2 ^ unat w = 0 \<and> odd (k div 2 ^ unat w)"

primrec table_ok :: "nat \<Rightarrow> u8 list \<Rightarrow> bool" where
  "table_ok k [] \<longleftrightarrow> True"
| "table_ok k (w # ws) \<longleftrightarrow> low_bit_ok k w \<and> table_ok (k + 1) ws"

lemma table_ok_nth: "table_ok k ws \<Longrightarrow> i < length ws \<Longrightarrow> low_bit_ok (k + i) (ws ! i)"
proof (induction ws arbitrary: k i)
  case (Cons w ws)
  then show ?case by (cases i) (auto dest: Cons.IH)
qed simp

lemma bitmap_table_ok: "table_ok 0 lowest_bit_bitmap"
  unfolding lowest_bit_bitmap_def
  by (simp add: low_bit_ok_def)

lemma length_bitmap: "length lowest_bit_bitmap = 256"
  by (simp add: lowest_bit_bitmap_def)

definition lowest_set :: "'a::len word \<Rightarrow> nat \<Rightarrow> bool" where
  "lowest_set w i \<longleftrightarrow> bit w i \<and> (\<forall>j<i. \<not> bit w j)"

lemma lowest_set_unique: "lowest_set w i \<Longrightarrow> lowest_set w j \<Longrightarrow> i = j"
  unfolding lowest_set_def by (metis linorder_neqE_nat)

lemma bitmap_lowest:
  fixes w :: u32
  assumes "w \<noteq> 0" "unat w < 256"
  shows "unat (lowest_bit_bitmap ! unat w) < 8 \<and> lowest_set w (unat (lowest_bit_bitmap ! unat w))"
proof -
  let ?i = "unat (lowest_bit_bitmap ! unat w)"
  have "low_bit_ok (unat w) (lowest_bit_bitmap ! unat w)"
    using table_ok_nth [OF bitmap_table_ok, of "unat w"] assms length_bitmap by simp
  then have i: "?i < 8" "unat w mod 2 ^ ?i = 0" "odd (unat w div 2 ^ ?i)"
    using assms by (auto simp: low_bit_ok_def unat_eq_zero)
  have "bit w ?i" using i(1,3) bit_unsigned_iff [where ?'a = nat, of w ?i] by (simp add: bit_iff_odd)
  moreover have "\<not> bit w j" if "j < ?i" for j
  proof -
    have "\<not> bit (take_bit ?i (unat w)) j" using i(2) by (simp add: take_bit_eq_mod)
    then show ?thesis using that by (simp add: bit_take_bit_iff bit_unsigned_iff)
  qed
  ultimately show ?thesis using i by (simp add: lowest_set_def)
qed

lemma byte_of_word:
  fixes v :: u32
  assumes "k \<le> 24" "m = push_bit k (mask 8)"
  shows "drop_bit k (v AND m) = take_bit 8 (drop_bit k v)"
  by (rule bit_word_eqI) (use assms in \<open>auto simp: bit_simps\<close>)

lemma byte_masks:
  "(0xff :: u32) = push_bit 0 (mask 8)" "(0xff00 :: u32) = push_bit 8 (mask 8)"
  "(0xff0000 :: u32) = push_bit 16 (mask 8)" "(0xff000000 :: u32) = push_bit 24 (mask 8)"
  by (simp_all add: mask_eq_exp_minus_1)

lemma group_zero:
  fixes v :: u32
  assumes "v AND m = 0" "m = push_bit k (mask 8)" "k \<le> i" "i < k + 8" "i < 32"
  shows "\<not> bit v i"
proof
  assume "bit v i"
  then have "bit (v AND m) i" using assms(2-5) by (auto simp: bit_simps)
  then show False using assms(1) by simp
qed

lemma rt_ffs_group:
  fixes v r :: u32
  assumes k: "k \<le> 24" "m = push_bit k (mask 8)" and nz: "v AND m \<noteq> 0"
    and below: "\<And>i. i < k \<Longrightarrow> \<not> bit v i"
    and r: "r = ucast (lowest_bit_bitmap ! unat (drop_bit k (v AND m))) + of_nat (Suc k)"
  shows "0 < unat r \<and> unat r \<le> 32 \<and> lowest_set v (unat r - 1)"
proof -
  let ?w = "take_bit 8 (drop_bit k v)"
  have dw: "drop_bit k (v AND m) = ?w" using k by (rule byte_of_word)
  obtain i where "bit (v AND m) i" using nz by (metis bit_eqI bit_0_eq bot_apply bot_bool_def)
  then have "bit ?w (i - k)" using k by (auto simp: bit_simps)
  then have w: "?w \<noteq> 0" by auto
  have "unat ?w < 256"
    using take_bit_nat_less_exp [of 8 "unat (drop_bit k v)"] by (simp add: unsigned_take_bit_eq)
  then have t: "unat (lowest_bit_bitmap ! unat ?w) < 8"
    "lowest_set ?w (unat (lowest_bit_bitmap ! unat ?w))" using bitmap_lowest [OF w] by auto
  let ?j = "unat (lowest_bit_bitmap ! unat ?w)"
  have ur: "unat r = ?j + k + 1"
    using t(1) k(1) unfolding r dw by (simp add: unat_word_ariths unat_of_nat unsigned_ucast_eq take_bit_eq_mod)
  have "\<not> bit v i" if "i < ?j + k" for i
  proof (cases "i < k")
    case False
    then have "\<not> bit ?w (i - k)" using t(2) that unfolding lowest_set_def by auto
    then show ?thesis using False that t(1) by (simp add: bit_simps)
  qed (rule below)
  moreover have "bit v (?j + k)" using t by (auto simp: lowest_set_def bit_simps add.commute)
  ultimately have "lowest_set v (?j + k)" by (simp add: lowest_set_def)
  then show ?thesis using ur t k by simp
qed

lemma rt_ffs_nonzero:
  assumes "v \<noteq> 0"
  shows "0 < unat (rt_ffs v) \<and> unat (rt_ffs v) \<le> 32 \<and> lowest_set v (unat (rt_ffs v) - 1)"
proof -
  note low = group_zero [OF _ byte_masks(1)] group_zero [OF _ byte_masks(2)]
    group_zero [OF _ byte_masks(3)] group_zero [OF _ byte_masks(4)]
  consider (b0) "v AND 0xff \<noteq> 0" | (b1) "v AND 0xff = 0" "v AND 0xff00 \<noteq> 0"
    | (b2) "v AND 0xff = 0" "v AND 0xff00 = 0" "v AND 0xff0000 \<noteq> 0"
    | (b3) "v AND 0xff = 0" "v AND 0xff00 = 0" "v AND 0xff0000 = 0"
    by blast
  then show ?thesis
  proof cases
    case b0
    then show ?thesis using assms
      by (intro rt_ffs_group [OF _ byte_masks(1) b0]) (auto simp: rt_ffs_def)
  next
    case b1
    then show ?thesis using assms
      by (intro rt_ffs_group [OF _ byte_masks(2) b1(2)]) (auto simp: rt_ffs_def low)
  next
    case b2
    have "\<not> bit v i" if "i < 16" for i
      using that low(1) [OF b2(1), of i] low(2) [OF b2(2), of i] by (cases "i < 8") auto
    then show ?thesis using assms b2
      by (intro rt_ffs_group [OF _ byte_masks(3) b2(3)]) (auto simp: rt_ffs_def)
  next
    case b3
    have z: "\<not> bit v i" if "i < 24" for i
      using that low(1) [OF b3(1), of i] low(2) [OF b3(2), of i] low(3) [OF b3(3), of i]
      by (cases "i < 8"; cases "i < 16") auto
    have "v AND 0xff000000 \<noteq> 0"
    proof
      assume "v AND 0xff000000 = 0"
      then have "\<not> bit v i" for i
        using z [of i] low(4) [of v i] bit_imp_le_length [of v i] by (cases "i < 24") auto
      then show False using assms by (auto intro: bit_word_eqI)
    qed
    then show ?thesis using assms b3 z
      by (intro rt_ffs_group [OF _ byte_masks(4)]) (auto simp: rt_ffs_def)
  qed
qed

lemma rt_ffs_zero: "rt_ffs v = 0 \<longleftrightarrow> v = 0"
  using rt_ffs_nonzero [of v] by (cases "v = 0") (auto simp: rt_ffs_def)

lemma rt_ffs_minus_one: "lowest_set v i \<Longrightarrow> unat (rt_ffs v - 1) = i"
proof -
  assume i: "lowest_set v i"
  then have "v \<noteq> 0" by (auto simp: lowest_set_def)
  then show ?thesis
    using rt_ffs_nonzero [of v] lowest_set_unique [OF i, of "unat (rt_ffs v) - 1"] rt_ffs_zero [of v]
    by (simp add: unat_minus_one)
qed

lemma nonzero_lowest_set: "v \<noteq> 0 \<Longrightarrow> \<exists>i<LENGTH('a). lowest_set v i" for v :: "'a::len word"
proof -
  assume "v \<noteq> 0"
  then obtain n where "bit v n" by (metis bit_eqI bit_0_eq bot_apply bot_bool_def)
  then have "lowest_set v (LEAST n. bit v n)"
    unfolding lowest_set_def by (metis LeastI not_less_Least)
  then show ?thesis using bit_imp_le_length unfolding lowest_set_def by blast
qed

end
