(* ===== verification/Object.thy ===== *)
theory Object
  imports Kservice Kernel_State
begin

text \<open>
  \<open>rtt_source/object.c\<close>: the container array, which keeps one list per class of kernel
  object, and the functions that enter an object in it and take it out.
\<close>

section \<open>The container\<close>

text \<open>
  \<open>rt_object_container\<close> as the file initialises it for the configuration of
  \<open>User/rtconfig.h\<close>. The array has \<open>RT_Object_Info_Unknown\<close> = 7 elements and six
  initialisers, because the one for timers is commented out; C fills the seventh with zeros.
  The sizes are those of the structures on the 32-bit target.
\<close>

definition RT_Object_Info_Unknown :: nat where
  "RT_Object_Info_Unknown = 7"

definition container_init :: "rt_object_information list" where
  "container_init =
     [\<lparr>oi_type = RT_Object_Class_Thread, oi_size = 120\<rparr>,
      \<lparr>oi_type = RT_Object_Class_Semaphore, oi_size = 32\<rparr>,
      \<lparr>oi_type = RT_Object_Class_Mutex, oi_size = 36\<rparr>,
      \<lparr>oi_type = RT_Object_Class_Event, oi_size = 32\<rparr>,
      \<lparr>oi_type = RT_Object_Class_MailBox, oi_size = 48\<rparr>,
      \<lparr>oi_type = RT_Object_Class_MessageQueue, oi_size = 52\<rparr>,
      \<lparr>oi_type = 0, oi_size = 0\<rparr>]"

fun information_loop :: "u8 \<Rightarrow> nat \<Rightarrow> rt_object_information list \<Rightarrow> nat option" where
  "information_loop ty index [] = None"
| "information_loop ty index (c # cs) =
     (if oi_type c = ty then Some index else information_loop ty (index + 1) cs)"

definition rt_object_get_information :: "u8 \<Rightarrow> kernel \<Rightarrow> nat option" where
  "rt_object_get_information ty s = information_loop ty 0 (rt_object_container s)"

section \<open>The operations\<close>

text \<open>
  \<open>rt_object_init\<close> follows the pointer it got from \<open>rt_object_get_information\<close> without
  a check, so an unknown class is a NULL access.
\<close>

definition rt_object_init :: "obj_ref \<Rightarrow> u8 \<Rightarrow> u8 list \<Rightarrow> kernel \<Rightarrow> kernel option" where
  "rt_object_init ob ty name s = do {
     let information = rt_object_get_information ty s;
     let s = upd_object ob (\<lambda>h. h\<lparr>ob_type := ty OR RT_Object_Class_Static\<rparr>) s;
     nm \<leftarrow> rt_strncpy (ob_name (objects s ob)) name (of_nat RT_NAME_MAX);
     let s = upd_object ob (\<lambda>h. h\<lparr>ob_name := nm\<rparr>) s;
     let (temp, s) = rt_hw_interrupt_disable s;
     c \<leftarrow> information;
     s \<leftarrow> rt_list_insert_after (Container_Node c) (Obj_List ob) s;
     Some (rt_hw_interrupt_enable temp s) }"

definition rt_object_detach :: "obj_ref \<Rightarrow> kernel \<Rightarrow> kernel option" where
  "rt_object_detach ob s = do {
     let (temp, s) = rt_hw_interrupt_disable s;
     s \<leftarrow> rt_list_remove (Obj_List ob) s;
     Some (rt_hw_interrupt_enable temp s) }"

definition rt_object_is_systemobject :: "obj_ref \<Rightarrow> kernel \<Rightarrow> bool" where
  "rt_object_is_systemobject ob s \<longleftrightarrow>
     ob_type (objects s ob) AND RT_Object_Class_Static \<noteq> 0"

section \<open>What the operations do\<close>

lemma information_loop_Some:
  "information_loop ty i cs = Some k \<Longrightarrow> i \<le> k \<and> k < i + length cs \<and> oi_type (cs ! (k - i)) = ty"
proof (induction ty i cs rule: information_loop.induct)
  case (2 ty i c cs)
  then show ?case
    by (cases "oi_type c = ty") (auto simp: nth_Cons Suc_diff_Suc [symmetric] split: nat.split)
qed simp

lemma information_loop_None: "information_loop ty i cs = None \<longleftrightarrow> ty \<notin> oi_type ` set cs"
  by (induction ty i cs rule: information_loop.induct) auto

lemma rt_object_get_information_Some:
  "rt_object_get_information ty s = Some c \<Longrightarrow>
     c < length (rt_object_container s) \<and> oi_type (rt_object_container s ! c) = ty"
  using information_loop_Some [of ty 0] by (auto simp: rt_object_get_information_def)

lemma rt_object_init_unknown_class:
  "rt_object_get_information ty s = None \<Longrightarrow> rt_object_init ob ty name s = None"
  by (auto simp: rt_object_init_def rt_object_get_information_def hw_defs
      split: Option.bind_splits)

text \<open>The header the initialisation leaves: the class with the static bit, the name cut to eight bytes.\<close>

definition fresh_header :: "u8 \<Rightarrow> u8 list \<Rightarrow> rt_object \<Rightarrow> rt_object" where
  "fresh_header ty name h =
     h\<lparr>ob_type := ty OR RT_Object_Class_Static, ob_name := padded RT_NAME_MAX name\<rparr>"

definition readable_name :: "u8 list \<Rightarrow> bool" where
  "readable_name name \<longleftrightarrow> RT_NAME_MAX \<le> length name \<or> 0 \<in> set name"

lemma rt_object_init_ok:
  assumes "lay (nxt s) (prv s) L" "rt_object_get_information ty s = Some c"
    and "L (Container_Node c) = Some xs" "free_node L (Obj_List ob)"
    and "length (ob_name (objects s ob)) = RT_NAME_MAX" "readable_name name"
  shows "succeeds (rt_object_init ob ty name s)
    (s\<lparr>objects := (objects s)(ob := fresh_header ty name (objects s ob))\<rparr>)
    (put_list (Container_Node c) (Obj_List ob # xs) (Obj_List ob) L)"
proof -
  let ?s = "s\<lparr>objects := (objects s)(ob := fresh_header ty name (objects s ob)), primask := True\<rparr>"
  have nm: "rt_strncpy (ob_name (objects s ob)) name 8 = Some (padded 8 name)"
    using rt_strncpy_eq [of 8 "ob_name (objects s ob)" name] assms(5,6)
    by (simp add: readable_name_def)
  have "succeeds (rt_list_insert_after (Container_Node c) (Obj_List ob) ?s) ?s
      (put_list (Container_Node c) (Obj_List ob # xs) (Obj_List ob) L)"
    using assms by (intro push_succeeds) auto
  from succeeds_bind [OF this, of "\<lambda>m. succeeds m _ _"] show ?thesis
    using nm assms(2)
    by (simp add: rt_object_init_def hw_defs fresh_header_def rt_object_get_information_def
        succeeds_Some)
qed

lemma rt_object_detach_ok:
  assumes "lay (nxt s) (prv s) L" "linked L (Obj_List ob)"
  shows "succeeds (rt_object_detach ob s) s (unlink (Obj_List ob) L)"
  unfolding rt_object_detach_def hw_defs Let_def prod.case
  by (rule succeeds_bind [OF remove_succeeds]) (use assms in \<open>auto intro!: succeeds_Some\<close>)

end
