(* ===== verification/Timer.thy ===== *)
theory Timer
  imports Object
begin

text \<open>
  \<open>rtt_source/timer.c\<close>: the list of running timers, ordered by the tick at which they run
  out. \<open>RT_TIMER_SKIP_LIST_LEVEL\<close> is 1, so a timer has one list member, the loops over the
  levels run once and the code after them for higher levels never runs. The timeout function
  of a timer is called through a pointer; the call is the argument \<open>call_timeout\<close>.
\<close>

section \<open>Setting up and stopping\<close>

definition rt_system_timer_init :: "kernel \<Rightarrow> kernel" where
  "rt_system_timer_init s = rt_list_init Timer_List_Node s"

text \<open>\<open>_rt_timer_init\<close>\<close>

definition timer_init_fields ::
  "timer_ref \<Rightarrow> timeout_fn \<Rightarrow> void_ptr \<Rightarrow> u32 \<Rightarrow> u8 \<Rightarrow> kernel \<Rightarrow> kernel" where
  "timer_init_fields timer timeout parameter time flag s =
     (let s = upd_object (Timer_Obj timer) (\<lambda>h. h\<lparr>ob_flag := flag\<rparr>) s;
          s = upd_object (Timer_Obj timer)
                (\<lambda>h. h\<lparr>ob_flag := ob_flag h AND NOT RT_TIMER_FLAG_ACTIVATED\<rparr>) s;
          s = upd_timer timer (\<lambda>tm. tm\<lparr>tm_timeout_func := timeout, tm_parameter := parameter,
                tm_timeout_tick := 0, tm_init_tick := time\<rparr>) s
      in rt_list_init (Row timer) s)"

definition rt_timer_init ::
  "timer_ref \<Rightarrow> u8 list \<Rightarrow> timeout_fn \<Rightarrow> void_ptr \<Rightarrow> u32 \<Rightarrow> u8 \<Rightarrow> kernel \<Rightarrow> kernel option" where
  "rt_timer_init timer name timeout parameter time flag s = do {
     s \<leftarrow> rt_object_init (Timer_Obj timer) RT_Object_Class_Timer name s;
     Some (timer_init_fields timer timeout parameter time flag s) }"

text \<open>\<open>_rt_timer_remove\<close>\<close>

definition timer_remove :: "timer_ref \<Rightarrow> kernel \<Rightarrow> kernel option" where
  "timer_remove timer s = rt_list_remove (Row timer) s"

definition rt_timer_stop :: "timer_ref \<Rightarrow> kernel \<Rightarrow> (rt_err \<times> kernel) option" where
  "rt_timer_stop timer s =
     (if ob_flag (objects s (Timer_Obj timer)) AND RT_TIMER_FLAG_ACTIVATED = 0
      then Some (- RT_ERROR, s)
      else do {
        let (level, s) = rt_hw_interrupt_disable s;
        s \<leftarrow> timer_remove timer s;
        let s = rt_hw_interrupt_enable level s;
        let s = upd_object (Timer_Obj timer)
                  (\<lambda>h. h\<lparr>ob_flag := ob_flag h AND NOT RT_TIMER_FLAG_ACTIVATED\<rparr>) s;
        Some (RT_EOK, s) })"

text \<open>
  The third component of the result is what the call leaves in \<open>*arg\<close>; the argument is
  what it found there.
\<close>

definition rt_timer_control :: "timer_ref \<Rightarrow> u32 \<Rightarrow> u32 \<Rightarrow> kernel \<Rightarrow> rt_err \<times> kernel \<times> u32" where
  "rt_timer_control timer cmd arg s =
     (if cmd = RT_TIMER_CTRL_GET_TIME then (RT_EOK, s, tm_init_tick (timers s timer))
      else if cmd = RT_TIMER_CTRL_SET_TIME
      then (RT_EOK, upd_timer timer (\<lambda>tm. tm\<lparr>tm_init_tick := arg\<rparr>) s, arg)
      else if cmd = RT_TIMER_CTRL_SET_ONESHOT
      then (RT_EOK, upd_object (Timer_Obj timer)
              (\<lambda>h. h\<lparr>ob_flag := ob_flag h AND NOT RT_TIMER_FLAG_PERIODIC\<rparr>) s, arg)
      else if cmd = RT_TIMER_CTRL_SET_PERIODIC
      then (RT_EOK, upd_object (Timer_Obj timer)
              (\<lambda>h. h\<lparr>ob_flag := ob_flag h OR RT_TIMER_FLAG_PERIODIC\<rparr>) s, arg)
      else (RT_EOK, s, arg))"

section \<open>Starting\<close>

definition rt_tick_get :: "kernel \<Rightarrow> u32" where
  "rt_tick_get s = rt_tick s"

text \<open>The inner loop: the node behind which the timer goes.\<close>

partial_function (option) timer_start_scan :: "node \<Rightarrow> timer_ref \<Rightarrow> kernel \<Rightarrow> node option" where
  "timer_start_scan row_head timer s =
     (if Some row_head \<noteq> prv s Timer_List_Node then do {
        p \<leftarrow> nxt s row_head;
        t \<leftarrow> timer_entry_of p;
        if tm_timeout_tick (timers s t) - tm_timeout_tick (timers s timer) = 0
        then timer_start_scan p timer s
        else if tm_timeout_tick (timers s t) - tm_timeout_tick (timers s timer) < RT_TICK_HALF
        then Some row_head
        else timer_start_scan p timer s }
      else Some row_head)"

declare timer_start_scan.simps [code]

definition rt_timer_start :: "timer_ref \<Rightarrow> kernel \<Rightarrow> (rt_err \<times> kernel) option" where
  "rt_timer_start timer s = do {
     let (level, s) = rt_hw_interrupt_disable s;
     s \<leftarrow> timer_remove timer s;
     let s = upd_object (Timer_Obj timer)
               (\<lambda>h. h\<lparr>ob_flag := ob_flag h AND NOT RT_TIMER_FLAG_ACTIVATED\<rparr>) s;
     let s = rt_hw_interrupt_enable level s;
     let s = upd_timer timer (\<lambda>tm. tm\<lparr>tm_timeout_tick := rt_tick_get s + tm_init_tick tm\<rparr>) s;
     let (level, s) = rt_hw_interrupt_disable s;
     row_head \<leftarrow> timer_start_scan Timer_List_Node timer s;
     let s = s\<lparr>random_nr := random_nr s + 1\<rparr>;
     s \<leftarrow> rt_list_insert_after row_head (Row timer) s;
     let s = upd_object (Timer_Obj timer)
               (\<lambda>h. h\<lparr>ob_flag := ob_flag h OR RT_TIMER_FLAG_ACTIVATED\<rparr>) s;
     let s = rt_hw_interrupt_enable level s;
     Some (- RT_EOK, s) }"

section \<open>Running out\<close>

partial_function (option) timer_check_loop ::
  "(timeout_fn \<Rightarrow> void_ptr \<Rightarrow> kernel \<Rightarrow> kernel option) \<Rightarrow> u32 \<Rightarrow> kernel \<Rightarrow> kernel option" where
  "timer_check_loop call_timeout current_tick s =
     (if \<not> rt_list_isempty Timer_List_Node s then do {
        n \<leftarrow> nxt s Timer_List_Node;
        t \<leftarrow> timer_entry_of n;
        if current_tick - tm_timeout_tick (timers s t) < RT_TICK_HALF then do {
          s \<leftarrow> timer_remove t s;
          s \<leftarrow> call_timeout (tm_timeout_func (timers s t)) (tm_parameter (timers s t)) s;
          let current_tick = rt_tick_get s;
          if ob_flag (objects s (Timer_Obj t)) AND RT_TIMER_FLAG_PERIODIC \<noteq> 0 \<and>
             ob_flag (objects s (Timer_Obj t)) AND RT_TIMER_FLAG_ACTIVATED \<noteq> 0
          then do {
            (_, s) \<leftarrow> rt_timer_start t (upd_object (Timer_Obj t)
               (\<lambda>h. h\<lparr>ob_flag := ob_flag h AND NOT RT_TIMER_FLAG_ACTIVATED\<rparr>) s);
            timer_check_loop call_timeout current_tick s }
          else timer_check_loop call_timeout current_tick (upd_object (Timer_Obj t)
               (\<lambda>h. h\<lparr>ob_flag := ob_flag h AND NOT RT_TIMER_FLAG_ACTIVATED\<rparr>) s) }
        else Some s }
      else Some s)"

declare timer_check_loop.simps [code]

definition rt_timer_check ::
  "(timeout_fn \<Rightarrow> void_ptr \<Rightarrow> kernel \<Rightarrow> kernel option) \<Rightarrow> kernel \<Rightarrow> kernel option" where
  "rt_timer_check call_timeout s = do {
     let current_tick = rt_tick_get s;
     let (level, s) = rt_hw_interrupt_disable s;
     s \<leftarrow> timer_check_loop call_timeout current_tick s;
     Some (rt_hw_interrupt_enable level s) }"

definition rt_timer_detach :: "timer_ref \<Rightarrow> kernel \<Rightarrow> (rt_err \<times> kernel) option" where
  "rt_timer_detach timer s = do {
     let (level, s) = rt_hw_interrupt_disable s;
     s \<leftarrow> timer_remove timer s;
     let s = rt_hw_interrupt_enable level s;
     s \<leftarrow> rt_object_detach (Timer_Obj timer) s;
     Some (RT_EOK, s) }"

section \<open>The timer list\<close>

text \<open>
  The timers in the list, and the place of a new one. Ticks wrap around, so they are compared
  by their distance from a base tick: \<open>due b f r\<close> ticks after \<open>b\<close> timer \<open>r\<close> runs out. The
  code's comparison is right as long as no distance reaches \<open>RT_TICK_MAX / 2\<close>.
\<close>

type_synonym timer_map = "timer_ref \<Rightarrow> rt_timer"

definition due :: "u32 \<Rightarrow> timer_map \<Rightarrow> timer_ref \<Rightarrow> nat" where
  "due b f r = unat (tm_timeout_tick (f r) - b)"

definition timers_sorted :: "u32 \<Rightarrow> timer_map \<Rightarrow> timer_ref list \<Rightarrow> bool" where
  "timers_sorted b f rs \<longleftrightarrow>
     sorted_wrt (\<lambda>x y. due b f x \<le> due b f y) rs \<and> (\<forall>r\<in>set rs. due b f r < unat RT_TICK_HALF)"

definition timer_stops_scan :: "timer_map \<Rightarrow> timer_ref \<Rightarrow> timer_ref \<Rightarrow> bool" where
  "timer_stops_scan f timer t \<longleftrightarrow>
     tm_timeout_tick (f t) - tm_timeout_tick (f timer) \<noteq> 0 \<and>
     tm_timeout_tick (f t) - tm_timeout_tick (f timer) < RT_TICK_HALF"

lemma timer_start_scan_ring:
  "ring (nxt s) (prv s) Timer_List_Node (map Row (us @ vs)) \<Longrightarrow>
     timer_start_scan (last (Timer_List_Node # map Row us)) timer s =
       Some (last (Timer_List_Node # map Row (us @ takeWhile (\<lambda>t. \<not> timer_stops_scan (timers s) timer t) vs)))"
proof (induction vs arbitrary: us)
  case Nil
  then show ?case using ring_last [of "nxt s" "prv s" Timer_List_Node "map Row us"]
    by (subst timer_start_scan.simps) simp
next
  case (Cons v vs)
  let ?p = "last (Timer_List_Node # map Row us)"
  have d: "distinct (Timer_List_Node # map Row (us @ v # vs))" using Cons.prems by (simp add: ring_def)
  have nx: "nxt s ?p = Some (Row v)"
    using ring_neighbours [of "nxt s" "prv s" Timer_List_Node "map Row us" "Row v # map Row vs"] Cons.prems
    by simp
  have pv: "prv s Timer_List_Node = Some (last (Row v # map Row vs))"
    using ring_last [OF Cons.prems] by simp
  have "?p \<noteq> last (Row v # map Row vs)"
    using d last_in_set [of "Timer_List_Node # map Row us"] last_in_set [of "Row v # map Row vs"]
    by auto
  moreover have "last (Timer_List_Node # map Row us @ [Row v]) = Row v" by simp
  ultimately show ?case
    using nx pv Cons.IH [of "us @ [v]"] Cons.prems
    by (subst timer_start_scan.simps) (auto simp: timer_stops_scan_def simp del: last.simps)
qed

lemma timer_stops_scan_iff:
  assumes "due b f timer < unat RT_TICK_HALF" "due b f t < unat RT_TICK_HALF"
  shows "timer_stops_scan f timer t \<longleftrightarrow> due b f timer < due b f t"
proof -
  let ?d = "tm_timeout_tick (f t) - tm_timeout_tick (f timer)"
  show ?thesis
  proof (cases "due b f timer \<le> due b f t")
    case True
    then have "unat ?d = due b f t - due b f timer"
      using unat_diff_mono_iff [of "tm_timeout_tick (f timer)" b "tm_timeout_tick (f t)"]
      by (simp add: due_def)
    then show ?thesis using True assms
      by (auto simp: timer_stops_scan_def word_less_nat_alt simp flip: unat_eq_zero)
  next
    case False
    then have "unat ?d = 2 ^ 32 - (due b f timer - due b f t)"
      using unat_diff_wrap [of "tm_timeout_tick (f t)" b "tm_timeout_tick (f timer)"]
      by (simp add: due_def)
    then have "\<not> ?d < RT_TICK_HALF" using False assms by (simp add: word_less_nat_alt)
    then show ?thesis using False by (simp add: timer_stops_scan_def)
  qed
qed

text \<open>The list with the new timer behind all that run out no later.\<close>

definition timer_insert :: "u32 \<Rightarrow> timer_map \<Rightarrow> timer_ref \<Rightarrow> timer_ref list \<Rightarrow> timer_ref list" where
  "timer_insert b f timer rs =
     takeWhile (\<lambda>r. due b f r \<le> due b f timer) rs @ timer #
     dropWhile (\<lambda>r. due b f r \<le> due b f timer) rs"

lemma set_timer_insert [simp]: "set (timer_insert b f timer rs) = insert timer (set rs)"
proof -
  have "set rs = set (takeWhile P rs) \<union> set (dropWhile P rs)" for P
    by (metis set_append takeWhile_dropWhile_id)
  then show ?thesis unfolding timer_insert_def by auto
qed

lemma timers_sorted_insert:
  assumes "timers_sorted b f rs" "due b f timer < unat RT_TICK_HALF"
  shows "timers_sorted b f (timer_insert b f timer rs)"
proof -
  let ?P = "\<lambda>r. due b f r \<le> due b f timer" and ?R = "\<lambda>x y. due b f x \<le> due b f y"
  let ?us = "takeWhile ?P rs" and ?vs = "dropWhile ?P rs"
  have s: "sorted_wrt ?R ?us" "sorted_wrt ?R ?vs" "\<forall>x\<in>set ?us. \<forall>y\<in>set ?vs. ?R x y"
    using assms(1) sorted_wrt_append [of ?R ?us ?vs] by (simp_all add: timers_sorted_def)
  have "due b f timer \<le> due b f v" if v: "v \<in> set ?vs" for v
  proof -
    obtain w ws where w: "?vs = w # ws" using v by (cases ?vs) auto
    then have "due b f timer < due b f w" using hd_dropWhile [of ?P rs] by auto
    moreover have "due b f w \<le> due b f v" using s(2) w v by auto
    ultimately show ?thesis by simp
  qed
  then have v: "sorted_wrt ?R (timer # ?vs)" using s(2) by simp
  have u: "due b f u \<le> due b f timer" if "u \<in> set ?us" for u
    using that by (auto dest: set_takeWhileD)
  have "sorted_wrt ?R (timer_insert b f timer rs)"
    unfolding timer_insert_def sorted_wrt_append
  proof (intro conjI ballI s(1) v)
    fix x y
    assume x: "x \<in> set ?us" and "y \<in> set (timer # ?vs)"
    then consider "y = timer" | "y \<in> set ?vs" by auto
    then show "due b f x \<le> due b f y"
    proof cases
      case 1
      then show ?thesis using u [OF x] by simp
    next
      case 2
      then show ?thesis using s(3) x by blast
    qed
  qed
  then show ?thesis using assms by (auto simp: timers_sorted_def)
qed

lemma timers_sorted_remove1: "timers_sorted b f rs \<Longrightarrow> timers_sorted b f (remove1 r rs)"
  by (auto simp: timers_sorted_def intro: sorted_wrt_remove1 dest: notin_set_remove1)

lemma due_cong: "tm_timeout_tick (f' r) = tm_timeout_tick (f r) \<Longrightarrow> due b f' r = due b f r"
  by (simp add: due_def)

lemma timers_sorted_cong:
  assumes "\<And>r. r \<in> set rs \<Longrightarrow> tm_timeout_tick (f' r) = tm_timeout_tick (f r)"
  shows "timers_sorted b f' rs = timers_sorted b f rs"
proof -
  have "sorted_wrt (\<lambda>x y. due b f' x \<le> due b f' y) rs = sorted_wrt (\<lambda>x y. due b f x \<le> due b f y) rs"
    by (rule iffI; erule sorted_wrt_mono_rel [rotated]) (simp_all add: due_cong [OF assms])
  then show ?thesis by (auto simp: timers_sorted_def due_cong [OF assms])
qed

section \<open>What the operations do\<close>

lemma takeWhile_due:
  assumes "timers_sorted b f rs" "due b f timer < unat RT_TICK_HALF"
  shows "takeWhile (\<lambda>t. \<not> timer_stops_scan f timer t) rs = takeWhile (\<lambda>r. due b f r \<le> due b f timer) rs"
  using assms timer_stops_scan_iff [OF assms(2)]
  by (intro takeWhile_cong) (auto simp: timers_sorted_def not_less)

definition timer_stopped :: "timer_ref \<Rightarrow> kernel \<Rightarrow> kernel" where
  "timer_stopped timer s =
     upd_object (Timer_Obj timer) (\<lambda>h. h\<lparr>ob_flag := ob_flag h AND NOT RT_TIMER_FLAG_ACTIVATED\<rparr>) s"

lemma rt_timer_stop_inactive:
  "ob_flag (objects s (Timer_Obj timer)) AND RT_TIMER_FLAG_ACTIVATED = 0 \<Longrightarrow>
     rt_timer_stop timer s = Some (- RT_ERROR, s)"
  by (simp add: rt_timer_stop_def)

lemma rt_timer_stop_active:
  assumes "lay (nxt s) (prv s) L" "linked L (Row timer)"
    and "ob_flag (objects s (Timer_Obj timer)) AND RT_TIMER_FLAG_ACTIVATED \<noteq> 0"
  shows "returns (rt_timer_stop timer s) RT_EOK (timer_stopped timer s) (unlink (Row timer) L)"
  unfolding rt_timer_stop_def hw_defs Let_def prod.case timer_remove_def if_not_P [OF assms(3)]
  by (rule succeeds_bind [OF remove_succeeds])
     (use assms in \<open>auto intro!: returns_Some simp: timer_stopped_def\<close>)

lemma flag_reactivate: "f AND - 2 OR 1 = f OR (1 :: u8)"
proof -
  have "f AND NOT 1 OR 1 = f OR 1" by (rule bit_word_eqI) (auto simp: bit_simps)
  then show ?thesis by simp
qed

text \<open>The timers after \<open>timer\<close> has been given its next timeout.\<close>

definition rearmed :: "timer_ref \<Rightarrow> kernel \<Rightarrow> timer_map" where
  "rearmed timer s = (timers s)(timer :=
     (timers s timer)\<lparr>tm_timeout_tick := rt_tick s + tm_init_tick (timers s timer)\<rparr>)"

definition timer_started :: "timer_ref \<Rightarrow> kernel \<Rightarrow> kernel" where
  "timer_started timer s =
     upd_object (Timer_Obj timer) (\<lambda>h. h\<lparr>ob_flag := ob_flag h OR RT_TIMER_FLAG_ACTIVATED\<rparr>)
       (s\<lparr>timers := rearmed timer s, random_nr := random_nr s + 1\<rparr>)"

lemma rt_timer_start_ok:
  assumes lay: "lay (nxt s) (prv s) L" and TL: "L Timer_List_Node = Some (map Row rs)"
    and n: "linked L (Row timer)" and srt: "timers_sorted b (timers s) rs"
    and bnd: "unat (rt_tick s + tm_init_tick (timers s timer) - b) < unat RT_TICK_HALF"
  shows "returns (rt_timer_start timer s) RT_EOK (timer_started timer s)
    (put_list Timer_List_Node
      (map Row (timer_insert b (rearmed timer s) timer (remove1 timer rs)))
      (Row timer) (unlink (Row timer) L))"
proof -
  let ?L = "unlink (Row timer) L" and ?rs = "remove1 timer rs" and ?f = "rearmed timer s"
  define us where "us = takeWhile (\<lambda>r. due b ?f r \<le> due b ?f timer) ?rs"
  define vs where "vs = dropWhile (\<lambda>r. due b ?f r \<le> due b ?f timer) ?rs"
  have TL1: "?L Timer_List_Node = Some (map Row ?rs)"
    using TL by (simp add: map_remove1 inj_def)
  have split: "?L Timer_List_Node = Some (map Row us @ map Row vs)"
    using TL1 by (simp add: us_def vs_def flip: map_append)
  have dist: "distinct rs" using lay_distinct [OF lay TL] by (simp add: distinct_map)
  have "timers_sorted b ?f ?rs = timers_sorted b (timers s) ?rs"
    using dist by (intro timers_sorted_cong) (auto simp: rearmed_def)
  then have srt2: "timers_sorted b ?f ?rs" using timers_sorted_remove1 [OF srt] by simp
  have bnd2: "due b ?f timer < unat RT_TICK_HALF" using bnd by (simp add: due_def rearmed_def)
  have scan: "timer_start_scan Timer_List_Node timer s' = Some (last (Timer_List_Node # map Row us))"
    if "lay (nxt s') (prv s') ?L" "timers s' = ?f" for s' :: kernel
    using timer_start_scan_ring [of s' "[]" ?rs timer] ringsD [OF lay_rings [OF that(1)] TL1] that(2)
      takeWhile_due [OF srt2 bnd2] by (simp add: us_def)
  have new: "map Row (timer_insert b ?f timer ?rs) = map Row us @ Row timer # map Row vs"
    by (simp add: timer_insert_def us_def vs_def)
  show ?thesis
    unfolding new rt_timer_start_def timer_remove_def hw_defs rt_tick_get_def Let_def prod.case
  proof (rule succeeds_bind [OF remove_succeeds [where L = L]], goal_cases)
    case (4 nx pv)
    show ?case
    proof (subst scan, goal_cases)
      case 3
      show ?case unfolding Option.bind.bind_lunit
      proof (rule succeeds_bind [OF insert_after_succeeds [where L = ?L, OF _ split]], goal_cases)
        case (5 nx' pv')
        then show ?case
          by (intro returns_Some)
             (simp_all add: timer_started_def rearmed_def flag_reactivate RT_EOK_def)
      qed (use 4 in simp_all)
    qed (use 4 in \<open>simp_all add: rearmed_def\<close>)
  qed (use lay n in simp_all)
qed

lemma rt_timer_detach_ok:
  assumes "lay (nxt s) (prv s) L" "linked L (Row timer)" "linked L (Obj_List (Timer_Obj timer))"
  shows "returns (rt_timer_detach timer s) RT_EOK s
    (unlink (Obj_List (Timer_Obj timer)) (unlink (Row timer) L))"
  unfolding rt_timer_detach_def hw_defs Let_def prod.case timer_remove_def
  by (rule succeeds_bind [OF remove_succeeds], use assms in simp_all,
      rule succeeds_bind [OF rt_object_detach_ok [where L = "unlink (Row timer) L"]])
     (use assms in \<open>auto intro!: returns_Some simp: linked_unlink_leaf\<close>)

end
