(* ===== verification/Scheduler.thy ===== *)
theory Scheduler
  imports Cpuport Timer
begin

text \<open>
  \<open>rtt_source/scheduler.c\<close>: one list of ready threads per priority, the word whose bit \<open>p\<close>
  says that the list of priority \<open>p\<close> is not empty, and the choice of the next thread.
\<close>

section \<open>Initialisation and start\<close>

definition rt_system_scheduler_init :: "kernel \<Rightarrow> kernel" where
  "rt_system_scheduler_init s =
     (let s = fold (\<lambda>offset. rt_list_init (Prio_Node offset)) [0..<RT_THREAD_PRIORITY_MAX] s;
          s = s\<lparr>rt_current_priority := of_nat (RT_THREAD_PRIORITY_MAX - 1)\<rparr>;
          s = s\<lparr>rt_current_thread := None\<rparr>
      in s\<lparr>rt_thread_ready_priority_group := 0\<rparr>)"

text \<open>
  \<open>&rt_thread_priority_table[i]\<close> for an index computed at run time, and the first thread of
  that list. An index outside the table is undefined behaviour.
\<close>

definition priority_table :: "nat \<Rightarrow> node option" where
  "priority_table i = (if i < RT_THREAD_PRIORITY_MAX then Some (Prio_Node i) else None)"

definition first_thread :: "nat \<Rightarrow> kernel \<Rightarrow> nat option" where
  "first_thread i s = do {
     head \<leftarrow> priority_table i;
     n \<leftarrow> nxt s head;
     thread_entry_of n }"

definition rt_system_scheduler_start :: "kernel \<Rightarrow> kernel option" where
  "rt_system_scheduler_start s = do {
     let highest_ready_priority = rt_ffs (rt_thread_ready_priority_group s) - 1;
     to_thread \<leftarrow> first_thread (unat highest_ready_priority) s;
     let s = s\<lparr>rt_current_thread := Some to_thread\<rparr>;
     Some (rt_hw_context_switch_to to_thread s) }"

section \<open>Ready lists\<close>

definition rt_schedule_insert_thread :: "nat \<Rightarrow> kernel \<Rightarrow> kernel option" where
  "rt_schedule_insert_thread thread s = do {
     let (temp, s) = rt_hw_interrupt_disable s;
     let s = upd_thread thread (\<lambda>th. th\<lparr>th_stat := RT_THREAD_READY\<rparr>) s;
     head \<leftarrow> priority_table (unat (th_current_priority (threads s thread)));
     s \<leftarrow> rt_list_insert_before head (Tlist thread) s;
     let s = s\<lparr>rt_thread_ready_priority_group :=
               rt_thread_ready_priority_group s OR th_number_mask (threads s thread)\<rparr>;
     Some (rt_hw_interrupt_enable temp s) }"

definition rt_schedule_remove_thread :: "nat \<Rightarrow> kernel \<Rightarrow> kernel option" where
  "rt_schedule_remove_thread thread s = do {
     let (temp, s) = rt_hw_interrupt_disable s;
     s \<leftarrow> rt_list_remove (Tlist thread) s;
     head \<leftarrow> priority_table (unat (th_current_priority (threads s thread)));
     let s = (if rt_list_isempty head s
              then s\<lparr>rt_thread_ready_priority_group :=
                     rt_thread_ready_priority_group s AND NOT (th_number_mask (threads s thread))\<rparr>
              else s);
     Some (rt_hw_interrupt_enable temp s) }"

section \<open>The scheduler\<close>

text \<open>
  The context switch that the last statements request takes place in PendSV, once interrupts
  are unmasked again; what follows \<open>rt_schedule()\<close> in its callers runs when the thread is
  chosen next.
\<close>

definition rt_schedule :: "kernel \<Rightarrow> kernel option" where
  "rt_schedule s = do {
     let (level, s) = rt_hw_interrupt_disable s;
     let highest_ready_priority = rt_ffs (rt_thread_ready_priority_group s) - 1;
     to_thread \<leftarrow> first_thread (unat highest_ready_priority) s;
     s \<leftarrow> (if rt_scheduler_lock_nest s = 0 then
             (if Some to_thread \<noteq> rt_current_thread s then do {
                let s = s\<lparr>rt_current_priority := ucast highest_ready_priority\<rparr>;
                from_thread \<leftarrow> rt_current_thread s;
                let s = s\<lparr>rt_current_thread := Some to_thread\<rparr>;
                Some (rt_hw_context_switch from_thread to_thread s) }
              else Some s)
           else Some s);
     Some (rt_hw_interrupt_enable level s) }"

section \<open>The scheduler lock\<close>

definition rt_enter_critical :: "kernel \<Rightarrow> kernel" where
  "rt_enter_critical s =
     (let (level, s) = rt_hw_interrupt_disable s;
          s = (if sint (rt_scheduler_lock_nest s) < 255
               then s\<lparr>rt_scheduler_lock_nest := rt_scheduler_lock_nest s + 1\<rparr> else s)
      in rt_hw_interrupt_enable level s)"

definition rt_exit_critical :: "kernel \<Rightarrow> kernel option" where
  "rt_exit_critical s =
     (let (level, s) = rt_hw_interrupt_disable s;
          s = s\<lparr>rt_scheduler_lock_nest := rt_scheduler_lock_nest s - 1\<rparr>
      in if sint (rt_scheduler_lock_nest s) \<le> 0
         then
           (let s = s\<lparr>rt_scheduler_lock_nest := 0\<rparr>;
                s = rt_hw_interrupt_enable level s
            in if rt_current_thread s \<noteq> None then rt_schedule s else Some s)
         else Some (rt_hw_interrupt_enable level s))"

section \<open>What the operations do\<close>

abbreviation prio_of :: "nat \<Rightarrow> kernel \<Rightarrow> nat" where
  "prio_of thread s \<equiv> unat (th_current_priority (threads s thread))"

definition made_ready :: "nat \<Rightarrow> kernel \<Rightarrow> kernel" where
  "made_ready thread s = upd_thread thread (\<lambda>th. th\<lparr>th_stat := RT_THREAD_READY\<rparr>)
     (s\<lparr>rt_thread_ready_priority_group :=
        rt_thread_ready_priority_group s OR th_number_mask (threads s thread)\<rparr>)"

lemma rt_schedule_insert_thread_ok:
  assumes "lay (nxt s) (prv s) L" "prio_of thread s < 32"
    and "L (Prio_Node (prio_of thread s)) = Some xs" "free_node L (Tlist thread)"
  shows "succeeds (rt_schedule_insert_thread thread s) (made_ready thread s)
    (put_list (Prio_Node (prio_of thread s)) (xs @ [Tlist thread]) (Tlist thread) L)"
  using assms(2) unfolding rt_schedule_insert_thread_def hw_defs Let_def prod.case
  apply (simp add: priority_table_def)
  apply (rule succeeds_bind [OF append_succeeds [where L = L, OF _ assms(3,4)]])
  using assms by (auto simp: made_ready_def intro!: succeeds_Some)

definition made_unready :: "nat \<Rightarrow> bool \<Rightarrow> kernel \<Rightarrow> kernel" where
  "made_unready thread emptied s =
     (if emptied then s\<lparr>rt_thread_ready_priority_group :=
        rt_thread_ready_priority_group s AND NOT (th_number_mask (threads s thread))\<rparr> else s)"

lemma rt_schedule_remove_thread_ok:
  assumes "lay (nxt s) (prv s) L" "linked L (Tlist thread)"
    and "prio_of thread s < 32" "L (Prio_Node (prio_of thread s)) = Some xs"
  shows "succeeds (rt_schedule_remove_thread thread s)
    (made_unready thread (remove1 (Tlist thread) xs = []) s) (unlink (Tlist thread) L)"
  unfolding rt_schedule_remove_thread_def hw_defs Let_def prod.case
proof (rule succeeds_bind [OF remove_succeeds [where L = L]], goal_cases)
  case (4 nx pv)
  have "rt_list_isempty (Prio_Node (prio_of thread s)) (s\<lparr>primask := True, nxt := nx, prv := pv\<rparr>) \<longleftrightarrow>
      remove1 (Tlist thread) xs = []"
    using 4 assms(4) by (intro lay_isempty [where L = "unlink (Tlist thread) L"]) auto
  then show ?case using 4 assms
    by (auto simp: priority_table_def made_unready_def intro!: succeeds_Some)
qed (use assms in simp_all)

text \<open>
  What a call of the scheduler leaves when \<open>to\<close> is the thread it chooses: nothing while the
  scheduler is locked or the thread runs already, else the request to switch.
\<close>

definition switched :: "nat \<Rightarrow> kernel \<Rightarrow> kernel" where
  "switched to s =
     (if rt_scheduler_lock_nest s \<noteq> 0 \<or> rt_current_thread s = Some to then s
      else rt_hw_context_switch (the (rt_current_thread s)) to
        (s\<lparr>rt_current_thread := Some to,
           rt_current_priority := of_nat (unat (rt_ffs (rt_thread_ready_priority_group s) - 1))\<rparr>))"

lemma rt_schedule_ok:
  assumes "lay (nxt s) (prv s) L" "lowest_set (rt_thread_ready_priority_group s) p" "p < 32"
    and "L (Prio_Node p) = Some (Tlist t # xs)" "rt_current_thread s \<noteq> None"
  shows "rt_schedule s = Some (switched t s)"
proof -
  have f: "unat (rt_ffs (rt_thread_ready_priority_group s) - 1) = p"
    using assms(2) by (rule rt_ffs_minus_one)
  have n: "nxt s (Prio_Node p) = Some (Tlist t)"
    using lay_nxt [OF assms(1,4)] by simp
  have u: "ucast (rt_ffs (rt_thread_ready_priority_group s) - 1) = (of_nat p :: u8)"
    unfolding f [symmetric] by simp
  show ?thesis using assms(3,5) n u
    by (auto simp: rt_schedule_def hw_defs f first_thread_def priority_table_def switched_def
        rt_hw_context_switch_def split: if_splits)
qed

lemma rt_schedule_no_ready:
  assumes "rt_thread_ready_priority_group s = 0"
  shows "rt_schedule s = None"
proof -
  have "rt_ffs 0 - 1 = (- 1 :: u32)" by (simp add: rt_ffs_zero)
  then have "priority_table (unat (rt_ffs (rt_thread_ready_priority_group s) - 1)) = None"
    by (simp only: assms priority_table_def) (simp add: unsigned_minus_1_eq_mask mask_eq_exp_minus_1)
  then show ?thesis by (simp add: rt_schedule_def hw_defs first_thread_def)
qed

lemma switched_simps [simp]:
  "nxt (switched t s) = nxt s" "prv (switched t s) = prv s" "objects (switched t s) = objects s"
  "threads (switched t s) = threads s" "timers (switched t s) = timers s"
  "semaphores (switched t s) = semaphores s" "rt_tick (switched t s) = rt_tick s"
  "rt_thread_ready_priority_group (switched t s) = rt_thread_ready_priority_group s"
  "rt_object_container (switched t s) = rt_object_container s"
  "rt_scheduler_lock_nest (switched t s) = rt_scheduler_lock_nest s"
  "primask (switched t s) = primask s"
  "memory (switched t s) = memory s"
  "rt_current_thread (switched t s) =
     (if rt_scheduler_lock_nest s \<noteq> 0 then rt_current_thread s else Some t)"
  by (auto simp: switched_def rt_hw_context_switch_def)

lemma switched_links:
  "switched t (s\<lparr>nxt := nx, prv := pv\<rparr>) = (switched t s)\<lparr>nxt := nx, prv := pv\<rparr>"
  by (simp add: switched_def rt_hw_context_switch_def)

end
