(* ===== verification/Thread.thy ===== *)
theory Thread
  imports Scheduler
begin

text \<open>
  \<open>rtt_source/thread.c\<close>: the life of a thread, from its initialisation to its removal, and
  the function its timer calls when a wait has run out.
\<close>

section \<open>Initialisation\<close>

definition rt_thread_init ::
  "nat \<Rightarrow> u8 list \<Rightarrow> u32 \<Rightarrow> u32 \<Rightarrow> u32 \<Rightarrow> u32 \<Rightarrow> u8 \<Rightarrow> u32 \<Rightarrow> kernel \<Rightarrow> (rt_err \<times> kernel) option" where
  "rt_thread_init thread name entry parameter stack_start stack_size priority tick s = do {
     s \<leftarrow> rt_object_init (Thread_Obj thread) RT_Object_Class_Thread name s;
     let s = rt_list_init (Tlist thread) s;
     let s = upd_thread thread (\<lambda>th. th\<lparr>th_entry := entry, th_parameter := parameter,
               th_stack_addr := stack_start, th_stack_size := stack_size\<rparr>) s;
     let (stk, m) = rt_hw_stack_init (th_entry (threads s thread)) (th_parameter (threads s thread))
               (th_stack_addr (threads s thread) + th_stack_size (threads s thread) - 4) (memory s);
     let s = upd_thread thread (\<lambda>th. th\<lparr>th_sp := stk\<rparr>) (s\<lparr>memory := m\<rparr>);
     let s = upd_thread thread (\<lambda>th. th\<lparr>th_init_priority := priority,
               th_current_priority := priority, th_number_mask := 0,
               th_error := RT_EOK, th_stat := RT_THREAD_INIT,
               th_init_tick := tick, th_remaining_tick := tick\<rparr>) s;
     s \<leftarrow> rt_timer_init (Thread_Timer thread) (ob_name (objects s (Thread_Obj thread)))
               Fn_rt_thread_timeout (Thread_Ptr thread) 0 RT_TIMER_FLAG_ONE_SHOT s;
     Some (RT_EOK, s) }"

section \<open>Ready and suspended\<close>

definition thread_state :: "nat \<Rightarrow> kernel \<Rightarrow> u8" where
  "thread_state thread s = th_stat (threads s thread) AND RT_THREAD_STAT_MASK"

definition rt_thread_self :: "kernel \<Rightarrow> nat option" where
  "rt_thread_self s = rt_current_thread s"

definition rt_thread_resume :: "nat \<Rightarrow> kernel \<Rightarrow> (rt_err \<times> kernel) option" where
  "rt_thread_resume thread s =
     (if thread_state thread s \<noteq> RT_THREAD_SUSPEND then Some (- RT_ERROR, s)
      else do {
        let (temp, s) = rt_hw_interrupt_disable s;
        s \<leftarrow> rt_list_remove (Tlist thread) s;
        let s = rt_hw_interrupt_enable temp s;
        s \<leftarrow> rt_schedule_insert_thread thread s;
        Some (RT_EOK, s) })"

definition rt_thread_startup :: "nat \<Rightarrow> kernel \<Rightarrow> (rt_err \<times> kernel) option" where
  "rt_thread_startup thread s = do {
     let s = upd_thread thread (\<lambda>th. th\<lparr>th_current_priority := th_init_priority th\<rparr>) s;
     let s = upd_thread thread (\<lambda>th. th\<lparr>th_number_mask :=
               push_bit (unat (th_current_priority th)) 1\<rparr>) s;
     let s = upd_thread thread (\<lambda>th. th\<lparr>th_stat := RT_THREAD_SUSPEND\<rparr>) s;
     (_, s) \<leftarrow> rt_thread_resume thread s;
     s \<leftarrow> (if rt_thread_self s \<noteq> None then rt_schedule s else Some s);
     Some (RT_EOK, s) }"

definition rt_thread_suspend :: "nat \<Rightarrow> kernel \<Rightarrow> (rt_err \<times> kernel) option" where
  "rt_thread_suspend thread s =
     (if thread_state thread s \<noteq> RT_THREAD_READY then Some (- RT_ERROR, s)
      else do {
        let (temp, s) = rt_hw_interrupt_disable s;
        let s = upd_thread thread (\<lambda>th. th\<lparr>th_stat := RT_THREAD_SUSPEND\<rparr>) s;
        s \<leftarrow> rt_schedule_remove_thread thread s;
        (_, s) \<leftarrow> rt_timer_stop (Thread_Timer thread) s;
        Some (RT_EOK, rt_hw_interrupt_enable temp s) })"

definition rt_thread_sleep :: "u32 \<Rightarrow> kernel \<Rightarrow> (rt_err \<times> kernel) option" where
  "rt_thread_sleep tick s = do {
     let (temp, s) = rt_hw_interrupt_disable s;
     thread \<leftarrow> rt_current_thread s;
     (_, s) \<leftarrow> rt_thread_suspend thread s;
     let (_, s, tick) = rt_timer_control (Thread_Timer thread) RT_TIMER_CTRL_SET_TIME tick s;
     (_, s) \<leftarrow> rt_timer_start (Thread_Timer thread) s;
     let s = rt_hw_interrupt_enable temp s;
     s \<leftarrow> rt_schedule s;
     Some (RT_EOK, s) }"

definition rt_thread_delay :: "u32 \<Rightarrow> kernel \<Rightarrow> (rt_err \<times> kernel) option" where
  "rt_thread_delay tick s = rt_thread_sleep tick s"

definition rt_thread_timeout :: "void_ptr \<Rightarrow> kernel \<Rightarrow> kernel option" where
  "rt_thread_timeout parameter s = do {
     thread \<leftarrow> (case parameter of Thread_Ptr t \<Rightarrow> Some t | _ \<Rightarrow> None);
     let s = upd_thread thread (\<lambda>th. th\<lparr>th_error := - RT_ETIMEOUT\<rparr>) s;
     s \<leftarrow> rt_list_remove (Tlist thread) s;
     s \<leftarrow> rt_schedule_insert_thread thread s;
     rt_schedule s }"

definition rt_thread_yield :: "kernel \<Rightarrow> (rt_err \<times> kernel) option" where
  "rt_thread_yield s = do {
     let (level, s) = rt_hw_interrupt_disable s;
     thread \<leftarrow> rt_current_thread s;
     if thread_state thread s = RT_THREAD_READY \<and> nxt s (Tlist thread) \<noteq> prv s (Tlist thread)
     then do {
       s \<leftarrow> rt_list_remove (Tlist thread) s;
       head \<leftarrow> priority_table (unat (th_current_priority (threads s thread)));
       s \<leftarrow> rt_list_insert_before head (Tlist thread) s;
       let s = rt_hw_interrupt_enable level s;
       s \<leftarrow> rt_schedule s;
       Some (RT_EOK, s) }
     else Some (RT_EOK, rt_hw_interrupt_enable level s) }"

section \<open>Removal\<close>

definition rt_thread_delete :: "nat \<Rightarrow> kernel \<Rightarrow> (rt_err \<times> kernel) option" where
  "rt_thread_delete thread s = do {
     s \<leftarrow> (if thread_state thread s \<noteq> RT_THREAD_INIT
           then rt_schedule_remove_thread thread s else Some s);
     (_, s) \<leftarrow> rt_timer_detach (Thread_Timer thread) s;
     let s = upd_thread thread (\<lambda>th. th\<lparr>th_stat := RT_THREAD_CLOSE\<rparr>) s;
     let (lock, s) = rt_hw_interrupt_disable s;
     s \<leftarrow> rt_list_insert_after Defunct_Node (Tlist thread) s;
     Some (RT_EOK, rt_hw_interrupt_enable lock s) }"

definition rt_thread_detach :: "nat \<Rightarrow> kernel \<Rightarrow> (rt_err \<times> kernel) option" where
  "rt_thread_detach thread s = do {
     s \<leftarrow> (if thread_state thread s \<noteq> RT_THREAD_INIT
           then rt_schedule_remove_thread thread s else Some s);
     (_, s) \<leftarrow> rt_timer_detach (Thread_Timer thread) s;
     let s = upd_thread thread (\<lambda>th. th\<lparr>th_stat := RT_THREAD_CLOSE\<rparr>) s;
     if rt_object_is_systemobject (Thread_Obj thread) s \<and> th_cleanup (threads s thread) = 0
     then do {
       s \<leftarrow> rt_object_detach (Thread_Obj thread) s;
       Some (RT_EOK, s) }
     else do {
       let (lock, s) = rt_hw_interrupt_disable s;
       s \<leftarrow> rt_list_insert_after Defunct_Node (Tlist thread) s;
       Some (RT_EOK, rt_hw_interrupt_enable lock s) } }"

definition rt_thread_getinfo :: "nat \<Rightarrow> kernel \<Rightarrow> thread_info" where
  "rt_thread_getinfo thread s =
     \<lparr>ti_delayticks = th_init_tick (threads s thread),
      ti_prio = ucast (th_current_priority (threads s thread)),
      ti_state = ucast (th_stat (threads s thread)),
      ti_left_ticks = th_remaining_tick (threads s thread)\<rparr>"

section \<open>What the operations do\<close>

text \<open>A thread at the tail of a list, wherever it was before.\<close>

definition to_tail :: "node \<Rightarrow> node \<Rightarrow> node layout \<Rightarrow> node layout" where
  "to_tail h n L = put_list h (the (unlink n L h) @ [n]) n (unlink n L)"

lemma rt_thread_resume_not_suspended:
  "thread_state t s \<noteq> RT_THREAD_SUSPEND \<Longrightarrow> rt_thread_resume t s = Some (- RT_ERROR, s)"
  by (simp add: rt_thread_resume_def)

lemma readied_succeeds:
  assumes "lay (nxt s) (prv s) L" "linked L (Tlist t)" "prio_of t s < 32"
    and "L (Prio_Node (prio_of t s)) = Some xs"
  shows "succeeds (Option.bind (rt_list_remove (Tlist t) s) (rt_schedule_insert_thread t))
    (made_ready t s) (to_tail (Prio_Node (prio_of t s)) (Tlist t) L)"
proof (rule succeeds_bind [OF remove_succeeds [where L = L]], goal_cases)
  case (4 nx pv)
  have "succeeds (rt_schedule_insert_thread t (s\<lparr>nxt := nx, prv := pv\<rparr>))
      (made_ready t (s\<lparr>nxt := nx, prv := pv\<rparr>))
      (to_tail (Prio_Node (prio_of t s)) (Tlist t) L)"
    using rt_schedule_insert_thread_ok [of "s\<lparr>nxt := nx, prv := pv\<rparr>" "unlink (Tlist t) L" t]
      4 assms by (simp add: to_tail_def)
  then show ?case by (rule succeeds_links) (simp add: made_ready_def)
qed (use assms in simp_all)

lemma rt_thread_resume_eq:
  assumes "thread_state t s = RT_THREAD_SUSPEND"
  shows "rt_thread_resume t s =
    map_option (Pair RT_EOK) (Option.bind (rt_list_remove (Tlist t) s) (rt_schedule_insert_thread t))"
  using assms
  by (auto simp: rt_thread_resume_def hw_defs rt_list_remove_def Let_def split: Option.bind_splits
      option.splits)

lemma rt_thread_resume_ok:
  assumes "lay (nxt s) (prv s) L" "linked L (Tlist t)" "prio_of t s < 32"
    and "L (Prio_Node (prio_of t s)) = Some xs" "thread_state t s = RT_THREAD_SUSPEND"
  shows "returns (rt_thread_resume t s) RT_EOK (made_ready t s)
    (to_tail (Prio_Node (prio_of t s)) (Tlist t) L)"
  unfolding rt_thread_resume_eq [OF assms(5)]
  using readied_succeeds [OF assms(1-4)] by (auto simp: succeeds_def returns_def)

lemma succeeds_bind_snd:
  assumes "succeeds (map_option snd m) s L"
    and "\<And>nx pv. lay nx pv L \<Longrightarrow> P (f (s\<lparr>nxt := nx, prv := pv\<rparr>))"
  shows "P (Option.bind m (\<lambda>(_, s). f s))"
  using assms by (cases m) (auto simp: succeeds_def)

lemma returns_succeeds: "returns m r s L \<Longrightarrow> succeeds (map_option snd m) s L"
  by (auto simp: returns_def succeeds_def)

text \<open>\<open>rt_timer_stop\<close> takes the timer out of its list if it is marked active.\<close>

definition halt :: "timer_ref \<Rightarrow> kernel \<Rightarrow> node layout \<Rightarrow> node layout" where
  "halt r s L = (if ob_flag (objects s (Timer_Obj r)) AND RT_TIMER_FLAG_ACTIVATED = 0 then L
                 else unlink (Row r) L)"

lemma flag_inactive: "f AND 1 = 0 \<Longrightarrow> f AND - 2 = f" for f :: u8
proof -
  assume "f AND 1 = 0"
  then have "\<not> bit f 0" by (simp add: bit_0 and_one_eq odd_iff_mod_2_eq_one)
  then have "f AND NOT 1 = f" by (intro bit_word_eqI) (auto simp: bit_simps intro: ccontr)
  then show ?thesis by simp
qed

lemma timer_stopped_inactive:
  "ob_flag (objects s (Timer_Obj r)) AND RT_TIMER_FLAG_ACTIVATED = 0 \<Longrightarrow> timer_stopped r s = s"
  by (simp add: timer_stopped_def flag_inactive)

lemma rt_timer_stop_succeeds:
  assumes "lay (nxt s) (prv s) L" "linked L (Row r)"
  shows "succeeds (map_option snd (rt_timer_stop r s)) (timer_stopped r s) (halt r s L)"
proof (cases "ob_flag (objects s (Timer_Obj r)) AND RT_TIMER_FLAG_ACTIVATED = 0")
  case True
  then show ?thesis using assms
    by (simp add: rt_timer_stop_inactive timer_stopped_inactive halt_def succeeds_Some)
next
  case False
  then show ?thesis using returns_succeeds [OF rt_timer_stop_active [OF assms]]
    by (simp add: halt_def)
qed

definition suspended :: "nat \<Rightarrow> bool \<Rightarrow> kernel \<Rightarrow> kernel" where
  "suspended t emptied s = timer_stopped (Thread_Timer t) (made_unready t emptied
     (upd_thread t (\<lambda>th. th\<lparr>th_stat := RT_THREAD_SUSPEND\<rparr>) s))"

lemma rt_thread_suspend_not_ready:
  "thread_state t s \<noteq> RT_THREAD_READY \<Longrightarrow> rt_thread_suspend t s = Some (- RT_ERROR, s)"
  by (simp add: rt_thread_suspend_def)

lemma rt_thread_suspend_ok:
  assumes "lay (nxt s) (prv s) L" "linked L (Tlist t)" "linked L (Row (Thread_Timer t))"
    and "prio_of t s < 32" "L (Prio_Node (prio_of t s)) = Some xs" "thread_state t s = RT_THREAD_READY"
  shows "returns (rt_thread_suspend t s) RT_EOK (suspended t (remove1 (Tlist t) xs = []) s)
    (halt (Thread_Timer t) s (unlink (Tlist t) L))"
proof -
  let ?s = "upd_thread t (\<lambda>th. th\<lparr>th_stat := RT_THREAD_SUSPEND\<rparr>) (s\<lparr>primask := True\<rparr>)"
  have rm: "succeeds (rt_schedule_remove_thread t ?s)
      (made_unready t (remove1 (Tlist t) xs = []) ?s) (unlink (Tlist t) L)"
    using rt_schedule_remove_thread_ok [of ?s L t xs] assms by simp
  show ?thesis
    unfolding rt_thread_suspend_def hw_defs Let_def prod.case
  proof (simp only: assms(6) if_False simp_thms, rule succeeds_bind [OF rm], goal_cases)
    case (1 nx pv)
    let ?s1 = "(made_unready t (remove1 (Tlist t) xs = []) ?s)\<lparr>nxt := nx, prv := pv\<rparr>"
    have row: "linked (unlink (Tlist t) L) (Row (Thread_Timer t))"
      using linked_unlink_leaf [OF assms(1) _ assms(2)] assms(3) by simp
    have "succeeds (map_option snd (rt_timer_stop (Thread_Timer t) ?s1))
        (timer_stopped (Thread_Timer t) ?s1) (halt (Thread_Timer t) ?s1 (unlink (Tlist t) L))"
      using 1 row by (intro rt_timer_stop_succeeds) simp_all
    then show ?case
      by (rule succeeds_bind_snd)
         (auto intro!: returns_Some simp: suspended_def timer_stopped_def made_unready_def halt_def)
  qed
qed

lemma rt_thread_timeout_eq:
  "rt_thread_timeout (Thread_Ptr t) s =
     Option.bind (Option.bind
       (rt_list_remove (Tlist t) (upd_thread t (\<lambda>th. th\<lparr>th_error := - RT_ETIMEOUT\<rparr>) s))
       (rt_schedule_insert_thread t)) rt_schedule"
  by (simp add: rt_thread_timeout_def Let_def)

end
