(* ===== verification/Invariant.thy ===== *)
theory Invariant
  imports Thread
begin

text \<open>
  The invariant of the kernel: what ties the lists to the members of the structures and to the
  scheduler's bit mask. A layout says which list holds what; the invariant relates it to the
  rest of the state. Its argument \<open>b\<close> is the tick from which the distances of the timers are counted: the
  current one between two ticks, and the one before while the clock interrupt looks at the timers.
\<close>

section \<open>Where threads and timers are\<close>

definition queued :: "node layout \<Rightarrow> node \<Rightarrow> nat \<Rightarrow> bool" where
  "queued L h t \<longleftrightarrow> (\<exists>xs. L h = Some xs \<and> Tlist t \<in> set xs)"

definition armed :: "node layout \<Rightarrow> timer_ref \<Rightarrow> bool" where
  "armed L r \<longleftrightarrow> (\<exists>xs. L Timer_List_Node = Some xs \<and> Row r \<in> set xs)"

lemma set_remove1_lay:
  "lay nx pv L \<Longrightarrow> L h = Some xs \<Longrightarrow> set (remove1 n xs) = set xs - {n}"
  using lay_distinct [of nx pv L h xs] by simp

lemma queued_unlink:
  "lay nx pv L \<Longrightarrow> leaf n \<Longrightarrow> queued (unlink n L) h u \<longleftrightarrow> queued L h u \<and> n \<noteq> Tlist u"
  by (cases "h = n") (auto simp: queued_def set_remove1_lay dest: wf_layout_leaf [OF lay_wf])

lemma armed_unlink:
  "lay nx pv L \<Longrightarrow> leaf n \<Longrightarrow> armed (unlink n L) r \<longleftrightarrow> armed L r \<and> n \<noteq> Row r"
  by (cases "Timer_List_Node = n") (auto simp: armed_def set_remove1_lay)

lemma queued_put_list:
  assumes "lay nx pv L" "leaf n" "L h = Some (xs @ ys)" "h \<noteq> n" "free_node L n"
  shows "queued (put_list h (xs @ n # ys) n L) g u \<longleftrightarrow> queued L g u \<or> g = h \<and> n = Tlist u"
proof (cases "g = n")
  case True
  then have "\<not> queued L g u" using wf_layout_leaf [OF lay_wf [OF assms(1)] assms(2)]
    by (auto simp: queued_def)
  then show ?thesis using True assms(4) by (auto simp: queued_def)
next
  case False
  then show ?thesis using assms by (cases "g = h") (auto simp: queued_def)
qed

lemma armed_put_list:
  assumes "lay nx pv L" "leaf n" "L h = Some (xs @ ys)" "h \<noteq> n"
  shows "armed (put_list h (xs @ n # ys) n L) r \<longleftrightarrow> armed L r \<or> h = Timer_List_Node \<and> n = Row r"
  using assms by (cases "Timer_List_Node = n"; cases "Timer_List_Node = h")
    (auto simp: armed_def)

lemma linked_to_tail:
  assumes "lay nx pv L" "leaf n" "linked L n" "L h = Some xs" "h \<noteq> n"
  shows "linked (to_tail h n L) m \<longleftrightarrow> linked L m"
  using assms linked_put_list [of "unlink n L" h "remove1 n xs" "[]" n m] linked_unlink_leaf [OF assms(1-3)]
  by (auto simp: to_tail_def)

lemma unlink_lay: "lay nx pv L \<Longrightarrow> leaf n \<Longrightarrow> linked L n \<Longrightarrow> \<exists>nx' pv'. lay nx' pv' (unlink n L)"
  using lay_remove [of "\<lparr>nxt = nx, prv = pv\<rparr>" L n] by auto

lemma queued_to_tail:
  assumes "lay nx pv L" "linked L (Tlist t)" "L h = Some xs" "h \<noteq> Tlist t"
  shows "queued (to_tail h (Tlist t) L) g u \<longleftrightarrow> (if u = t then g = h else queued L g u)"
proof -
  obtain nx' pv' where l: "lay nx' pv' (unlink (Tlist t) L)" using unlink_lay [OF assms(1) _ assms(2)] by auto
  show ?thesis
    using queued_put_list [OF l, of "Tlist t" h "remove1 (Tlist t) xs" "[]" g u] assms
      queued_unlink [OF assms(1), of "Tlist t" g u]
    by (auto simp: to_tail_def)
qed

lemma armed_to_tail:
  assumes "lay nx pv L" "linked L (Tlist t)" "L h = Some xs" "h \<noteq> Tlist t"
  shows "armed (to_tail h (Tlist t) L) r \<longleftrightarrow> armed L r"
proof -
  obtain nx' pv' where l: "lay nx' pv' (unlink (Tlist t) L)" using unlink_lay [OF assms(1) _ assms(2)] by auto
  show ?thesis
    using armed_put_list [OF l, of "Tlist t" h "remove1 (Tlist t) xs" "[]" r] assms
      armed_unlink [OF assms(1), of "Tlist t" r]
    by (auto simp: to_tail_def)
qed

section \<open>The invariant\<close>

text \<open>
  Every priority has its list; the list of removed threads does not exist, as the program
  never initialises it.
\<close>

definition tables_ok :: "node layout \<Rightarrow> bool" where
  "tables_ok L \<longleftrightarrow> (\<forall>p. L (Prio_Node p) \<noteq> None \<longleftrightarrow> p < RT_THREAD_PRIORITY_MAX) \<and>
     L Defunct_Node = None"

text \<open>Bit \<open>p\<close> of the group says whether a thread is ready at priority \<open>p\<close>.\<close>

definition group_ok :: "kernel \<Rightarrow> node layout \<Rightarrow> bool" where
  "group_ok s L \<longleftrightarrow> (\<forall>p<RT_THREAD_PRIORITY_MAX.
     bit (rt_thread_ready_priority_group s) p \<longleftrightarrow> (\<exists>t. queued L (Prio_Node p) t))"

text \<open>A thread is in the ready list of its priority exactly if its state says so.\<close>

definition thread_ok :: "kernel \<Rightarrow> node layout \<Rightarrow> nat \<Rightarrow> bool" where
  "thread_ok s L t \<longleftrightarrow>
     prio_of t s < RT_THREAD_PRIORITY_MAX \<and>
     th_init_priority (threads s t) = th_current_priority (threads s t) \<and>
     th_stat (threads s t) \<in> {RT_THREAD_INIT, RT_THREAD_READY, RT_THREAD_SUSPEND, RT_THREAD_CLOSE} \<and>
     th_number_mask (threads s t) \<in> {0, push_bit (prio_of t s) 1} \<and>
     (th_stat (threads s t) \<in> {RT_THREAD_READY, RT_THREAD_SUSPEND} \<longrightarrow>
        th_number_mask (threads s t) = push_bit (prio_of t s) 1) \<and>
     (\<forall>p. queued L (Prio_Node p) t \<longleftrightarrow> th_stat (threads s t) = RT_THREAD_READY \<and> p = prio_of t s) \<and>
     (\<forall>k. queued L (Suspend k) t \<longrightarrow> th_stat (threads s t) = RT_THREAD_SUSPEND) \<and>
     (armed L (Thread_Timer t) \<longrightarrow> th_stat (threads s t) \<in> {RT_THREAD_READY, RT_THREAD_SUSPEND}) \<and>
     linked L (Row (Thread_Timer t)) \<and> linked L (Obj_List (Thread_Obj t))"

text \<open>
  The timer of a thread calls \<open>rt_thread_timeout\<close> on it, a timer of its own a function of the
  application. No timeout is longer than the comparison of ticks can handle, and a timer that
  is started again when it runs out runs at least one tick.
\<close>

definition longest_timeout :: nat where
  "longest_timeout = 0x7ffffffd"

definition timer_ok :: "kernel \<Rightarrow> node layout \<Rightarrow> timer_ref \<Rightarrow> bool" where
  "timer_ok s L r \<longleftrightarrow>
     linked L (Obj_List (Timer_Obj r)) \<and>
     unat (tm_init_tick (timers s r)) \<le> longest_timeout \<and>
     (ob_flag (objects s (Timer_Obj r)) AND RT_TIMER_FLAG_PERIODIC \<noteq> 0 \<longrightarrow> 0 < tm_init_tick (timers s r)) \<and>
     (case r of
        Thread_Timer t \<Rightarrow> linked L (Tlist t) \<and>
          (armed L r \<longrightarrow> ob_flag (objects s (Timer_Obj r)) AND RT_TIMER_FLAG_ACTIVATED \<noteq> 0) \<and>
          tm_timeout_func (timers s r) = Fn_rt_thread_timeout \<and>
          tm_parameter (timers s r) = Thread_Ptr t
      | Sys_Timer j \<Rightarrow> tm_timeout_func (timers s r) \<noteq> Fn_rt_thread_timeout)"

definition list_ok :: "u32 \<Rightarrow> kernel \<Rightarrow> node layout \<Rightarrow> bool" where
  "list_ok b s L \<longleftrightarrow> (\<exists>rs. L Timer_List_Node = Some (map Row rs) \<and> timers_sorted b (timers s) rs)"

text \<open>Nobody waits for a semaphore that can be had, and waiting threads are in order.\<close>

definition sem_ok :: "kernel \<Rightarrow> node layout \<Rightarrow> nat \<Rightarrow> bool" where
  "sem_ok s L k \<longleftrightarrow>
     (0 < sem_value (semaphores s k) \<longrightarrow> (\<forall>t. \<not> queued L (Suspend k) t)) \<and>
     (\<forall>ts. L (Suspend k) = Some (map Tlist ts) \<and> ob_flag (objects s (Sem_Obj k)) = RT_IPC_FLAG_PRIO \<longrightarrow>
        sorted (map (\<lambda>t. prio_of t s) ts))"

definition kinv :: "u32 \<Rightarrow> kernel \<Rightarrow> node layout \<Rightarrow> bool" where
  "kinv b s L \<longleftrightarrow> lay (nxt s) (prv s) L \<and> tables_ok L \<and> group_ok s L \<and>
     (\<forall>t. linked L (Tlist t) \<longrightarrow> thread_ok s L t) \<and>
     (\<forall>r. linked L (Row r) \<longrightarrow> timer_ok s L r) \<and>
     list_ok b s L \<and> (\<forall>k. sem_ok s L k) \<and>
     (\<forall>t. rt_current_thread s = Some t \<longrightarrow> linked L (Tlist t)) \<and>
     unat (rt_tick s - b) \<le> 1"

lemma kinvD:
  assumes "kinv b s L"
  shows "lay (nxt s) (prv s) L" "tables_ok L" "group_ok s L" "linked L (Tlist t) \<Longrightarrow> thread_ok s L t"
    "linked L (Row r) \<Longrightarrow> timer_ok s L r" "list_ok b s L" "sem_ok s L k"
    "rt_current_thread s = Some t \<Longrightarrow> linked L (Tlist t)" "unat (rt_tick s - b) \<le> 1"
  using assms by (auto simp: kinv_def)

lemma ready_list: "tables_ok L \<Longrightarrow> p < 32 \<Longrightarrow> \<exists>xs. L (Prio_Node p) = Some xs"
  by (auto simp: tables_ok_def)

lemma own_list:
  assumes "kinv b s L" "linked L (Tlist t)"
  shows "\<exists>xs. L (Prio_Node (prio_of t s)) = Some xs"
  using ready_list [OF kinvD(2) [OF assms(1)], of "prio_of t s"] kinvD(4) [OF assms] by (simp add: thread_ok_def)

lemma bit_mask_of [simp]: "p < 32 \<Longrightarrow> bit (2 ^ p :: u32) q \<longleftrightarrow> q = p"
  by (auto simp: bit_simps)

lemma may_hold_iff:
  "may_hold (Prio_Node p) x \<longleftrightarrow> (\<exists>t. x = Tlist t)" "may_hold (Suspend k) x \<longleftrightarrow> (\<exists>t. x = Tlist t)"
  by (cases x; simp)+

lemma thread_list:
  assumes "lay nx pv L" "L h = Some xs" "h = Suspend k \<or> h = Prio_Node p"
  shows "\<exists>ts. xs = map Tlist ts"
proof -
  have "\<forall>x\<in>set xs. \<exists>t. x = Tlist t"
    using lay_holds [OF assms(1,2)] assms(3) by (auto simp: may_hold_iff)
  then show ?thesis by (metis ex_map_conv)
qed

lemma map_Tlist_inj [simp]: "map Tlist ts = map Tlist us \<longleftrightarrow> ts = us"
  by (simp add: inj_map_eq_map inj_def)

lemma sem_ok_unlink:
  assumes "lay nx pv L" "sem_ok s L k"
  shows "sem_ok s (unlink (Tlist t) L) k"
proof -
  have "sorted (map (\<lambda>t. prio_of t s) ts)"
    if ts: "unlink (Tlist t) L (Suspend k) = Some (map Tlist ts)"
      and f: "ob_flag (objects s (Sem_Obj k)) = RT_IPC_FLAG_PRIO" for ts
  proof -
    obtain xs where xs: "L (Suspend k) = Some xs" "map Tlist ts = remove1 (Tlist t) xs" using ts by auto
    obtain us where us: "xs = map Tlist us" using thread_list [OF assms(1) xs(1)] by auto
    then have "ts = remove1 t us" using xs(2) by (simp add: inj_def flip: map_remove1)
    moreover have "sorted (map (\<lambda>t. prio_of t s) us)" using assms(2) f xs(1) us by (simp add: sem_ok_def)
    ultimately show ?thesis by (simp add: sorted_map sorted_wrt_remove1)
  qed
  then show ?thesis using assms by (auto simp: sem_ok_def queued_unlink [OF assms(1)])
qed

lemma sem_ok_cong:
  assumes "\<And>u. prio_of u s' = prio_of u s"
    and "ob_flag (objects s' (Sem_Obj k)) = ob_flag (objects s (Sem_Obj k))"
    and "sem_value (semaphores s' k) = sem_value (semaphores s k)" "L' (Suspend k) = L (Suspend k)"
  shows "sem_ok s' L' k \<longleftrightarrow> sem_ok s L k"
  using assms(2-4) unfolding sem_ok_def queued_def assms(1) by simp

lemma remove1_Tlist_Row [simp]: "remove1 (Tlist t) (map Row rs) = map Row rs"
  by (rule remove1_notin) auto

lemma to_tail_other:
  "g \<noteq> h \<Longrightarrow> g \<noteq> n \<Longrightarrow> to_tail h n L g = unlink n L g"
  by (simp add: to_tail_def)

lemma kinv_made_ready:
  assumes K: "kinv b s L" and t: "linked L (Tlist t)"
    and st: "th_stat (threads s t) \<in> {RT_THREAD_READY, RT_THREAD_SUSPEND}"
    and L': "L' = to_tail (Prio_Node (prio_of t s)) (Tlist t) L" "lay nx pv L'"
  shows "kinv b ((made_ready t s)\<lparr>nxt := nx, prv := pv\<rparr>) L'"
proof -
  let ?p = "prio_of t s" and ?s = "(made_ready t s)\<lparr>nxt := nx, prv := pv\<rparr>"
  note lay = kinvD(1) [OF K]
  have T: "thread_ok s L t" using kinvD(4) [OF K t] .
  then have p: "?p < 32" and m: "th_number_mask (threads s t) = push_bit ?p 1"
    using st by (auto simp: thread_ok_def)
  obtain xs where xs: "L (Prio_Node ?p) = Some xs" using ready_list [OF kinvD(2) [OF K] p] by auto
  have q: "queued L' g u \<longleftrightarrow> (if u = t then g = Prio_Node ?p else queued L g u)" for g u
    unfolding L' by (rule queued_to_tail [OF lay t xs]) simp
  have a: "armed L' r \<longleftrightarrow> armed L r" for r
    unfolding L' by (rule armed_to_tail [OF lay t xs]) simp
  have l: "linked L' n \<longleftrightarrow> linked L n" for n
    unfolding L' by (rule linked_to_tail [OF lay _ t xs]) simp_all
  have other: "L' g = unlink (Tlist t) L g" if "g \<noteq> Prio_Node ?p" "g \<noteq> Tlist t" for g
    using that by (simp add: L' to_tail_other)
  have "tables_ok L'"
    using kinvD(2) [OF K] p by (auto simp: tables_ok_def L' to_tail_def put_list_def)
  moreover have "group_ok ?s L'"
  proof -
    have "bit (rt_thread_ready_priority_group s) i \<or> i = ?p \<longleftrightarrow> (\<exists>u. queued L' (Prio_Node i) u)" if "i < 32" for i
      using kinvD(3) [OF K] T that unfolding group_ok_def thread_ok_def q by auto
    then show ?thesis using p by (simp add: group_ok_def made_ready_def m bit_or_iff)
  qed
  moreover have "thread_ok ?s L' u" if "linked L' (Tlist u)" for u
    using kinvD(4) [OF K, of u] that T st
    by (auto simp: thread_ok_def q l a made_ready_def)
  moreover have "timer_ok ?s L' r" if "linked L' (Row r)" for r
    using kinvD(5) [OF K, of r] that by (cases r) (simp_all add: timer_ok_def l a made_ready_def)
  moreover have "list_ok b ?s L'"
    using kinvD(6) [OF K] by (auto simp: list_ok_def other made_ready_def)
  moreover have "sem_ok ?s L' k" for k
    using sem_ok_unlink [OF lay kinvD(7) [OF K], of t k]
    by (subst sem_ok_cong [of _ s _ _ "unlink (Tlist t) L"]) (simp_all add: other made_ready_def)
  moreover have "linked L' (Tlist u)" if "rt_current_thread ?s = Some u" for u
    using kinvD(8) [OF K, of u] that by (simp add: l made_ready_def)
  moreover have "lay (nxt ?s) (prv ?s) L'" using L'(2) by (simp add: made_ready_def)
  moreover have "unat (rt_tick ?s - b) \<le> 1"
    using kinvD(9) [OF K] by (simp add: made_ready_def timer_started_def)
  ultimately show ?thesis unfolding kinv_def by blast
qed

lemma made_unready_simps [simp]:
  "nxt (made_unready t e s) = nxt s" "prv (made_unready t e s) = prv s"
  "objects (made_unready t e s) = objects s" "threads (made_unready t e s) = threads s"
  "timers (made_unready t e s) = timers s" "semaphores (made_unready t e s) = semaphores s"
  "rt_tick (made_unready t e s) = rt_tick s" "primask (made_unready t e s) = primask s"
  "rt_current_thread (made_unready t e s) = rt_current_thread s"
  "rt_scheduler_lock_nest (made_unready t e s) = rt_scheduler_lock_nest s"
  "rt_thread_ready_priority_group (made_unready t e s) =
     (if e then rt_thread_ready_priority_group s AND NOT (th_number_mask (threads s t))
      else rt_thread_ready_priority_group s)"
  by (simp_all add: made_unready_def)

text \<open>Members the invariant does not read may change freely.\<close>

lemma kinv_frame:
  assumes K: "kinv b s L" and "nxt s' = nxt s" "prv s' = prv s"
    and g: "rt_thread_ready_priority_group s' = rt_thread_ready_priority_group s"
    and tick: "rt_tick s' = rt_tick s"
    and c: "\<And>t. rt_current_thread s' = Some t \<Longrightarrow> rt_current_thread s = Some t \<or> linked L (Tlist t)"
    and th: "\<And>u. prio_of u s' = prio_of u s"
      "\<And>u. th_init_priority (threads s' u) = th_current_priority (threads s' u) \<longleftrightarrow>
        th_init_priority (threads s u) = th_current_priority (threads s u)"
      "\<And>u. th_stat (threads s' u) = th_stat (threads s u)"
      "\<And>u. th_number_mask (threads s' u) = th_number_mask (threads s u)"
    and tm: "timers s' = timers s" and f: "\<And>ob. ob_flag (objects s' ob) = ob_flag (objects s ob)"
    and sv: "\<And>k. sem_value (semaphores s' k) = sem_value (semaphores s k)"
  shows "kinv b s' L"
proof -
  have "thread_ok s' L u = thread_ok s L u" for u unfolding thread_ok_def th by (rule refl)
  moreover have "timer_ok s' L r = timer_ok s L r" for r unfolding timer_ok_def f tm by (rule refl)
  moreover have "sem_ok s' L k = sem_ok s L k" for k by (rule sem_ok_cong) (simp_all add: f sv th)
  ultimately show ?thesis
    using K c assms(2,3) g by (auto simp: kinv_def group_ok_def list_ok_def tm tick)
qed

lemma kinv_primask [simp]: "kinv b (s\<lparr>primask := x\<rparr>) L = kinv b s L"
  by (rule iffI; erule kinv_frame) auto

lemma kinv_error [simp]:
  "kinv b (upd_thread t (\<lambda>th. th\<lparr>th_error := e\<rparr>) s) L = kinv b s L"
  by (rule iffI; erule kinv_frame) auto

lemma kinv_remaining [simp]:
  "kinv b (upd_thread t (\<lambda>th. th\<lparr>th_remaining_tick := e\<rparr>) s) L = kinv b s L"
  by (rule iffI; erule kinv_frame) auto

lemma kinv_switched:
  "kinv b s L \<Longrightarrow> linked L (Tlist t) \<Longrightarrow> kinv b (switched t s) L"
  by (erule kinv_frame) (auto split: if_splits)

lemma kinv_withdrawn:
  assumes K: "kinv b s L" and t: "linked L (Tlist t)"
    and st: "x = RT_THREAD_SUSPEND \<and> th_number_mask (threads s t) = push_bit (prio_of t s) 1 \<or>
       x = RT_THREAD_CLOSE \<and> \<not> armed L (Thread_Timer t)"
    and xs: "L (Prio_Node (prio_of t s)) = Some xs"
    and L': "L' = unlink (Tlist t) L" "lay nx pv L'"
  shows "kinv b ((made_unready t (remove1 (Tlist t) xs = [])
      (upd_thread t (\<lambda>th. th\<lparr>th_stat := x\<rparr>) s))\<lparr>nxt := nx, prv := pv\<rparr>) L'"
proof -
  let ?p = "prio_of t s" and ?e = "remove1 (Tlist t) xs = []"
  let ?s = "(made_unready t ?e (upd_thread t (\<lambda>th. th\<lparr>th_stat := x\<rparr>) s))\<lparr>nxt := nx, prv := pv\<rparr>"
  note lay = kinvD(1) [OF K]
  have T: "thread_ok s L t" using kinvD(4) [OF K t] .
  then have p: "?p < 32" by (simp add: thread_ok_def)
  have q: "queued L' g u \<longleftrightarrow> queued L g u \<and> u \<noteq> t" for g u
    unfolding L' using queued_unlink [OF lay] by auto
  have a: "armed L' r \<longleftrightarrow> armed L r" for r
    unfolding L' using armed_unlink [OF lay] by auto
  have l: "linked L' n \<longleftrightarrow> linked L n" for n
    unfolding L' by (rule linked_unlink_leaf [OF lay _ t]) simp
  have e: "?e \<longleftrightarrow> \<not> (\<exists>u. queued L (Prio_Node ?p) u \<and> u \<noteq> t)"
  proof -
    obtain ts where ts: "xs = map Tlist ts" using thread_list [OF lay xs] by auto
    have qq: "queued L (Prio_Node ?p) u \<longleftrightarrow> u \<in> set ts" for u
      by (simp add: queued_def xs ts image_iff)
    have "?e \<longleftrightarrow> set xs - {Tlist t} = {}" using set_remove1_lay [OF lay xs, of "Tlist t"] by (metis set_empty)
    also have "\<dots> \<longleftrightarrow> \<not> (\<exists>u. queued L (Prio_Node ?p) u \<and> u \<noteq> t)"
      unfolding qq ts by auto
    finally show ?thesis .
  qed
  have "tables_ok L'"
    using kinvD(2) [OF K] by (auto simp: tables_ok_def L')
  moreover have "group_ok ?s L'"
  proof -
    have "bit (if ?e then rt_thread_ready_priority_group s AND NOT (th_number_mask (threads s t))
        else rt_thread_ready_priority_group s) i \<longleftrightarrow> (\<exists>u. queued L' (Prio_Node i) u)" if "i < 32" for i
    proof -
      have g: "bit (rt_thread_ready_priority_group s) i \<longleftrightarrow> (\<exists>u. queued L (Prio_Node i) u)"
        using kinvD(3) [OF K] that by (simp add: group_ok_def)
      have m: "th_number_mask (threads s t) = 0 \<or> th_number_mask (threads s t) = 2 ^ ?p"
        using T by (simp add: thread_ok_def)
      show ?thesis
      proof (cases "queued L (Prio_Node i) t")
        case True
        then have "i = ?p" "th_number_mask (threads s t) = 2 ^ ?p" using T by (auto simp: thread_ok_def)
        then show ?thesis using e g p True by (auto simp: q word_and_not_bit)
      next
        case False
        then have "(\<exists>u. queued L' (Prio_Node i) u) \<longleftrightarrow> (\<exists>u. queued L (Prio_Node i) u)"
          unfolding q by metis
        moreover have "bit (th_number_mask (threads s t)) i \<Longrightarrow> i = ?p" using m p by auto
        ultimately show ?thesis using e g False by (auto simp: word_and_not_bit)
      qed
    qed
    then show ?thesis by (cases ?e) (simp_all add: group_ok_def)
  qed
  moreover have "thread_ok ?s L' u" if "linked L' (Tlist u)" for u
  proof (cases "u = t")
    case True
    then show ?thesis using T st p by (auto simp: thread_ok_def q l a)
  next
    case False
    then show ?thesis using kinvD(4) [OF K, of u] that by (simp add: thread_ok_def q l a)
  qed
  moreover have "timer_ok ?s L' r" if "linked L' (Row r)" for r
    using kinvD(5) [OF K, of r] that by (cases r) (simp_all add: timer_ok_def l a)
  moreover have "list_ok b ?s L'"
    using kinvD(6) [OF K] by (auto simp: list_ok_def L')
  moreover have "sem_ok ?s L' k" for k
    using sem_ok_unlink [OF lay kinvD(7) [OF K], of t k]
    by (subst sem_ok_cong [of _ s _ _ "unlink (Tlist t) L"]) (simp_all add: L')
  moreover have "linked L' (Tlist u)" if "rt_current_thread ?s = Some u" for u
    using kinvD(8) [OF K, of u] that by (simp add: l split: if_splits)
  moreover have "lay (nxt ?s) (prv ?s) L'" using L'(2) by simp
  moreover have "unat (rt_tick ?s - b) \<le> 1"
    using kinvD(9) [OF K] by (simp add: made_ready_def timer_started_def)
  ultimately show ?thesis unfolding kinv_def by blast
qed

lemma list_ok_due:
  "list_ok b s L \<Longrightarrow> armed L r \<Longrightarrow> due b (timers s) r < unat RT_TICK_HALF"
  by (auto simp: list_ok_def armed_def timers_sorted_def)

lemma tables_ok_unlink: "leaf n \<Longrightarrow> tables_ok (unlink n L) \<longleftrightarrow> tables_ok L"
proof -
  assume n: "leaf n"
  then have "Prio_Node p \<noteq> n" "Defunct_Node \<noteq> n" for p by auto
  then show ?thesis by (simp add: tables_ok_def)
qed

text \<open>Taking out a node that is no thread's.\<close>

lemma kinv_unlink:
  assumes K: "kinv b s L" and n: "leaf n" "linked L n" "\<And>t. n \<noteq> Tlist t"
    and l': "lay nx pv (unlink n L)"
  shows "kinv b (s\<lparr>nxt := nx, prv := pv\<rparr>) (unlink n L)"
proof -
  let ?L = "unlink n L" and ?s = "s\<lparr>nxt := nx, prv := pv\<rparr>"
  note lay = kinvD(1) [OF K]
  have q: "queued ?L g u \<longleftrightarrow> queued L g u" for g u
    using queued_unlink [OF lay n(1)] n(3) by simp
  have a: "armed ?L r \<Longrightarrow> armed L r" for r using armed_unlink [OF lay n(1)] by simp
  have l: "linked ?L m \<longleftrightarrow> linked L m" for m by (rule linked_unlink_leaf [OF lay n(1,2)])
  have same: "?L g = L g" if g: "\<not> leaf g" "g \<noteq> Timer_List_Node" "\<And>c. g \<noteq> Container_Node c" for g
  proof -
    have "n \<notin> set xs" if xs: "L g = Some xs" for xs
      using lay_holds [OF lay xs, of n] g n(3) by (cases g; cases n) (auto simp: may_hold_iff)
    moreover have "g \<noteq> n" using g(1) n(1) by auto
    ultimately show ?thesis by (cases "L g") auto
  qed
  have "tables_ok ?L" using kinvD(2) [OF K] n by (simp add: tables_ok_unlink)
  moreover have "group_ok ?s ?L" using kinvD(3) [OF K] by (simp add: group_ok_def q)
  moreover have "thread_ok ?s ?L u" if "linked ?L (Tlist u)" for u
    using kinvD(4) [OF K, of u] that a by (auto simp: thread_ok_def l q)
  moreover have "timer_ok ?s ?L r" if "linked ?L (Row r)" for r
    using kinvD(5) [OF K, of r] that a [of r] by (cases r) (auto simp: timer_ok_def l)
  moreover have "list_ok b ?s ?L"
  proof -
    obtain rs where rs: "L Timer_List_Node = Some (map Row rs)" "timers_sorted b (timers s) rs"
      using kinvD(6) [OF K] by (auto simp: list_ok_def)
    have "\<exists>us. remove1 n (map Row rs) = map Row us \<and> timers_sorted b (timers s) us"
    proof (cases "\<exists>r. n = Row r")
      case True
      then show ?thesis using rs(2) timers_sorted_remove1 map_remove1 [of Row]
        by (metis inj_def node.inject(4))
    next
      case False
      then have "n \<notin> set (map Row rs)" by auto
      then show ?thesis using rs(2) by (intro exI [of _ rs]) simp
    qed
    moreover have "Timer_List_Node \<noteq> n" using n(1) by auto
    ultimately show ?thesis using rs(1) by (auto simp: list_ok_def)
  qed
  moreover have "sem_ok ?s ?L k" for k
    using kinvD(7) [OF K] by (subst sem_ok_cong [of _ s _ _ L]) (simp_all add: same)
  moreover have "linked ?L (Tlist u)" if "rt_current_thread ?s = Some u" for u
    using kinvD(8) [OF K, of u] that by (simp add: l)
  moreover have "lay (nxt ?s) (prv ?s) ?L" using l' by simp
  moreover have "unat (rt_tick ?s - b) \<le> 1"
    using kinvD(9) [OF K] by (simp add: made_ready_def timer_started_def)
  ultimately show ?thesis unfolding kinv_def by blast
qed

lemma kinv_timer_flag:
  assumes K: "kinv b s L"
    and f: "ob_flag h AND RT_TIMER_FLAG_PERIODIC = ob_flag (objects s (Timer_Obj r)) AND RT_TIMER_FLAG_PERIODIC"
      "ob_flag h AND RT_TIMER_FLAG_ACTIVATED = 0 \<Longrightarrow> \<forall>t. r = Thread_Timer t \<longrightarrow> \<not> armed L r"
  shows "kinv b (s\<lparr>objects := (objects s)(Timer_Obj r := h)\<rparr>) L"
proof -
  let ?s = "s\<lparr>objects := (objects s)(Timer_Obj r := h)\<rparr>"
  have "timer_ok ?s L x" if "timer_ok s L x" for x
    using that f by (cases x; cases "x = r") (auto simp: timer_ok_def)
  then show ?thesis using K by (auto simp: kinv_def thread_ok_def group_ok_def list_ok_def sem_ok_def)
qed


lemma rearmed_other [simp]: "q \<noteq> r \<Longrightarrow> rearmed r s q = timers s q"
  by (simp add: rearmed_def)

lemma rearmed_fields [simp]:
  "tm_init_tick (rearmed r s q) = tm_init_tick (timers s q)"
  "tm_timeout_func (rearmed r s q) = tm_timeout_func (timers s q)"
  "tm_parameter (rearmed r s q) = tm_parameter (timers s q)"
  by (simp_all add: rearmed_def)

text \<open>Starting a timer puts it into its place; the thread it wakes must be one that can run.\<close>

definition started_layout :: "u32 \<Rightarrow> timer_ref \<Rightarrow> kernel \<Rightarrow> node layout \<Rightarrow> node layout" where
  "started_layout b r s L = put_list Timer_List_Node
     (map Row (timer_insert b (rearmed r s) r
        (remove1 r (map (\<lambda>n. the (timer_entry_of n)) (the (L Timer_List_Node))))))
     (Row r) (unlink (Row r) L)"

lemma timer_entries [simp]: "map ((\<lambda>n. the (timer_entry_of n)) \<circ> Row) rs = rs"
  by (induction rs) simp_all

lemma flag_or_activated: "(f OR 1) AND 2 = f AND (2 :: u8)" "(f OR 1) AND 1 = (1 :: u8)"
proof -
  have "bit (2 :: u8) n \<longleftrightarrow> n = 1" for n
    using bit_exp_iff [where ?'a = u8, of 1 n] by auto
  then show "(f OR 1) AND 2 = f AND 2"
    by (intro bit_word_eqI) (auto simp: bit_simps)
  show "(f OR 1) AND 1 = 1" by (intro bit_word_eqI) (auto simp: bit_simps)
qed

lemma kinv_timer_started:
  assumes K: "kinv b s L" and r: "linked L (Row r)"
    and bnd: "unat (rt_tick s + tm_init_tick (timers s r) - b) < unat RT_TICK_HALF"
    and th: "\<And>t. r = Thread_Timer t \<Longrightarrow> th_stat (threads s t) \<in> {RT_THREAD_READY, RT_THREAD_SUSPEND}"
    and L': "L' = started_layout b r s L" "lay nx pv L'"
  shows "kinv b ((timer_started r s)\<lparr>nxt := nx, prv := pv\<rparr>) L'"
proof -
  let ?s = "(timer_started r s)\<lparr>nxt := nx, prv := pv\<rparr>" and ?f = "rearmed r s"
  note lay = kinvD(1) [OF K]
  obtain rs where rs: "L Timer_List_Node = Some (map Row rs)" "timers_sorted b (timers s) rs"
    using kinvD(6) [OF K] by (auto simp: list_ok_def)
  let ?rs = "remove1 r rs"
  define us where "us = takeWhile (\<lambda>q. due b ?f q \<le> due b ?f r) ?rs"
  define vs where "vs = dropWhile (\<lambda>q. due b ?f q \<le> due b ?f r) ?rs"
  have L'2: "L' = put_list Timer_List_Node (map Row us @ Row r # map Row vs) (Row r) (unlink (Row r) L)"
    unfolding L' started_layout_def rs(1) by (simp add: timer_insert_def us_def vs_def)
  obtain nx1 pv1 where l1: "lay nx1 pv1 (unlink (Row r) L)" using unlink_lay [OF lay _ r] by auto
  have K1: "kinv b (s\<lparr>nxt := nx1, prv := pv1\<rparr>) (unlink (Row r) L)"
    by (rule kinv_unlink [OF K]) (use r l1 in auto)
  have h: "unlink (Row r) L Timer_List_Node = Some (map Row us @ map Row vs)"
    using rs(1) by (simp add: map_remove1 inj_def us_def vs_def flip: map_append)
  have q: "queued L' g u \<longleftrightarrow> queued L g u" for g u
    using queued_put_list [OF l1, of "Row r" Timer_List_Node "map Row us" "map Row vs"] h queued_unlink [OF lay] by (simp add: L'2)
  have a: "armed L' x \<longleftrightarrow> armed L x \<or> x = r" for x
    using armed_put_list [OF l1, of "Row r" Timer_List_Node "map Row us" "map Row vs" x] h armed_unlink [OF lay, of "Row r" x] by (auto simp: L'2)
  have l: "linked L' m \<longleftrightarrow> linked L m" for m
    using linked_put_list [of "unlink (Row r) L" Timer_List_Node "map Row us" "map Row vs" "Row r" m] h linked_unlink_leaf [OF lay _ r, of m] r
    by (auto simp: L'2)
  have same: "L' g = unlink (Row r) L g" if "g \<noteq> Row r" "g \<noteq> Timer_List_Node" for g
    using that by (simp add: L'2)
  have "tables_ok L'"
    using kinvD(2) [OF K1] by (simp add: tables_ok_def same)
  moreover have "group_ok ?s L'" using kinvD(3) [OF K] by (simp add: group_ok_def q timer_started_def)
  moreover have "thread_ok ?s L' u" if "linked L' (Tlist u)" for u
    using kinvD(4) [OF K, of u] that th by (auto simp: thread_ok_def l q a timer_started_def)
  moreover have "timer_ok ?s L' x" if "linked L' (Row x)" for x
    using kinvD(5) [OF K, of x] that flag_or_activated
    by (cases x; cases "x = r") (auto simp: timer_ok_def l a timer_started_def)
  moreover have "list_ok b ?s L'"
  proof -
    have "distinct rs" using lay_distinct [OF lay rs(1)] by (simp add: distinct_map)
    then have "timers_sorted b ?f ?rs = timers_sorted b (timers s) ?rs"
      by (intro timers_sorted_cong) auto
    then have "timers_sorted b ?f (timer_insert b ?f r ?rs)"
      using timers_sorted_remove1 [OF rs(2)] bnd
      by (intro timers_sorted_insert) (auto simp: due_def rearmed_def)
    then show ?thesis
      by (auto simp: list_ok_def L'2 timer_started_def timer_insert_def us_def vs_def
          intro!: exI [of _ "us @ r # vs"])
  qed
  moreover have "sem_ok ?s L' k" for k
    using kinvD(7) [OF K1, of k]
    by (subst sem_ok_cong [of _ s _ _ "unlink (Row r) L"])
       (auto simp: same timer_started_def sem_ok_def)
  moreover have "linked L' (Tlist u)" if "rt_current_thread ?s = Some u" for u
    using kinvD(8) [OF K, of u] that by (simp add: l timer_started_def)
  moreover have "lay (nxt ?s) (prv ?s) L'" using L'(2) by simp
  moreover have "unat (rt_tick ?s - b) \<le> 1"
    using kinvD(9) [OF K] by (simp add: made_ready_def timer_started_def)
  ultimately show ?thesis unfolding kinv_def by blast
qed

text \<open>A suspended thread that is in no list may join a waiting list.\<close>

lemma lone_not_queued: "lay nx pv L \<Longrightarrow> L (Tlist t) = Some [] \<Longrightarrow> \<not> queued L h t"
  using rings_member_not_head [OF lay_rings] by (fastforce simp: queued_def)

lemma kinv_wait:
  assumes K: "kinv b s L" and t: "L (Tlist t) = Some []" and st: "th_stat (threads s t) = RT_THREAD_SUSPEND"
    and k: "L (Suspend k) = Some (map Tlist us @ map Tlist vs)" "sem_value (semaphores s k) = 0"
    and ord: "ob_flag (objects s (Sem_Obj k)) = RT_IPC_FLAG_PRIO \<Longrightarrow>
      (\<forall>u\<in>set us. prio_of u s \<le> prio_of t s) \<and> (\<forall>v\<in>set vs. prio_of t s \<le> prio_of v s)"
    and L': "L' = put_list (Suspend k) (map Tlist us @ Tlist t # map Tlist vs) (Tlist t) L" "lay nx pv L'"
  shows "kinv b (s\<lparr>nxt := nx, prv := pv\<rparr>) L'"
proof -
  let ?s = "s\<lparr>nxt := nx, prv := pv\<rparr>"
  note lay = kinvD(1) [OF K]
  have fr: "free_node L (Tlist t)" and lt: "linked L (Tlist t)"
    using t by (auto intro: linkedI)
  have q: "queued L' g u \<longleftrightarrow> queued L g u \<or> g = Suspend k \<and> u = t" for g u
    using queued_put_list [OF lay, of "Tlist t" "Suspend k" "map Tlist us" "map Tlist vs"] k fr
    by (auto simp: L')
  have a: "armed L' x \<longleftrightarrow> armed L x" for x
    using armed_put_list [OF lay, of "Tlist t" "Suspend k" "map Tlist us" "map Tlist vs" x] k
    by (auto simp: L')
  have l: "linked L' m \<longleftrightarrow> linked L m" for m
    using linked_put_list [of L "Suspend k" "map Tlist us" "map Tlist vs" "Tlist t" m] k fr lt
    by (auto simp: L')
  have same: "L' g = L g" if "g \<noteq> Tlist t" "g \<noteq> Suspend k" for g
    using that by (simp add: L')
  have "tables_ok L'" using kinvD(2) [OF K] by (simp add: tables_ok_def same)
  moreover have "group_ok ?s L'" using kinvD(3) [OF K] by (simp add: group_ok_def q)
  moreover have "thread_ok ?s L' u" if "linked L' (Tlist u)" for u
    using kinvD(4) [OF K, of u] that st by (auto simp: thread_ok_def l q a)
  moreover have "timer_ok ?s L' x" if "linked L' (Row x)" for x
    using kinvD(5) [OF K, of x] that by (cases x) (auto simp: timer_ok_def l a)
  moreover have "list_ok b ?s L'" using kinvD(6) [OF K] by (simp add: list_ok_def same)
  moreover have "sem_ok ?s L' j" for j
  proof (cases "j = k")
    case False
    then show ?thesis
      using kinvD(7) [OF K] by (subst sem_ok_cong [of _ s _ _ L]) (simp_all add: same)
  next
    case True
    have "L (Suspend k) = Some (map Tlist (us @ vs))" using k by simp
    then have "ob_flag (objects s (Sem_Obj k)) = RT_IPC_FLAG_PRIO \<Longrightarrow> sorted (map (\<lambda>t. prio_of t s) (us @ vs))"
      using kinvD(7) [OF K, of k] unfolding sem_ok_def by blast
    then have "ob_flag (objects s (Sem_Obj k)) = RT_IPC_FLAG_PRIO \<Longrightarrow>
        sorted (map (\<lambda>t. prio_of t s) (us @ t # vs))"
      using ord by (auto simp: sorted_append)
    moreover have "L' (Suspend k) = Some (map Tlist (us @ t # vs))" by (simp add: L')
    ultimately show ?thesis using k(2) True by (simp del: map_append add: sem_ok_def)
  qed
  moreover have "linked L' (Tlist u)" if "rt_current_thread ?s = Some u" for u
    using kinvD(8) [OF K, of u] that by (simp add: l)
  moreover have "lay (nxt ?s) (prv ?s) L'" using L' by simp
  moreover have "unat (rt_tick ?s - b) \<le> 1"
    using kinvD(9) [OF K] by (simp add: made_ready_def timer_started_def)
  ultimately show ?thesis unfolding kinv_def by blast
qed

text \<open>What \<open>rt_thread_startup\<close> does before it resumes the thread.\<close>

definition prepared :: "nat \<Rightarrow> kernel \<Rightarrow> kernel" where
  "prepared t s = upd_thread t (\<lambda>th. th\<lparr>th_current_priority := th_init_priority th,
     th_number_mask := push_bit (unat (th_init_priority th)) 1, th_stat := RT_THREAD_SUSPEND\<rparr>) s"

lemma kinv_prepared:
  assumes K: "kinv b s L" and t: "linked L (Tlist t)" and st: "th_stat (threads s t) \<noteq> RT_THREAD_READY"
  shows "kinv b (prepared t s) L"
proof -
  have T: "thread_ok s L t" using kinvD(4) [OF K t] .
  then have "prio_of u (prepared t s) = prio_of u s" for u
    by (simp add: prepared_def thread_ok_def)
  moreover have "thread_ok (prepared t s) L u" if "thread_ok s L u" for u
    using that st by (cases "u = t") (auto simp: thread_ok_def prepared_def)
  moreover have "timer_ok (prepared t s) L x" if "timer_ok s L x" for x
    using that by (cases x) (auto simp: timer_ok_def prepared_def)
  ultimately show ?thesis
    using K by (simp add: kinv_def group_ok_def list_ok_def sem_ok_def) (simp add: prepared_def)
qed

section \<open>The scheduler's choice\<close>

text \<open>\<open>t\<close> is the first of the ready threads of the highest priority.\<close>

definition highest_ready :: "node layout \<Rightarrow> nat \<Rightarrow> bool" where
  "highest_ready L t \<longleftrightarrow> (\<exists>p<RT_THREAD_PRIORITY_MAX. \<exists>xs. L (Prio_Node p) = Some (Tlist t # xs) \<and>
     (\<forall>q<p. L (Prio_Node q) = Some []))"

definition some_ready :: "node layout \<Rightarrow> bool" where
  "some_ready L \<longleftrightarrow> (\<exists>p t. queued L (Prio_Node p) t)"

lemma empty_list: "lay nx pv L \<Longrightarrow> L (Prio_Node q) = Some xs \<Longrightarrow> \<forall>t. \<not> queued L (Prio_Node q) t \<Longrightarrow> xs = []"
  using thread_list [of nx pv L "Prio_Node q" xs] by (cases xs) (auto simp: queued_def)

lemma highest_exists:
  assumes K: "kinv b s L" and "some_ready L"
  shows "\<exists>p t xs. p < 32 \<and> lowest_set (rt_thread_ready_priority_group s) p \<and>
    L (Prio_Node p) = Some (Tlist t # xs) \<and> highest_ready L t"
proof -
  note lay = kinvD(1) [OF K] and tab = kinvD(2) [OF K]
  let ?g = "rt_thread_ready_priority_group s"
  obtain p0 t0 where r: "queued L (Prio_Node p0) t0" using assms(2) by (auto simp: some_ready_def)
  then have "p0 < 32" using tab by (auto simp: tables_ok_def queued_def)
  then have "bit ?g p0" using kinvD(3) [OF K] r by (auto simp: group_ok_def)
  then have "?g \<noteq> 0" by auto
  then obtain p where p: "p < 32" "lowest_set ?g p" using nonzero_lowest_set [of ?g] by auto
  then obtain t1 where t1: "queued L (Prio_Node p) t1"
    using kinvD(3) [OF K] by (auto simp: group_ok_def lowest_set_def)
  obtain xs where "L (Prio_Node p) = Some xs" "xs \<noteq> []" using t1 unfolding queued_def by force
  then obtain t ys where t: "L (Prio_Node p) = Some (Tlist t # ys)"
    using thread_list [OF lay, of "Prio_Node p" xs] by (cases xs) auto
  have "L (Prio_Node q) = Some []" if q: "q < p" for q
  proof -
    obtain zs where zs: "L (Prio_Node q) = Some zs" using ready_list [OF tab, of q] q p(1) by auto
    have "\<not> bit ?g q" using p(2) q by (simp add: lowest_set_def)
    then have "\<forall>t. \<not> queued L (Prio_Node q) t" using kinvD(3) [OF K] q p(1) by (auto simp: group_ok_def)
    then show ?thesis using empty_list [OF lay zs] zs by simp
  qed
  then have "highest_ready L t" using t p(1) by (auto simp: highest_ready_def)
  then show ?thesis using p t by blast
qed

lemma rt_schedule_kinv:
  assumes K: "kinv b s L" and "some_ready L" "rt_current_thread s \<noteq> None"
  shows "\<exists>t. rt_schedule s = Some (switched t s) \<and> highest_ready L t \<and> linked L (Tlist t) \<and>
    kinv b (switched t s) L"
proof -
  obtain p t xs where p: "p < 32" "lowest_set (rt_thread_ready_priority_group s) p"
    and t: "L (Prio_Node p) = Some (Tlist t # xs)" "highest_ready L t"
    using highest_exists [OF assms(1,2)] by blast
  have lt: "linked L (Tlist t)" using t by (auto intro: linkedI)
  show ?thesis
    using rt_schedule_ok [OF kinvD(1) [OF K] p(2,1) t(1) assms(3)] kinv_switched [OF K lt] lt t(2) by auto
qed

end
