(* ===== verification/Thread_Inv.thy ===== *)
theory Thread_Inv
  imports Invariant
begin

text \<open>
  The operations of \<open>rtt_source/thread.c\<close> on a state that satisfies the invariant: none of
  them faults, each keeps the invariant, and what each does to the thread it is called on.
\<close>

section \<open>Outcomes that satisfy the invariant\<close>

definition sustains :: "u32 \<Rightarrow> kernel option \<Rightarrow> kernel \<Rightarrow> node layout \<Rightarrow> bool" where
  "sustains b m s L \<longleftrightarrow>
     (\<exists>nx pv. m = Some (s\<lparr>nxt := nx, prv := pv\<rparr>) \<and> kinv b (s\<lparr>nxt := nx, prv := pv\<rparr>) L)"

definition keeps :: "u32 \<Rightarrow> ('r \<times> kernel) option \<Rightarrow> 'r \<Rightarrow> kernel \<Rightarrow> node layout \<Rightarrow> bool" where
  "keeps b m r s L \<longleftrightarrow>
     (\<exists>nx pv. m = Some (r, s\<lparr>nxt := nx, prv := pv\<rparr>) \<and> kinv b (s\<lparr>nxt := nx, prv := pv\<rparr>) L)"

lemma sustainsI:
  "succeeds m s L \<Longrightarrow> (\<And>nx pv. lay nx pv L \<Longrightarrow> kinv b (s\<lparr>nxt := nx, prv := pv\<rparr>) L) \<Longrightarrow> sustains b m s L"
  by (auto simp: succeeds_def sustains_def)

lemma keepsI:
  "returns m r s L \<Longrightarrow> (\<And>nx pv. lay nx pv L \<Longrightarrow> kinv b (s\<lparr>nxt := nx, prv := pv\<rparr>) L) \<Longrightarrow> keeps b m r s L"
  by (auto simp: returns_def keeps_def)

lemma sustains_bind:
  assumes "sustains b m s L"
    and "\<And>nx pv. kinv b (s\<lparr>nxt := nx, prv := pv\<rparr>) L \<Longrightarrow> P (f (s\<lparr>nxt := nx, prv := pv\<rparr>))"
  shows "P (Option.bind m f)"
  using assms by (auto simp: sustains_def)

lemma keeps_bind:
  assumes "keeps b m r s L"
    and "\<And>nx pv. kinv b (s\<lparr>nxt := nx, prv := pv\<rparr>) L \<Longrightarrow> P (f (r, s\<lparr>nxt := nx, prv := pv\<rparr>))"
  shows "P (Option.bind m f)"
  using assms by (auto simp: keeps_def)

lemma sustains_Some:
  "kinv b s1 L \<Longrightarrow> s\<lparr>nxt := nxt s1, prv := prv s1\<rparr> = s1 \<Longrightarrow> sustains b (Some s1) s L"
  unfolding sustains_def by metis

lemma keeps_Some:
  "kinv b s1 L \<Longrightarrow> s\<lparr>nxt := nxt s1, prv := prv s1\<rparr> = s1 \<Longrightarrow> r' = r \<Longrightarrow> keeps b (Some (r', s1)) r s L"
  unfolding keeps_def by metis

section \<open>Suspending and resuming\<close>

lemma linked_row_cases:
  assumes "lay nx pv L" "linked L (Row r)"
  shows "armed L r \<or> L (Row r) = Some []"
proof -
  obtain h xs where h: "L h = Some xs" "Row r \<in> set (h # xs)" using assms(2) by (auto simp: linked_def)
  show ?thesis
  proof (cases "h = Row r")
    case True
    then show ?thesis using h wf_layout_leaf [OF lay_wf [OF assms(1)], of "Row r" xs] by simp
  next
    case False
    then have "may_hold h (Row r)" using h lay_holds [OF assms(1) h(1)] by auto
    then have "h = Timer_List_Node" by (cases h) auto
    then show ?thesis using h by (auto simp: armed_def)
  qed
qed

lemma halt_kinv:
  assumes K: "kinv b s L" and r: "linked L (Row (Thread_Timer t))"
  shows "halt (Thread_Timer t) s L = unlink (Row (Thread_Timer t)) L"
proof (cases "armed L (Thread_Timer t)")
  case True
  then show ?thesis using kinvD(5) [OF K r] by (simp add: halt_def timer_ok_def)
next
  case False
  then have "L (Row (Thread_Timer t)) = Some []" using linked_row_cases [OF kinvD(1) [OF K] r] by simp
  then show ?thesis using unlink_lone [OF lay_rings [OF kinvD(1) [OF K]]] by (simp add: halt_def)
qed

text \<open>The layout once thread \<open>t\<close> is in no list and its timer has been stopped.\<close>

definition set_aside :: "nat \<Rightarrow> node layout \<Rightarrow> node layout" where
  "set_aside t L = unlink (Row (Thread_Timer t)) (unlink (Tlist t) L)"

lemma flag_clear_bits [simp]: "(f AND - 2) AND 2 = f AND (2 :: u8)" "(f AND - 2) AND 1 = (0 :: u8)"
  by (simp_all add: and.assoc)

lemma kinv_timer_stopped:
  assumes K: "kinv b s L" and r: "linked L (Row r)" and l: "lay nx pv (unlink (Row r) L)"
  shows "kinv b ((timer_stopped r s)\<lparr>nxt := nx, prv := pv\<rparr>) (unlink (Row r) L)"
proof -
  let ?s = "s\<lparr>nxt := nx, prv := pv\<rparr>"
  have K1: "kinv b ?s (unlink (Row r) L)" by (rule kinv_unlink [OF K]) (use r l in auto)
  have "\<not> armed (unlink (Row r) L) r" using armed_unlink [OF kinvD(1) [OF K]] by simp
  then have "kinv b (timer_stopped r ?s) (unlink (Row r) L)"
    unfolding timer_stopped_def by (intro kinv_timer_flag [OF K1]) auto
  then show ?thesis by (simp add: timer_stopped_def)
qed

lemma rt_thread_suspend_kinv:
  assumes K: "kinv b s L" and t: "linked L (Tlist t)" and st: "th_stat (threads s t) = RT_THREAD_READY"
    and xs: "L (Prio_Node (prio_of t s)) = Some xs"
  shows "keeps b (rt_thread_suspend t s) RT_EOK (suspended t (remove1 (Tlist t) xs = []) s) (set_aside t L)"
proof -
  note lay = kinvD(1) [OF K]
  have T: "thread_ok s L t" using kinvD(4) [OF K t] .
  then have p: "prio_of t s < 32" and row: "linked L (Row (Thread_Timer t))"
    and m: "th_number_mask (threads s t) = push_bit (prio_of t s) 1"
    using st by (auto simp: thread_ok_def)
  let ?e = "remove1 (Tlist t) xs = []" and ?L1 = "unlink (Tlist t) L"
  let ?s1 = "made_unready t ?e (upd_thread t (\<lambda>th. th\<lparr>th_stat := RT_THREAD_SUSPEND\<rparr>) s)"
  obtain nx1 pv1 where l1: "lay nx1 pv1 ?L1" using unlink_lay [OF lay _ t] by auto
  have K1: "kinv b (?s1\<lparr>nxt := nx1, prv := pv1\<rparr>) ?L1"
    by (rule kinv_withdrawn [OF K t _ xs refl l1]) (use m in simp)
  have row1: "linked ?L1 (Row (Thread_Timer t))" using linked_unlink_leaf [OF lay _ t] row by simp
  have "halt (Thread_Timer t) s ?L1 = set_aside t L"
    using halt_kinv [OF K1 row1] by (simp add: set_aside_def halt_def)
  then have "returns (rt_thread_suspend t s) RT_EOK (suspended t ?e s) (set_aside t L)"
    using rt_thread_suspend_ok [OF lay t row p xs] st by (simp add: thread_state_def)
  then show ?thesis
  proof (rule keepsI)
    fix nx pv
    assume "lay nx pv (set_aside t L)"
    then show "kinv b ((suspended t ?e s)\<lparr>nxt := nx, prv := pv\<rparr>) (set_aside t L)"
      using kinv_timer_stopped [OF K1 row1, of nx pv]
      by (simp add: set_aside_def suspended_def timer_stopped_def)
  qed
qed

lemma rt_thread_resume_kinv:
  assumes K: "kinv b s L" and t: "linked L (Tlist t)" and st: "th_stat (threads s t) = RT_THREAD_SUSPEND"
  shows "keeps b (rt_thread_resume t s) RT_EOK (made_ready t s)
    (to_tail (Prio_Node (prio_of t s)) (Tlist t) L)"
proof -
  note lay = kinvD(1) [OF K]
  have p: "prio_of t s < 32" using kinvD(4) [OF K t] by (simp add: thread_ok_def)
  obtain xs where xs: "L (Prio_Node (prio_of t s)) = Some xs" using ready_list [OF kinvD(2) [OF K] p] by auto
  show ?thesis
    by (rule keepsI [OF rt_thread_resume_ok [OF lay t p xs]], simp add: st thread_state_def,
        rule kinv_made_ready [OF K t]) (use st in auto)
qed

lemma queued_set_aside:
  assumes "lay nx pv L" "linked L (Tlist t)"
  shows "queued (set_aside t L) g u \<longleftrightarrow> queued L g u \<and> u \<noteq> t"
proof -
  obtain nx' pv' where l: "lay nx' pv' (unlink (Tlist t) L)" using unlink_lay [OF assms(1) _ assms(2)] by auto
  show ?thesis using queued_unlink [OF l] queued_unlink [OF assms(1)] by (auto simp: set_aside_def)
qed

lemma linked_set_aside:
  assumes "lay nx pv L" "linked L (Tlist t)" "linked L (Row (Thread_Timer t))"
  shows "linked (set_aside t L) m \<longleftrightarrow> linked L m"
proof -
  obtain nx' pv' where l: "lay nx' pv' (unlink (Tlist t) L)" using unlink_lay [OF assms(1) _ assms(2)] by auto
  show ?thesis using linked_unlink_leaf [OF l] linked_unlink_leaf [OF assms(1) _ assms(2)] assms(3)
    by (simp add: set_aside_def)
qed

lemma armed_set_aside:
  assumes "lay nx pv L" "linked L (Tlist t)"
  shows "armed (set_aside t L) r \<longleftrightarrow> armed L r \<and> r \<noteq> Thread_Timer t"
proof -
  obtain nx' pv' where l: "lay nx' pv' (unlink (Tlist t) L)" using unlink_lay [OF assms(1) _ assms(2)] by auto
  show ?thesis using armed_unlink [OF l] armed_unlink [OF assms(1)] by (auto simp: set_aside_def)
qed

lemma set_aside_lone: "set_aside t L (Tlist t) = Some []"
  by (simp add: set_aside_def)

section \<open>Starting a timer\<close>

lemma started_layout_split:
  assumes "L Timer_List_Node = Some (map Row rs)"
  shows "\<exists>us vs. remove1 r rs = us @ vs \<and> timer_insert b (rearmed r s) r (remove1 r rs) = us @ r # vs \<and>
    started_layout b r s L = put_list Timer_List_Node (map Row us @ Row r # map Row vs) (Row r) (unlink (Row r) L)"
  using assms unfolding started_layout_def timer_insert_def
  by (intro exI2 [of _ "takeWhile (\<lambda>q. due b (rearmed r s) q \<le> due b (rearmed r s) r) (remove1 r rs)"
        "dropWhile (\<lambda>q. due b (rearmed r s) q \<le> due b (rearmed r s) r) (remove1 r rs)"]) simp

lemma started_layout_members:
  assumes K: "kinv b s L" and r: "linked L (Row r)"
  shows "queued (started_layout b r s L) g u \<longleftrightarrow> queued L g u"
    and "armed (started_layout b r s L) x \<longleftrightarrow> armed L x \<or> x = r"
    and "linked (started_layout b r s L) m \<longleftrightarrow> linked L m"
    and "g \<noteq> Row r \<Longrightarrow> g \<noteq> Timer_List_Node \<Longrightarrow> started_layout b r s L g = unlink (Row r) L g"
proof -
  note lay = kinvD(1) [OF K]
  obtain rs where rs: "L Timer_List_Node = Some (map Row rs)" using kinvD(6) [OF K] by (auto simp: list_ok_def)
  obtain us vs where uv: "remove1 r rs = us @ vs"
    and e: "started_layout b r s L =
      put_list Timer_List_Node (map Row us @ Row r # map Row vs) (Row r) (unlink (Row r) L)"
    using started_layout_split [of L rs r b s, OF rs] by blast
  have h: "unlink (Row r) L Timer_List_Node = Some (map Row us @ map Row vs)"
    using rs uv by (simp add: inj_def flip: map_remove1 map_append)
  obtain nx1 pv1 where l1: "lay nx1 pv1 (unlink (Row r) L)" using unlink_lay [OF lay _ r] by auto
  show "queued (started_layout b r s L) g u \<longleftrightarrow> queued L g u"
    using queued_put_list [OF l1, of "Row r" Timer_List_Node "map Row us" "map Row vs"] h
      queued_unlink [OF lay] by (simp add: e)
  show "armed (started_layout b r s L) x \<longleftrightarrow> armed L x \<or> x = r"
    using armed_put_list [OF l1, of "Row r" Timer_List_Node "map Row us" "map Row vs" x] h
      armed_unlink [OF lay, of "Row r" x] by (auto simp: e)
  show "linked (started_layout b r s L) m \<longleftrightarrow> linked L m"
    using linked_put_list [of "unlink (Row r) L" Timer_List_Node "map Row us" "map Row vs" "Row r" m] h
      linked_unlink_leaf [OF lay _ r, of m] r by (auto simp: e)
  show "g \<noteq> Row r \<Longrightarrow> g \<noteq> Timer_List_Node \<Longrightarrow> started_layout b r s L g = unlink (Row r) L g"
    by (simp add: e)
qed

lemma timeout_bound:
  assumes "kinv b s L" "unat (tm_init_tick (timers s r)) \<le> longest_timeout"
  shows "unat (rt_tick s + tm_init_tick (timers s r) - b) < unat RT_TICK_HALF"
proof -
  have e: "rt_tick s + tm_init_tick (timers s r) - b = (rt_tick s - b) + tm_init_tick (timers s r)" by simp
  have "unat ((rt_tick s - b) + tm_init_tick (timers s r)) \<le> unat (rt_tick s - b) + unat (tm_init_tick (timers s r))"
    by (simp add: unat_word_ariths)
  then show ?thesis unfolding e using kinvD(9) [OF assms(1)] assms(2) by (simp add: longest_timeout_def)
qed

lemma rt_timer_start_kinv:
  assumes K: "kinv b s L" and r: "linked L (Row r)"
    and th: "\<And>t. r = Thread_Timer t \<Longrightarrow> th_stat (threads s t) \<in> {RT_THREAD_READY, RT_THREAD_SUSPEND}"
  shows "keeps b (rt_timer_start r s) RT_EOK (timer_started r s) (started_layout b r s L)"
proof -
  obtain rs where rs: "L Timer_List_Node = Some (map Row rs)" "timers_sorted b (timers s) rs"
    using kinvD(6) [OF K] by (auto simp: list_ok_def)
  have bnd: "unat (rt_tick s + tm_init_tick (timers s r) - b) < unat RT_TICK_HALF"
    using timeout_bound [OF K] kinvD(5) [OF K r] by (simp add: timer_ok_def)
  have "returns (rt_timer_start r s) RT_EOK (timer_started r s) (started_layout b r s L)"
    using rt_timer_start_ok [OF kinvD(1) [OF K] rs(1) r rs(2) bnd]
    by (simp add: started_layout_def rs(1))
  then show ?thesis
    by (rule keepsI) (rule kinv_timer_started [OF K r bnd th refl])
qed

lemma kinv_init_tick:
  assumes K: "kinv b s L" and "unat n \<le> longest_timeout"
    and "ob_flag (objects s (Timer_Obj r)) AND RT_TIMER_FLAG_PERIODIC \<noteq> 0 \<Longrightarrow> 0 < n"
  shows "kinv b (upd_timer r (\<lambda>tm. tm\<lparr>tm_init_tick := n\<rparr>) s) L"
proof -
  let ?s = "upd_timer r (\<lambda>tm. tm\<lparr>tm_init_tick := n\<rparr>) s"
  have T: "timer_ok ?s L x" if "timer_ok s L x" for x
    using that assms(2,3) by (cases x; cases "x = r") (auto simp: timer_ok_def)
  have "timers_sorted b (timers ?s) rs = timers_sorted b (timers s) rs" for rs
    by (rule timers_sorted_cong) simp
  then have O: "list_ok b ?s L" using kinvD(6) [OF K] by (simp add: list_ok_def)
  have S: "sem_ok ?s L k" for k
    using kinvD(7) [OF K] by (subst sem_ok_cong [of _ s _ _ L]) simp_all
  have H: "thread_ok ?s L t = thread_ok s L t" for t by (simp add: thread_ok_def)
  show ?thesis
    using K T O allI [OF S] unfolding kinv_def by (simp add: H group_ok_def)
qed

lemma rt_schedule_keeps:
  assumes K: "kinv b (s\<lparr>nxt := nx, prv := pv\<rparr>) L" and "some_ready L" "rt_current_thread s \<noteq> None"
  shows "\<exists>to. highest_ready L to \<and> sustains b (rt_schedule (s\<lparr>nxt := nx, prv := pv\<rparr>)) (switched to s) L"
proof -
  obtain to where "rt_schedule (s\<lparr>nxt := nx, prv := pv\<rparr>) = Some (switched to (s\<lparr>nxt := nx, prv := pv\<rparr>))"
    "highest_ready L to" "kinv b (switched to (s\<lparr>nxt := nx, prv := pv\<rparr>)) L"
    using rt_schedule_kinv [OF K assms(2)] assms(3) by auto
  then show ?thesis by (auto simp: sustains_def switched_links)
qed

lemma some_ready_to_tail:
  "p < 32 \<Longrightarrow> kinv b s L \<Longrightarrow> linked L (Tlist t) \<Longrightarrow> queued (to_tail (Prio_Node p) (Tlist t) L) (Prio_Node p) t"
  using queued_to_tail [OF kinvD(1)] ready_list [OF kinvD(2)] by (metis node.distinct(7))

lemma highest_ready_unique: "highest_ready L t \<Longrightarrow> highest_ready L u \<Longrightarrow> t = u"
  unfolding highest_ready_def by (metis linorder_neqE_nat list.inject list.simps(3) node.inject(3) option.inject)

lemma highest_ready_stat:
  assumes "kinv b s L" "highest_ready L t"
  shows "th_stat (threads s t) = RT_THREAD_READY" and "linked L (Tlist t)"
proof -
  obtain p xs where p: "L (Prio_Node p) = Some (Tlist t # xs)" using assms(2) by (auto simp: highest_ready_def)
  then show "linked L (Tlist t)" by (auto intro: linkedI)
  then have "thread_ok s L t" by (rule kinvD(4) [OF assms(1)])
  moreover have "queued L (Prio_Node p) t" using p by (simp add: queued_def)
  ultimately show "th_stat (threads s t) = RT_THREAD_READY" unfolding thread_ok_def by blast
qed

text \<open>
  What happens to the threads while other things do: the lock stays, a thread that is suspended may become
  ready, and if another thread runs than before the scheduler was not locked and that thread is ready.
\<close>

definition calm :: "kernel \<Rightarrow> kernel \<Rightarrow> bool" where
  "calm s s' \<longleftrightarrow> rt_scheduler_lock_nest s' = rt_scheduler_lock_nest s \<and>
     (rt_current_thread s' = rt_current_thread s \<or> rt_scheduler_lock_nest s = 0 \<and>
        (\<exists>u. rt_current_thread s' = Some u \<and> th_stat (threads s' u) = RT_THREAD_READY)) \<and>
     (\<forall>u. th_stat (threads s' u) = th_stat (threads s u) \<or>
        th_stat (threads s u) = RT_THREAD_SUSPEND \<and> th_stat (threads s' u) = RT_THREAD_READY) \<and>
     (\<forall>u. th_cleanup (threads s' u) = th_cleanup (threads s u) \<and> objects s' (Thread_Obj u) = objects s (Thread_Obj u))"

lemma calm_refl [simp]: "calm s s"
  by (simp add: calm_def)

lemma calm_trans: "calm s s1 \<Longrightarrow> calm s1 s2 \<Longrightarrow> calm s s2"
  unfolding calm_def by (metis (no_types, lifting))

lemma calm_switched:
  assumes "calm s s1" "rt_current_thread s1 \<noteq> None" "th_stat (threads s1 to) = RT_THREAD_READY"
  shows "calm s (switched to s1)"
  using assms by (auto simp: calm_def)

section \<open>Starting a thread\<close>

lemma rt_thread_startup_kinv:
  assumes K: "kinv b s L" and t: "linked L (Tlist t)" and st: "th_stat (threads s t) \<noteq> RT_THREAD_READY"
  defines "s1 \<equiv> made_ready t (prepared t s)" and "L1 \<equiv> to_tail (Prio_Node (prio_of t s)) (Tlist t) L"
  shows "\<exists>to. highest_ready L1 to \<and>
    keeps b (rt_thread_startup t s) RT_EOK (if rt_current_thread s = None then s1 else switched to s1) L1"
proof -
  have T: "thread_ok s L t" using kinvD(4) [OF K t] .
  have K1: "kinv b (prepared t s) L" by (rule kinv_prepared [OF K t st])
  have res: "keeps b (rt_thread_resume t (prepared t s)) RT_EOK s1 L1"
    using rt_thread_resume_kinv [OF K1 t] T by (simp add: s1_def L1_def prepared_def thread_ok_def)
  have e: "rt_thread_startup t s = Option.bind (rt_thread_resume t (prepared t s)) (\<lambda>(_, s).
      Option.bind (if rt_thread_self s \<noteq> None then rt_schedule s else Some s) (\<lambda>s. Some (RT_EOK, s)))"
    by (simp add: rt_thread_startup_def prepared_def)
  have rdy: "some_ready L1"
    using some_ready_to_tail [OF _ K t] T by (auto simp: some_ready_def L1_def thread_ok_def)
  have cur: "rt_current_thread s1 = rt_current_thread s" by (simp add: s1_def made_ready_def prepared_def)
  show ?thesis
    unfolding e
  proof (rule keeps_bind [OF res], goal_cases)
    case (1 nx pv)
    show ?case
    proof (cases "rt_current_thread s = None")
      case True
      obtain to where "highest_ready L1 to" using highest_exists [OF 1 rdy] by auto
      then show ?thesis using True 1 by (auto simp: rt_thread_self_def cur intro!: keeps_Some)
    next
      case False
      obtain to where to: "highest_ready L1 to"
        "sustains b (rt_schedule (s1\<lparr>nxt := nx, prv := pv\<rparr>)) (switched to s1) L1"
        using rt_schedule_keeps [OF 1 rdy] cur False by auto
      have "keeps b (Option.bind (rt_schedule (s1\<lparr>nxt := nx, prv := pv\<rparr>)) (\<lambda>s. Some (RT_EOK, s)))
          RT_EOK (switched to s1) L1"
        by (rule sustains_bind [OF to(2)]) (simp add: keeps_Some)
      then show ?thesis using False to(1) by (auto simp: rt_thread_self_def cur)
    qed
  qed
qed

section \<open>Waiting for the clock\<close>

lemma started_layout_cong:
  "timers s' = timers s \<Longrightarrow> rt_tick s' = rt_tick s \<Longrightarrow> started_layout b r s' L = started_layout b r s L"
  by (simp add: started_layout_def rearmed_def)

lemma suspended_simps [simp]:
  "threads (suspended t e s) = (threads s)(t := (threads s t)\<lparr>th_stat := RT_THREAD_SUSPEND\<rparr>)"
  "timers (suspended t e s) = timers s" "semaphores (suspended t e s) = semaphores s"
  "rt_tick (suspended t e s) = rt_tick s" "primask (suspended t e s) = primask s"
  "rt_current_thread (suspended t e s) = rt_current_thread s"
  "rt_scheduler_lock_nest (suspended t e s) = rt_scheduler_lock_nest s"
  "ob_flag (objects (suspended t e s) ob) AND RT_TIMER_FLAG_PERIODIC =
     ob_flag (objects s ob) AND RT_TIMER_FLAG_PERIODIC"
  by (simp_all add: suspended_def timer_stopped_def)

lemma suspended_links:
  "suspended t e (s\<lparr>nxt := nx, prv := pv\<rparr>) = (suspended t e s)\<lparr>nxt := nx, prv := pv\<rparr>"
  "suspended t e (s\<lparr>primask := x\<rparr>) = (suspended t e s)\<lparr>primask := x\<rparr>"
  by (simp_all add: suspended_def timer_stopped_def made_unready_def)

lemma timer_started_simps [simp]:
  "threads (timer_started r s) = threads s" "semaphores (timer_started r s) = semaphores s"
  "rt_tick (timer_started r s) = rt_tick s" "rt_current_thread (timer_started r s) = rt_current_thread s"
  "timers (timer_started r s) = rearmed r s"
  "rt_scheduler_lock_nest (timer_started r s) = rt_scheduler_lock_nest s"
  by (simp_all add: timer_started_def)

lemma timer_started_links:
  "timer_started r (s\<lparr>nxt := nx, prv := pv\<rparr>) = (timer_started r s)\<lparr>nxt := nx, prv := pv\<rparr>"
  "timer_started r (s\<lparr>primask := x\<rparr>) = (timer_started r s)\<lparr>primask := x\<rparr>"
  by (simp_all add: timer_started_def rearmed_def)

text \<open>A thread that is suspended and whose timer runs for \<open>tick\<close> ticks.\<close>

definition asleep :: "nat \<Rightarrow> u32 \<Rightarrow> kernel \<Rightarrow> kernel" where
  "asleep t tick s = timer_started (Thread_Timer t)
     (upd_timer (Thread_Timer t) (\<lambda>tm. tm\<lparr>tm_init_tick := tick\<rparr>) s)"

definition asleep_layout :: "u32 \<Rightarrow> nat \<Rightarrow> u32 \<Rightarrow> kernel \<Rightarrow> node layout \<Rightarrow> node layout" where
  "asleep_layout b t tick s L = started_layout b (Thread_Timer t)
     (upd_timer (Thread_Timer t) (\<lambda>tm. tm\<lparr>tm_init_tick := tick\<rparr>) s) L"

text \<open>\<open>rt_timer_control\<close> and \<open>rt_timer_start\<close>, as \<open>rt_thread_sleep\<close> and \<open>rt_sem_take\<close> call them.\<close>

lemma arm_timer_kinv:
  assumes K: "kinv b s L" and t: "linked L (Tlist t)" and st: "th_stat (threads s t) = RT_THREAD_SUSPEND"
    and tk: "unat tick \<le> longest_timeout" "0 < tick"
  shows "keeps b (rt_timer_start (Thread_Timer t)
      (upd_timer (Thread_Timer t) (\<lambda>tm. tm\<lparr>tm_init_tick := tick\<rparr>) s)) RT_EOK (asleep t tick s)
      (asleep_layout b t tick s L)"
proof -
  have row: "linked L (Row (Thread_Timer t))" using kinvD(4) [OF K t] by (simp add: thread_ok_def)
  have "kinv b (upd_timer (Thread_Timer t) (\<lambda>tm. tm\<lparr>tm_init_tick := tick\<rparr>) s) L"
    using kinv_init_tick [OF K tk(1)] tk(2) by simp
  from rt_timer_start_kinv [OF this row] show ?thesis
    using st by (simp add: asleep_def asleep_layout_def)
qed

lemma asleep_members:
  assumes K: "kinv b s L" and t: "linked L (Tlist t)"
    and tk: "unat tick \<le> longest_timeout" "0 < tick"
  shows "queued (asleep_layout b t tick s L) g u \<longleftrightarrow> queued L g u"
    and "armed (asleep_layout b t tick s L) x \<longleftrightarrow> armed L x \<or> x = Thread_Timer t"
    and "linked (asleep_layout b t tick s L) m \<longleftrightarrow> linked L m"
    and "g \<noteq> Row (Thread_Timer t) \<Longrightarrow> g \<noteq> Timer_List_Node \<Longrightarrow>
      asleep_layout b t tick s L g = unlink (Row (Thread_Timer t)) L g"
proof -
  have row: "linked L (Row (Thread_Timer t))" using kinvD(4) [OF K t] by (simp add: thread_ok_def)
  have "kinv b (upd_timer (Thread_Timer t) (\<lambda>tm. tm\<lparr>tm_init_tick := tick\<rparr>) s) L"
    using kinv_init_tick [OF K tk(1)] tk(2) by simp
  from started_layout_members [OF this row]
  show "queued (asleep_layout b t tick s L) g u \<longleftrightarrow> queued L g u"
    and "armed (asleep_layout b t tick s L) x \<longleftrightarrow> armed L x \<or> x = Thread_Timer t"
    and "linked (asleep_layout b t tick s L) m \<longleftrightarrow> linked L m"
    and "g \<noteq> Row (Thread_Timer t) \<Longrightarrow> g \<noteq> Timer_List_Node \<Longrightarrow>
      asleep_layout b t tick s L g = unlink (Row (Thread_Timer t)) L g"
    by (simp_all add: asleep_layout_def)
qed

lemma asleep_links:
  "asleep t tick (s\<lparr>nxt := nx, prv := pv\<rparr>) = (asleep t tick s)\<lparr>nxt := nx, prv := pv\<rparr>"
  "asleep t tick (s\<lparr>primask := x\<rparr>) = (asleep t tick s)\<lparr>primask := x\<rparr>"
  "asleep_layout b t tick (s\<lparr>nxt := nx, prv := pv\<rparr>) L = asleep_layout b t tick s L"
  "asleep_layout b t tick (s\<lparr>primask := x\<rparr>) L = asleep_layout b t tick s L"
  by (simp_all add: asleep_def timer_started_def rearmed_def asleep_layout_def started_layout_def)

text \<open>Some other thread is ready: without one \<open>rt_schedule\<close> has nothing to switch to.\<close>

definition other_ready :: "node layout \<Rightarrow> nat \<Rightarrow> bool" where
  "other_ready L t \<longleftrightarrow> (\<exists>p u. queued L (Prio_Node p) u \<and> u \<noteq> t)"

lemma rt_thread_sleep_kinv:
  assumes K: "kinv b s L" and cur: "rt_current_thread s = Some t"
    and st: "th_stat (threads s t) = RT_THREAD_READY" and oth: "other_ready L t"
    and tk: "unat tick \<le> longest_timeout" "0 < tick"
    and xs: "L (Prio_Node (prio_of t s)) = Some xs"
  defines "s1 \<equiv> suspended t (remove1 (Tlist t) xs = []) s"
  defines "L1 \<equiv> asleep_layout b t tick s (set_aside t L)"
  shows "\<exists>to. highest_ready L1 to \<and>
    keeps b (rt_thread_sleep tick s) RT_EOK (switched to (asleep t tick s1)) L1"
proof -
  have t: "linked L (Tlist t)" using kinvD(8) [OF K cur] .
  let ?s = "s\<lparr>primask := True\<rparr>"
  have sus: "keeps b (rt_thread_suspend t ?s) RT_EOK (s1\<lparr>primask := True\<rparr>) (set_aside t L)"
    using rt_thread_suspend_kinv [of b ?s L t xs] K t st xs by (simp add: s1_def suspended_links)
  have lt: "linked (set_aside t L) (Tlist t)" using set_aside_lone [of t L] linkedI [of "set_aside t L" "Tlist t" "[]" "Tlist t"] by simp
  have L1: "asleep_layout b t tick s1 (set_aside t L) = L1"
    by (simp add: L1_def asleep_layout_def started_layout_def rearmed_def s1_def)
  have e: "rt_thread_sleep tick s = Option.bind (rt_thread_suspend t ?s) (\<lambda>(_, s').
      Option.bind (rt_timer_start (Thread_Timer t)
        (upd_timer (Thread_Timer t) (\<lambda>tm. tm\<lparr>tm_init_tick := tick\<rparr>) s')) (\<lambda>(_, s').
      Option.bind (rt_schedule (s'\<lparr>primask := primask s\<rparr>)) (\<lambda>s'. Some (RT_EOK, s'))))"
    by (simp add: rt_thread_sleep_def hw_defs rt_timer_control_def cur)
  show ?thesis
    unfolding e
  proof (rule keeps_bind [OF sus], goal_cases)
    case (1 nx pv)
    let ?s1 = "s1\<lparr>primask := True, nxt := nx, prv := pv\<rparr>"
    have arm: "keeps b (rt_timer_start (Thread_Timer t)
        (upd_timer (Thread_Timer t) (\<lambda>tm. tm\<lparr>tm_init_tick := tick\<rparr>) ?s1)) RT_EOK (asleep t tick ?s1) L1"
      using arm_timer_kinv [OF 1 lt _ tk] unfolding L1 [symmetric] by (simp add: asleep_links s1_def)
    show ?case
      unfolding prod.case
    proof (rule keeps_bind [OF arm], goal_cases)
      case (1 nx2 pv2)
      have "queued L1 g u \<longleftrightarrow> queued L g u \<and> u \<noteq> t" for g u
        using asleep_members(1) [OF \<open>kinv b ?s1 (set_aside t L)\<close> lt tk]
          queued_set_aside [OF kinvD(1) [OF K] t] unfolding L1 [symmetric] by (simp add: asleep_links)
      then have rdy: "some_ready L1" using oth by (auto simp: some_ready_def other_ready_def)
      have "rt_current_thread (asleep t tick s1) \<noteq> None" by (simp add: asleep_def s1_def cur)
      then obtain to where to: "highest_ready L1 to" "sustains b (rt_schedule
          ((asleep t tick s1)\<lparr>nxt := nx2, prv := pv2\<rparr>)) (switched to (asleep t tick s1)) L1"
        using rt_schedule_keeps [where s = "asleep t tick s1" and nx = nx2 and pv = pv2 and L = L1 and b = b] 1 rdy by (auto simp: asleep_links)
      have "keeps b (Option.bind (rt_schedule ((asleep t tick s1)\<lparr>nxt := nx2, prv := pv2\<rparr>))
          (\<lambda>s'. Some (RT_EOK, s'))) RT_EOK (switched to (asleep t tick s1)) L1"
        by (rule sustains_bind [OF to(2)]) (simp add: keeps_Some)
      moreover have "(asleep t tick s1)\<lparr>nxt := nx2, prv := pv2, primask := primask s\<rparr> =
          (asleep t tick s1)\<lparr>nxt := nx2, prv := pv2\<rparr>"
        by (simp add: asleep_def timer_started_def s1_def suspended_def timer_stopped_def made_unready_def)
      ultimately show ?case using to(1) by (auto simp: asleep_links)
    qed
  qed
qed

text \<open>The same, said of the lists.\<close>

lemma rt_thread_delay_sleeps:
  assumes K: "kinv b s L" and cur: "rt_current_thread s = Some t"
    and st: "th_stat (threads s t) = RT_THREAD_READY" and oth: "other_ready L t"
    and tk: "unat tick \<le> longest_timeout" "0 < tick"
  shows "\<exists>s' L' to. rt_thread_delay tick s = Some (RT_EOK, s') \<and> kinv b s' L' \<and>
    (\<forall>h u. queued L' h u \<longleftrightarrow> queued L h u \<and> u \<noteq> t) \<and>
    th_stat (threads s' t) = RT_THREAD_SUSPEND \<and> armed L' (Thread_Timer t) \<and>
    tm_timeout_tick (timers s' (Thread_Timer t)) = rt_tick s + tick \<and>
    highest_ready L' to \<and> (rt_scheduler_lock_nest s = 0 \<longrightarrow> rt_current_thread s' = Some to) \<and>
    rt_current_thread s' \<noteq> None \<and> rt_tick s' = rt_tick s \<and> (\<forall>n. linked L' n \<longleftrightarrow> linked L n) \<and>
    (\<forall>u. u \<noteq> t \<longrightarrow> th_stat (threads s' u) = th_stat (threads s u)) \<and>
    rt_scheduler_lock_nest s' = rt_scheduler_lock_nest s \<and>
    (rt_scheduler_lock_nest s \<noteq> 0 \<longrightarrow> rt_current_thread s' = rt_current_thread s) \<and>
    (\<forall>u. th_cleanup (threads s' u) = th_cleanup (threads s u) \<and> objects s' (Thread_Obj u) = objects s (Thread_Obj u))"
proof -
  have t: "linked L (Tlist t)" using kinvD(8) [OF K cur] .
  have p: "prio_of t s < 32" using kinvD(4) [OF K t] by (simp add: thread_ok_def)
  obtain xs where xs: "L (Prio_Node (prio_of t s)) = Some xs" using ready_list [OF kinvD(2) [OF K] p] by blast
  let ?s = "asleep t tick (suspended t (remove1 (Tlist t) xs = []) s)" and ?L = "asleep_layout b t tick s (set_aside t L)"
  obtain to nx pv where r: "highest_ready ?L to"
    "rt_thread_sleep tick s = Some (RT_EOK, (switched to ?s)\<lparr>nxt := nx, prv := pv\<rparr>)"
    "kinv b ((switched to ?s)\<lparr>nxt := nx, prv := pv\<rparr>) ?L"
    using rt_thread_sleep_kinv [OF K cur st oth tk xs] by (auto simp: keeps_def)
  obtain nx1 pv1 where K1: "kinv b ((suspended t (remove1 (Tlist t) xs = []) s)\<lparr>nxt := nx1, prv := pv1\<rparr>) (set_aside t L)"
    using rt_thread_suspend_kinv [OF K t st xs] by (auto simp: keeps_def)
  have l0: "linked (set_aside t L) n \<longleftrightarrow> linked L n" for n
    by (rule linked_set_aside [OF kinvD(1) [OF K] t]) (use kinvD(4) [OF K t] in \<open>simp add: thread_ok_def\<close>)
  then have l: "linked (set_aside t L) (Tlist t)" using t by simp
  have al: "asleep_layout b t tick ((suspended t (remove1 (Tlist t) xs = []) s)\<lparr>nxt := nx1, prv := pv1\<rparr>) (set_aside t L) = ?L"
    by (simp add: asleep_layout_def started_layout_def rearmed_def)
  note m = asleep_members [OF K1 l tk, unfolded al]
  have "\<forall>h u. queued ?L h u \<longleftrightarrow> queued L h u \<and> u \<noteq> t"
    using m(1) queued_set_aside [OF kinvD(1) [OF K] t] by simp
  moreover have "armed ?L (Thread_Timer t)" using m(2) by simp
  moreover have "\<forall>n. linked ?L n \<longleftrightarrow> linked L n" using m(3) l0 by simp
  ultimately show ?thesis
    using r cur by (intro exI [of _ "(switched to ?s)\<lparr>nxt := nx, prv := pv\<rparr>"] exI [of _ ?L] exI [of _ to])
      (simp add: rt_thread_delay_def asleep_def timer_started_def rearmed_def suspended_def timer_stopped_def made_unready_def)
qed

text \<open>The timer of a thread has run out: the thread is ready again, with the error set.\<close>

definition timed_out :: "nat \<Rightarrow> kernel \<Rightarrow> kernel" where
  "timed_out t s = made_ready t (upd_thread t (\<lambda>th. th\<lparr>th_error := - RT_ETIMEOUT\<rparr>) s)"

lemma timed_out_simps [simp]:
  "timers (timed_out t s) = timers s" "rt_tick (timed_out t s) = rt_tick s"
  "objects (timed_out t s) = objects s"
  "rt_current_thread (timed_out t s) = rt_current_thread s"
  "rt_scheduler_lock_nest (timed_out t s) = rt_scheduler_lock_nest s"
  "primask (timed_out t s) = primask s"
  by (simp_all add: timed_out_def made_ready_def)

lemma rt_thread_timeout_kinv:
  assumes K: "kinv b s L" and t: "linked L (Tlist t)"
    and st: "th_stat (threads s t) \<in> {RT_THREAD_READY, RT_THREAD_SUSPEND}"
    and cur: "rt_current_thread s \<noteq> None"
  defines "L1 \<equiv> to_tail (Prio_Node (prio_of t s)) (Tlist t) L"
  shows "\<exists>to. highest_ready L1 to \<and>
    sustains b (rt_thread_timeout (Thread_Ptr t) s) (switched to (timed_out t s)) L1"
proof -
  let ?s = "upd_thread t (\<lambda>th. th\<lparr>th_error := - RT_ETIMEOUT\<rparr>) s"
  have K1: "kinv b ?s L" using K by (subst kinv_error)
  have p: "prio_of t s < 32" using kinvD(4) [OF K t] by (simp add: thread_ok_def)
  obtain xs where xs: "L (Prio_Node (prio_of t ?s)) = Some xs" using ready_list [OF kinvD(2) [OF K] p] by auto
  have p': "prio_of t ?s < 32" using p by simp
  have "succeeds (Option.bind (rt_list_remove (Tlist t) ?s) (rt_schedule_insert_thread t)) (timed_out t s) L1"
    using readied_succeeds [OF kinvD(1) [OF K1] t p' xs] by (simp add: timed_out_def L1_def)
  then have "sustains b (Option.bind (rt_list_remove (Tlist t) ?s) (rt_schedule_insert_thread t)) (timed_out t s) L1"
  proof (rule sustainsI)
    fix nx pv assume l: "lay nx pv L1"
    have "L1 = to_tail (Prio_Node (prio_of t ?s)) (Tlist t) L" by (simp add: L1_def)
    from kinv_made_ready [OF K1 t _ this l] st
    show "kinv b ((timed_out t s)\<lparr>nxt := nx, prv := pv\<rparr>) L1" by (simp add: timed_out_def)
  qed
  then show ?thesis
    unfolding rt_thread_timeout_eq
  proof (rule sustains_bind, goal_cases)
    case (1 nx pv)
    have "some_ready L1" using some_ready_to_tail [OF p K t] by (auto simp: some_ready_def L1_def)
    then show ?case using rt_schedule_keeps [OF 1] cur by simp
  qed
qed

section \<open>Giving up the processor\<close>

lemma rt_thread_yield_alone:
  assumes "kinv b s L" "rt_current_thread s = Some t" "nxt s (Tlist t) = prv s (Tlist t)"
  shows "rt_thread_yield s = Some (RT_EOK, s)"
  using assms by (simp add: rt_thread_yield_def hw_defs)

lemma kinv_rotate:
  assumes K: "kinv b s L" and t: "linked L (Tlist t)" and st: "th_stat (threads s t) = RT_THREAD_READY"
    and l: "lay nx pv (to_tail (Prio_Node (prio_of t s)) (Tlist t) L)"
  shows "kinv b (s\<lparr>nxt := nx, prv := pv\<rparr>) (to_tail (Prio_Node (prio_of t s)) (Tlist t) L)"
proof -
  let ?g = "rt_thread_ready_priority_group s" and ?p = "prio_of t s"
  have T: "thread_ok s L t" using kinvD(4) [OF K t] .
  then have q: "queued L (Prio_Node ?p) t" and m: "th_number_mask (threads s t) = 2 ^ ?p" and p: "?p < 32"
    using st by (auto simp: thread_ok_def)
  have "bit ?g ?p" using kinvD(3) [OF K] p q by (auto simp: group_ok_def)
  then have "?g OR 2 ^ ?p = ?g" using p by (intro bit_word_eqI) (auto simp: bit_or_iff)
  moreover have "(threads s t)\<lparr>th_stat := RT_THREAD_READY\<rparr> = threads s t"
    using st by (cases "threads s t") simp
  ultimately have "made_ready t s = s" by (simp add: made_ready_def m)
  then show ?thesis using kinv_made_ready [OF K t _ refl l] st by simp
qed

lemma rt_thread_yield_kinv:
  assumes K: "kinv b s L" and cur: "rt_current_thread s = Some t"
    and st: "th_stat (threads s t) = RT_THREAD_READY" and nb: "nxt s (Tlist t) \<noteq> prv s (Tlist t)"
  defines "L1 \<equiv> to_tail (Prio_Node (prio_of t s)) (Tlist t) L"
  shows "\<exists>to. highest_ready L1 to \<and> keeps b (rt_thread_yield s) RT_EOK (switched to s) L1"
proof -
  have t: "linked L (Tlist t)" using kinvD(8) [OF K cur] .
  have p: "prio_of t s < 32" using kinvD(4) [OF K t] by (simp add: thread_ok_def)
  obtain xs where xs: "L (Prio_Node (prio_of t s)) = Some xs" using ready_list [OF kinvD(2) [OF K] p] by auto
  let ?s = "s\<lparr>primask := True\<rparr>"
  have "succeeds (Option.bind (rt_list_remove (Tlist t) ?s) (rt_list_insert_before (Prio_Node (prio_of t s)) (Tlist t)))
     ?s L1"
  proof (rule succeeds_bind [OF remove_succeeds [where L = L]], goal_cases)
    case (4 nx pv)
    then show ?case using xs
      by (simp only: L1_def to_tail_def)
        (intro succeeds_links [OF append_succeeds], auto)
  qed (use kinvD(1) [OF K] t in simp_all)
  then have mv: "sustains b (Option.bind (rt_list_remove (Tlist t) ?s)
     (rt_list_insert_before (Prio_Node (prio_of t s)) (Tlist t))) ?s L1"
    by (rule sustainsI) (use kinv_rotate [OF K t st] in \<open>simp add: L1_def\<close>)
  have e: "rt_thread_yield s = Option.bind (Option.bind (rt_list_remove (Tlist t) ?s)
     (rt_list_insert_before (Prio_Node (prio_of t s)) (Tlist t))) (\<lambda>s'.
     Option.bind (rt_schedule (s'\<lparr>primask := primask s\<rparr>)) (\<lambda>s'. Some (RT_EOK, s')))"
    using st nb p by (auto simp: rt_thread_yield_def hw_defs cur thread_state_def priority_table_def
        rt_list_remove_def Let_def split: Option.bind_splits)
  show ?thesis
    unfolding e
  proof (rule sustains_bind [OF mv], goal_cases)
    case (1 nx pv)
    then have K2: "kinv b (s\<lparr>nxt := nx, prv := pv\<rparr>) L1" by simp
    have "some_ready L1" using some_ready_to_tail [OF p K t] by (auto simp: some_ready_def L1_def)
    then obtain to where to: "highest_ready L1 to" "sustains b (rt_schedule (s\<lparr>nxt := nx, prv := pv\<rparr>)) (switched to s) L1"
      using rt_schedule_keeps [OF K2] cur by auto
    have "keeps b (Option.bind (rt_schedule (s\<lparr>nxt := nx, prv := pv\<rparr>))
          (\<lambda>s'. Some (RT_EOK, s'))) RT_EOK (switched to s) L1"
      by (rule sustains_bind [OF to(2)]) (simp add: keeps_Some)
    then show ?case using to(1) by auto
  qed
qed

section \<open>Removing a thread\<close>

lemma unlink_commute: "unlink n (unlink m L) = unlink m (unlink n L)"
  by (rule ext) (auto simp: unlink_def option.map_comp comp_def remove1_commute)

lemma kinv_closed:
  assumes K: "kinv b s L" and t: "linked L (Tlist t)" and st: "th_stat (threads s t) = RT_THREAD_INIT"
  shows "kinv b (upd_thread t (\<lambda>th. th\<lparr>th_stat := RT_THREAD_CLOSE\<rparr>) s) L"
proof -
  let ?s = "upd_thread t (\<lambda>th. th\<lparr>th_stat := RT_THREAD_CLOSE\<rparr>) s"
  have "thread_ok ?s L u" if "thread_ok s L u" for u
    using that st by (cases "u = t") (auto simp: thread_ok_def)
  moreover have "timer_ok ?s L x" if "timer_ok s L x" for x
    using that by (cases x) (auto simp: timer_ok_def)
  moreover have "prio_of u ?s = prio_of u s" for u by simp
  ultimately show ?thesis
    using K by (simp add: kinv_def group_ok_def list_ok_def sem_ok_def)
qed

definition detached_layout :: "nat \<Rightarrow> node layout \<Rightarrow> node layout" where
  "detached_layout t L = unlink (Obj_List (Thread_Obj t))
     (unlink (Obj_List (Timer_Obj (Thread_Timer t))) (unlink (Row (Thread_Timer t)) (unlink (Tlist t) L)))"

definition detached :: "nat \<Rightarrow> bool \<Rightarrow> kernel \<Rightarrow> kernel" where
  "detached t emptied s = made_unready t emptied (upd_thread t (\<lambda>th. th\<lparr>th_stat := RT_THREAD_CLOSE\<rparr>) s)"

lemma idle_not_queued:
  assumes K: "kinv b s L" and t: "linked L (Tlist t)"
    and st: "th_stat (threads s t) \<notin> {RT_THREAD_READY, RT_THREAD_SUSPEND}"
  shows "\<not> queued L h t"
proof
  assume q: "queued L h t"
  then have m: "may_hold h (Tlist t)" using lay_holds [OF kinvD(1) [OF K]] by (auto simp: queued_def)
  have T: "thread_ok s L t" using kinvD(4) [OF K t] .
  show False
  proof (cases h)
    case Defunct_Node
    then show ?thesis using q kinvD(2) [OF K] by (simp add: queued_def tables_ok_def)
  qed (use m T q st in \<open>auto simp: thread_ok_def\<close>)
qed

lemma kinv_detached:
  assumes K: "kinv b s L" and t: "linked L (Tlist t)"
    and xs: "L (Prio_Node (prio_of t s)) = Some xs"
    and l: "lay nx pv (detached_layout t L)"
  shows "kinv b ((detached t (th_stat (threads s t) \<noteq> RT_THREAD_INIT \<and> remove1 (Tlist t) xs = []) s)
    \<lparr>nxt := nx, prv := pv\<rparr>) (detached_layout t L)"
proof -
  note lay = kinvD(1) [OF K]
  have T: "thread_ok s L t" using kinvD(4) [OF K t] .
  then have row: "linked L (Row (Thread_Timer t))" and ob: "linked L (Obj_List (Thread_Obj t))"
    by (auto simp: thread_ok_def)
  then have tob: "linked L (Obj_List (Timer_Obj (Thread_Timer t)))"
    using kinvD(5) [OF K row] by (auto simp: timer_ok_def)
  let ?r = "Row (Thread_Timer t)" and ?o1 = "Obj_List (Timer_Obj (Thread_Timer t))" and ?o2 = "Obj_List (Thread_Obj t)"
  obtain n1 p1 where l1: "lay n1 p1 (unlink ?r L)" using unlink_lay [OF lay _ row] by auto
  have K1: "kinv b (s\<lparr>nxt := n1, prv := p1\<rparr>) (unlink ?r L)" by (rule kinv_unlink [OF K _ row _ l1]) auto
  have c1: "linked (unlink ?r L) m \<longleftrightarrow> linked L m" for m by (rule linked_unlink_leaf [OF lay _ row]) simp
  have t1: "linked (unlink ?r L) (Tlist t)" using c1 t by simp
  have na: "\<not> armed (unlink ?r L) (Thread_Timer t)" using armed_unlink [OF lay] by simp
  have T1: "thread_ok (s\<lparr>nxt := n1, prv := p1\<rparr>) (unlink ?r L) t" using kinvD(4) [OF K1 t1] .
  have x1: "unlink ?r L (Prio_Node (prio_of t s)) = Some xs"
  proof -
    have "?r \<notin> set xs" using lay_holds [OF lay xs] by (auto simp: may_hold_iff)
    then show ?thesis using xs by simp
  qed
  let ?e = "th_stat (threads s t) \<noteq> RT_THREAD_INIT \<and> remove1 (Tlist t) xs = []"
  let ?s2 = "detached t ?e s" and ?L2 = "unlink (Tlist t) (unlink ?r L)"
  obtain n2 p2 where l2: "lay n2 p2 ?L2" using unlink_lay [OF l1 _ t1] by auto
  have c2: "linked ?L2 m \<longleftrightarrow> linked L m" for m using linked_unlink_leaf [OF l1 _ t1, of m] c1 by simp
  have K2: "kinv b (?s2\<lparr>nxt := n2, prv := p2\<rparr>) ?L2"
  proof (cases "th_stat (threads s t) = RT_THREAD_INIT")
    case False
    then have e: "?e \<longleftrightarrow> remove1 (Tlist t) xs = []" by simp
    have "L' = unlink (Tlist t) (unlink ?r L) \<Longrightarrow> lay n2 p2 L' \<Longrightarrow> kinv b ((made_unready t (remove1 (Tlist t) xs = [])
        (upd_thread t (\<lambda>th. th\<lparr>th_stat := RT_THREAD_CLOSE\<rparr>) (s\<lparr>nxt := n1, prv := p1\<rparr>)))\<lparr>nxt := n2, prv := p2\<rparr>) L'" for L'
      by (rule kinv_withdrawn [OF K1 t1]) (use na x1 in simp_all)
    from this [OF refl l2] show ?thesis unfolding e
      by (cases "remove1 (Tlist t) xs = []") (simp_all add: detached_def made_unready_def)
  next
    case True
    have nq: "\<not> queued (unlink ?r L) h t" for h
      using idle_not_queued [OF K t] True queued_unlink [OF lay] by simp
    obtain h ys where h: "unlink ?r L h = Some ys" "Tlist t \<in> set (h # ys)" using t1 by (auto simp: linked_def)
    then have "h = Tlist t" using nq [of h] by (auto simp: queued_def)
    then have "unlink ?r L (Tlist t) = Some []" using h wf_layout_leaf [OF lay_wf [OF l1], of "Tlist t" ys] by simp
    then have same: "?L2 = unlink ?r L" using unlink_lone [OF lay_rings [OF l1]] by simp
    then have "kinv b (s\<lparr>nxt := n2, prv := p2\<rparr>) ?L2"
      using kinv_unlink [OF K _ row, of n2 p2] l2 by simp
    from kinv_closed [OF this] show ?thesis using c2 t True by (simp add: detached_def made_unready_def)
  qed
  let ?L3 = "unlink ?o1 ?L2"
  obtain n3 p3 where l3: "lay n3 p3 ?L3" using unlink_lay [OF l2, of ?o1] c2 tob by auto
  have K3: "kinv b (?s2\<lparr>nxt := n3, prv := p3\<rparr>) ?L3"
    using kinv_unlink [OF K2, of ?o1 n3 p3] c2 tob l3 by simp
  have c3: "linked ?L3 m \<longleftrightarrow> linked L m" for m using linked_unlink_leaf [OF l2, of ?o1 m] c2 tob by simp
  have "detached_layout t L = unlink ?o2 ?L3" by (simp add: detached_layout_def unlink_commute [of "Tlist t"])
  then show ?thesis using kinv_unlink [OF K3, of ?o2 nx pv] c3 ob l by simp
qed

lemma detached_layout_lone:
  "lay nx pv L \<Longrightarrow> L (Tlist t) = Some [] \<Longrightarrow> unlink (Tlist t) L = L"
  by (rule unlink_lone [OF lay_rings])

lemma linked_alone:
  assumes "lay nx pv L" "linked L (Tlist t)" "\<And>h. \<not> queued L h t"
  shows "L (Tlist t) = Some []"
proof -
  obtain h ys where h: "L h = Some ys" "Tlist t \<in> set (h # ys)" using assms(2) by (auto simp: linked_def)
  then have "h = Tlist t" using assms(3) [of h] by (auto simp: queued_def)
  then show ?thesis using h wf_layout_leaf [OF lay_wf [OF assms(1)], of "Tlist t" ys] by simp
qed

lemma linked_unlinkI:
  assumes "wf_layout L" "leaf n" "linked L m"
  shows "linked (unlink n L) m"
proof -
  obtain h xs where h: "L h = Some xs" "m \<in> set (h # xs)" using assms(3) by (auto simp: linked_def)
  show ?thesis
  proof (cases "m = n \<or> h = n")
    case True
    then have "m = n" using h wf_layout_leaf [OF assms(1,2)] by auto
    then show ?thesis using linkedI [of "unlink n L" n "[]" n] by simp
  next
    case False
    then show ?thesis using h linkedI [of "unlink n L" h "remove1 n xs" m] by auto
  qed
qed

lemma rt_thread_detach_kinv:
  assumes K: "kinv b s L" and t: "linked L (Tlist t)"
    and xs: "L (Prio_Node (prio_of t s)) = Some xs"
    and stc: "rt_object_is_systemobject (Thread_Obj t) s" "th_cleanup (threads s t) = 0"
  shows "keeps b (rt_thread_detach t s) RT_EOK
    (detached t (th_stat (threads s t) \<noteq> RT_THREAD_INIT \<and> remove1 (Tlist t) xs = []) s)
    (detached_layout t L)"
proof -
  note lay = kinvD(1) [OF K]
  have T: "thread_ok s L t" using kinvD(4) [OF K t] .
  then have row: "linked L (Row (Thread_Timer t))" and ob: "linked L (Obj_List (Thread_Obj t))"
    and p: "prio_of t s < 32" by (auto simp: thread_ok_def)
  then have tob: "linked L (Obj_List (Timer_Obj (Thread_Timer t)))"
    using kinvD(5) [OF K row] by (auto simp: timer_ok_def)
  let ?L1 = "unlink (Tlist t) L" and ?i = "th_stat (threads s t) = RT_THREAD_INIT"
  let ?e = "\<not> ?i \<and> remove1 (Tlist t) xs = []"
  let ?L3 = "unlink (Obj_List (Timer_Obj (Thread_Timer t))) (unlink (Row (Thread_Timer t)) ?L1)"
  have c1: "linked ?L1 m \<longleftrightarrow> linked L m" for m by (rule linked_unlink_leaf [OF lay _ t]) simp
  have "thread_state t s = RT_THREAD_INIT \<longleftrightarrow> ?i" using T by (auto simp: thread_state_def thread_ok_def)
  then have first: "succeeds (if thread_state t s \<noteq> RT_THREAD_INIT then rt_schedule_remove_thread t s else Some s)
      (made_unready t ?e s) ?L1"
  proof (cases ?i)
    case True
    have "L (Tlist t) = Some []"
      by (rule linked_alone [OF lay t]) (use idle_not_queued [OF K t] True in auto)
    then have "?L1 = L" by (rule detached_layout_lone [OF lay])
    then show ?thesis using True \<open>thread_state t s = _ \<longleftrightarrow> _\<close> lay
      by (simp add: made_unready_def succeeds_Some)
  next
    case False
    then show ?thesis using rt_schedule_remove_thread_ok [OF lay t p xs] \<open>thread_state t s = _ \<longleftrightarrow> _\<close> by simp
  qed
  have "returns (rt_thread_detach t s) RT_EOK (detached t ?e s) (detached_layout t L)"
    unfolding rt_thread_detach_def
  proof (rule succeeds_bind [OF first], goal_cases)
    case (1 nx pv)
    let ?s1 = "(made_unready t ?e s)\<lparr>nxt := nx, prv := pv\<rparr>"
    have td: "returns (rt_timer_detach (Thread_Timer t) ?s1) RT_EOK ?s1 ?L3"
      by (rule rt_timer_detach_ok) (use 1 c1 row tob in simp_all)
    show ?case
    proof (rule returns_bind [OF td], goal_cases)
      case (1 nx2 pv2)
      let ?s2 = "(detached t ?e s)\<lparr>nxt := nx2, prv := pv2\<rparr>"
      have c3: "linked ?L3 (Obj_List (Thread_Obj t))"
        using ob lay_wf [OF lay] by (intro linked_unlinkI wf_layout_unlink) simp_all
      have "succeeds (rt_object_detach (Thread_Obj t) ?s2) ?s2 (detached_layout t L)"
        unfolding detached_layout_def by (rule rt_object_detach_ok) (use 1 c3 in simp_all)
      then have "returns (Option.bind (rt_object_detach (Thread_Obj t) ?s2) (\<lambda>s. Some (RT_EOK, s)))
          RT_EOK (detached t ?e s) (detached_layout t L)"
        by (rule succeeds_bind) (simp add: returns_Some)
      moreover have "rt_object_is_systemobject (Thread_Obj t) ?s2" "th_cleanup (threads ?s2 t) = 0"
        "upd_thread t (\<lambda>th. th\<lparr>th_stat := RT_THREAD_CLOSE\<rparr>) (?s1\<lparr>nxt := nx2, prv := pv2\<rparr>) = ?s2"
        using stc by (simp_all add: detached_def rt_object_is_systemobject_def made_unready_def)
      ultimately show ?case by (simp only: prod.case Let_def simp_thms if_True)
    qed
  qed
  then show ?thesis by (rule keepsI) (rule kinv_detached [OF K t xs])
qed

text \<open>
  \<open>rt_thread_delete\<close> puts the thread into \<open>rt_thread_defunct\<close>, a list head nothing
  initialises. A removal leaves the links of such a node alone.
\<close>

lemma remove_untouched:
  assumes "lay (nxt s) (prv s) L" "leaf n" "linked L n" "\<not> linked L m"
  shows "rt_list_remove n s = Some s' \<Longrightarrow> nxt s' m = nxt s m"
proof -
  assume r: "rt_list_remove n s = Some s'"
  note R = lay_rings [OF assms(1)]
  have mv: "movable L n" using assms(1-3) by (simp add: wf_layout_movable lay_wf)
  have "\<exists>np nn. prv s n = Some np \<and> nxt s n = Some nn \<and> linked L np"
  proof -
    consider "L n = Some []" | h xs ys where "L h = Some (xs @ n # ys)"
      using mv linked_cases [of L n] unfolding movable_def by metis
    then show ?thesis
    proof cases
      case 1
      then show ?thesis using ringsD [OF R 1] assms(3) by auto
    next
      case (2 h xs ys)
      have "linked L (last (h # xs))" using 2 by (auto intro: linkedI)
      then show ?thesis
        using ring_neighbours [OF ringsD [OF R], of h xs "n # ys"]
          ring_neighbours [OF ringsD [OF R], of h "xs @ [n]" ys] 2 by auto
    qed
  qed
  then obtain np nn where p: "prv s n = Some np" "nxt s n = Some nn" "linked L np" by blast
  then have "m \<noteq> np" "m \<noteq> n" using assms(3,4) by auto
  then show ?thesis using r rt_list_remove_eq [OF p(2,1)] by auto
qed

lemma defunct_not_linked: "kinv b s L \<Longrightarrow> \<not> linked L Defunct_Node"
proof
  assume K: "kinv b s L" and "linked L Defunct_Node"
  then obtain h xs where h: "L h = Some xs" "Defunct_Node \<in> set (h # xs)" by (auto simp: linked_def)
  moreover have "h \<noteq> Defunct_Node" using kinvD(2) [OF K] h(1) by (auto simp: tables_ok_def)
  ultimately have "Defunct_Node \<in> set xs" by simp
  then have "may_hold h Defunct_Node" by (rule lay_holds [OF kinvD(1) [OF K] h(1)])
  then show False by (cases h) auto
qed

lemma remove_thread_nxt:
  "rt_schedule_remove_thread t s = Some s1 \<Longrightarrow>
     \<exists>s0. rt_list_remove (Tlist t) (s\<lparr>primask := True\<rparr>) = Some s0 \<and> nxt s1 = nxt s0 \<and> prv s1 = prv s0"
  unfolding rt_schedule_remove_thread_def hw_defs Let_def prod.case by (auto elim!: bind_SomeE)

lemma timer_detach_nxt:
  "rt_timer_detach r s = Some (e, s1) \<Longrightarrow>
     \<exists>s0 s2. rt_list_remove (Row r) (s\<lparr>primask := True\<rparr>) = Some s0 \<and>
       rt_list_remove (Obj_List (Timer_Obj r)) (s0\<lparr>primask := True\<rparr>) = Some s2 \<and> nxt s1 = nxt s2"
  unfolding rt_timer_detach_def timer_remove_def rt_object_detach_def hw_defs Let_def prod.case
  by (auto elim!: bind_SomeE)

lemma remove_step:
  assumes l: "lay (nxt s) (prv s) L" "leaf n" "linked L n" and m: "\<not> linked L m" "nxt s m = None"
    and r: "rt_list_remove n s = Some s'"
  shows "lay (nxt s') (prv s') (unlink n L)" "\<not> linked (unlink n L) m" "nxt s' m = None"
  using lay_remove [OF l] r linked_unlink_leaf [OF l] remove_untouched [OF l m(1) r] m by auto

lemma rt_thread_delete_faults:
  assumes K: "kinv b s L" and t: "linked L (Tlist t)" and null: "nxt s Defunct_Node = None"
  shows "rt_thread_delete t s = None"
proof (rule ccontr)
  assume "rt_thread_delete t s \<noteq> None"
  then obtain s1 e s2 s' where
    s1: "(if thread_state t s \<noteq> RT_THREAD_INIT then rt_schedule_remove_thread t s else Some s) = Some s1"
    and s2: "rt_timer_detach (Thread_Timer t) s1 = Some (e, s2)"
    and s3: "rt_list_insert_after Defunct_Node (Tlist t)
        (upd_thread t (\<lambda>th. th\<lparr>th_stat := RT_THREAD_CLOSE\<rparr>) s2\<lparr>primask := True\<rparr>) = Some s'"
    unfolding rt_thread_delete_def hw_defs Let_def prod.case
    by (auto simp del: if_bind elim!: bind_SomeE split: prod.splits)
  note lay = kinvD(1) [OF K] and d = defunct_not_linked [OF K]
  have T: "thread_ok s L t" using kinvD(4) [OF K t] .
  then have row: "linked L (Row (Thread_Timer t))" by (simp add: thread_ok_def)
  then have tob: "linked L (Obj_List (Timer_Obj (Thread_Timer t)))"
    using kinvD(5) [OF K] by (auto simp: timer_ok_def)
  have "\<exists>L1. lay (nxt s1) (prv s1) L1 \<and> \<not> linked L1 Defunct_Node \<and> nxt s1 Defunct_Node = None \<and>
      linked L1 (Row (Thread_Timer t)) \<and> linked L1 (Obj_List (Timer_Obj (Thread_Timer t)))"
  proof (cases "thread_state t s = RT_THREAD_INIT")
    case True
    then show ?thesis using s1 lay d null row tob by auto
  next
    case False
    then obtain s0 where s0: "rt_list_remove (Tlist t) (s\<lparr>primask := True\<rparr>) = Some s0"
      "nxt s1 = nxt s0" "prv s1 = prv s0" using remove_thread_nxt [of t s s1] s1 by auto
    show ?thesis
      using remove_step [OF _ _ t d _ s0(1)] lay null s0(2,3) row tob linked_unlink_leaf [OF lay _ t]
      by (intro exI [of _ "unlink (Tlist t) L"]) simp
  qed
  then obtain L1 where L1: "lay (nxt s1) (prv s1) L1" "\<not> linked L1 Defunct_Node" "nxt s1 Defunct_Node = None"
    "linked L1 (Row (Thread_Timer t))" "linked L1 (Obj_List (Timer_Obj (Thread_Timer t)))" by blast
  obtain s4 s5 where s4: "rt_list_remove (Row (Thread_Timer t)) (s1\<lparr>primask := True\<rparr>) = Some s4"
    and s5: "rt_list_remove (Obj_List (Timer_Obj (Thread_Timer t))) (s4\<lparr>primask := True\<rparr>) = Some s5" "nxt s2 = nxt s5"
    using timer_detach_nxt [OF s2] by auto
  let ?L2 = "unlink (Row (Thread_Timer t)) L1"
  have r4: "lay (nxt s4) (prv s4) ?L2" "\<not> linked ?L2 Defunct_Node" "nxt s4 Defunct_Node = None"
    using remove_step [OF _ _ L1(4,2) _ s4] L1 by simp_all
  have "linked ?L2 (Obj_List (Timer_Obj (Thread_Timer t)))"
    using linked_unlink_leaf [OF L1(1) _ L1(4)] L1(5) by simp
  then have "nxt s5 Defunct_Node = None" using remove_step(3) [OF _ _ _ r4(2) _ s5(1)] r4 by simp
  then show False using s3 s5(2) by (simp add: rt_list_insert_after_null)
qed

end
