(* ===== verification/Ipc.thy ===== *)
theory Ipc
  imports Thread_Inv
begin

text \<open>
  \<open>rtt_source/ipc.c\<close>: the list of threads that wait for an IPC object, and the counting
  semaphore. \<open>rt_sem_create\<close> and \<open>rt_sem_delete\<close> are compiled only with
  \<open>RT_USING_HEAP\<close>, which \<open>User/rtconfig.h\<close> does not define.
\<close>

section \<open>Waiting lists\<close>

definition rt_ipc_object_init :: "nat \<Rightarrow> kernel \<Rightarrow> rt_err \<times> kernel" where
  "rt_ipc_object_init sem s = (RT_EOK, rt_list_init (Suspend sem) s)"

text \<open>
  The search of \<open>RT_IPC_FLAG_PRIO\<close>: the first node that holds a thread of a lower priority
  (a larger number), or the list head.
\<close>

partial_function (option) ipc_prio_scan :: "node \<Rightarrow> node \<Rightarrow> nat \<Rightarrow> kernel \<Rightarrow> node option" where
  "ipc_prio_scan n list thread s =
     (if n \<noteq> list then do {
        sthread \<leftarrow> thread_entry_of n;
        if th_current_priority (threads s thread) < th_current_priority (threads s sthread)
        then Some n
        else do { n \<leftarrow> nxt s n; ipc_prio_scan n list thread s } }
      else Some n)"

declare ipc_prio_scan.simps [code]

definition rt_ipc_list_suspend :: "node \<Rightarrow> nat \<Rightarrow> u8 \<Rightarrow> kernel \<Rightarrow> (rt_err \<times> kernel) option" where
  "rt_ipc_list_suspend list thread flag s = do {
     (_, s) \<leftarrow> rt_thread_suspend thread s;
     if flag = RT_IPC_FLAG_FIFO then do {
       s \<leftarrow> rt_list_insert_before list (Tlist thread) s;
       Some (RT_EOK, s) }
     else if flag = RT_IPC_FLAG_PRIO then do {
       n \<leftarrow> nxt s list;
       n \<leftarrow> ipc_prio_scan n list thread s;
       s \<leftarrow> rt_list_insert_before n (Tlist thread) s;
       Some (RT_EOK, s) }
     else Some (RT_EOK, s) }"

definition rt_ipc_list_resume :: "node \<Rightarrow> kernel \<Rightarrow> (rt_err \<times> kernel) option" where
  "rt_ipc_list_resume list s = do {
     n \<leftarrow> nxt s list;
     thread \<leftarrow> thread_entry_of n;
     (_, s) \<leftarrow> rt_thread_resume thread s;
     Some (RT_EOK, s) }"

partial_function (option) rt_ipc_list_resume_all :: "node \<Rightarrow> kernel \<Rightarrow> (rt_err \<times> kernel) option" where
  "rt_ipc_list_resume_all list s =
     (if \<not> rt_list_isempty list s then do {
        let (temp, s) = rt_hw_interrupt_disable s;
        n \<leftarrow> nxt s list;
        thread \<leftarrow> thread_entry_of n;
        let s = upd_thread thread (\<lambda>th. th\<lparr>th_error := - RT_ERROR\<rparr>) s;
        (_, s) \<leftarrow> rt_thread_resume thread s;
        rt_ipc_list_resume_all list (rt_hw_interrupt_enable temp s) }
      else Some (RT_EOK, s))"

declare rt_ipc_list_resume_all.simps [code]

section \<open>Semaphores\<close>

definition rt_sem_init :: "nat \<Rightarrow> u8 list \<Rightarrow> u32 \<Rightarrow> u8 \<Rightarrow> kernel \<Rightarrow> (rt_err \<times> kernel) option" where
  "rt_sem_init sem name value flag s = do {
     s \<leftarrow> rt_object_init (Sem_Obj sem) RT_Object_Class_Semaphore name s;
     let (_, s) = rt_ipc_object_init sem s;
     let s = upd_sem sem (\<lambda>sm. sm\<lparr>sem_value := ucast value\<rparr>) s;
     let s = upd_object (Sem_Obj sem) (\<lambda>h. h\<lparr>ob_flag := flag\<rparr>) s;
     Some (RT_EOK, s) }"

definition rt_sem_detach :: "nat \<Rightarrow> kernel \<Rightarrow> (rt_err \<times> kernel) option" where
  "rt_sem_detach sem s = do {
     (_, s) \<leftarrow> rt_ipc_list_resume_all (Suspend sem) s;
     s \<leftarrow> rt_object_detach (Sem_Obj sem) s;
     Some (RT_EOK, s) }"

text \<open>
  \<open>rt_sem_take\<close> up to the return of \<open>rt_schedule\<close>: either it has returned a code, or the
  calling thread waits and, when it runs again, goes on with \<open>rt_sem_take_resumed\<close>.
\<close>

datatype take_result = Take_Returned rt_err | Take_Waiting nat

definition rt_sem_take :: "nat \<Rightarrow> u32 \<Rightarrow> kernel \<Rightarrow> (take_result \<times> kernel) option" where
  "rt_sem_take sem time s =
     (let (temp, s) = rt_hw_interrupt_disable s
      in if 0 < sem_value (semaphores s sem)
         then Some (Take_Returned RT_EOK, rt_hw_interrupt_enable temp
                (upd_sem sem (\<lambda>sm. sm\<lparr>sem_value := sem_value sm - 1\<rparr>) s))
         else if time = 0
         then Some (Take_Returned (- RT_ETIMEOUT), rt_hw_interrupt_enable temp s)
         else do {
           thread \<leftarrow> rt_thread_self s;
           let s = upd_thread thread (\<lambda>th. th\<lparr>th_error := RT_EOK\<rparr>) s;
           (_, s) \<leftarrow> rt_ipc_list_suspend (Suspend sem) thread (ob_flag (objects s (Sem_Obj sem))) s;
           s \<leftarrow> (if 0 < sint time then do {
                   let (_, s, _) = rt_timer_control (Thread_Timer thread) RT_TIMER_CTRL_SET_TIME time s;
                   (_, s) \<leftarrow> rt_timer_start (Thread_Timer thread) s;
                   Some s }
                 else Some s);
           let s = rt_hw_interrupt_enable temp s;
           s \<leftarrow> rt_schedule s;
           Some (Take_Waiting thread, s) })"

definition rt_sem_take_resumed :: "nat \<Rightarrow> kernel \<Rightarrow> rt_err" where
  "rt_sem_take_resumed thread s =
     (if th_error (threads s thread) \<noteq> RT_EOK then th_error (threads s thread) else RT_EOK)"

definition rt_sem_trytake :: "nat \<Rightarrow> kernel \<Rightarrow> (take_result \<times> kernel) option" where
  "rt_sem_trytake sem s = rt_sem_take sem 0 s"

definition rt_sem_release :: "nat \<Rightarrow> kernel \<Rightarrow> (rt_err \<times> kernel) option" where
  "rt_sem_release sem s = do {
     let (temp, s) = rt_hw_interrupt_disable s;
     (need_schedule, s) \<leftarrow>
       (if \<not> rt_list_isempty (Suspend sem) s then do {
          (_, s) \<leftarrow> rt_ipc_list_resume (Suspend sem) s;
          Some (True, s) }
        else Some (False, upd_sem sem (\<lambda>sm. sm\<lparr>sem_value := sem_value sm + 1\<rparr>) s));
     let s = rt_hw_interrupt_enable temp s;
     s \<leftarrow> (if need_schedule then rt_schedule s else Some s);
     Some (RT_EOK, s) }"

definition rt_sem_control :: "nat \<Rightarrow> u32 \<Rightarrow> u32 \<Rightarrow> kernel \<Rightarrow> (rt_err \<times> kernel) option" where
  "rt_sem_control sem cmd arg s =
     (if cmd = RT_IPC_CMD_RESET then do {
        let value = arg;
        let (level, s) = rt_hw_interrupt_disable s;
        (_, s) \<leftarrow> rt_ipc_list_resume_all (Suspend sem) s;
        let s = upd_sem sem (\<lambda>sm. sm\<lparr>sem_value := ucast value\<rparr>) s;
        let s = rt_hw_interrupt_enable level s;
        s \<leftarrow> rt_schedule s;
        Some (RT_EOK, s) }
      else Some (- RT_ERROR, s))"

section \<open>The waiting list\<close>

text \<open>
  Where a thread goes in the list of those that wait: at the end, or behind all threads of its
  own priority or a higher one (a smaller number).
\<close>

definition wait_insert :: "u8 \<Rightarrow> nat \<Rightarrow> kernel \<Rightarrow> nat list \<Rightarrow> nat list" where
  "wait_insert flag t s ts =
     (if flag = RT_IPC_FLAG_FIFO then ts @ [t]
      else takeWhile (\<lambda>u. prio_of u s \<le> prio_of t s) ts @ t #
           dropWhile (\<lambda>u. prio_of u s \<le> prio_of t s) ts)"

lemma ipc_prio_scan_ring:
  "ring (nxt s) (prv s) (Suspend k) (map Tlist (us @ vs)) \<Longrightarrow>
     ipc_prio_scan (hd (map Tlist vs @ [Suspend k])) (Suspend k) t s =
       Some (hd (map Tlist (dropWhile (\<lambda>u. prio_of u s \<le> prio_of t s) vs) @ [Suspend k]))"
proof (induction vs arbitrary: us)
  case Nil
  then show ?case by (subst ipc_prio_scan.simps) simp
next
  case (Cons v vs)
  have nx: "nxt s (Tlist v) = Some (hd (map Tlist vs @ [Suspend k]))"
    using ring_neighbours [of "nxt s" "prv s" "Suspend k" "map Tlist (us @ [v])" "map Tlist vs"] Cons.prems
    by simp
  have "th_current_priority (threads s t) < th_current_priority (threads s v) \<longleftrightarrow> \<not> prio_of v s \<le> prio_of t s"
    by (simp add: word_less_nat_alt not_le)
  then show ?case
    using nx Cons.IH [of "us @ [v]"] Cons.prems
    by (subst ipc_prio_scan.simps) auto
qed

lemma dropWhile_sorted_key:
  "sorted (map f ts) \<Longrightarrow> v \<in> set (dropWhile (\<lambda>u. f u \<le> a) ts) \<Longrightarrow> a \<le> f v" for a :: nat
  by (induction ts) (auto split: if_splits)

lemma wait_insert_split:
  "\<exists>us vs. ts = us @ vs \<and>
     vs = (if flag = RT_IPC_FLAG_FIFO then [] else dropWhile (\<lambda>u. prio_of u s \<le> prio_of t s) ts) \<and>
     wait_insert flag t s ts = us @ t # vs \<and>
     (flag = RT_IPC_FLAG_PRIO \<and> sorted (map (\<lambda>u. prio_of u s) ts) \<longrightarrow>
        (\<forall>u\<in>set us. prio_of u s \<le> prio_of t s) \<and> (\<forall>v\<in>set vs. prio_of t s \<le> prio_of v s))"
proof (cases "flag = RT_IPC_FLAG_FIFO")
  case True
  then show ?thesis by (intro exI2 [of _ ts "[]"]) (simp add: wait_insert_def)
next
  case False
  then show ?thesis
    by (intro exI2 [of _ "takeWhile (\<lambda>u. prio_of u s \<le> prio_of t s) ts" "dropWhile (\<lambda>u. prio_of u s \<le> prio_of t s) ts"])
       (auto simp: wait_insert_def dest: set_takeWhileD dropWhile_sorted_key)
qed

definition waiting_layout :: "u8 \<Rightarrow> nat \<Rightarrow> nat \<Rightarrow> kernel \<Rightarrow> nat list \<Rightarrow> node layout \<Rightarrow> node layout" where
  "waiting_layout flag k t s ts L =
     put_list (Suspend k) (map Tlist (wait_insert flag t s ts)) (Tlist t) (set_aside t L)"

lemma set_aside_list:
  assumes K: "kinv b s L" and t: "linked L (Tlist t)" and st: "th_stat (threads s t) = RT_THREAD_READY"
    and k: "L (Suspend k) = Some (map Tlist ts)"
  shows "set_aside t L (Suspend k) = Some (map Tlist ts)"
proof -
  have "\<not> queued L (Suspend k) t" using kinvD(4) [OF K t] st by (auto simp: thread_ok_def)
  then have "Tlist t \<notin> set (map Tlist ts)" using k by (simp add: queued_def)
  moreover have "Row r \<notin> set (map Tlist ts)" for r by auto
  ultimately show ?thesis using k by (simp add: set_aside_def)
qed


lemma rt_ipc_list_suspend_kinv:
  assumes K: "kinv b s L" and t: "linked L (Tlist t)" and st: "th_stat (threads s t) = RT_THREAD_READY"
    and k: "L (Suspend k) = Some (map Tlist ts)" and v: "sem_value (semaphores s k) = 0"
    and fl: "flag = ob_flag (objects s (Sem_Obj k))" "flag = RT_IPC_FLAG_FIFO \<or> flag = RT_IPC_FLAG_PRIO"
    and xs: "L (Prio_Node (prio_of t s)) = Some xs"
  shows "keeps b (rt_ipc_list_suspend (Suspend k) t flag s) RT_EOK (suspended t (remove1 (Tlist t) xs = []) s)
    (waiting_layout flag k t s ts L)"
proof -
  note lay = kinvD(1) [OF K]
  let ?s1 = "suspended t (remove1 (Tlist t) xs = []) s" and ?L1 = "set_aside t L"
  have k1: "?L1 (Suspend k) = Some (map Tlist ts)" by (rule set_aside_list [OF K t st k])
  obtain us vs where uv: "ts = us @ vs" "wait_insert flag t s ts = us @ t # vs"
    "vs = (if flag = RT_IPC_FLAG_FIFO then [] else dropWhile (\<lambda>u. prio_of u s \<le> prio_of t s) ts)"
    "flag = RT_IPC_FLAG_PRIO \<and> sorted (map (\<lambda>u. prio_of u s) ts) \<longrightarrow>
        (\<forall>u\<in>set us. prio_of u s \<le> prio_of t s) \<and> (\<forall>v\<in>set vs. prio_of t s \<le> prio_of v s)"
    using wait_insert_split [where ts = ts and flag = flag and t = t and s = s] by blast
  have prio: "prio_of u ?s1 = prio_of u s" for u by simp
  show ?thesis
    unfolding rt_ipc_list_suspend_def
  proof (rule keeps_bind [OF rt_thread_suspend_kinv [OF K t st xs]], goal_cases)
    case (1 nx pv)
    let ?s2 = "?s1\<lparr>nxt := nx, prv := pv\<rparr>"
    have l1: "lay nx pv ?L1" using kinvD(1) [OF 1] by simp
    have rg: "ring nx pv (Suspend k) (map Tlist ts)" using ringsD [OF lay_rings [OF l1] k1] .
    have p2: "prio_of u ?s2 = prio_of u s" for u by simp
    have nx0: "nx (Suspend k) = Some (hd (map Tlist ts @ [Suspend k]))" using ring_first [OF rg] .
    have scan: "ipc_prio_scan (hd (map Tlist ts @ [Suspend k])) (Suspend k) t ?s2 =
        Some (hd (map Tlist vs @ [Suspend k]))" if "flag = RT_IPC_FLAG_PRIO"
      using ipc_prio_scan_ring [of ?s2 k "[]" ts t, unfolded p2] rg uv(3) that by simp
    have ins: "succeeds (rt_list_insert_before (hd (map Tlist vs @ [Suspend k])) (Tlist t) ?s2) ?s2
        (waiting_layout flag k t s ts L)"
      unfolding waiting_layout_def uv(2) map_append list.map
      by (rule insert_before_succeeds) (use l1 k1 uv set_aside_lone in simp_all)
    have "sustains b (rt_list_insert_before (hd (map Tlist vs @ [Suspend k])) (Tlist t) ?s2) ?s1
        (waiting_layout flag k t s ts L)"
      using ins
    proof (rule sustainsI [OF succeeds_links])
      fix nx' pv'
      assume l: "lay nx' pv' (waiting_layout flag k t s ts L)"
      have W: "waiting_layout flag k t s ts L =
          put_list (Suspend k) (map Tlist us @ Tlist t # map Tlist vs) (Tlist t) ?L1"
        unfolding waiting_layout_def uv(2) by simp
      have "ob_flag (objects s (Sem_Obj k)) = RT_IPC_FLAG_PRIO \<Longrightarrow> sorted (map (\<lambda>u. prio_of u s) ts)"
        using kinvD(7) [OF K, of k] k by (simp add: sem_ok_def)
      then have o: "ob_flag (objects ?s2 (Sem_Obj k)) = RT_IPC_FLAG_PRIO \<Longrightarrow>
          (\<forall>u\<in>set us. prio_of u ?s2 \<le> prio_of t ?s2) \<and> (\<forall>v\<in>set vs. prio_of t ?s2 \<le> prio_of v ?s2)"
        using uv(4) fl(1) by (simp add: suspended_def timer_stopped_def)
      show "kinv b (?s1\<lparr>nxt := nx', prv := pv'\<rparr>) (waiting_layout flag k t s ts L)"
        using kinv_wait [OF 1 set_aside_lone _ _ _ o W l] k1 uv(1) v by simp
    qed simp
    then have "keeps b (Option.bind (rt_list_insert_before (hd (map Tlist vs @ [Suspend k])) (Tlist t) ?s2)
        (\<lambda>s. Some (RT_EOK, s))) RT_EOK ?s1 (waiting_layout flag k t s ts L)"
      by (rule sustains_bind) (simp add: keeps_Some)
    then show ?case using nx0 scan fl(2) uv(3) by (auto split: if_splits)
  qed
qed

section \<open>Taking\<close>

lemma rt_sem_take_available:
  "0 < sem_value (semaphores s k) \<Longrightarrow> rt_sem_take k time s =
     Some (Take_Returned RT_EOK, upd_sem k (\<lambda>sm. sm\<lparr>sem_value := sem_value sm - 1\<rparr>) s)"
  by (simp add: rt_sem_take_def hw_defs)

lemma rt_sem_take_empty:
  "sem_value (semaphores s k) = 0 \<Longrightarrow> rt_sem_take k 0 s = Some (Take_Returned (- RT_ETIMEOUT), s)"
  by (simp add: rt_sem_take_def hw_defs)

lemma kinv_sem_value:
  assumes K: "kinv b s L" and "\<And>t. 0 < v \<Longrightarrow> \<not> queued L (Suspend k) t"
  shows "kinv b (upd_sem k (\<lambda>sm. sm\<lparr>sem_value := v\<rparr>) s) L"
proof -
  let ?s = "upd_sem k (\<lambda>sm. sm\<lparr>sem_value := v\<rparr>) s"
  have "sem_ok ?s L j" for j
    using kinvD(7) [OF K, of j] assms(2) by (cases "j = k") (auto simp: sem_ok_def)
  moreover have "thread_ok ?s L t = thread_ok s L t" for t by (simp add: thread_ok_def)
  moreover have "timer_ok ?s L r = timer_ok s L r" for r by (cases r) (simp_all add: timer_ok_def)
  ultimately show ?thesis using K by (simp add: kinv_def group_ok_def list_ok_def)
qed

lemma rt_sem_take_available_kinv:
  assumes K: "kinv b s L" and "0 < sem_value (semaphores s k)"
  shows "kinv b (upd_sem k (\<lambda>sm. sm\<lparr>sem_value := sem_value sm - 1\<rparr>) s) L"
  using kinv_sem_value [OF K, of "sem_value (semaphores s k) - 1" k] kinvD(7) [OF K, of k] assms(2)
  by (auto simp: sem_ok_def)

text \<open>
  The state in which the caller waits: suspended, its error cleared, its timer running if the
  wait is bounded.
\<close>

definition waiting :: "nat \<Rightarrow> u32 \<Rightarrow> bool \<Rightarrow> kernel \<Rightarrow> kernel" where
  "waiting t time emptied s =
     (let s = suspended t emptied (upd_thread t (\<lambda>th. th\<lparr>th_error := RT_EOK\<rparr>) s)
      in if 0 < sint time then asleep t time s else s)"

definition waiting_for :: "u32 \<Rightarrow> nat \<Rightarrow> nat \<Rightarrow> u32 \<Rightarrow> kernel \<Rightarrow> nat list \<Rightarrow> node layout \<Rightarrow> node layout" where
  "waiting_for b k t time s ts L =
     (let L = waiting_layout (ob_flag (objects s (Sem_Obj k))) k t s ts L
      in if 0 < sint time then asleep_layout b t time s L else L)"

lemma waiting_layout_cong:
  assumes "\<And>u. prio_of u s' = prio_of u s"
  shows "waiting_layout flag k t s' ts L = waiting_layout flag k t s ts L"
  unfolding waiting_layout_def wait_insert_def assms by (rule refl)

lemma waiting_layout_members:
  assumes K: "kinv b s L" and t: "linked L (Tlist t)" and st: "th_stat (threads s t) = RT_THREAD_READY"
    and k: "L (Suspend k) = Some (map Tlist ts)"
  shows "queued (waiting_layout flag k t s ts L) g u \<longleftrightarrow> queued L g u \<and> u \<noteq> t \<or> g = Suspend k \<and> u = t"
    and "waiting_layout flag k t s ts L (Suspend k) = Some (map Tlist (wait_insert flag t s ts))"
proof -
  note lay = kinvD(1) [OF K]
  have row: "linked L (Row (Thread_Timer t))" using kinvD(4) [OF K t] by (simp add: thread_ok_def)
  have k1: "set_aside t L (Suspend k) = Some (map Tlist ts)" by (rule set_aside_list [OF K t st k])
  obtain us vs where uv: "ts = us @ vs" "wait_insert flag t s ts = us @ t # vs"
    using wait_insert_split [where ts = ts and flag = flag and t = t and s = s] by blast
  obtain n1 p1 where l1: "lay n1 p1 (unlink (Tlist t) L)" using unlink_lay [OF lay _ t] by auto
  have "linked (unlink (Tlist t) L) (Row (Thread_Timer t))"
    using linked_unlink_leaf [OF lay _ t] row by simp
  then obtain n2 p2 where l2: "lay n2 p2 (set_aside t L)"
    using unlink_lay [OF l1, of "Row (Thread_Timer t)"] by (auto simp: set_aside_def)
  show "queued (waiting_layout flag k t s ts L) g u \<longleftrightarrow> queued L g u \<and> u \<noteq> t \<or> g = Suspend k \<and> u = t"
    using queued_put_list [OF l2, of "Tlist t" "Suspend k" "map Tlist us" "map Tlist vs" g u]
      queued_set_aside [OF lay t] k1 uv set_aside_lone by (auto simp: waiting_layout_def)
  show "waiting_layout flag k t s ts L (Suspend k) = Some (map Tlist (wait_insert flag t s ts))"
    by (simp add: waiting_layout_def)
qed

lemma waiting_layout_armed:
  assumes K: "kinv b s L" and t: "linked L (Tlist t)" and st: "th_stat (threads s t) = RT_THREAD_READY"
    and k: "L (Suspend k) = Some (map Tlist ts)"
  shows "armed (waiting_layout flag k t s ts L) r \<longleftrightarrow> armed L r \<and> r \<noteq> Thread_Timer t"
proof -
  note lay = kinvD(1) [OF K]
  have row: "linked L (Row (Thread_Timer t))" using kinvD(4) [OF K t] by (simp add: thread_ok_def)
  have k1: "set_aside t L (Suspend k) = Some (map Tlist ts)" by (rule set_aside_list [OF K t st k])
  obtain us vs where uv: "ts = us @ vs" "wait_insert flag t s ts = us @ t # vs"
    using wait_insert_split [where ts = ts and flag = flag and t = t and s = s] by blast
  obtain n1 p1 where l1: "lay n1 p1 (unlink (Tlist t) L)" using unlink_lay [OF lay _ t] by auto
  have "linked (unlink (Tlist t) L) (Row (Thread_Timer t))"
    using linked_unlink_leaf [OF lay _ t] row by simp
  then obtain n2 p2 where l2: "lay n2 p2 (set_aside t L)"
    using unlink_lay [OF l1, of "Row (Thread_Timer t)"] by (auto simp: set_aside_def)
  show ?thesis
    using armed_put_list [OF l2, of "Tlist t" "Suspend k" "map Tlist us" "map Tlist vs" r]
      armed_set_aside [OF lay t] k1 uv by (simp add: waiting_layout_def)
qed

lemma rt_sem_take_waits:
  assumes K: "kinv b s L" and cur: "rt_current_thread s = Some t"
    and st: "th_stat (threads s t) = RT_THREAD_READY" and oth: "other_ready L t"
    and k: "L (Suspend k) = Some (map Tlist ts)" and v: "sem_value (semaphores s k) = 0"
    and fl: "ob_flag (objects s (Sem_Obj k)) \<in> {RT_IPC_FLAG_FIFO, RT_IPC_FLAG_PRIO}"
    and tm: "time \<noteq> 0" "0 < sint time \<longrightarrow> unat time \<le> longest_timeout"
    and xs: "L (Prio_Node (prio_of t s)) = Some xs"
  defines "s1 \<equiv> waiting t time (remove1 (Tlist t) xs = []) s"
  defines "L1 \<equiv> waiting_for b k t time s ts L"
  shows "\<exists>to. highest_ready L1 to \<and> keeps b (rt_sem_take k time s) (Take_Waiting t) (switched to s1) L1"
proof -
  have t: "linked L (Tlist t)" using kinvD(8) [OF K cur] .
  let ?f = "ob_flag (objects s (Sem_Obj k))" and ?e = "remove1 (Tlist t) xs = []"
  let ?s0 = "upd_thread t (\<lambda>th. th\<lparr>th_error := RT_EOK\<rparr>) (s\<lparr>primask := True\<rparr>)"
  let ?sa = "suspended t ?e (upd_thread t (\<lambda>th. th\<lparr>th_error := RT_EOK\<rparr>) s)"
  let ?La = "waiting_layout ?f k t s ts L"
  have K0: "kinv b ?s0 L" using K by (subst kinv_error) simp
  have wl: "waiting_layout ?f k t ?s0 ts L = ?La" by (rule waiting_layout_cong) simp
  have "keeps b (rt_ipc_list_suspend (Suspend k) t ?f ?s0) RT_EOK (suspended t ?e ?s0)
      (waiting_layout ?f k t ?s0 ts L)"
    by (rule rt_ipc_list_suspend_kinv [OF K0 t _ k]) (use st v fl xs in auto)
  then have sus: "keeps b (rt_ipc_list_suspend (Suspend k) t ?f ?s0) RT_EOK (?sa\<lparr>primask := True\<rparr>) ?La"
    unfolding wl by (simp add: suspended_links flip: suspended_links(2))
  define arm where "arm = (\<lambda>s'. if 0 < sint time then Option.bind (rt_timer_start (Thread_Timer t)
      (upd_timer (Thread_Timer t) (\<lambda>tm. tm\<lparr>tm_init_tick := time\<rparr>) s')) (\<lambda>(_, s'). Some s') else Some s')"
  have e: "rt_sem_take k time s = Option.bind (rt_ipc_list_suspend (Suspend k) t ?f ?s0) (\<lambda>(_, s').
      Option.bind (arm s') (\<lambda>s'. Option.bind (rt_schedule (s'\<lparr>primask := primask s\<rparr>))
        (\<lambda>s'. Some (Take_Waiting t, s'))))"
    using v tm(1) by (cases "0 < sint time") (simp_all add: rt_sem_take_def hw_defs rt_thread_self_def cur rt_timer_control_def arm_def)
  show ?thesis
    unfolding e
  proof (rule keeps_bind [OF sus], goal_cases)
    case (1 nx pv)
    let ?s1 = "?sa\<lparr>primask := True, nxt := nx, prv := pv\<rparr>"
    have mem: "queued ?La g u \<longleftrightarrow> queued L g u \<and> u \<noteq> t \<or> g = Suspend k \<and> u = t" for g u
      by (rule waiting_layout_members(1) [OF K t st k])
    then have "queued ?La (Suspend k) t" by simp
    then have lt: "linked ?La (Tlist t)" by (auto simp: queued_def intro: linkedI)
    have arm: "keeps b (rt_timer_start (Thread_Timer t)
        (upd_timer (Thread_Timer t) (\<lambda>tm. tm\<lparr>tm_init_tick := time\<rparr>) ?s1)) RT_EOK
        (asleep t time ?s1) (asleep_layout b t time ?s1 ?La)" if "0 < sint time"
      by (rule arm_timer_kinv [OF 1 lt]) (use tm that in \<open>auto simp: word_gt_0\<close>)
    have al: "asleep_layout b t time ?sa ?La = asleep_layout b t time s ?La"
      by (simp add: asleep_layout_def started_layout_def rearmed_def)
    have ar: "sustains b (arm ?s1) (s1\<lparr>primask := True\<rparr>) L1"
    proof (cases "0 < sint time")
      case True
      have "sustains b (Option.bind (rt_timer_start (Thread_Timer t)
          (upd_timer (Thread_Timer t) (\<lambda>tm. tm\<lparr>tm_init_tick := time\<rparr>) ?s1)) (\<lambda>(_, s'). Some s'))
          (s1\<lparr>primask := True\<rparr>) L1"
        by (rule keeps_bind [OF arm [OF True]])
           (use True in \<open>auto simp: s1_def L1_def waiting_def waiting_for_def al asleep_links intro!: sustains_Some\<close>)
      then show ?thesis using True by (simp add: arm_def)
    next
      case False
      then show ?thesis using 1
        by (auto simp: arm_def s1_def L1_def waiting_def waiting_for_def intro!: sustains_Some)
    qed
    have mem1: "queued L1 g u \<longleftrightarrow> queued ?La g u" for g u
      using asleep_members(1) [OF 1 lt, of time g u] tm
      by (cases "0 < sint time") (simp_all add: L1_def waiting_for_def word_gt_0 al asleep_links)
    show ?case
      unfolding prod.case
    proof (rule sustains_bind [OF ar], goal_cases)
      case (1 nx2 pv2)
      have rdy: "some_ready L1" using oth by (auto simp: some_ready_def other_ready_def mem1 mem)
      have "rt_current_thread s1 \<noteq> None" by (simp add: s1_def waiting_def Let_def cur asleep_def)
      then obtain to where to: "highest_ready L1 to" "sustains b (rt_schedule
          (s1\<lparr>nxt := nx2, prv := pv2\<rparr>)) (switched to s1) L1"
        using rt_schedule_keeps [where s = s1 and nx = nx2 and pv = pv2 and L = L1 and b = b] 1 rdy by auto
      have "keeps b (Option.bind (rt_schedule (s1\<lparr>nxt := nx2, prv := pv2\<rparr>))
          (\<lambda>s'. Some (Take_Waiting t, s'))) (Take_Waiting t) (switched to s1) L1"
        by (rule sustains_bind [OF to(2)]) (simp add: keeps_Some)
      moreover have "s1\<lparr>nxt := nx2, prv := pv2, primask := primask s\<rparr> = s1\<lparr>nxt := nx2, prv := pv2\<rparr>"
        by (simp add: asleep_def timer_started_def s1_def suspended_def timer_stopped_def made_unready_def
            waiting_def Let_def)
      ultimately show ?case using to(1) by auto
    qed
  qed
qed

text \<open>The same, said of the lists.\<close>

lemma rt_sem_take_blocks:
  assumes K: "kinv b s L" and cur: "rt_current_thread s = Some t"
    and st: "th_stat (threads s t) = RT_THREAD_READY" and oth: "other_ready L t"
    and k: "L (Suspend k) = Some (map Tlist ts)" and v: "sem_value (semaphores s k) = 0"
    and fl: "ob_flag (objects s (Sem_Obj k)) \<in> {RT_IPC_FLAG_FIFO, RT_IPC_FLAG_PRIO}"
    and tm: "time \<noteq> 0" "0 < sint time \<longrightarrow> unat time \<le> longest_timeout"
  shows "\<exists>s' L' to. rt_sem_take k time s = Some (Take_Waiting t, s') \<and> kinv b s' L' \<and>
    L' (Suspend k) = Some (map Tlist (wait_insert (ob_flag (objects s (Sem_Obj k))) t s ts)) \<and>
    (\<forall>p u. queued L' (Prio_Node p) u \<longleftrightarrow> queued L (Prio_Node p) u \<and> u \<noteq> t) \<and>
    (armed L' (Thread_Timer t) \<longleftrightarrow> 0 < sint time) \<and>
    (0 < sint time \<longrightarrow> tm_timeout_tick (timers s' (Thread_Timer t)) = rt_tick s + time) \<and>
    highest_ready L' to \<and> (rt_scheduler_lock_nest s = 0 \<longrightarrow> rt_current_thread s' = Some to)"
proof -
  let ?f = "ob_flag (objects s (Sem_Obj k))" and ?L1 = "waiting_for b k t time s ts L"
  have t: "linked L (Tlist t)" using kinvD(8) [OF K cur] .
  have p: "prio_of t s < 32" using kinvD(4) [OF K t] by (simp add: thread_ok_def)
  obtain xs where xs: "L (Prio_Node (prio_of t s)) = Some xs" using ready_list [OF kinvD(2) [OF K] p] by auto
  let ?s1 = "waiting t time (remove1 (Tlist t) xs = []) s"
  obtain to nx pv where r: "rt_sem_take k time s = Some (Take_Waiting t, (switched to ?s1)\<lparr>nxt := nx, prv := pv\<rparr>)"
    "kinv b ((switched to ?s1)\<lparr>nxt := nx, prv := pv\<rparr>) ?L1" "highest_ready ?L1 to"
    using rt_sem_take_waits [OF K cur st oth k v fl tm xs] by (auto simp: keeps_def)
  let ?W = "waiting_layout ?f k t s ts L"
  note mem = waiting_layout_members [OF K t st k, of ?f] and arm = waiting_layout_armed [OF K t st k, of ?f]
  have Q: "?L1 (Suspend k) = Some (map Tlist (wait_insert ?f t s ts)) \<and>
      (\<forall>g u. queued ?L1 g u \<longleftrightarrow> queued ?W g u) \<and> (armed ?L1 (Thread_Timer t) \<longleftrightarrow> 0 < sint time)"
  proof (cases "0 < sint time")
    case False
    then show ?thesis using mem arm by (simp add: waiting_for_def)
  next
    case True
    let ?e = "remove1 (Tlist t) xs = []"
    have "keeps b (rt_ipc_list_suspend (Suspend k) t ?f s) RT_EOK (suspended t ?e s) ?W"
      by (rule rt_ipc_list_suspend_kinv [OF K t st k v _ _ xs]) (use fl in auto)
    then obtain nx2 pv2 where K2: "kinv b ((suspended t ?e s)\<lparr>nxt := nx2, prv := pv2\<rparr>) ?W"
      by (auto simp: keeps_def)
    have "queued ?W (Suspend k) t" by (simp add: mem(1))
    then have tW: "linked ?W (Tlist t)" by (auto simp: queued_def intro: linkedI)
    have al: "asleep_layout b t time ((suspended t ?e s)\<lparr>nxt := nx2, prv := pv2\<rparr>) ?W = asleep_layout b t time s ?W"
      by (simp add: asleep_layout_def started_layout_def rearmed_def)
    have tk: "unat time \<le> longest_timeout" "0 < time" using tm True by (auto simp: word_gt_0)
    note as = asleep_members [OF K2 tW tk, unfolded al]
    have "unlink (Row (Thread_Timer t)) ?W (Suspend k) = Some (map Tlist (wait_insert ?f t s ts))"
      using mem(2) by (auto simp: unlink_def intro!: remove1_notin)
    then show ?thesis using True as(1) as(2) as(4) [of "Suspend k"] by (simp add: waiting_for_def)
  qed
  have lock: "rt_scheduler_lock_nest ?s1 = rt_scheduler_lock_nest s"
    by (simp add: waiting_def Let_def asleep_def)
  have "0 < sint time \<longrightarrow> tm_timeout_tick (timers ((switched to ?s1)\<lparr>nxt := nx, prv := pv\<rparr>) (Thread_Timer t)) = rt_tick s + time"
    by (simp add: waiting_def Let_def asleep_def rearmed_def)
  then show ?thesis
    using r Q mem(1) lock
    by (intro exI [of _ "(switched to ?s1)\<lparr>nxt := nx, prv := pv\<rparr>"] exI [of _ ?L1] exI [of _ to]) simp
qed

section \<open>Releasing\<close>

lemma rt_sem_release_no_waiter:
  assumes "lay (nxt s) (prv s) L" "L (Suspend k) = Some []"
  shows "rt_sem_release k s = Some (RT_EOK, upd_sem k (\<lambda>sm. sm\<lparr>sem_value := sem_value sm + 1\<rparr>) s)"
proof -
  have "rt_list_isempty (Suspend k) (s\<lparr>primask := True\<rparr>)"
    using lay_isempty [of "s\<lparr>primask := True\<rparr>" L "Suspend k" "[]"] assms by simp
  then show ?thesis by (simp add: rt_sem_release_def hw_defs)
qed

lemma rt_sem_release_no_waiter_kinv:
  assumes K: "kinv b s L" and "L (Suspend k) = Some []"
  shows "kinv b (upd_sem k (\<lambda>sm. sm\<lparr>sem_value := sem_value sm + 1\<rparr>) s) L"
  using kinv_sem_value [OF K, of "sem_value (semaphores s k) + 1" k] assms(2) by (auto simp: queued_def)

lemma made_ready_primask:
  "made_ready t (s\<lparr>primask := x\<rparr>) = (made_ready t s)\<lparr>primask := x\<rparr>"
  by (simp add: made_ready_def)

lemma made_ready_simps [simp]:
  "primask (made_ready t s) = primask s" "rt_current_thread (made_ready t s) = rt_current_thread s"
  "rt_tick (made_ready t s) = rt_tick s" "timers (made_ready t s) = timers s"
  "objects (made_ready t s) = objects s" "semaphores (made_ready t s) = semaphores s"
  "rt_scheduler_lock_nest (made_ready t s) = rt_scheduler_lock_nest s"
  "threads (made_ready t s) = (threads s)(t := (threads s t)\<lparr>th_stat := RT_THREAD_READY\<rparr>)"
  by (simp_all add: made_ready_def)

lemma waiter_thread:
  assumes K: "kinv b s L" and k: "L (Suspend k) = Some (Tlist t # xs)"
  shows "linked L (Tlist t)" "th_stat (threads s t) = RT_THREAD_SUSPEND"
proof -
  show l: "linked L (Tlist t)" using k by (auto intro: linkedI)
  have "queued L (Suspend k) t" using k by (simp add: queued_def)
  then show "th_stat (threads s t) = RT_THREAD_SUSPEND"
    using kinvD(4) [OF K l] by (auto simp: thread_ok_def)
qed

lemma rt_ipc_list_resume_kinv:
  assumes K: "kinv b s L" and k: "L (Suspend k) = Some (Tlist t # xs)"
  shows "keeps b (rt_ipc_list_resume (Suspend k) s) RT_EOK (made_ready t s)
    (to_tail (Prio_Node (prio_of t s)) (Tlist t) L)"
proof -
  have n: "nxt s (Suspend k) = Some (Tlist t)" using lay_nxt [OF kinvD(1) [OF K] k] by simp
  show ?thesis
    unfolding rt_ipc_list_resume_def n Option.bind.bind_lunit thread_entry_of.simps
    by (rule keeps_bind [OF rt_thread_resume_kinv [OF K waiter_thread [OF K k]]]) (simp add: keeps_Some)
qed

lemma rt_sem_release_wakes:
  assumes K: "kinv b s L" and k: "L (Suspend k) = Some (Tlist t # xs)" and cur: "rt_current_thread s \<noteq> None"
  defines "L1 \<equiv> to_tail (Prio_Node (prio_of t s)) (Tlist t) L"
  shows "\<exists>to. highest_ready L1 to \<and> keeps b (rt_sem_release k s) RT_EOK (switched to (made_ready t s)) L1"
proof -
  note t = waiter_thread(1) [OF K k]
  have p: "prio_of t s < 32" using kinvD(4) [OF K t] by (simp add: thread_ok_def)
  let ?s = "s\<lparr>primask := True\<rparr>"
  have K0: "kinv b ?s L" using K by simp
  have "\<not> rt_list_isempty (Suspend k) ?s"
    using lay_isempty [OF kinvD(1) [OF K0] k] by simp
  then have e: "rt_sem_release k s = Option.bind (rt_ipc_list_resume (Suspend k) ?s) (\<lambda>(_, s').
      Option.bind (rt_schedule (s'\<lparr>primask := primask s\<rparr>)) (\<lambda>s'. Some (RT_EOK, s')))"
    by (auto simp: rt_sem_release_def hw_defs split: Option.bind_splits)
  have r: "keeps b (rt_ipc_list_resume (Suspend k) ?s) RT_EOK (made_ready t ?s) L1"
    using rt_ipc_list_resume_kinv [OF K0 k] by (simp add: L1_def)
  show ?thesis
    unfolding e
  proof (rule keeps_bind [OF r], goal_cases)
    case (1 nx pv)
    then have K2: "kinv b ((made_ready t s)\<lparr>nxt := nx, prv := pv\<rparr>) L1" by (simp add: made_ready_primask)
    have "some_ready L1" using some_ready_to_tail [OF p K t] by (auto simp: some_ready_def L1_def)
    then obtain to where to: "highest_ready L1 to"
      "sustains b (rt_schedule ((made_ready t s)\<lparr>nxt := nx, prv := pv\<rparr>)) (switched to (made_ready t s)) L1"
      using rt_schedule_keeps [OF K2] cur by auto
    have "keeps b (Option.bind (rt_schedule ((made_ready t s)\<lparr>nxt := nx, prv := pv\<rparr>)) (\<lambda>s'. Some (RT_EOK, s')))
        RT_EOK (switched to (made_ready t s)) L1"
      by (rule sustains_bind [OF to(2)]) (simp add: keeps_Some)
    moreover have "(made_ready t ?s)\<lparr>nxt := nx, prv := pv, primask := primask s\<rparr> = (made_ready t s)\<lparr>nxt := nx, prv := pv\<rparr>"
      by (simp add: made_ready_def)
    ultimately show ?case using to(1) by auto
  qed
qed

section \<open>Waking all\<close>

text \<open>
  \<open>rt_ipc_list_resume_all\<close>: every waiting thread becomes ready, in the order of the list, with
  the error \<open>- RT_ERROR\<close>.
\<close>

definition wake :: "nat \<Rightarrow> kernel \<times> node layout \<Rightarrow> kernel \<times> node layout" where
  "wake t = (\<lambda>(s, L). (made_ready t (upd_thread t (\<lambda>th. th\<lparr>th_error := - RT_ERROR\<rparr>) s),
     to_tail (Prio_Node (prio_of t s)) (Tlist t) L))"

lemma wake_links:
  "wake t (s\<lparr>nxt := nx, prv := pv\<rparr>, L) = ((fst (wake t (s, L)))\<lparr>nxt := nx, prv := pv\<rparr>, snd (wake t (s, L)))"
  by (simp add: wake_def made_ready_def)

lemma fold_wake_links:
  "fold wake ts (s\<lparr>nxt := nx, prv := pv\<rparr>, L) =
     ((fst (fold wake ts (s, L)))\<lparr>nxt := nx, prv := pv\<rparr>, snd (fold wake ts (s, L)))"
  by (induction ts arbitrary: s L) (simp_all add: wake_links)

lemma rt_ipc_list_resume_all_kinv:
  "kinv b s L \<Longrightarrow> L (Suspend k) = Some (map Tlist ts) \<Longrightarrow>
     keeps b (rt_ipc_list_resume_all (Suspend k) s) RT_EOK (fst (fold wake ts (s, L))) (snd (fold wake ts (s, L)))"
proof (induction ts arbitrary: s L)
  case Nil
  then show ?case
    using lay_isempty [OF kinvD(1) [OF Nil.prems(1)] Nil.prems(2)]
    by (subst rt_ipc_list_resume_all.simps) (simp add: keeps_Some)
next
  case (Cons t ts)
  note K = Cons.prems(1) and k = Cons.prems(2)
  let ?s = "upd_thread t (\<lambda>th. th\<lparr>th_error := - RT_ERROR\<rparr>) (s\<lparr>primask := True\<rparr>)"
  let ?L = "to_tail (Prio_Node (prio_of t s)) (Tlist t) L"
  have n: "nxt s (Suspend k) = Some (Tlist t)" "\<not> rt_list_isempty (Suspend k) s"
    using lay_nxt [OF kinvD(1) [OF K] k] lay_isempty [OF kinvD(1) [OF K] k] by auto
  have t: "linked L (Tlist t)" "th_stat (threads s t) = RT_THREAD_SUSPEND"
    using waiter_thread [OF K, of k t] k by auto
  have K0: "kinv b ?s L" using K by (subst kinv_error) simp
  have r: "keeps b (rt_thread_resume t ?s) RT_EOK (made_ready t ?s) ?L"
    using rt_thread_resume_kinv [OF K0 t(1)] t(2) by simp
  have k': "?L (Suspend k) = Some (map Tlist ts)"
    using k by (simp add: to_tail_other)
  have e: "rt_ipc_list_resume_all (Suspend k) s = Option.bind (rt_thread_resume t ?s)
      (\<lambda>(_, s'). rt_ipc_list_resume_all (Suspend k) (s'\<lparr>primask := primask s\<rparr>))"
    by (subst rt_ipc_list_resume_all.simps) (simp add: n hw_defs)
  show ?case
    unfolding e
  proof (rule keeps_bind [OF r], goal_cases)
    case (1 nx pv)
    let ?s1 = "(made_ready t (upd_thread t (\<lambda>th. th\<lparr>th_error := - RT_ERROR\<rparr>) s))\<lparr>nxt := nx, prv := pv\<rparr>"
    have e: "(made_ready t ?s)\<lparr>nxt := nx, prv := pv, primask := primask s\<rparr> = ?s1" by (simp add: made_ready_def)
    have "kinv b ((made_ready t ?s)\<lparr>nxt := nx, prv := pv, primask := primask s\<rparr>) ?L" using 1 by simp
    then have K1: "kinv b ?s1 ?L" unfolding e .
    have w: "fold wake (t # ts) (s, L) =
        fold wake ts (made_ready t (upd_thread t (\<lambda>th. th\<lparr>th_error := - RT_ERROR\<rparr>) s), ?L)"
      by (simp add: wake_def)
    show ?case unfolding prod.case e w
      using Cons.IH [OF K1 k'] unfolding fold_wake_links fst_conv snd_conv by (auto simp: keeps_def)
  qed
qed

lemma fold_wake_primask:
  "fold wake ts (s\<lparr>primask := x\<rparr>, L) =
     ((fst (fold wake ts (s, L)))\<lparr>primask := x\<rparr>, snd (fold wake ts (s, L)))"
proof (induction ts arbitrary: s L)
  case (Cons t ts)
  have "wake t (s\<lparr>primask := x\<rparr>, L) = ((fst (wake t (s, L)))\<lparr>primask := x\<rparr>, snd (wake t (s, L)))"
    by (simp add: wake_def made_ready_def)
  then show ?case using Cons.IH by simp
qed simp

lemma fold_wake_simps [simp]:
  "primask (fst (fold wake ts (s, L))) = primask s"
  "rt_current_thread (fst (fold wake ts (s, L))) = rt_current_thread s"
  "semaphores (fst (fold wake ts (s, L))) = semaphores s"
  "objects (fst (fold wake ts (s, L))) = objects s"
  "rt_scheduler_lock_nest (fst (fold wake ts (s, L))) = rt_scheduler_lock_nest s"
  by (induction ts arbitrary: s L) (simp_all add: wake_def)

text \<open>The threads that waited are ready, nobody waits any more, the others are where they were.\<close>

lemma wake_members:
  assumes "kinv b s L" "L (Suspend k) = Some (map Tlist ts)" "snd (fold wake ts (s, L)) = L'"
  shows "L' (Suspend k) = Some [] \<and>
    (\<forall>h u. queued L' h u \<longleftrightarrow> (if u \<in> set ts then h = Prio_Node (prio_of u s) else queued L h u)) \<and>
    (\<forall>m. linked L' m \<longleftrightarrow> linked L m)"
  using assms
proof (induction ts arbitrary: s L)
  case Nil
  then show ?case by simp
next
  case (Cons t ts)
  note K = Cons.prems(1) and k = Cons.prems(2)
  let ?s = "made_ready t (upd_thread t (\<lambda>th. th\<lparr>th_error := - RT_ERROR\<rparr>) s)"
  let ?L = "to_tail (Prio_Node (prio_of t s)) (Tlist t) L"
  have t: "linked L (Tlist t)" "th_stat (threads s t) = RT_THREAD_SUSPEND"
    using waiter_thread [OF K, of k t] k by auto
  have dist: "t \<notin> set ts" using lay_distinct [OF kinvD(1) [OF K] k] by (auto simp: distinct_map)
  have p: "prio_of t s < 32" using kinvD(4) [OF K t(1)] by (simp add: thread_ok_def)
  obtain ys where ys: "L (Prio_Node (prio_of t s)) = Some ys" using ready_list [OF kinvD(2) [OF K] p] by auto
  have q: "queued ?L h u \<longleftrightarrow> (if u = t then h = Prio_Node (prio_of t s) else queued L h u)" for h u
    by (rule queued_to_tail [OF kinvD(1) [OF K] t(1) ys]) simp
  have k': "?L (Suspend k) = Some (map Tlist ts)" using k by (simp add: to_tail_other)
  have K0: "kinv b (upd_thread t (\<lambda>th. th\<lparr>th_error := - RT_ERROR\<rparr>) s) L" using K by (subst kinv_error)
  obtain nx pv where "kinv b (?s\<lparr>nxt := nx, prv := pv\<rparr>) ?L"
    using rt_thread_resume_kinv [OF K0 t(1)] t(2) by (auto simp: keeps_def)
  moreover have "snd (fold wake ts (?s\<lparr>nxt := nx, prv := pv\<rparr>, ?L)) = L'"
    using Cons.prems(3) by (simp add: fold_wake_links) (simp add: wake_def)
  ultimately have IH: "L' (Suspend k) = Some [] \<and> (\<forall>h u. queued L' h u \<longleftrightarrow>
      (if u \<in> set ts then h = Prio_Node (prio_of u (?s\<lparr>nxt := nx, prv := pv\<rparr>)) else queued ?L h u)) \<and>
      (\<forall>m. linked L' m \<longleftrightarrow> linked ?L m)"
    using Cons.IH k' by blast
  have "prio_of u (?s\<lparr>nxt := nx, prv := pv\<rparr>) = prio_of u s" for u by simp
  then show ?case using IH dist unfolding q
      linked_to_tail [OF kinvD(1) [OF K] leaf_simps(1) t(1) ys, simplified] by auto
qed

lemma rt_sem_control_reset:
  fixes arg :: u32
  assumes K: "kinv b s L" and k: "L (Suspend k) = Some (map Tlist ts)"
    and rdy: "some_ready L" and cur: "rt_current_thread s \<noteq> None"
  defines "s1 \<equiv> upd_sem k (\<lambda>sm. sm\<lparr>sem_value := ucast arg\<rparr>) (fst (fold wake ts (s, L)))"
    and "L1 \<equiv> snd (fold wake ts (s, L))"
  shows "\<exists>to. highest_ready L1 to \<and> keeps b (rt_sem_control k RT_IPC_CMD_RESET arg s) RT_EOK (switched to s1) L1"
proof -
  let ?s = "s\<lparr>primask := True\<rparr>"
  have K0: "kinv b ?s L" using K by simp
  have all: "keeps b (rt_ipc_list_resume_all (Suspend k) ?s) RT_EOK ((fst (fold wake ts (s, L)))\<lparr>primask := True\<rparr>) L1"
    using rt_ipc_list_resume_all_kinv [OF K0 k] by (simp add: fold_wake_primask L1_def)
  have mem: "L1 (Suspend k) = Some []"
    "queued L1 h u \<longleftrightarrow> (if u \<in> set ts then h = Prio_Node (prio_of u s) else queued L h u)" for h u
    using wake_members [OF K k] by (auto simp: L1_def)
  have rdy1: "some_ready L1" using rdy unfolding some_ready_def mem(2) by metis
  have e: "rt_sem_control k RT_IPC_CMD_RESET arg s = Option.bind (rt_ipc_list_resume_all (Suspend k) ?s)
      (\<lambda>(_, s'). Option.bind (rt_schedule ((upd_sem k (\<lambda>sm. sm\<lparr>sem_value := ucast arg\<rparr>) s')\<lparr>primask := primask s\<rparr>))
        (\<lambda>s'. Some (RT_EOK, s')))"
    by (simp add: rt_sem_control_def hw_defs)
  show ?thesis
    unfolding e
  proof (rule keeps_bind [OF all], goal_cases)
    case (1 nx pv)
    have e1: "(upd_sem k (\<lambda>sm. sm\<lparr>sem_value := ucast arg\<rparr>)
        ((fst (fold wake ts (s, L)))\<lparr>primask := True, nxt := nx, prv := pv\<rparr>))\<lparr>primask := primask s\<rparr> =
        s1\<lparr>nxt := nx, prv := pv\<rparr>"
      by (simp add: s1_def)
    have "kinv b (upd_sem k (\<lambda>sm. sm\<lparr>sem_value := ucast arg\<rparr>)
        ((fst (fold wake ts (s, L)))\<lparr>primask := True, nxt := nx, prv := pv\<rparr>)) L1"
      by (rule kinv_sem_value [OF 1]) (use mem(1) in \<open>simp add: queued_def\<close>)
    then have K2: "kinv b (s1\<lparr>nxt := nx, prv := pv\<rparr>) L1"
      unfolding e1 [symmetric] by simp
    have "rt_current_thread s1 \<noteq> None" using cur by (simp add: s1_def)
    then obtain to where to: "highest_ready L1 to" "sustains b (rt_schedule (s1\<lparr>nxt := nx, prv := pv\<rparr>)) (switched to s1) L1"
      using rt_schedule_keeps [OF K2 rdy1] by auto
    have "keeps b (Option.bind (rt_schedule (s1\<lparr>nxt := nx, prv := pv\<rparr>)) (\<lambda>s'. Some (RT_EOK, s')))
        RT_EOK (switched to s1) L1"
      by (rule sustains_bind [OF to(2)]) (simp add: keeps_Some)
    then show ?case using to(1) unfolding prod.case e1 by auto
  qed
qed

lemma rt_sem_detach_kinv:
  assumes K: "kinv b s L" and k: "L (Suspend k) = Some (map Tlist ts)" and ob: "linked L (Obj_List (Sem_Obj k))"
  shows "keeps b (rt_sem_detach k s) RT_EOK (fst (fold wake ts (s, L)))
    (unlink (Obj_List (Sem_Obj k)) (snd (fold wake ts (s, L))))"
  unfolding rt_sem_detach_def
proof (rule keeps_bind [OF rt_ipc_list_resume_all_kinv [OF K k]], goal_cases)
  case (1 nx pv)
  let ?s = "(fst (fold wake ts (s, L)))\<lparr>nxt := nx, prv := pv\<rparr>" and ?L = "snd (fold wake ts (s, L))"
  have ob1: "linked ?L (Obj_List (Sem_Obj k))"
    using wake_members [OF K k refl] ob by simp
  have "succeeds (rt_object_detach (Sem_Obj k) ?s) ?s (unlink (Obj_List (Sem_Obj k)) ?L)"
    by (rule rt_object_detach_ok [OF kinvD(1) [OF 1] ob1])
  then have "sustains b (rt_object_detach (Sem_Obj k) ?s) (fst (fold wake ts (s, L))) (unlink (Obj_List (Sem_Obj k)) ?L)"
    by (rule sustainsI [OF succeeds_links]) (use kinv_unlink [OF 1 _ ob1] in simp_all)
  then have "keeps b (Option.bind (rt_object_detach (Sem_Obj k) ?s) (\<lambda>s. Some (RT_EOK, s)))
      RT_EOK (fst (fold wake ts (s, L))) (unlink (Obj_List (Sem_Obj k)) ?L)"
    by (rule sustains_bind) (simp add: keeps_Some)
  then show ?case by simp
qed

lemma fold_wake_error:
  "th_error (threads (fst (fold wake ts (s, L))) u) = (if u \<in> set ts then - RT_ERROR else th_error (threads s u))"
  by (induction ts arbitrary: s L) (simp_all add: wake_def made_ready_def)

end
