(* ===== verification/Clock.thy ===== *)
theory Clock
  imports Ipc
begin

text \<open>
  \<open>rtt_source/clock.c\<close>, \<open>rtt_source/idle.c\<close> and the parts of \<open>User/main.c\<close> that drive
  the kernel: the tick, the idle thread, the start-up sequence of \<open>main\<close> and the handler of
  the system tick. A timer may call \<open>rt_thread_timeout\<close> or a function of the application;
  the latter are the argument \<open>user\<close>.
\<close>

section \<open>The tick\<close>

definition call_timeout ::
  "(nat \<Rightarrow> void_ptr \<Rightarrow> kernel \<Rightarrow> kernel option) \<Rightarrow>
   timeout_fn \<Rightarrow> void_ptr \<Rightarrow> kernel \<Rightarrow> kernel option" where
  "call_timeout user f parameter s =
     (case f of Fn_rt_thread_timeout \<Rightarrow> rt_thread_timeout parameter s
      | Fn_user k \<Rightarrow> user k parameter s)"

definition rt_tick_increase ::
  "(nat \<Rightarrow> void_ptr \<Rightarrow> kernel \<Rightarrow> kernel option) \<Rightarrow> kernel \<Rightarrow> kernel option" where
  "rt_tick_increase user s = do {
     let s = s\<lparr>rt_tick := rt_tick s + 1\<rparr>;
     thread \<leftarrow> rt_thread_self s;
     let s = upd_thread thread (\<lambda>th. th\<lparr>th_remaining_tick := th_remaining_tick th - 1\<rparr>) s;
     s \<leftarrow> (if th_remaining_tick (threads s thread) = 0 then do {
             let s = upd_thread thread (\<lambda>th. th\<lparr>th_remaining_tick := th_init_tick th\<rparr>) s;
             (_, s) \<leftarrow> rt_thread_yield s;
             Some s }
           else Some s);
     rt_timer_check (call_timeout user) s }"

definition SysTick_Handler ::
  "(nat \<Rightarrow> void_ptr \<Rightarrow> kernel \<Rightarrow> kernel option) \<Rightarrow> kernel \<Rightarrow> kernel option" where
  "SysTick_Handler user s = do {
     let s = rt_interrupt_enter s;
     s \<leftarrow> rt_tick_increase user s;
     Some (rt_interrupt_leave s) }"

section \<open>The idle thread\<close>

text \<open>
  The addresses the linker chooses are parameters: where each stack lies and where each entry
  function starts. Thread \<open>0\<close> is \<open>idle\<close>, threads \<open>1\<close> to \<open>4\<close> are \<open>rt_flag1_thread\<close> to
  \<open>rt_flag4_thread\<close>. \<open>rt_thread_idle_entry\<close> is an endless loop; its body is one step.
\<close>

record image =
  stack_of :: "nat \<Rightarrow> u32"
  entry_of :: "nat \<Rightarrow> u32"

definition bytes :: "string \<Rightarrow> u8 list" where
  "bytes str = map of_char str @ [0]"

definition idle_body :: "kernel \<Rightarrow> kernel" where
  "idle_body s = s\<lparr>rt_idletask_ctr := rt_idletask_ctr s + 1\<rparr>"

definition rt_thread_idle_init :: "image \<Rightarrow> kernel \<Rightarrow> kernel option" where
  "rt_thread_idle_init im s = do {
     (_, s) \<leftarrow> rt_thread_init 0 (bytes ''idle'') (entry_of im 0) 0 (stack_of im 0) 512
                (of_nat (RT_THREAD_PRIORITY_MAX - 1)) 1 s;
     (_, s) \<leftarrow> rt_thread_startup 0 s;
     Some s }"

section \<open>main\<close>

definition start_thread ::
  "image \<Rightarrow> nat \<Rightarrow> string \<Rightarrow> u8 \<Rightarrow> u32 \<Rightarrow> kernel \<Rightarrow> kernel option" where
  "start_thread im t name priority tick s = do {
     (_, s) \<leftarrow> rt_thread_init t (bytes name) (entry_of im t) 0 (stack_of im t) 512 priority tick s;
     (_, s) \<leftarrow> rt_thread_startup t s;
     Some s }"

definition main :: "image \<Rightarrow> kernel \<Rightarrow> kernel option" where
  "main im s = do {
     let (_, s) = rt_hw_interrupt_disable s;
     let s = rt_system_timer_init s;
     let s = rt_system_scheduler_init s;
     s \<leftarrow> rt_thread_idle_init im s;
     s \<leftarrow> start_thread im 1 ''rt_flag1_thread'' 3 10 s;
     s \<leftarrow> start_thread im 2 ''rt_flag2_thread'' 3 10 s;
     s \<leftarrow> start_thread im 3 ''rt_flag3_thread'' 3 5 s;
     s \<leftarrow> start_thread im 4 ''rt_flag4_thread'' 3 2 s;
     rt_system_scheduler_start s }"

text \<open>
  The memory of the program before \<open>main\<close>: every variable is zero, so every list field is
  NULL, but for the container array, whose list heads are initialised to point to themselves
  where it has an initialiser. \<open>boot_with\<close> is that state for any container array.
\<close>

definition boot_with :: "rt_object_information list \<Rightarrow> nat \<Rightarrow> kernel" where
  "boot_with cs n = \<lparr>
     nxt = (\<lambda>x. case x of Container_Node c \<Rightarrow> if c < n then Some x else None | _ \<Rightarrow> None),
     prv = (\<lambda>x. case x of Container_Node c \<Rightarrow> if c < n then Some x else None | _ \<Rightarrow> None),
     objects = (\<lambda>_. \<lparr>ob_name = replicate RT_NAME_MAX 0, ob_type = 0, ob_flag = 0\<rparr>),
     threads = (\<lambda>_. \<lparr>th_sp = 0, th_entry = 0, th_parameter = 0, th_stack_addr = 0,
        th_stack_size = 0, th_init_tick = 0, th_remaining_tick = 0, th_cleanup = 0,
        th_current_priority = 0, th_init_priority = 0, th_number_mask = 0, th_error = 0,
        th_stat = 0\<rparr>),
     timers = (\<lambda>_. \<lparr>tm_timeout_func = Fn_user 0, tm_parameter = Null_Ptr,
        tm_init_tick = 0, tm_timeout_tick = 0\<rparr>),
     semaphores = (\<lambda>_. \<lparr>sem_value = 0, sem_reserved = 0\<rparr>),
     rt_object_container = cs,
     rt_current_thread = None, rt_thread_ready_priority_group = 0, rt_current_priority = 0,
     rt_scheduler_lock_nest = 0, rt_tick = 0, random_nr = 0, rt_interrupt_nest = 0,
     rt_interrupt_from_thread = None, rt_interrupt_to_thread = None,
     rt_thread_switch_interrupt_flag = 0, rt_idletask_ctr = 0, memory = (\<lambda>_. 0),
     primask = False, pendsv = False, psp = 0, r4_r11 = replicate 8 0\<rparr>"

definition boot :: kernel where
  "boot = boot_with container_init 6"

section \<open>Timers that have run out\<close>

definition expired :: "u32 \<Rightarrow> kernel \<Rightarrow> node layout \<Rightarrow> timer_ref set" where
  "expired b s L = {r. armed L r \<and> due b (timers s) r \<le> unat (rt_tick s - b)}"

lemma finite_expired: "finite (expired b s L)"
proof -
  have "finite {r. Row r \<in> set xs}" for xs
    using finite_vimageI [of "set xs" Row] by (simp add: vimage_def inj_def)
  then have "finite {r. armed L r}" by (cases "L Timer_List_Node") (simp_all add: armed_def)
  then show ?thesis by (rule rev_finite_subset) (auto simp: expired_def)
qed

text \<open>The code's test, on ticks that wrap around, is the comparison of distances.\<close>

lemma expired_test:
  assumes "unat (now - b) \<le> 1" "due b f r < unat RT_TICK_HALF"
  shows "now - tm_timeout_tick (f r) < RT_TICK_HALF \<longleftrightarrow> due b f r \<le> unat (now - b)"
proof (cases "due b f r \<le> unat (now - b)")
  case True
  then have "unat (now - tm_timeout_tick (f r)) = unat (now - b) - due b f r"
    using unat_diff_mono_iff [of "tm_timeout_tick (f r)" b now] by (simp add: due_def)
  then show ?thesis using True assms(1) by (simp add: word_less_nat_alt)
next
  case False
  then have "unat (now - tm_timeout_tick (f r)) = 2 ^ 32 - (due b f r - unat (now - b))"
    using unat_diff_wrap [of now b "tm_timeout_tick (f r)"] by (simp add: due_def)
  then show ?thesis using False assms by (simp add: word_less_nat_alt)
qed

text \<open>
  What the kernel relies on when it calls a timeout function of the application: the function
  returns, keeps the invariant and the tick, and makes no timer run out that had not.
\<close>

definition well_behaved :: "(nat \<Rightarrow> void_ptr \<Rightarrow> kernel \<Rightarrow> kernel option) \<Rightarrow> bool" where
  "well_behaved user \<longleftrightarrow> (\<forall>b k p s L. kinv b s L \<and> rt_current_thread s \<noteq> None \<longrightarrow>
     (\<exists>s' L'. user k p s = Some s' \<and> kinv b s' L' \<and> rt_current_thread s' \<noteq> None \<and>
        rt_tick s' = rt_tick s \<and> (\<forall>n. linked L n \<longrightarrow> linked L' n) \<and> expired b s' L' \<subseteq> expired b s L))"

text \<open>
  A thread that sleeps until the tick \<open>T\<close>: suspended, its timer running. The application's timeout
  functions spare a thread when they neither stop it nor touch it while it sleeps.
\<close>

definition sleeps :: "nat \<Rightarrow> u32 \<Rightarrow> kernel \<Rightarrow> node layout \<Rightarrow> bool" where
  "sleeps t T s L \<longleftrightarrow> armed L (Thread_Timer t) \<and> tm_timeout_tick (timers s (Thread_Timer t)) = T \<and>
     th_stat (threads s t) = RT_THREAD_SUSPEND"

definition spares :: "(nat \<Rightarrow> void_ptr \<Rightarrow> kernel \<Rightarrow> kernel option) \<Rightarrow> nat \<Rightarrow> bool" where
  "spares user i \<longleftrightarrow> (\<forall>k p s s'. user k p s = Some s' \<and> th_stat (threads s i) = RT_THREAD_READY \<longrightarrow>
     th_stat (threads s' i) = RT_THREAD_READY) \<and>
   (\<forall>b k p s s' L L' T. user k p s = Some s' \<and> kinv b s L \<and> kinv b s' L' \<and> sleeps i T s L \<longrightarrow> sleeps i T s' L')"

text \<open>
  What is carried from one state to a later one at the same tick: the nodes that are in the layout, and,
  of the threads that are spared, those that are ready and those that sleep and are not due yet. When the
  timeout functions are quiet, what \<open>calm\<close> says of all threads.
\<close>

definition overdue :: "u32 \<Rightarrow> kernel \<Rightarrow> bool" where
  "overdue T s \<longleftrightarrow> rt_tick s - T < RT_TICK_HALF"

definition quiet :: "(nat \<Rightarrow> void_ptr \<Rightarrow> kernel \<Rightarrow> kernel option) \<Rightarrow> bool" where
  "quiet user \<longleftrightarrow> (\<forall>k p s s'. user k p s = Some s' \<longrightarrow> calm s s')"

definition carries ::
  "(nat \<Rightarrow> void_ptr \<Rightarrow> kernel \<Rightarrow> kernel option) \<Rightarrow> kernel \<Rightarrow> node layout \<Rightarrow> kernel \<Rightarrow> node layout \<Rightarrow> bool" where
  "carries user s L s' L' \<longleftrightarrow> rt_tick s' = rt_tick s \<and> (\<forall>n. linked L n \<longrightarrow> linked L' n) \<and>
     (\<forall>i. spares user i \<and> th_stat (threads s i) = RT_THREAD_READY \<longrightarrow> th_stat (threads s' i) = RT_THREAD_READY) \<and>
     (\<forall>i T. spares user i \<and> sleeps i T s L \<longrightarrow>
        sleeps i T s' L' \<or> overdue T s \<and> th_stat (threads s' i) = RT_THREAD_READY) \<and>
     (quiet user \<longrightarrow> calm s s')"

lemma carries_trans [trans]: "carries user s L s1 L1 \<Longrightarrow> carries user s1 L1 s2 L2 \<Longrightarrow> carries user s L s2 L2"
proof -
  assume c: "carries user s L s1 L1" "carries user s1 L1 s2 L2"
  then have "quiet user \<longrightarrow> calm s s2" unfolding carries_def using calm_trans by blast
  moreover have "rt_tick s2 = rt_tick s \<and> (\<forall>n. linked L n \<longrightarrow> linked L2 n)"
    "\<forall>i. spares user i \<and> th_stat (threads s i) = RT_THREAD_READY \<longrightarrow> th_stat (threads s2 i) = RT_THREAD_READY"
    using c unfolding carries_def by auto
  moreover have "\<forall>i T. spares user i \<and> sleeps i T s L \<longrightarrow>
      sleeps i T s2 L2 \<or> overdue T s \<and> th_stat (threads s2 i) = RT_THREAD_READY"
    using c unfolding carries_def overdue_def by metis
  ultimately show ?thesis unfolding carries_def by blast
qed

lemma carriesI:
  "rt_tick s' = rt_tick s \<Longrightarrow> (\<And>n. linked L n \<Longrightarrow> linked L' n) \<Longrightarrow>
   (\<And>i. spares user i \<Longrightarrow> th_stat (threads s i) = RT_THREAD_READY \<Longrightarrow> th_stat (threads s' i) = RT_THREAD_READY) \<Longrightarrow>
   (\<And>i T. spares user i \<Longrightarrow> sleeps i T s L \<Longrightarrow> sleeps i T s' L') \<Longrightarrow> (quiet user \<Longrightarrow> calm s s') \<Longrightarrow>
   carries user s L s' L'"
  by (simp add: carries_def)

lemma carries_same [simp]: "carries user s L s L"
  by (simp add: carries_def)

lemma call_timeout_kinv:
  assumes K: "kinv b s L" and cur: "rt_current_thread s \<noteq> None" and r: "linked L (Row r)" "\<not> armed L r"
    and th: "\<And>t. r = Thread_Timer t \<Longrightarrow> th_stat (threads s t) \<in> {RT_THREAD_READY, RT_THREAD_SUSPEND}"
    and wb: "well_behaved user"
  shows "\<exists>s' L'. call_timeout user (tm_timeout_func (timers s r)) (tm_parameter (timers s r)) s = Some s' \<and>
    kinv b s' L' \<and> rt_current_thread s' \<noteq> None \<and> rt_tick s' = rt_tick s \<and>
    carries user s L s' L' \<and> expired b s' L' \<subseteq> expired b s L \<and>
    (\<forall>t. r = Thread_Timer t \<longrightarrow> \<not> armed L' r \<and> th_stat (threads s' t) = RT_THREAD_READY)"
proof (cases r)
  case (Thread_Timer t)
  have tm: "timer_ok s L r" using kinvD(5) [OF K r(1)] .
  then have t: "linked L (Tlist t)" and f: "tm_timeout_func (timers s r) = Fn_rt_thread_timeout"
    "tm_parameter (timers s r) = Thread_Ptr t" using Thread_Timer by (auto simp: timer_ok_def)
  let ?L = "to_tail (Prio_Node (prio_of t s)) (Tlist t) L"
  have p: "prio_of t s < 32" using kinvD(4) [OF K t] by (simp add: thread_ok_def)
  obtain xs where xs: "L (Prio_Node (prio_of t s)) = Some xs" using ready_list [OF kinvD(2) [OF K] p] by auto
  have a: "armed ?L x \<longleftrightarrow> armed L x" for x by (rule armed_to_tail [OF kinvD(1) [OF K] t xs]) simp
  have l: "linked ?L n \<longleftrightarrow> linked L n" for n by (rule linked_to_tail [OF kinvD(1) [OF K] _ t xs]) simp_all
  obtain to nx pv where to: "rt_thread_timeout (Thread_Ptr t) s = Some ((switched to (timed_out t s))\<lparr>nxt := nx, prv := pv\<rparr>)"
    "kinv b ((switched to (timed_out t s))\<lparr>nxt := nx, prv := pv\<rparr>) ?L" "highest_ready ?L to"
    using rt_thread_timeout_kinv [OF K t th [OF Thread_Timer] cur] by (auto simp: sustains_def)
  let ?s = "(switched to (timed_out t s))\<lparr>nxt := nx, prv := pv\<rparr>"
  have "call_timeout user (tm_timeout_func (timers s r)) (tm_parameter (timers s r)) s = Some ?s"
    using to(1) by (simp add: call_timeout_def f)
  moreover have "expired b ?s ?L = expired b s L" by (simp add: expired_def a)
  moreover have "th_stat (threads ?s t) = RT_THREAD_READY" by (simp add: timed_out_def)
  moreover have "rt_current_thread ?s \<noteq> None" "rt_tick ?s = rt_tick s" using cur by simp_all
  moreover have "calm s ?s"
    using highest_ready_stat(1) [OF to(2,3)] th [OF Thread_Timer] by (auto simp: calm_def timed_out_def made_ready_def)
  then have "carries user s L ?s ?L" using l a r(2) Thread_Timer by (intro carriesI) (auto simp: timed_out_def sleeps_def)
  ultimately show ?thesis
    using to(2) r(2) Thread_Timer a by (intro exI2 [of _ ?s ?L]) simp
next
  case (Sys_Timer j)
  have "timer_ok s L r" using kinvD(5) [OF K r(1)] .
  then obtain k where k: "tm_timeout_func (timers s r) = Fn_user k"
    using Sys_Timer by (cases "tm_timeout_func (timers s r)") (auto simp: timer_ok_def)
  obtain s' L' where "user k (tm_parameter (timers s r)) s = Some s'" "kinv b s' L'" "rt_current_thread s' \<noteq> None"
      "rt_tick s' = rt_tick s" "\<forall>n. linked L n \<longrightarrow> linked L' n" "expired b s' L' \<subseteq> expired b s L"
    using wb K cur unfolding well_behaved_def by blast
  moreover from this have "carries user s L s' L'" using K by (intro carriesI) (auto simp: spares_def quiet_def)
  moreover have "r \<noteq> Thread_Timer t" for t using Sys_Timer by simp
  ultimately show ?thesis by (intro exI2 [of _ s' L']) (simp add: call_timeout_def k)
qed


lemma first_timer:
  assumes K: "kinv b s L" and rs: "L Timer_List_Node = Some (map Row (r # rs))"
  shows "expired b s L = {} \<longleftrightarrow> \<not> due b (timers s) r \<le> unat (rt_tick s - b)"
proof -
  obtain us where us: "L Timer_List_Node = Some (map Row us)" "timers_sorted b (timers s) us"
    using kinvD(6) [OF K] by (auto simp: list_ok_def)
  have "us = r # rs" using us(1) rs by (simp add: inj_map_eq_map inj_def flip: list.map(2))
  then have "\<forall>x\<in>set rs. due b (timers s) r \<le> due b (timers s) x"
    using us(2) by (simp add: timers_sorted_def)
  then show ?thesis using rs by (auto simp: expired_def armed_def)
qed

lemma restarted_not_due:
  assumes "kinv b s L" "0 < tm_init_tick (timers s r)" "unat (tm_init_tick (timers s r)) \<le> longest_timeout"
  shows "\<not> due b (rearmed r s) r \<le> unat (rt_tick s - b)"
proof -
  have e: "rt_tick s + tm_init_tick (timers s r) - b = (rt_tick s - b) + tm_init_tick (timers s r)" by simp
  have "unat (rt_tick s - b) \<le> 1" using kinvD(9) [OF assms(1)] .
  then have "unat ((rt_tick s - b) + tm_init_tick (timers s r)) =
      unat (rt_tick s - b) + unat (tm_init_tick (timers s r))"
    using assms(3) by (intro unat_add_lem [THEN iffD1]) (simp add: longest_timeout_def)
  moreover have "0 < unat (tm_init_tick (timers s r))" using assms(2) by (simp add: unat_gt_0 word_gt_0)
  ultimately show ?thesis by (simp add: due_def rearmed_def e)
qed

lemma flag_clear_active [simp]: "ob_flag (timer_h \<lparr>ob_flag := f AND - 2\<rparr>) AND 1 = 0"
  by simp

lemma timer_check_loop_kinv:
  assumes wb: "well_behaved user"
  shows "kinv b s L \<Longrightarrow> rt_current_thread s \<noteq> None \<Longrightarrow>
    \<exists>s' L'. timer_check_loop (call_timeout user) (rt_tick s) s = Some s' \<and> kinv b s' L' \<and>
      rt_current_thread s' \<noteq> None \<and> rt_tick s' = rt_tick s \<and> expired b s' L' = {} \<and> carries user s L s' L'"
proof (induction "card (expired b s L)" arbitrary: s L rule: less_induct)
  case less
  note K = less.prems(1) and cur = less.prems(2) and lay = kinvD(1) [OF less.prems(1)]
  obtain rs where rs: "L Timer_List_Node = Some (map Row rs)" using kinvD(6) [OF K] by (auto simp: list_ok_def)
  show ?case
  proof (cases rs)
    case Nil
    have "rt_list_isempty Timer_List_Node s" using lay_isempty [OF lay rs] Nil by simp
    moreover have "expired b s L = {}" using rs Nil by (simp add: expired_def armed_def)
    moreover have "carries user s L s L" by (rule carries_same)
    ultimately show ?thesis using K cur by (subst timer_check_loop.simps) auto
  next
    case (Cons r rs')
    have ne: "\<not> rt_list_isempty Timer_List_Node s" "nxt s Timer_List_Node = Some (Row r)"
      using lay_isempty [OF lay rs] lay_nxt [OF lay rs] Cons by simp_all
    have ar: "armed L r" using rs Cons by (simp add: armed_def)
    have lr: "linked L (Row r)" using rs Cons by (auto intro: linkedI)
    have test: "rt_tick s - tm_timeout_tick (timers s r) < RT_TICK_HALF \<longleftrightarrow>
        due b (timers s) r \<le> unat (rt_tick s - b)"
      by (rule expired_test [OF kinvD(9) [OF K] list_ok_due [OF kinvD(6) [OF K] ar]])
    note first = first_timer [OF K, of r rs'] rs Cons
    show ?thesis
    proof (cases "due b (timers s) r \<le> unat (rt_tick s - b)")
      case False
      have "carries user s L s L" by (rule carries_same)
      then show ?thesis using False K cur ne test first
        by (subst timer_check_loop.simps) auto
    next
      case True
      then have ex: "r \<in> expired b s L" using ar by (simp add: expired_def)
      let ?L1 = "unlink (Row r) L"
      obtain n1 p1 where rm: "rt_list_remove (Row r) s = Some (s\<lparr>nxt := n1, prv := p1\<rparr>)" "lay n1 p1 ?L1"
        using lay_remove [OF lay _ lr] by auto
      let ?s1 = "s\<lparr>nxt := n1, prv := p1\<rparr>"
      have K1: "kinv b ?s1 ?L1" by (rule kinv_unlink [OF K _ lr _ rm(2)]) auto
      have a1: "armed ?L1 x \<longleftrightarrow> armed L x \<and> x \<noteq> r" for x using armed_unlink [OF lay, of "Row r" x] by auto
      have e1: "expired b ?s1 ?L1 = expired b s L - {r}" by (auto simp: expired_def a1)
      have lr1: "linked ?L1 (Row r)" using linked_unlink_leaf [OF lay _ lr] lr by simp
      have th: "th_stat (threads ?s1 t) \<in> {RT_THREAD_READY, RT_THREAD_SUSPEND}" if "r = Thread_Timer t" for t
        using kinvD(5) [OF K lr] that kinvD(4) [OF K, of t] ar by (auto simp: timer_ok_def thread_ok_def)
      obtain s2 L2 where c: "call_timeout user (tm_timeout_func (timers s r)) (tm_parameter (timers s r)) ?s1 = Some s2"
        and K2: "kinv b s2 L2" and c2: "rt_current_thread s2 \<noteq> None" "rt_tick s2 = rt_tick s"
        and l2: "carries user ?s1 ?L1 s2 L2" and x2: "expired b s2 L2 \<subseteq> expired b s L - {r}"
        and t2: "\<forall>t. r = Thread_Timer t \<longrightarrow> \<not> armed L2 r \<and> th_stat (threads s2 t) = RT_THREAD_READY"
        using call_timeout_kinv [OF K1 _ lr1 _ th wb] cur a1 e1 by auto
      have lr2: "linked L2 (Row r)" using l2 lr1 by (simp add: carries_def)
      let ?s3 = "upd_object (Timer_Obj r) (\<lambda>h. h\<lparr>ob_flag := ob_flag h AND NOT RT_TIMER_FLAG_ACTIVATED\<rparr>) s2"
      have K3: "kinv b ?s3 L2" by (rule kinv_timer_flag [OF K2]) (use t2 in auto)
      have "sleeps i T ?s3 L2 \<or> overdue T s \<and> th_stat (threads ?s3 i) = RT_THREAD_READY"
        if i: "spares user i" "sleeps i T s L" for i T
      proof (cases "r = Thread_Timer i")
        case False
        then have "sleeps i T ?s1 ?L1" using i(2) by (simp add: sleeps_def a1)
        then have "sleeps i T s2 L2 \<or> overdue T ?s1 \<and> th_stat (threads s2 i) = RT_THREAD_READY"
          using l2 i(1) unfolding carries_def by blast
        then show ?thesis by (simp add: sleeps_def overdue_def)
      qed (use i(2) t2 test True in \<open>auto simp: sleeps_def overdue_def\<close>)
      moreover have "calm s ?s3" if "quiet user" using l2 that by (auto simp: carries_def calm_def)
      ultimately have c3: "carries user s L ?s3 L2"
        using l2 linked_unlink_leaf [OF lay _ lr] by (simp add: carries_def)
      have smaller: "card (expired b s' L') < card (expired b s L)" if "expired b s' L' \<subseteq> expired b s L - {r}" for s' L'
        using that ex finite_expired by (metis card_Diff1_less card_mono finite_Diff le_less_trans)
      have step: "timer_check_loop (call_timeout user) (rt_tick s) s =
          (if ob_flag (objects s2 (Timer_Obj r)) AND RT_TIMER_FLAG_PERIODIC \<noteq> 0 \<and>
              ob_flag (objects s2 (Timer_Obj r)) AND RT_TIMER_FLAG_ACTIVATED \<noteq> 0
           then Option.bind (rt_timer_start r ?s3) (\<lambda>(_, s'). timer_check_loop (call_timeout user) (rt_tick s2) s')
           else timer_check_loop (call_timeout user) (rt_tick s2) ?s3)"
        using ne test True rm(1) c
        by (subst timer_check_loop.simps) (simp add: timer_remove_def rt_tick_get_def)
      show ?thesis
      proof (cases "ob_flag (objects s2 (Timer_Obj r)) AND RT_TIMER_FLAG_PERIODIC \<noteq> 0 \<and>
              ob_flag (objects s2 (Timer_Obj r)) AND RT_TIMER_FLAG_ACTIVATED \<noteq> 0")
        case False
        have "expired b ?s3 L2 \<subseteq> expired b s L - {r}" using x2 by (simp add: expired_def)
        from less.hyps [OF smaller [OF this] K3] c2 obtain s' L' where
          "timer_check_loop (call_timeout user) (rt_tick s2) ?s3 = Some s'" "kinv b s' L'" "rt_current_thread s' \<noteq> None"
          "rt_tick s' = rt_tick s" "expired b s' L' = {}" "carries user ?s3 L2 s' L'" by auto
        then show ?thesis using carries_trans [OF c3] False step by auto
      next
        case True
        have tm: "timer_ok ?s3 L2 r" using kinvD(5) [OF K3 lr2] .
        then have it: "0 < tm_init_tick (timers ?s3 r)" "unat (tm_init_tick (timers ?s3 r)) \<le> longest_timeout"
          using True by (auto simp: timer_ok_def)
        have st: "keeps b (rt_timer_start r ?s3) RT_EOK (timer_started r ?s3) (started_layout b r ?s3 L2)"
          by (rule rt_timer_start_kinv [OF K3 lr2]) (use t2 in auto)
        have nd: "\<not> due b (rearmed r ?s3) r \<le> unat (rt_tick s2 - b)"
          using restarted_not_due [OF K3 it] by simp
        have st2: "\<exists>s' L'. Option.bind (rt_timer_start r ?s3)
            (\<lambda>(_, s'). timer_check_loop (call_timeout user) (rt_tick s2) s') = Some s' \<and> kinv b s' L' \<and>
            rt_current_thread s' \<noteq> None \<and> rt_tick s' = rt_tick s \<and> expired b s' L' = {} \<and> carries user s L s' L'"
        proof (rule keeps_bind [OF st], goal_cases)
          case (1 n4 p4)
          let ?s4 = "(timer_started r ?s3)\<lparr>nxt := n4, prv := p4\<rparr>" and ?L4 = "started_layout b r ?s3 L2"
          have "expired b ?s4 ?L4 \<subseteq> expired b s L - {r}"
          proof
            fix x assume x: "x \<in> expired b ?s4 ?L4"
            then have "x \<noteq> r" using nd by (auto simp: expired_def)
            then have "x \<in> expired b s2 L2"
              using x started_layout_members(2) [OF K3 lr2] by (simp add: expired_def due_def)
            then show "x \<in> expired b s L - {r}" using x2 by blast
          qed
          from less.hyps [OF smaller [OF this] 1] c2 obtain s' L' where
            "timer_check_loop (call_timeout user) (rt_tick s2) ?s4 = Some s'" "kinv b s' L'" "rt_current_thread s' \<noteq> None"
            "rt_tick s' = rt_tick s" "expired b s' L' = {}" "carries user ?s4 ?L4 s' L'" by auto
          moreover have "carries user ?s3 L2 ?s4 ?L4"
            using started_layout_members(2,3) [OF K3 lr2] t2 by (intro carriesI) (auto simp: sleeps_def rearmed_def calm_def timer_started_def)
          then have "carries user s L s' L'" using carries_trans [OF carries_trans [OF c3]] calculation(6) by blast
          then show ?case using calculation(1-5) by (intro exI2 [of _ s' L']) simp
        qed
        then show ?thesis unfolding step using True by simp
      qed
    qed
  qed
qed

section \<open>The tick keeps the invariant\<close>

lemma kinv_rebase:
  assumes K: "kinv b s L" and ex: "expired b s L = {}"
  shows "kinv (rt_tick s) s L" and "armed L r \<Longrightarrow> 0 < due (rt_tick s) (timers s) r"
proof -
  let ?now = "rt_tick s"
  obtain rs where rs: "L Timer_List_Node = Some (map Row rs)" "timers_sorted b (timers s) rs"
    using kinvD(6) [OF K] by (auto simp: list_ok_def)
  have later: "due ?now (timers s) r = due b (timers s) r - unat (?now - b)" "unat (?now - b) < due b (timers s) r"
    if "armed L r" for r
  proof -
    have "\<not> due b (timers s) r \<le> unat (?now - b)" using ex that by (auto simp: expired_def)
    then show "due ?now (timers s) r = due b (timers s) r - unat (?now - b)" "unat (?now - b) < due b (timers s) r"
      using unat_diff_mono_iff [of ?now b "tm_timeout_tick (timers s r)"] by (simp_all add: due_def)
  qed
  then show "armed L r \<Longrightarrow> 0 < due ?now (timers s) r" by simp
  have "due ?now (timers s) r = due b (timers s) r - unat (?now - b)" if "r \<in> set rs" for r
    by (rule later) (use rs that in \<open>simp add: armed_def\<close>)
  then have "timers_sorted ?now (timers s) rs"
    using rs(2) unfolding timers_sorted_def
    by (auto intro: sorted_wrt_mono_rel [rotated] simp: diff_le_mono less_imp_diff_less)
  then have "list_ok ?now s L" using rs(1) by (auto simp: list_ok_def)
  then show "kinv ?now s L" using K by (simp add: kinv_def)
qed

lemma kinv_next_tick:
  assumes "kinv (rt_tick s) s L"
  shows "kinv (rt_tick s) (s\<lparr>rt_tick := rt_tick s + 1\<rparr>) L"
proof -
  have "thread_ok (s\<lparr>rt_tick := rt_tick s + 1\<rparr>) L t = thread_ok s L t" for t by (simp add: thread_ok_def)
  moreover have "timer_ok (s\<lparr>rt_tick := rt_tick s + 1\<rparr>) L r = timer_ok s L r" for r
    by (cases r) (simp_all add: timer_ok_def)
  moreover have "sem_ok (s\<lparr>rt_tick := rt_tick s + 1\<rparr>) L k = sem_ok s L k" for k by (rule sem_ok_cong) simp_all
  ultimately show ?thesis using assms by (simp add: kinv_def group_ok_def list_ok_def)
qed

lemma rt_thread_yield_total:
  assumes K: "kinv b s L" and cur: "rt_current_thread s \<noteq> None"
  shows "\<exists>s' L'. rt_thread_yield s = Some (RT_EOK, s') \<and> kinv b s' L' \<and>
    rt_current_thread s' \<noteq> None \<and> rt_tick s' = rt_tick s \<and> carries user s L s' L'"
proof -
  obtain t where t: "rt_current_thread s = Some t" using cur by auto
  have T: "thread_ok s L t" using kinvD(4) [OF K kinvD(8) [OF K t]] .
  show ?thesis
  proof (cases "thread_state t s = RT_THREAD_READY \<and> nxt s (Tlist t) \<noteq> prv s (Tlist t)")
    case True
    then have st: "th_stat (threads s t) = RT_THREAD_READY" using T by (auto simp: thread_state_def thread_ok_def)
    let ?L = "to_tail (Prio_Node (prio_of t s)) (Tlist t) L"
    have lt: "linked L (Tlist t)" by (rule kinvD(8) [OF K t])
    obtain xs where xs: "L (Prio_Node (prio_of t s)) = Some xs" using own_list [OF K lt] by blast
    have l: "linked ?L n \<longleftrightarrow> linked L n" for n by (rule linked_to_tail [OF kinvD(1) [OF K] _ lt xs]) simp_all
    have a: "armed ?L x \<longleftrightarrow> armed L x" for x by (rule armed_to_tail [OF kinvD(1) [OF K] lt xs]) simp
    obtain to nx pv where to: "rt_thread_yield s = Some (RT_EOK, (switched to s)\<lparr>nxt := nx, prv := pv\<rparr>)"
      "kinv b ((switched to s)\<lparr>nxt := nx, prv := pv\<rparr>) ?L" "highest_ready ?L to"
      using rt_thread_yield_kinv [OF K t st] True by (auto simp: keeps_def)
    moreover have "calm s ((switched to s)\<lparr>nxt := nx, prv := pv\<rparr>)"
      using highest_ready_stat(1) [OF to(2,3)] by (auto simp: calm_def)
    moreover from this have "carries user s L ((switched to s)\<lparr>nxt := nx, prv := pv\<rparr>) ?L" using l a by (intro carriesI) (simp_all add: sleeps_def)
    ultimately show ?thesis using t by (intro exI2 [of _ "(switched to s)\<lparr>nxt := nx, prv := pv\<rparr>" ?L]) simp
  next
    case False
    then have "rt_thread_yield s = Some (RT_EOK, s)" by (auto simp: rt_thread_yield_def hw_defs t thread_state_def)
    moreover have "carries user s L s L" by (rule carries_same)
    ultimately show ?thesis using K cur by auto
  qed
qed

lemma rt_timer_check_kinv:
  assumes K: "kinv b s L" and cur: "rt_current_thread s \<noteq> None" and wb: "well_behaved user"
  shows "\<exists>s' L'. rt_timer_check (call_timeout user) s = Some s' \<and> kinv (rt_tick s) s' L' \<and>
    rt_current_thread s' \<noteq> None \<and> rt_tick s' = rt_tick s \<and> carries user s L s' L' \<and>
    (\<forall>r. armed L' r \<longrightarrow> 0 < due (rt_tick s) (timers s') r)"
proof -
  have K1: "kinv b (s\<lparr>primask := True\<rparr>) L" using K by simp
  obtain s' L' where l: "timer_check_loop (call_timeout user) (rt_tick s) (s\<lparr>primask := True\<rparr>) = Some s'"
    and s': "kinv b s' L'" "rt_current_thread s' \<noteq> None" "rt_tick s' = rt_tick s" "expired b s' L' = {}"
    and c: "carries user (s\<lparr>primask := True\<rparr>) L s' L'"
    using timer_check_loop_kinv [OF wb K1] cur by auto
  have "kinv (rt_tick s) (s'\<lparr>primask := primask s\<rparr>) L'" using kinv_rebase(1) [OF s'(1,4)] s'(3) by simp
  moreover have "\<forall>r. armed L' r \<longrightarrow> 0 < due (rt_tick s) (timers s') r" using kinv_rebase(2) [OF s'(1,4)] s'(3) by simp
  moreover have "carries user s L (s'\<lparr>primask := primask s\<rparr>) L'" using c by (simp add: carries_def sleeps_def overdue_def calm_def)
  moreover have "rt_timer_check (call_timeout user) s = Some (s'\<lparr>primask := primask s\<rparr>)"
    using l by (simp add: rt_timer_check_def hw_defs rt_tick_get_def)
  ultimately show ?thesis using s'(2,3) by (intro exI2 [of _ "s'\<lparr>primask := primask s\<rparr>" L']) simp
qed

lemma rt_tick_increase_kinv:
  assumes K: "kinv (rt_tick s) s L" and cur: "rt_current_thread s \<noteq> None" and wb: "well_behaved user"
  shows "\<exists>s' L'. rt_tick_increase user s = Some s' \<and> kinv (rt_tick s') s' L' \<and> rt_current_thread s' \<noteq> None \<and>
    rt_tick s' = rt_tick s + 1 \<and> carries user (s\<lparr>rt_tick := rt_tick s + 1\<rparr>) L s' L' \<and>
    (\<forall>r. armed L' r \<longrightarrow> 0 < due (rt_tick s') (timers s') r)"
proof -
  let ?s0 = "s\<lparr>rt_tick := rt_tick s + 1\<rparr>"
  obtain t where t: "rt_current_thread s = Some t" using cur by auto
  let ?s1 = "upd_thread t (\<lambda>th. th\<lparr>th_remaining_tick := th_remaining_tick th - 1\<rparr>) (s\<lparr>rt_tick := rt_tick s + 1\<rparr>)"
  let ?s2 = "upd_thread t (\<lambda>th. th\<lparr>th_remaining_tick := th_init_tick th\<rparr>) ?s1"
  have K1: "kinv (rt_tick s) ?s1 L" using kinv_next_tick [OF K] by (subst kinv_remaining)
  have K2: "kinv (rt_tick s) ?s2 L" using K1 by (subst kinv_remaining)
  have c: "carries user ?s0 L ?s1 L" "carries user ?s0 L ?s2 L" by (auto simp: carries_def sleeps_def calm_def)
  have "\<exists>s' L'. (if th_remaining_tick (threads ?s1 t) = 0 then
      Option.bind (rt_thread_yield ?s2) (\<lambda>(_, s). Some s) else Some ?s1) = Some s' \<and> kinv (rt_tick s) s' L' \<and>
      rt_current_thread s' \<noteq> None \<and> rt_tick s' = rt_tick s + 1 \<and> carries user ?s0 L s' L'"
  proof (cases "th_remaining_tick (threads ?s1 t) = 0")
    case True
    obtain s' L' where "rt_thread_yield ?s2 = Some (RT_EOK, s')" "kinv (rt_tick s) s' L'" "rt_current_thread s' \<noteq> None"
      "rt_tick s' = rt_tick s + 1" "carries user ?s2 L s' L'"
      using rt_thread_yield_total [OF K2, of user] t by auto
    then show ?thesis using True carries_trans [OF c(2)] by (intro exI2 [of _ s' L']) simp
  next
    case False
    then show ?thesis using K1 t c(1) by auto
  qed
  then obtain s3 L3 where s3: "(if th_remaining_tick (threads ?s1 t) = 0 then
      Option.bind (rt_thread_yield ?s2) (\<lambda>(_, s). Some s) else Some ?s1) = Some s3" "kinv (rt_tick s) s3 L3"
      "rt_current_thread s3 \<noteq> None" "rt_tick s3 = rt_tick s + 1" "carries user ?s0 L s3 L3" by blast
  obtain s' L' where s': "rt_timer_check (call_timeout user) s3 = Some s'" "kinv (rt_tick s3) s' L'"
    "rt_current_thread s' \<noteq> None" "rt_tick s' = rt_tick s3" "carries user s3 L3 s' L'"
    "\<forall>r. armed L' r \<longrightarrow> 0 < due (rt_tick s3) (timers s') r"
    using rt_timer_check_kinv [OF s3(2,3) wb] by blast
  have e: "rt_tick_increase user s = Option.bind (if th_remaining_tick (threads ?s1 t) = 0 then
      Option.bind (rt_thread_yield ?s2) (\<lambda>(_, s). Some s) else Some ?s1) (rt_timer_check (call_timeout user))"
    by (simp add: rt_tick_increase_def rt_thread_self_def t)
  have "rt_tick_increase user s = Some s'"
    unfolding e s3(1) using s'(1) by simp
  then show ?thesis using s' s3(4) carries_trans [OF s3(5)] by (intro exI2 [of _ s' L']) simp
qed

lemma kinv_interrupt_nest [simp]: "kinv b (s\<lparr>rt_interrupt_nest := x\<rparr>) L = kinv b s L"
  by (rule iffI; erule kinv_frame) auto

text \<open>What the clock interrupt does, from a state between two ticks in which a thread runs.\<close>

lemma SysTick_Handler_kinv:
  assumes K: "kinv (rt_tick s) s L" and cur: "rt_current_thread s \<noteq> None" and wb: "well_behaved user"
  shows "\<exists>s' L'. SysTick_Handler user s = Some s' \<and> kinv (rt_tick s') s' L' \<and> rt_current_thread s' \<noteq> None \<and>
    rt_tick s' = rt_tick s + 1 \<and> carries user (s\<lparr>rt_tick := rt_tick s + 1\<rparr>) L s' L' \<and>
    (\<forall>r. armed L' r \<longrightarrow> 0 < due (rt_tick s') (timers s') r)"
proof -
  let ?e = "rt_interrupt_enter s"
  have "kinv (rt_tick ?e) ?e L" "rt_current_thread ?e \<noteq> None"
    using K cur by (simp_all add: rt_interrupt_enter_def hw_defs)
  from rt_tick_increase_kinv [OF this wb] obtain s' L' where
    s': "rt_tick_increase user ?e = Some s'" "kinv (rt_tick s') s' L'" "rt_current_thread s' \<noteq> None" "rt_tick s' = rt_tick ?e + 1"
      "carries user (?e\<lparr>rt_tick := rt_tick ?e + 1\<rparr>) L s' L'" "\<forall>r. armed L' r \<longrightarrow> 0 < due (rt_tick s') (timers s') r" by blast
  have "rt_tick ?e = rt_tick s" by (simp add: rt_interrupt_enter_def hw_defs)
  moreover have "carries user (s\<lparr>rt_tick := rt_tick s + 1\<rparr>) L (rt_interrupt_leave s') L'"
    using s'(5) by (simp add: carries_def sleeps_def overdue_def calm_def rt_interrupt_enter_def rt_interrupt_leave_def hw_defs)
  ultimately show ?thesis using s'
    by (intro exI2 [of _ "rt_interrupt_leave s'" L']) (simp_all add: SysTick_Handler_def rt_interrupt_leave_def hw_defs)
qed

end
