(* ===== verification/Boot.thy ===== *)
theory Boot
  imports Clock
begin

text \<open>
  From reset to the first thread: \<open>rt_thread_init\<close> and \<open>rt_thread_startup\<close> on threads that are new to
  the kernel, and the start-up sequence of \<open>User/main.c\<close>. With the container array of
  \<open>object.c\<close> as it is the sequence follows a NULL pointer; with the entry for timers that is
  commented out there it reaches a state that satisfies the invariant.
\<close>

section \<open>New threads\<close>

lemma init_succeeds_bind:
  fixes s :: kernel
  assumes "lay (nxt s) (prv s) L" "\<not> linked L n"
  shows "lay (nxt (rt_list_init n s)) (prv (rt_list_init n s)) (L(n \<mapsto> []))"
  using lay_init [OF assms(1), of n] assms(2) by (simp add: rt_list_init_eq free_node_def)

lemma linked_fresh: "\<not> linked L n \<Longrightarrow> linked (L(n \<mapsto> [])) m \<longleftrightarrow> linked L m \<or> m = n"
  by (simp add: linked_init free_node_def)

text \<open>What \<open>rt_thread_init\<close> and the \<open>rt_timer_init\<close> it calls leave in the structures.\<close>

definition fresh_thread :: "u32 \<Rightarrow> u32 \<Rightarrow> u32 \<Rightarrow> u32 \<Rightarrow> u8 \<Rightarrow> u32 \<Rightarrow> u32 \<Rightarrow> rt_thread \<Rightarrow> rt_thread" where
  "fresh_thread entry parameter start ssize priority tick sp th =
     th\<lparr>th_entry := entry, th_parameter := parameter, th_stack_addr := start, th_stack_size := ssize,
       th_sp := sp, th_init_priority := priority, th_current_priority := priority, th_number_mask := 0,
       th_error := RT_EOK, th_stat := RT_THREAD_INIT, th_init_tick := tick, th_remaining_tick := tick\<rparr>"

definition thread_fresh :: "node layout \<Rightarrow> nat \<Rightarrow> bool" where
  "thread_fresh L t \<longleftrightarrow> \<not> linked L (Tlist t) \<and> \<not> linked L (Row (Thread_Timer t)) \<and>
     \<not> linked L (Obj_List (Thread_Obj t)) \<and> \<not> linked L (Obj_List (Timer_Obj (Thread_Timer t)))"

definition thread_created :: "nat \<Rightarrow> u8 list \<Rightarrow> u32 \<Rightarrow> u32 \<Rightarrow> u32 \<Rightarrow> u32 \<Rightarrow> u8 \<Rightarrow> u32 \<Rightarrow> kernel \<Rightarrow> kernel" where
  "thread_created t name entry parameter start ssize priority tick s =
     (let (sp, m) = rt_hw_stack_init entry parameter (start + ssize - 4) (memory s);
          r = Timer_Obj (Thread_Timer t)
      in s\<lparr>objects := (objects s)(Thread_Obj t := fresh_header RT_Object_Class_Thread name (objects s (Thread_Obj t)),
             r := (fresh_header RT_Object_Class_Timer (padded RT_NAME_MAX name) (objects s r))\<lparr>ob_flag := 0\<rparr>),
           threads := (threads s)(t := fresh_thread entry parameter start ssize priority tick sp (threads s t)),
           timers := (timers s)(Thread_Timer t := (timers s (Thread_Timer t))\<lparr>
             tm_timeout_func := Fn_rt_thread_timeout, tm_parameter := Thread_Ptr t,
             tm_timeout_tick := 0, tm_init_tick := 0\<rparr>),
           memory := m\<rparr>)"

definition created_layout :: "nat \<Rightarrow> nat \<Rightarrow> nat \<Rightarrow> node layout \<Rightarrow> node layout" where
  "created_layout c d t L =
     (let L = put_list (Container_Node c) (Obj_List (Thread_Obj t) # the (L (Container_Node c))) (Obj_List (Thread_Obj t)) L;
          L = L(Tlist t \<mapsto> []);
          r = Obj_List (Timer_Obj (Thread_Timer t));
          L = put_list (Container_Node d) (r # the (L (Container_Node d))) r L
      in L(Row (Thread_Timer t) \<mapsto> []))"

lemma rt_thread_init_ok:
  assumes l: "lay (nxt s) (prv s) L" and fresh: "thread_fresh L t"
    and c: "rt_object_get_information RT_Object_Class_Thread s = Some c" "L (Container_Node c) \<noteq> None"
    and d: "rt_object_get_information RT_Object_Class_Timer s = Some d" "L (Container_Node d) \<noteq> None"
    and nm: "\<And>ob. length (ob_name (objects s ob)) = RT_NAME_MAX" "readable_name name"
  shows "returns (rt_thread_init t name entry parameter start ssize priority tick s) RT_EOK
    (thread_created t name entry parameter start ssize priority tick s) (created_layout c d t L)"
proof -
  obtain xs where xs: "L (Container_Node c) = Some xs" using c by auto
  let ?o = "Obj_List (Thread_Obj t)" and ?r = "Obj_List (Timer_Obj (Thread_Timer t))"
  let ?L1 = "put_list (Container_Node c) (?o # xs) ?o L"
  have k1: "linked ?L1 m \<longleftrightarrow> linked L m \<or> m = ?o" for m
    using linked_put_list [of L "Container_Node c" "[]" xs ?o m] xs fresh
    by (auto simp: thread_fresh_def free_node_def)
  let ?L2 = "?L1(Tlist t \<mapsto> [])"
  have k2: "linked ?L2 m \<longleftrightarrow> linked L m \<or> m = ?o \<or> m = Tlist t" for m
    using linked_fresh [of ?L1 "Tlist t" m] fresh by (auto simp: k1 thread_fresh_def)
  obtain ys where ys: "?L2 (Container_Node d) = Some ys" using d(2) by (cases "d = c") (auto simp: put_list_def)
  let ?L3 = "put_list (Container_Node d) (?r # ys) ?r ?L2"
  have k3: "linked ?L3 m \<longleftrightarrow> linked ?L2 m \<or> m = ?r" for m
    using linked_put_list [of ?L2 "Container_Node d" "[]" ys ?r m] ys fresh
    by (auto simp: thread_fresh_def free_node_def k2)
  have L': "created_layout c d t L = ?L3(Row (Thread_Timer t) \<mapsto> [])"
    using ys by (simp add: created_layout_def Let_def xs)
  have o1: "succeeds (rt_object_init (Thread_Obj t) RT_Object_Class_Thread name s)
      (s\<lparr>objects := (objects s)(Thread_Obj t := fresh_header RT_Object_Class_Thread name (objects s (Thread_Obj t)))\<rparr>) ?L1"
    by (rule rt_object_init_ok [OF l c(1) xs _ nm]) (use fresh in \<open>simp add: thread_fresh_def free_node_def\<close>)
  show ?thesis
    unfolding rt_thread_init_def
  proof (rule succeeds_bind [OF o1], goal_cases)
    case (1 nx pv)
    obtain sp m where sm: "rt_hw_stack_init entry parameter (start + ssize - 4) (memory s) = (sp, m)"
      by fastforce
    define sA where "sA = s\<lparr>nxt := nx(Tlist t := Some (Tlist t)), prv := pv(Tlist t := Some (Tlist t)),
        objects := (objects s)(Thread_Obj t := fresh_header RT_Object_Class_Thread name (objects s (Thread_Obj t))),
        threads := (threads s)(t := fresh_thread entry parameter start ssize priority tick sp (threads s t)),
        memory := m\<rparr>"
    let ?h = "fresh_header RT_Object_Class_Timer (padded RT_NAME_MAX name) (objects s (Timer_Obj (Thread_Timer t)))"
    have lA: "lay (nxt sA) (prv sA) ?L2"
      using lay_init [OF 1, of "Tlist t"] fresh k1 by (simp add: sA_def free_node_def thread_fresh_def)
    have nmA: "ob_name (objects sA (Thread_Obj t)) = padded RT_NAME_MAX name"
      by (simp add: sA_def fresh_header_def)
    have o2: "succeeds (rt_object_init (Timer_Obj (Thread_Timer t)) RT_Object_Class_Timer
        (ob_name (objects sA (Thread_Obj t))) sA)
        (sA\<lparr>objects := (objects sA)(Timer_Obj (Thread_Timer t) := ?h)\<rparr>) ?L3"
    proof -
      have gi: "rt_object_get_information RT_Object_Class_Timer sA = Some d"
        using d(1) by (simp add: rt_object_get_information_def sA_def)
      have fr: "free_node ?L2 ?r" using fresh by (simp add: free_node_def k2 thread_fresh_def)
      have len: "length (ob_name (objects sA (Timer_Obj (Thread_Timer t)))) = RT_NAME_MAX"
        using nm(1) by (simp add: sA_def)
      have rn: "readable_name (padded RT_NAME_MAX name)" by (simp add: readable_name_def)
      have ob: "objects sA (Timer_Obj (Thread_Timer t)) = objects s (Timer_Obj (Thread_Timer t))"
        by (simp add: sA_def)
      show ?thesis unfolding nmA using rt_object_init_ok [OF lA gi ys fr len rn] unfolding ob .
    qed
    have fin: "returns (rt_timer_init (Thread_Timer t) (ob_name (objects sA (Thread_Obj t)))
        Fn_rt_thread_timeout (Thread_Ptr t) 0 RT_TIMER_FLAG_ONE_SHOT sA \<bind> (\<lambda>s. Some (RT_EOK, s))) RT_EOK
        (thread_created t name entry parameter start ssize priority tick s) (created_layout c d t L)"
      unfolding rt_timer_init_def Option.bind_assoc
    proof (rule succeeds_bind [OF o2], goal_cases)
      case (1 nx2 pv2)
      have "lay (nx2(Row (Thread_Timer t) \<mapsto> Row (Thread_Timer t))) (pv2(Row (Thread_Timer t) \<mapsto> Row (Thread_Timer t)))
          (created_layout c d t L)"
        unfolding L' by (rule lay_init [OF 1]) (use fresh in \<open>simp add: free_node_def k3 k2 thread_fresh_def\<close>)
      then show ?case
        by (simp add: timer_init_fields_def Let_def rt_list_init_eq)
          (rule returns_Some, auto simp: thread_created_def sm sA_def Let_def)
    qed
    show ?case
      using fin sm unfolding sA_def
      by (simp add: fresh_thread_def rt_list_init_eq Let_def)
  qed
qed

lemma created_layout_same:
  "g \<notin> {Tlist t, Row (Thread_Timer t), Obj_List (Thread_Obj t), Obj_List (Timer_Obj (Thread_Timer t)),
      Container_Node c, Container_Node d} \<Longrightarrow> created_layout c d t L g = L g"
  by (simp add: created_layout_def Let_def)

lemma created_layout_linked:
  assumes fresh: "thread_fresh L t" and "L (Container_Node c) \<noteq> None" "L (Container_Node d) \<noteq> None"
  shows "linked (created_layout c d t L) m \<longleftrightarrow> linked L m \<or>
    m \<in> {Tlist t, Row (Thread_Timer t), Obj_List (Thread_Obj t), Obj_List (Timer_Obj (Thread_Timer t))}"
proof -
  obtain xs where xs: "L (Container_Node c) = Some xs" using assms by auto
  let ?o = "Obj_List (Thread_Obj t)" and ?r = "Obj_List (Timer_Obj (Thread_Timer t))"
  let ?L1 = "put_list (Container_Node c) (?o # xs) ?o L"
  have k1: "linked ?L1 m \<longleftrightarrow> linked L m \<or> m = ?o" for m
    using linked_put_list [of L "Container_Node c" "[]" xs ?o m] xs fresh
    by (auto simp: thread_fresh_def free_node_def)
  let ?L2 = "?L1(Tlist t \<mapsto> [])"
  have k2: "linked ?L2 m \<longleftrightarrow> linked L m \<or> m = ?o \<or> m = Tlist t" for m
    using linked_fresh [of ?L1 "Tlist t" m] fresh by (auto simp: k1 thread_fresh_def)
  obtain ys where ys: "?L2 (Container_Node d) = Some ys" using assms(3) by (cases "d = c") (auto simp: put_list_def)
  let ?L3 = "put_list (Container_Node d) (?r # ys) ?r ?L2"
  have k3: "linked ?L3 m \<longleftrightarrow> linked ?L2 m \<or> m = ?r" for m
    using linked_put_list [of ?L2 "Container_Node d" "[]" ys ?r m] ys fresh
    by (auto simp: thread_fresh_def free_node_def k2)
  have L': "created_layout c d t L = ?L3(Row (Thread_Timer t) \<mapsto> [])"
    using ys by (simp add: created_layout_def Let_def xs)
  show ?thesis unfolding L'
    using linked_fresh [of ?L3 "Row (Thread_Timer t)" m] fresh by (auto simp: k3 k2 thread_fresh_def)
qed

lemma kinv_created:
  assumes K: "kinv b s L" and fresh: "thread_fresh L t" and c: "L (Container_Node c) \<noteq> None" "L (Container_Node d) \<noteq> None"
    and p: "unat priority < RT_THREAD_PRIORITY_MAX" and l': "lay nx pv (created_layout c d t L)"
  shows "kinv b ((thread_created t name entry parameter start ssize priority tick s)\<lparr>nxt := nx, prv := pv\<rparr>)
    (created_layout c d t L)"
proof -
  let ?L = "created_layout c d t L"
  let ?s = "(thread_created t name entry parameter start ssize priority tick s)\<lparr>nxt := nx, prv := pv\<rparr>"
  note lay = kinvD(1) [OF K]
  obtain sp m where sm: "rt_hw_stack_init entry parameter (start + ssize - 4) (memory s) = (sp, m)" by fastforce
  have l: "linked ?L m \<longleftrightarrow> linked L m \<or>
      m \<in> {Tlist t, Row (Thread_Timer t), Obj_List (Thread_Obj t), Obj_List (Timer_Obj (Thread_Timer t))}" for m
    by (rule created_layout_linked [OF fresh c])
  have same: "?L (Prio_Node p) = L (Prio_Node p)" "?L (Suspend k) = L (Suspend k)"
    "?L Timer_List_Node = L Timer_List_Node" "?L Defunct_Node = L Defunct_Node" for p k
    by (simp_all add: created_layout_same)
  have q: "queued ?L (Prio_Node p) u \<longleftrightarrow> queued L (Prio_Node p) u"
    "queued ?L (Suspend k) u \<longleftrightarrow> queued L (Suspend k) u" for p k u by (simp_all add: queued_def same)
  have a: "armed ?L r \<longleftrightarrow> armed L r" for r by (simp add: armed_def same)
  have nq: "\<not> queued L g t" for g using fresh by (auto simp: thread_fresh_def queued_def intro: linkedI)
  have na: "\<not> armed L (Thread_Timer t)" using fresh by (auto simp: thread_fresh_def armed_def intro: linkedI)
  have "tables_ok ?L" using kinvD(2) [OF K] by (simp add: tables_ok_def same)
  moreover have "group_ok ?s ?L" using kinvD(3) [OF K] by (simp add: group_ok_def q thread_created_def sm Let_def)
  moreover have "thread_ok ?s ?L u" if "linked ?L (Tlist u)" for u
  proof (cases "u = t")
    case True
    then show ?thesis using p nq na
      by (simp add: thread_ok_def q a l thread_created_def sm Let_def fresh_thread_def)
  next
    case False
    then show ?thesis using kinvD(4) [OF K, of u] that
      by (simp add: thread_ok_def q a l thread_created_def sm Let_def)
  qed
  moreover have "timer_ok ?s ?L r" if "linked ?L (Row r)" for r
  proof (cases "r = Thread_Timer t")
    case True
    then show ?thesis using na
      by (simp add: timer_ok_def a l thread_created_def sm Let_def longest_timeout_def)
  next
    case False
    then have "timer_ok s L r" using kinvD(5) [OF K, of r] that by (simp add: l)
    then show ?thesis using False
      by (cases r) (simp_all add: timer_ok_def a l thread_created_def sm Let_def)
  qed
  moreover have "list_ok b ?s ?L"
  proof -
    obtain rs where rs: "L Timer_List_Node = Some (map Row rs)" "timers_sorted b (timers s) rs"
      using kinvD(6) [OF K] by (auto simp: list_ok_def)
    have "Thread_Timer t \<notin> set rs" using na rs by (auto simp: armed_def)
    then have "timers_sorted b (timers ?s) rs = timers_sorted b (timers s) rs"
      by (intro timers_sorted_cong) (auto simp: thread_created_def sm Let_def)
    then show ?thesis using rs by (auto simp: list_ok_def same)
  qed
  moreover have "sem_ok ?s ?L k" for k
  proof -
    have w: "u \<noteq> t" if "L (Suspend k) = Some (map Tlist ts)" "u \<in> set ts" for ts u
      using nq [of "Suspend k"] that by (auto simp: queued_def)
    have "map (\<lambda>u. prio_of u ?s) ts = map (\<lambda>u. prio_of u s) ts" if "L (Suspend k) = Some (map Tlist ts)" for ts
      using w [OF that] by (simp add: thread_created_def sm Let_def)
    moreover have "ob_flag (objects ?s (Sem_Obj k)) = ob_flag (objects s (Sem_Obj k))"
      "semaphores ?s = semaphores s" by (simp_all add: thread_created_def sm Let_def)
    ultimately show ?thesis using kinvD(7) [OF K, of k] unfolding sem_ok_def q same by metis
  qed
  moreover have "linked ?L (Tlist u)" if "rt_current_thread ?s = Some u" for u
    using kinvD(8) [OF K, of u] that by (simp add: l thread_created_def sm Let_def)
  moreover have "lay (nxt ?s) (prv ?s) ?L" using l' by simp
  moreover have "unat (rt_tick ?s - b) \<le> 1" using kinvD(9) [OF K] by (simp add: thread_created_def sm Let_def)
  ultimately show ?thesis unfolding kinv_def by blast
qed

section \<open>Start-up\<close>

text \<open>The state of the start-up sequence when the threads below \<open>n\<close> have been started.\<close>

definition repaired_container :: "rt_object_information list" where
  "repaired_container = container_init[6 := \<lparr>oi_type = RT_Object_Class_Timer, oi_size = 44\<rparr>]"

definition plain_threads :: "nat \<Rightarrow> kernel \<Rightarrow> bool" where
  "plain_threads n s \<longleftrightarrow> rt_scheduler_lock_nest s = 0 \<and> (\<forall>u. th_cleanup (threads s u) = 0) \<and>
     (\<forall>u\<ge>n. th_stat (threads s u) = RT_THREAD_INIT) \<and> (\<forall>u<n. rt_object_is_systemobject (Thread_Obj u) s)"

definition started_up :: "nat \<Rightarrow> kernel \<Rightarrow> node layout \<Rightarrow> bool" where
  "started_up n s L \<longleftrightarrow> kinv 0 s L \<and> rt_current_thread s = None \<and> rt_tick s = 0 \<and>
     rt_object_container s = repaired_container \<and> (\<forall>c<7. L (Container_Node c) \<noteq> None) \<and>
     (\<forall>ob. length (ob_name (objects s ob)) = RT_NAME_MAX) \<and> (\<forall>u\<ge>n. thread_fresh L u) \<and>
     (\<forall>u<n. \<exists>p. queued L (Prio_Node p) u) \<and>
     (\<forall>k. \<not> linked L (Suspend k) \<and> \<not> linked L (Obj_List (Sem_Obj k))) \<and> plain_threads n s"

lemma repaired_information:
  assumes "rt_object_container s = repaired_container"
  shows "rt_object_get_information RT_Object_Class_Thread s = Some 0"
    and "rt_object_get_information RT_Object_Class_Timer s = Some 6"
  by (simp_all add: rt_object_get_information_def assms repaired_container_def container_init_def)

lemma start_step:
  assumes S: "started_up n s L" and p: "unat priority < RT_THREAD_PRIORITY_MAX" and nm: "readable_name name"
  shows "\<exists>s' L'. Option.bind (rt_thread_init n name entry parameter start ssize priority tick s)
      (\<lambda>(_, s). Option.bind (rt_thread_startup n s) (\<lambda>(_, s). Some s)) = Some s' \<and> started_up (n + 1) s' L'"
proof -
  have K: "kinv 0 s L" and cur: "rt_current_thread s = None" and con: "rt_object_container s = repaired_container"
    and cl: "L (Container_Node 0) \<noteq> None" "L (Container_Node 6) \<noteq> None"
    and fr: "thread_fresh L n" and len: "\<And>ob. length (ob_name (objects s ob)) = RT_NAME_MAX"
    using S by (auto simp: started_up_def)
  let ?s1 = "thread_created n name entry parameter start ssize priority tick s" and ?L1 = "created_layout 0 6 n L"
  have ti: "returns (rt_thread_init n name entry parameter start ssize priority tick s) RT_EOK ?s1 ?L1"
    by (rule rt_thread_init_ok [OF kinvD(1) [OF K] fr]) (use repaired_information [OF con] cl len nm in auto)
  obtain sp m where sm: "rt_hw_stack_init entry parameter (start + ssize - 4) (memory s) = (sp, m)" by fastforce
  have l: "linked ?L1 k \<longleftrightarrow> linked L k \<or> k \<in> {Tlist n, Row (Thread_Timer n), Obj_List (Thread_Obj n),
      Obj_List (Timer_Obj (Thread_Timer n))}" for k by (rule created_layout_linked [OF fr cl])
  show ?thesis
  proof (rule returns_bind [OF ti], goal_cases)
    case (1 nx pv)
    let ?s2 = "?s1\<lparr>nxt := nx, prv := pv\<rparr>"
    have K1: "kinv 0 ?s2 ?L1" by (rule kinv_created [OF K fr cl p 1])
    have t: "linked ?L1 (Tlist n)" by (simp add: l)
    have st: "th_stat (threads ?s2 n) \<noteq> RT_THREAD_READY"
      by (simp add: thread_created_def sm Let_def fresh_thread_def)
    have cur2: "rt_current_thread ?s2 = None" using cur by (simp add: thread_created_def sm Let_def)
    let ?s3 = "made_ready n (prepared n ?s2)"
    define pr where "pr = prio_of n ?s2"
    let ?L2 = "to_tail (Prio_Node pr) (Tlist n) ?L1"
    obtain nx2 pv2 where su: "rt_thread_startup n ?s2 = Some (RT_EOK, ?s3\<lparr>nxt := nx2, prv := pv2\<rparr>)"
      "kinv 0 (?s3\<lparr>nxt := nx2, prv := pv2\<rparr>) ?L2"
      using rt_thread_startup_kinv [OF K1 t st, folded pr_def] cur2 by (auto simp: keeps_def)
    have pp: "pr < 32" using kinvD(4) [OF K1 t] by (simp add: thread_ok_def pr_def)
    obtain xs where xs: "?L1 (Prio_Node pr) = Some xs" using ready_list [OF kinvD(2) [OF K1] pp] by auto
    have l2: "linked ?L2 k \<longleftrightarrow> linked ?L1 k" for k
      by (rule linked_to_tail [OF kinvD(1) [OF K1] _ t xs]) simp_all
    have "started_up (n + 1) (?s3\<lparr>nxt := nx2, prv := pv2\<rparr>) ?L2"
      unfolding started_up_def
    proof (intro conjI)
      show "kinv 0 (?s3\<lparr>nxt := nx2, prv := pv2\<rparr>) ?L2" by (rule su(2))
      have q: "queued ?L2 g u \<longleftrightarrow> (if u = n then g = Prio_Node pr else queued ?L1 g u)" for g u
        by (rule queued_to_tail [OF kinvD(1) [OF K1] t xs]) simp
      have "queued ?L1 (Prio_Node p) u \<longleftrightarrow> queued L (Prio_Node p) u" for p u
        by (simp add: queued_def created_layout_same)
      then show "\<forall>u<n + 1. \<exists>p. queued ?L2 (Prio_Node p) u"
        using S by (auto simp: q started_up_def less_Suc_eq)
      show "\<forall>k. \<not> linked ?L2 (Suspend k) \<and> \<not> linked ?L2 (Obj_List (Sem_Obj k))"
        using S by (auto simp: started_up_def l2 l)
      show "\<forall>u\<ge>n + 1. thread_fresh ?L2 u"
        using S by (auto simp: started_up_def thread_fresh_def l2 l)
      have "?L1 (Container_Node c) \<noteq> None" if "c < 7" for c
        using S that by (auto simp: started_up_def created_layout_def Let_def put_list_def)
      then show "\<forall>c<7. ?L2 (Container_Node c) \<noteq> None" by (simp add: to_tail_other)
      show "rt_current_thread (?s3\<lparr>nxt := nx2, prv := pv2\<rparr>) = None" "rt_tick (?s3\<lparr>nxt := nx2, prv := pv2\<rparr>) = 0"
        "rt_object_container (?s3\<lparr>nxt := nx2, prv := pv2\<rparr>) = repaired_container"
        using S by (simp_all add: started_up_def made_ready_def prepared_def thread_created_def sm Let_def)
      have "plain_threads n s" using S by (simp add: started_up_def)
      then show "plain_threads (n + 1) (?s3\<lparr>nxt := nx2, prv := pv2\<rparr>)"
        by (auto simp: plain_threads_def made_ready_def prepared_def thread_created_def sm Let_def fresh_thread_def
            fresh_header_def rt_object_is_systemobject_def less_Suc_eq)
      show "\<forall>ob. length (ob_name (objects (?s3\<lparr>nxt := nx2, prv := pv2\<rparr>) ob)) = RT_NAME_MAX"
        using len by (auto simp: made_ready_def prepared_def thread_created_def sm Let_def fresh_header_def)
    qed
    then show ?case using su(1) by auto
  qed
qed

definition empty_kernel :: "node layout" where
  "empty_kernel g = (case g of
      Prio_Node p \<Rightarrow> if p < RT_THREAD_PRIORITY_MAX then Some [] else None
    | Timer_List_Node \<Rightarrow> Some []
    | Container_Node c \<Rightarrow> if c < 7 then Some [] else None
    | _ \<Rightarrow> None)"

lemma empty_kernel_Some: "empty_kernel g = Some xs \<Longrightarrow> xs = []"
  by (auto simp: empty_kernel_def split: node.splits if_splits)

lemma fold_init_links:
  "nxt (fold (\<lambda>i. rt_list_init (Prio_Node i)) ps s) g =
     (if g \<in> Prio_Node ` set ps then Some g else nxt s g) \<and>
   prv (fold (\<lambda>i. rt_list_init (Prio_Node i)) ps s) g =
     (if g \<in> Prio_Node ` set ps then Some g else prv s g)" for s :: kernel
  by (induction ps arbitrary: s) (auto simp: rt_list_init_eq)

lemma fold_init_rest:
  "fold (\<lambda>i. rt_list_init (Prio_Node i)) ps s =
     s\<lparr>nxt := nxt (fold (\<lambda>i. rt_list_init (Prio_Node i)) ps s),
       prv := prv (fold (\<lambda>i. rt_list_init (Prio_Node i)) ps s)\<rparr>" for s :: kernel
proof (induction ps arbitrary: s)
  case (Cons p ps)
  show ?case using Cons.IH [of "rt_list_init (Prio_Node p) s"] by (simp add: rt_list_init_eq)
qed simp

definition initialised :: kernel where
  "initialised = rt_system_scheduler_init (rt_system_timer_init
     (snd (rt_hw_interrupt_disable (boot_with repaired_container 7))))"

lemma initialised_links:
  "empty_kernel g = Some xs \<Longrightarrow> nxt initialised g = Some g \<and> prv initialised g = Some g"
  unfolding initialised_def rt_system_scheduler_init_def Let_def
  by (auto simp: fold_init_links empty_kernel_def rt_system_timer_init_def rt_list_init_eq hw_defs boot_with_def
      split: node.splits if_splits)

lemma initialised_fields [simp]:
  "rt_current_thread initialised = None" "rt_thread_ready_priority_group initialised = 0"
  "rt_tick initialised = 0" "rt_object_container initialised = repaired_container"
  "ob_name (objects initialised ob) = replicate RT_NAME_MAX 0"
  "sem_value (semaphores initialised k) = 0" "rt_scheduler_lock_nest initialised = 0"
  "th_cleanup (threads initialised u) = 0" "th_stat (threads initialised u) = RT_THREAD_INIT"
  unfolding initialised_def rt_system_scheduler_init_def Let_def
  by (subst fold_init_rest, simp add: rt_system_timer_init_def rt_list_init_eq hw_defs boot_with_def)+

lemma empty_kernel_not_linked:
  "\<not> linked empty_kernel (Tlist t)" "\<not> linked empty_kernel (Row r)" "\<not> linked empty_kernel (Obj_List ob)"
  "\<not> linked empty_kernel (Suspend k)"
  unfolding linked_def by (auto dest: empty_kernel_Some) (auto simp: empty_kernel_def)

lemma initialised_started: "started_up 0 initialised empty_kernel"
proof -
  have "rings (nxt initialised) (prv initialised) empty_kernel"
    unfolding rings_def using initialised_links empty_kernel_Some by fastforce
  then have "lay (nxt initialised) (prv initialised) empty_kernel"
    by (auto simp: lay_def wf_layout_def dest: empty_kernel_Some)
  moreover have nq: "\<not> queued empty_kernel g t" for g t by (auto simp: queued_def dest: empty_kernel_Some)
  moreover have "tables_ok empty_kernel" by (simp add: tables_ok_def empty_kernel_def)
  moreover have "list_ok 0 initialised empty_kernel"
    by (simp add: list_ok_def empty_kernel_def timers_sorted_def)
  moreover have "sem_ok initialised empty_kernel k" for k
    using nq by (auto simp: sem_ok_def dest: empty_kernel_Some)
  ultimately have "kinv 0 initialised empty_kernel"
    by (simp add: kinv_def group_ok_def empty_kernel_not_linked)
  then show ?thesis
    by (simp add: started_up_def plain_threads_def thread_fresh_def empty_kernel_not_linked) (simp add: empty_kernel_def)
qed

lemma readable_bytes: "readable_name (bytes str)"
  by (simp add: readable_name_def bytes_def)

lemma start_step_thread:
  assumes "started_up n s L" "unat priority < RT_THREAD_PRIORITY_MAX"
  shows "\<exists>s' L'. start_thread im n name priority tick s = Some s' \<and> started_up (n + 1) s' L'"
  unfolding start_thread_def by (rule start_step [OF assms readable_bytes])

lemma start_step_idle:
  assumes "started_up 0 s L"
  shows "\<exists>s' L'. rt_thread_idle_init im s = Some s' \<and> started_up 1 s' L'"
  using start_step [OF assms _ readable_bytes] by (simp add: rt_thread_idle_init_def)

lemma scheduler_start_running:
  assumes "started_up n s L" "0 < n"
  shows "\<exists>t s'. rt_system_scheduler_start s = Some s' \<and> highest_ready L t \<and>
    rt_current_thread s' = Some t \<and> kinv 0 s' L \<and> rt_tick s' = 0 \<and> objects s' = objects s \<and>
    plain_threads n s' \<and>
    rt_object_container s' = rt_object_container s"
proof -
  have K: "kinv 0 s L" and tick: "rt_tick s = 0" and rdy: "some_ready L"
    and pl: "plain_threads n s"
    using assms unfolding started_up_def some_ready_def by blast+
  obtain p t xs where p: "p < 32" "lowest_set (rt_thread_ready_priority_group s) p"
    and t: "L (Prio_Node p) = Some (Tlist t # xs)" "highest_ready L t"
    using highest_exists [OF K rdy] by blast
  have n: "nxt s (Prio_Node p) = Some (Tlist t)" using lay_nxt [OF kinvD(1) [OF K] t(1)] by simp
  let ?s = "rt_hw_context_switch_to t (s\<lparr>rt_current_thread := Some t\<rparr>)"
  have "rt_system_scheduler_start s = Some ?s"
    using p n by (simp add: rt_system_scheduler_start_def Let_def first_thread_def priority_table_def
        rt_ffs_minus_one [OF p(2)])
  moreover have "linked L (Tlist t)" using t(1) by (auto intro: linkedI)
  then have "kinv 0 ?s L"
    by (intro kinv_frame [OF K]) (simp_all add: rt_hw_context_switch_to_def)
  moreover have "plain_threads n ?s"
    using pl by (simp add: plain_threads_def rt_hw_context_switch_to_def rt_object_is_systemobject_def)
  ultimately show ?thesis using t(2) tick
    by (auto simp: rt_hw_context_switch_to_def)
qed

lemma main_eq:
  "main im (boot_with repaired_container 7) = do {
     s \<leftarrow> rt_thread_idle_init im initialised;
     s \<leftarrow> start_thread im 1 ''rt_flag1_thread'' 3 10 s;
     s \<leftarrow> start_thread im 2 ''rt_flag2_thread'' 3 10 s;
     s \<leftarrow> start_thread im 3 ''rt_flag3_thread'' 3 5 s;
     s \<leftarrow> start_thread im 4 ''rt_flag4_thread'' 3 2 s;
     rt_system_scheduler_start s }"
  by (simp add: main_def initialised_def split: prod.split)

lemma main_repaired:
  "\<exists>s L t. main im (boot_with repaired_container 7) = Some s \<and> kinv 0 s L \<and> rt_tick s = 0 \<and>
     rt_current_thread s = Some t \<and> highest_ready L t \<and> (\<forall>u<5. \<exists>p. queued L (Prio_Node p) u) \<and>
     rt_object_container s = repaired_container \<and> (\<forall>c<7. L (Container_Node c) \<noteq> None) \<and>
     (\<forall>ob. length (ob_name (objects s ob)) = RT_NAME_MAX) \<and>
     (\<forall>k. \<not> linked L (Suspend k) \<and> \<not> linked L (Obj_List (Sem_Obj k))) \<and> plain_threads 5 s"
proof -
  obtain s0 L0 where s0: "rt_thread_idle_init im initialised = Some s0" "started_up 1 s0 L0"
    using start_step_idle [OF initialised_started] by blast
  obtain s1 L1 where s1: "start_thread im 1 ''rt_flag1_thread'' 3 10 s0 = Some s1" "started_up 2 s1 L1"
    using start_step_thread [OF s0(2), of 3 im "''rt_flag1_thread''" 10] by (auto simp flip: numeral_2_eq_2)
  obtain s2 L2 where s2: "start_thread im 2 ''rt_flag2_thread'' 3 10 s1 = Some s2" "started_up 3 s2 L2"
    using start_step_thread [OF s1(2), of 3 im "''rt_flag2_thread''" 10] by auto
  obtain s3 L3 where s3: "start_thread im 3 ''rt_flag3_thread'' 3 5 s2 = Some s3" "started_up 4 s3 L3"
    using start_step_thread [OF s2(2), of 3 im "''rt_flag3_thread''" 5] by auto
  obtain s4 L4 where s4: "start_thread im 4 ''rt_flag4_thread'' 3 2 s3 = Some s4" "started_up 5 s4 L4"
    using start_step_thread [OF s3(2), of 3 im "''rt_flag4_thread''" 2] by auto
  obtain t s where "rt_system_scheduler_start s4 = Some s" "highest_ready L4 t" "rt_current_thread s = Some t"
    "kinv 0 s L4" "rt_tick s = 0" "objects s = objects s4" "rt_object_container s = rt_object_container s4"
    "plain_threads 5 s"
    using scheduler_start_running [OF s4(2)] by auto
  moreover have "\<forall>u<5. \<exists>p. queued L4 (Prio_Node p) u" "rt_object_container s4 = repaired_container"
    "\<forall>c<7. L4 (Container_Node c) \<noteq> None" "\<forall>ob. length (ob_name (objects s4 ob)) = RT_NAME_MAX"
    "\<forall>k. \<not> linked L4 (Suspend k) \<and> \<not> linked L4 (Obj_List (Sem_Obj k))"
    using s4(2) unfolding started_up_def by blast+
  ultimately show ?thesis unfolding main_eq s0(1) s1(1) s2(1) s3(1) s4(1) Option.bind.bind_lunit by (metis (lifting))
qed

section \<open>Start-up with the container as it is\<close>

lemma container_no_timer:
  "rt_object_container s = container_init \<Longrightarrow> rt_object_get_information RT_Object_Class_Timer s = None"
  by (simp add: rt_object_get_information_def container_init_def)

lemma rt_timer_init_unknown:
  "rt_object_container s = container_init \<Longrightarrow> rt_timer_init timer name f parameter time flag s = None"
  by (simp add: rt_timer_init_def rt_object_init_unknown_class container_no_timer)

lemma rt_object_init_container:
  "rt_object_init ob ty name s = Some s' \<Longrightarrow> rt_object_container s' = rt_object_container s"
  by (auto simp: rt_object_init_def hw_defs Let_def rt_list_insert_after_def elim!: bind_SomeE)

lemma rt_thread_init_unknown:
  assumes "rt_object_container s = container_init"
  shows "rt_thread_init t name entry parameter start ssize priority tick s = None"
proof (cases "rt_object_init (Thread_Obj t) RT_Object_Class_Thread name s")
  case (Some s1)
  then have c: "rt_object_container s1 = container_init" using assms rt_object_init_container by simp
  obtain sp m where "rt_hw_stack_init entry parameter (start + ssize - 4) (memory s1) = (sp, m)" by fastforce
  then show ?thesis
    using Some c by (simp add: rt_thread_init_def rt_list_init_eq Let_def rt_timer_init_unknown)
qed (simp add: rt_thread_init_def)

lemma main_boot_faults: "main im boot = None"
proof -
  have "rt_object_container (rt_system_scheduler_init (rt_system_timer_init s)) = rt_object_container s" for s
    unfolding rt_system_scheduler_init_def Let_def
    by (subst fold_init_rest) (simp add: rt_system_timer_init_def rt_list_init_eq)
  then show ?thesis
    by (simp add: main_def hw_defs rt_thread_idle_init_def rt_thread_init_unknown boot_def boot_with_def)
qed

section \<open>New semaphores\<close>

definition sem_created :: "nat \<Rightarrow> u8 list \<Rightarrow> u32 \<Rightarrow> u8 \<Rightarrow> kernel \<Rightarrow> kernel" where
  "sem_created k name value flag s =
     s\<lparr>objects := (objects s)(Sem_Obj k :=
         (fresh_header RT_Object_Class_Semaphore name (objects s (Sem_Obj k)))\<lparr>ob_flag := flag\<rparr>),
       semaphores := (semaphores s)(k := (semaphores s k)\<lparr>sem_value := ucast value\<rparr>)\<rparr>"

definition sem_created_layout :: "nat \<Rightarrow> nat \<Rightarrow> node layout \<Rightarrow> node layout" where
  "sem_created_layout c k L =
     (put_list (Container_Node c) (Obj_List (Sem_Obj k) # the (L (Container_Node c))) (Obj_List (Sem_Obj k)) L)
       (Suspend k \<mapsto> [])"

lemma sem_created_members:
  assumes "L (Container_Node c) \<noteq> None" "\<not> linked L (Suspend k)" "\<not> linked L (Obj_List (Sem_Obj k))"
  shows "linked (sem_created_layout c k L) m \<longleftrightarrow> linked L m \<or> m = Suspend k \<or> m = Obj_List (Sem_Obj k)"
    and "g \<noteq> Container_Node c \<Longrightarrow> g \<noteq> Suspend k \<Longrightarrow> g \<noteq> Obj_List (Sem_Obj k) \<Longrightarrow>
      sem_created_layout c k L g = L g"
    and "sem_created_layout c k L (Suspend k) = Some []"
proof -
  obtain xs where xs: "L (Container_Node c) = Some xs" using assms by auto
  let ?o = "Obj_List (Sem_Obj k)"
  let ?L1 = "put_list (Container_Node c) (?o # xs) ?o L"
  have k1: "linked ?L1 m \<longleftrightarrow> linked L m \<or> m = ?o" for m
    using linked_put_list [of L "Container_Node c" "[]" xs ?o m] xs assms by (auto simp: free_node_def)
  show "linked (sem_created_layout c k L) m \<longleftrightarrow> linked L m \<or> m = Suspend k \<or> m = Obj_List (Sem_Obj k)"
    using linked_fresh [of ?L1 "Suspend k" m] assms k1 by (auto simp: sem_created_layout_def xs)
qed (simp_all add: sem_created_layout_def)

lemma rt_sem_init_ok:
  assumes l: "lay (nxt s) (prv s) L" and c: "rt_object_get_information RT_Object_Class_Semaphore s = Some c"
    "L (Container_Node c) \<noteq> None" and fresh: "\<not> linked L (Suspend k)" "\<not> linked L (Obj_List (Sem_Obj k))"
    and nm: "length (ob_name (objects s (Sem_Obj k))) = RT_NAME_MAX" "readable_name name"
  shows "returns (rt_sem_init k name value flag s) RT_EOK (sem_created k name value flag s) (sem_created_layout c k L)"
proof -
  obtain xs where xs: "L (Container_Node c) = Some xs" using c by auto
  let ?o = "Obj_List (Sem_Obj k)"
  let ?L1 = "put_list (Container_Node c) (?o # xs) ?o L"
  have k1: "linked ?L1 m \<longleftrightarrow> linked L m \<or> m = ?o" for m
    using linked_put_list [of L "Container_Node c" "[]" xs ?o m] xs fresh by (auto simp: free_node_def)
  have o1: "succeeds (rt_object_init (Sem_Obj k) RT_Object_Class_Semaphore name s)
      (s\<lparr>objects := (objects s)(Sem_Obj k := fresh_header RT_Object_Class_Semaphore name (objects s (Sem_Obj k)))\<rparr>) ?L1"
    by (rule rt_object_init_ok [OF l c(1) xs _ nm]) (use fresh in \<open>simp add: free_node_def\<close>)
  show ?thesis
    unfolding rt_sem_init_def
  proof (rule succeeds_bind [OF o1], goal_cases)
    case (1 nx pv)
    have "free_node ?L1 (Suspend k)" using fresh k1 by (simp add: free_node_def)
    note new = lay_init [OF 1 this]
    have e: "sem_created_layout c k L = ?L1(Suspend k \<mapsto> [])" by (simp add: sem_created_layout_def xs)
    show ?case
      unfolding e rt_ipc_object_init_def rt_list_init_eq Let_def prod.case
      by (rule returns_Some, use new in \<open>simp del: fun_upd_apply\<close>) (simp_all add: sem_created_def)
  qed
qed

lemma kinv_sem_created:
  assumes K: "kinv b s L" and c: "L (Container_Node c) \<noteq> None"
    and fresh: "\<not> linked L (Suspend k)" "\<not> linked L (Obj_List (Sem_Obj k))"
    and l': "lay nx pv (sem_created_layout c k L)"
  shows "kinv b ((sem_created k name value flag s)\<lparr>nxt := nx, prv := pv\<rparr>) (sem_created_layout c k L)"
proof -
  let ?L = "sem_created_layout c k L" and ?s = "(sem_created k name value flag s)\<lparr>nxt := nx, prv := pv\<rparr>"
  note mem = sem_created_members [OF c fresh]
  have same: "?L (Prio_Node p) = L (Prio_Node p)" "j \<noteq> k \<Longrightarrow> ?L (Suspend j) = L (Suspend j)"
    "?L Timer_List_Node = L Timer_List_Node" "?L Defunct_Node = L Defunct_Node" for p j
    by (simp_all add: mem(2))
  have nq: "\<not> queued L (Suspend k) u" for u using fresh(1) by (auto simp: queued_def intro: linkedI)
  have q: "queued ?L (Prio_Node p) u \<longleftrightarrow> queued L (Prio_Node p) u"
    "queued ?L (Suspend j) u \<longleftrightarrow> queued L (Suspend j) u" for p j u
    using nq by (auto simp: queued_def same mem(3)) (cases "j = k"; auto simp: same mem(3) queued_def)+
  have a: "armed ?L r \<longleftrightarrow> armed L r" for r by (simp add: armed_def same)
  have "tables_ok ?L" using kinvD(2) [OF K] by (simp add: tables_ok_def same)
  moreover have "group_ok ?s ?L" using kinvD(3) [OF K] by (simp add: group_ok_def q sem_created_def)
  moreover have "thread_ok ?s ?L u" if "linked ?L (Tlist u)" for u
    using kinvD(4) [OF K, of u] that by (simp add: thread_ok_def q a mem(1) sem_created_def)
  moreover have "timer_ok ?s ?L r" if "linked ?L (Row r)" for r
    using kinvD(5) [OF K, of r] that by (cases r) (simp_all add: timer_ok_def a mem(1) sem_created_def)
  moreover have "list_ok b ?s ?L" using kinvD(6) [OF K] by (simp add: list_ok_def same sem_created_def)
  moreover have "sem_ok ?s ?L j" for j
  proof (cases "j = k")
    case True
    then show ?thesis using nq by (auto simp: sem_ok_def q mem(3))
  next
    case False
    then show ?thesis using kinvD(7) [OF K, of j]
      by (subst sem_ok_cong [of _ s _ _ L]) (simp_all add: same sem_created_def)
  qed
  moreover have "linked ?L (Tlist u)" if "rt_current_thread ?s = Some u" for u
    using kinvD(8) [OF K, of u] that by (simp add: mem(1) sem_created_def)
  moreover have "lay (nxt ?s) (prv ?s) ?L" using l' by simp
  moreover have "unat (rt_tick ?s - b) \<le> 1" using kinvD(9) [OF K] by (simp add: sem_created_def)
  ultimately show ?thesis unfolding kinv_def by blast
qed

end
