(* ===== verification/System.thy ===== *)
theory System
  imports Boot
begin

text \<open>
  The kernel at work: a thread runs and calls the kernel's services, the clock interrupt comes at any
  moment between two calls. The state after each call is one the next may start from, so the system
  is a step relation on states; what is shown of it is that no step is undefined and that the
  invariant holds for ever. The services run with interrupts locked where the lists change, so
  an interrupt inside a service is one before or after it.
\<close>

section \<open>Services and their contract\<close>

datatype service =
    Delay u32
  | Yield
  | Suspend_Thread nat
  | Resume_Thread nat
  | Startup_Thread nat
  | Detach_Thread nat
  | Start_Timer nat
  | Stop_Timer nat
  | Take_Sem nat u32
  | Release_Sem nat
  | Reset_Sem nat u32
  | Enter_Critical
  | Exit_Critical
  | Idle_Loop

fun serve :: "service \<Rightarrow> kernel \<Rightarrow> kernel option" where
  "serve (Delay n) s = map_option snd (rt_thread_delay n s)"
| "serve Yield s = map_option snd (rt_thread_yield s)"
| "serve (Suspend_Thread t) s = map_option snd (rt_thread_suspend t s)"
| "serve (Resume_Thread t) s = map_option snd (rt_thread_resume t s)"
| "serve (Startup_Thread t) s = map_option snd (rt_thread_startup t s)"
| "serve (Detach_Thread t) s = map_option snd (rt_thread_detach t s)"
| "serve (Start_Timer j) s = map_option snd (rt_timer_start (Sys_Timer j) s)"
| "serve (Stop_Timer j) s = map_option snd (rt_timer_stop (Sys_Timer j) s)"
| "serve (Take_Sem k time) s = map_option snd (rt_sem_take k time s)"
| "serve (Release_Sem k) s = map_option snd (rt_sem_release k s)"
| "serve (Reset_Sem k v) s = map_option snd (rt_sem_control k RT_IPC_CMD_RESET v s)"
| "serve Enter_Critical s = Some (rt_enter_critical s)"
| "serve Exit_Critical s = rt_exit_critical s"
| "serve Idle_Loop s = Some (idle_body s)"

text \<open>
  What a program has to keep to: it names only threads, timers and semaphores whose nodes are in \<open>N\<close>,
  those that have been initialised. The idle thread \<open>i\<close> is never stopped and never waits. A thread that
  waits is ready before, which one that has suspended itself and runs on is not, and no wait is longer
  than the comparison of ticks allows. A thread is started or removed once.
\<close>

definition may_wait :: "nat \<Rightarrow> kernel \<Rightarrow> bool" where
  "may_wait i s \<longleftrightarrow> (case rt_current_thread s of None \<Rightarrow> False
     | Some t \<Rightarrow> t \<noteq> i \<and> th_stat (threads s t) = RT_THREAD_READY)"

fun permitted :: "node set \<Rightarrow> nat \<Rightarrow> service \<Rightarrow> kernel \<Rightarrow> bool" where
  "permitted N i (Delay n) s \<longleftrightarrow> may_wait i s \<and> 0 < n \<and> unat n \<le> longest_timeout"
| "permitted N i (Suspend_Thread t) s \<longleftrightarrow> Tlist t \<in> N \<and> t \<noteq> i"
| "permitted N i (Resume_Thread t) s \<longleftrightarrow> Tlist t \<in> N"
| "permitted N i (Startup_Thread t) s \<longleftrightarrow> Tlist t \<in> N \<and> th_stat (threads s t) = RT_THREAD_INIT"
| "permitted N i (Detach_Thread t) s \<longleftrightarrow> Tlist t \<in> N \<and> t \<noteq> i \<and>
     rt_object_is_systemobject (Thread_Obj t) s \<and> th_cleanup (threads s t) = 0"
| "permitted N i (Start_Timer j) s \<longleftrightarrow> Row (Sys_Timer j) \<in> N"
| "permitted N i (Stop_Timer j) s \<longleftrightarrow> Row (Sys_Timer j) \<in> N"
| "permitted N i (Take_Sem k time) s \<longleftrightarrow> Suspend k \<in> N \<and>
     (sem_value (semaphores s k) = 0 \<longrightarrow> time = 0 \<or>
        may_wait i s \<and> ob_flag (objects s (Sem_Obj k)) \<in> {RT_IPC_FLAG_FIFO, RT_IPC_FLAG_PRIO} \<and>
        (0 < sint time \<longrightarrow> unat time \<le> longest_timeout))"
| "permitted N i (Release_Sem k) s \<longleftrightarrow> Suspend k \<in> N"
| "permitted N i (Reset_Sem k v) s \<longleftrightarrow> Suspend k \<in> N"
| "permitted N i _ s \<longleftrightarrow> True"

inductive kernel_step ::
  "node set \<Rightarrow> nat \<Rightarrow> (nat \<Rightarrow> void_ptr \<Rightarrow> kernel \<Rightarrow> kernel option) \<Rightarrow> kernel \<Rightarrow> kernel \<Rightarrow> bool"
  for N i user where
  Clock: "SysTick_Handler user s = Some s' \<Longrightarrow> kernel_step N i user s s'"
| Service: "permitted N i c s \<Longrightarrow> serve c s = Some s' \<Longrightarrow> kernel_step N i user s s'"

section \<open>The invariant of the system\<close>

definition system_ok :: "node set \<Rightarrow> nat \<Rightarrow> kernel \<Rightarrow> bool" where
  "system_ok N i s \<longleftrightarrow> rt_current_thread s \<noteq> None \<and> Tlist i \<in> N \<and> th_stat (threads s i) = RT_THREAD_READY \<and>
     (\<exists>L. kinv (rt_tick s) s L \<and> (\<forall>n \<in> N. linked L n))"

text \<open>What a service has to do to keep it\<close>

definition proceeds :: "nat \<Rightarrow> kernel \<Rightarrow> node layout \<Rightarrow> kernel option \<Rightarrow> bool" where
  "proceeds i s L m \<longleftrightarrow> (\<exists>s' L'. m = Some s' \<and> kinv (rt_tick s') s' L' \<and> rt_current_thread s' \<noteq> None \<and>
     (\<forall>n. linked L n \<longrightarrow> linked L' n) \<and> th_stat (threads s' i) = RT_THREAD_READY)"

lemma proceedsI:
  assumes "m = Some s'" "kinv (rt_tick s') s' L'" "rt_current_thread s' \<noteq> None" "\<And>n. linked L n \<Longrightarrow> linked L' n"
    and "th_stat (threads s' i) = RT_THREAD_READY"
  shows "proceeds i s L m"
  using assms unfolding proceeds_def by blast

lemma proceeds_keeps:
  assumes "keeps b m r s1 L1" "rt_tick s1 = b" "rt_current_thread s1 \<noteq> None" "\<And>n. linked L n \<Longrightarrow> linked L1 n"
    and "th_stat (threads s1 i) = RT_THREAD_READY"
  shows "proceeds i s L (map_option snd m)"
proof -
  obtain nx pv where m: "m = Some (r, s1\<lparr>nxt := nx, prv := pv\<rparr>)" "kinv b (s1\<lparr>nxt := nx, prv := pv\<rparr>) L1"
    using assms(1) by (auto simp: keeps_def)
  show ?thesis by (rule proceedsI [of _ "s1\<lparr>nxt := nx, prv := pv\<rparr>" L1]) (use m assms(2-5) in auto)
qed

lemma system_proceeds:
  assumes "system_ok N i s" and "\<And>L. kinv (rt_tick s) s L \<Longrightarrow> \<forall>n \<in> N. linked L n \<Longrightarrow> proceeds i s L m"
  shows "\<exists>s'. m = Some s' \<and> system_ok N i s'"
proof -
  obtain L where L: "kinv (rt_tick s) s L" "\<forall>n \<in> N. linked L n" using assms(1) by (auto simp: system_ok_def)
  then obtain s' L' where "m = Some s'" "kinv (rt_tick s') s' L'" "rt_current_thread s' \<noteq> None"
    "\<forall>n. linked L n \<longrightarrow> linked L' n" "th_stat (threads s' i) = RT_THREAD_READY"
    using assms(2) unfolding proceeds_def by blast
  then show ?thesis using L(2) assms(1) unfolding system_ok_def by blast
qed

text \<open>The idle thread is ready, so there is always something to switch to.\<close>

lemma ready_queued:
  "kinv b s L \<Longrightarrow> linked L (Tlist i) \<Longrightarrow> th_stat (threads s i) = RT_THREAD_READY \<Longrightarrow>
   queued L (Prio_Node (prio_of i s)) i"
  using kinvD(4) by (auto simp: thread_ok_def)

lemma idle_ready:
  assumes "kinv b s L" "linked L (Tlist i)" "th_stat (threads s i) = RT_THREAD_READY"
  shows "some_ready L" and "t \<noteq> i \<Longrightarrow> other_ready L t"
  using ready_queued [OF assms] by (auto simp: some_ready_def other_ready_def)

lemma linked_semaphore:
  assumes "lay nx pv L" "linked L (Suspend k)"
  shows "\<exists>ts. L (Suspend k) = Some (map Tlist ts)"
proof -
  obtain h xs where h: "L h = Some xs" "Suspend k \<in> set (h # xs)" using assms(2) by (auto simp: linked_def)
  have "Suspend k \<notin> set xs"
  proof
    assume "Suspend k \<in> set xs"
    then have "may_hold h (Suspend k)" using lay_holds [OF assms(1) h(1)] by blast
    then show False by (cases h) auto
  qed
  then have "h = Suspend k" using h(2) by auto
  then show ?thesis using thread_list [OF assms(1) h(1)] h(1) by blast
qed

text \<open>Timeout functions that do nothing\<close>

lemma chain_unique:
  "chain nx pv (a # xs @ [h]) \<Longrightarrow> chain nx pv (a # ys @ [h]) \<Longrightarrow> h \<notin> set xs \<Longrightarrow> h \<notin> set ys \<Longrightarrow> xs = ys"
proof (induction xs arbitrary: a ys)
  case Nil
  then show ?case by (cases ys) auto
next
  case (Cons x xs)
  then show ?case by (cases ys) auto
qed

lemma armed_unique:
  assumes "kinv b s L" "kinv b s L'" "armed L r"
  shows "armed L' r"
proof -
  obtain xs ys where xs: "L Timer_List_Node = Some xs" "L' Timer_List_Node = Some ys"
    using kinvD(6) [OF assms(1)] kinvD(6) [OF assms(2)] by (auto simp: list_ok_def)
  have "ring (nxt s) (prv s) Timer_List_Node xs" "ring (nxt s) (prv s) Timer_List_Node ys"
    using ringsD [OF lay_rings [OF kinvD(1) [OF assms(1)]] xs(1)]
      ringsD [OF lay_rings [OF kinvD(1) [OF assms(2)]] xs(2)] by simp_all
  then have "xs = ys" unfolding ring_def by (auto intro: chain_unique)
  then show ?thesis using assms(3) xs by (simp add: armed_def)
qed

lemma spares_nothing: "spares (\<lambda>_ _ s. Some s) i"
  by (auto simp: spares_def sleeps_def dest: armed_unique)

section \<open>The services keep it\<close>

lemma delay_proceeds:
  assumes K: "kinv (rt_tick s) s L" and w: "may_wait i s" and n: "0 < n" "unat n \<le> longest_timeout"
    and i: "linked L (Tlist i)" "th_stat (threads s i) = RT_THREAD_READY"
  shows "proceeds i s L (map_option snd (rt_thread_delay n s))"
proof -
  obtain t where t: "rt_current_thread s = Some t" "t \<noteq> i" "th_stat (threads s t) = RT_THREAD_READY"
    using w by (auto simp: may_wait_def split: option.splits)
  obtain s' L' where "rt_thread_delay n s = Some (RT_EOK, s')" "kinv (rt_tick s) s' L'" "rt_current_thread s' \<noteq> None"
    "rt_tick s' = rt_tick s" "\<forall>n. linked L' n \<longleftrightarrow> linked L n" "\<forall>u. u \<noteq> t \<longrightarrow> th_stat (threads s' u) = th_stat (threads s u)"
    using rt_thread_delay_sleeps [OF K t(1,3) idle_ready(2) [OF K i t(2)] n(2,1)] by blast
  then show ?thesis using t(2) i by (intro proceedsI [of _ s' L']) auto
qed

lemma yield_proceeds:
  assumes K: "kinv (rt_tick s) s L" and cur: "rt_current_thread s \<noteq> None" and i: "th_stat (threads s i) = RT_THREAD_READY"
  shows "proceeds i s L (map_option snd (rt_thread_yield s))"
proof -
  obtain s' L' where y: "rt_thread_yield s = Some (RT_EOK, s')" "kinv (rt_tick s) s' L'" "rt_current_thread s' \<noteq> None"
    "rt_tick s' = rt_tick s" "carries (\<lambda>_ _ s. Some s) s L s' L'"
    using rt_thread_yield_total [OF K cur] by blast
  then show ?thesis using spares_nothing [of i] i by (intro proceedsI [of _ s' L']) (auto simp: carries_def)
qed

lemma suspend_proceeds:
  assumes K: "kinv (rt_tick s) s L" and cur: "rt_current_thread s \<noteq> None"
    and i: "th_stat (threads s i) = RT_THREAD_READY" and t: "linked L (Tlist t)" "t \<noteq> i"
  shows "proceeds i s L (map_option snd (rt_thread_suspend t s))"
proof (cases "th_stat (threads s t) = RT_THREAD_READY")
  case True
  have row: "linked L (Row (Thread_Timer t))" using kinvD(4) [OF K t(1)] by (simp add: thread_ok_def)
  obtain xs where xs: "L (Prio_Node (prio_of t s)) = Some xs" using own_list [OF K t(1)] by blast
  from rt_thread_suspend_kinv [OF K t(1) True xs] show ?thesis
    by (rule proceeds_keeps) (use linked_set_aside [OF kinvD(1) [OF K] t(1) row] cur i t in auto)
next
  case False
  then have "thread_state t s \<noteq> RT_THREAD_READY" using kinvD(4) [OF K t(1)] by (auto simp: thread_ok_def thread_state_def)
  then show ?thesis using K cur i by (intro proceedsI [of _ s L]) (simp_all add: rt_thread_suspend_not_ready)
qed

lemma linked_readied:
  assumes K: "kinv b s L" and t: "linked L (Tlist t)"
  shows "linked (to_tail (Prio_Node (prio_of t s)) (Tlist t) L) n \<longleftrightarrow> linked L n"
proof -
  obtain xs where "L (Prio_Node (prio_of t s)) = Some xs" using own_list [OF K t] by blast
  then show ?thesis by (intro linked_to_tail [OF kinvD(1) [OF K] _ t]) simp_all
qed

lemma resume_proceeds:
  assumes K: "kinv (rt_tick s) s L" and cur: "rt_current_thread s \<noteq> None"
    and i: "th_stat (threads s i) = RT_THREAD_READY" and t: "linked L (Tlist t)"
  shows "proceeds i s L (map_option snd (rt_thread_resume t s))"
proof (cases "th_stat (threads s t) = RT_THREAD_SUSPEND")
  case True
  from rt_thread_resume_kinv [OF K t True] show ?thesis
    by (rule proceeds_keeps) (use linked_readied [OF K t] cur i in auto)
next
  case False
  then have "thread_state t s \<noteq> RT_THREAD_SUSPEND" using kinvD(4) [OF K t] by (auto simp: thread_ok_def thread_state_def)
  then show ?thesis using K cur i by (intro proceedsI [of _ s L]) (simp_all add: rt_thread_resume_not_suspended)
qed

lemma startup_proceeds:
  assumes K: "kinv (rt_tick s) s L" and cur: "rt_current_thread s \<noteq> None"
    and i: "th_stat (threads s i) = RT_THREAD_READY" and t: "linked L (Tlist t)" "th_stat (threads s t) = RT_THREAD_INIT"
  shows "proceeds i s L (map_option snd (rt_thread_startup t s))"
proof -
  obtain to where "keeps (rt_tick s) (rt_thread_startup t s) RT_EOK
      (if rt_current_thread s = None then made_ready t (prepared t s) else switched to (made_ready t (prepared t s)))
      (to_tail (Prio_Node (prio_of t s)) (Tlist t) L)"
    using rt_thread_startup_kinv [OF K t(1)] t(2) by auto
  then show ?thesis
    by (rule proceeds_keeps) (use linked_readied [OF K t(1)] cur i in \<open>auto simp: prepared_def\<close>)
qed

lemma detach_proceeds:
  assumes K: "kinv (rt_tick s) s L" and cur: "rt_current_thread s \<noteq> None"
    and i: "th_stat (threads s i) = RT_THREAD_READY" and t: "linked L (Tlist t)" "t \<noteq> i"
    and st: "rt_object_is_systemobject (Thread_Obj t) s" "th_cleanup (threads s t) = 0"
  shows "proceeds i s L (map_option snd (rt_thread_detach t s))"
proof -
  obtain xs where xs: "L (Prio_Node (prio_of t s)) = Some xs" using own_list [OF K t(1)] by blast
  have "linked (detached_layout t L) n" if "linked L n" for n
    using that wf_layout_unlink lay_wf [OF kinvD(1) [OF K]] by (auto simp: detached_layout_def intro!: linked_unlinkI)
  note l = this
  from rt_thread_detach_kinv [OF K t(1) xs st] show ?thesis
    by (rule proceeds_keeps) (use l cur i t in \<open>auto simp: detached_def\<close>)
qed

lemma start_timer_proceeds:
  assumes K: "kinv (rt_tick s) s L" and cur: "rt_current_thread s \<noteq> None"
    and i: "th_stat (threads s i) = RT_THREAD_READY" and r: "linked L (Row (Sys_Timer j))"
  shows "proceeds i s L (map_option snd (rt_timer_start (Sys_Timer j) s))"
proof -
  have "keeps (rt_tick s) (rt_timer_start (Sys_Timer j) s) RT_EOK (timer_started (Sys_Timer j) s)
      (started_layout (rt_tick s) (Sys_Timer j) s L)"
    by (rule rt_timer_start_kinv [OF K r]) simp
  then show ?thesis by (rule proceeds_keeps) (use started_layout_members(3) [OF K r] cur i in auto)
qed

lemma stop_timer_proceeds:
  assumes K: "kinv (rt_tick s) s L" and cur: "rt_current_thread s \<noteq> None"
    and i: "th_stat (threads s i) = RT_THREAD_READY" and r: "linked L (Row (Sys_Timer j))"
  shows "proceeds i s L (map_option snd (rt_timer_stop (Sys_Timer j) s))"
proof (cases "ob_flag (objects s (Timer_Obj (Sys_Timer j))) AND RT_TIMER_FLAG_ACTIVATED = 0")
  case True
  then show ?thesis using K cur i by (intro proceedsI [of _ s L]) (simp_all add: rt_timer_stop_inactive)
next
  case False
  obtain nx pv where s: "rt_timer_stop (Sys_Timer j) s = Some (RT_EOK, (timer_stopped (Sys_Timer j) s)\<lparr>nxt := nx, prv := pv\<rparr>)"
    "lay nx pv (unlink (Row (Sys_Timer j)) L)"
    using rt_timer_stop_active [OF kinvD(1) [OF K] r False] by (auto simp: returns_def)
  have "keeps (rt_tick s) (rt_timer_stop (Sys_Timer j) s) RT_EOK (timer_stopped (Sys_Timer j) s) (unlink (Row (Sys_Timer j)) L)"
    unfolding keeps_def using s(1) kinv_timer_stopped [OF K r s(2)] by blast
  then show ?thesis
    by (rule proceeds_keeps) (use linked_unlink_leaf [OF kinvD(1) [OF K] _ r] cur i in \<open>auto simp: timer_stopped_def\<close>)
qed


lemma linked_waiting:
  assumes K: "kinv b s L" and t: "linked L (Tlist t)" and st: "th_stat (threads s t) = RT_THREAD_READY"
    and k: "L (Suspend k) = Some (map Tlist ts)"
  shows "linked (waiting_layout flag k t s ts L) m \<longleftrightarrow> linked L m"
proof -
  have row: "linked L (Row (Thread_Timer t))" using kinvD(4) [OF K t] by (simp add: thread_ok_def)
  have k1: "set_aside t L (Suspend k) = Some (map Tlist ts)" by (rule set_aside_list [OF K t st k])
  obtain us vs where uv: "ts = us @ vs" "wait_insert flag t s ts = us @ t # vs"
    using wait_insert_split [where ts = ts and flag = flag and t = t and s = s] by blast
  have "free_node (set_aside t L) (Tlist t)" by (simp add: set_aside_lone)
  then show ?thesis
    using linked_put_list [of "set_aside t L" "Suspend k" "map Tlist us" "map Tlist vs" "Tlist t" m] k1 uv
      linked_set_aside [OF kinvD(1) [OF K] t row] t by (auto simp: waiting_layout_def)
qed

lemma linked_waiting_for:
  assumes K: "kinv b s L" and t: "linked L (Tlist t)" and st: "th_stat (threads s t) = RT_THREAD_READY"
    and k: "L (Suspend k) = Some (map Tlist ts)" and v: "sem_value (semaphores s k) = 0"
    and fl: "ob_flag (objects s (Sem_Obj k)) \<in> {RT_IPC_FLAG_FIFO, RT_IPC_FLAG_PRIO}"
    and tm: "0 < sint time \<longrightarrow> unat time \<le> longest_timeout"
  shows "linked (waiting_for b k t time s ts L) m \<longleftrightarrow> linked L m"
proof -
  let ?f = "ob_flag (objects s (Sem_Obj k))"
  let ?L = "waiting_layout ?f k t s ts L"
  have l: "linked ?L n \<longleftrightarrow> linked L n" for n by (rule linked_waiting [OF K t st k])
  obtain xs where xs: "L (Prio_Node (prio_of t s)) = Some xs" using own_list [OF K t] by blast
  have "keeps b (rt_ipc_list_suspend (Suspend k) t ?f s) RT_EOK (suspended t (remove1 (Tlist t) xs = []) s) ?L"
    by (rule rt_ipc_list_suspend_kinv [OF K t st k v _ _ xs]) (use fl in auto)
  then obtain nx pv where K1: "kinv b ((suspended t (remove1 (Tlist t) xs = []) s)\<lparr>nxt := nx, prv := pv\<rparr>) ?L"
    by (auto simp: keeps_def)
  show ?thesis
  proof (cases "0 < sint time")
    case True
    then have "0 < time" "unat time \<le> longest_timeout" using tm by (auto simp: word_greater_zero_iff)
    from asleep_members(3) [OF K1 _ this(2,1), of t m]
    have "linked (asleep_layout b t time s ?L) m \<longleftrightarrow> linked ?L m"
      using l t by (simp add: asleep_layout_def started_layout_def rearmed_def)
    then show ?thesis using True l by (simp add: waiting_for_def)
  next
    case False
    then show ?thesis using l by (simp add: waiting_for_def)
  qed
qed

lemma take_proceeds:
  assumes K: "kinv (rt_tick s) s L" and cur: "rt_current_thread s \<noteq> None" and k: "linked L (Suspend k)"
    and i: "linked L (Tlist i)" "th_stat (threads s i) = RT_THREAD_READY"
    and p: "permitted N i (Take_Sem k time) s"
  shows "proceeds i s L (map_option snd (rt_sem_take k time s))"
proof -
  consider "0 < sem_value (semaphores s k)" | "sem_value (semaphores s k) = 0" "time = 0"
    | "sem_value (semaphores s k) = 0" "time \<noteq> 0" by (metis word_gt_0)
  then show ?thesis
  proof cases
    case 1
    show ?thesis unfolding rt_sem_take_available [OF 1]
      by (rule proceedsI [of _ "upd_sem k (\<lambda>sm. sm\<lparr>sem_value := sem_value sm - 1\<rparr>) s" L])
         (use rt_sem_take_available_kinv [OF K 1] cur i in simp_all)
  next
    case 2
    show ?thesis unfolding 2(2) rt_sem_take_empty [OF 2(1)] by (rule proceedsI [OF _ K cur]) (use i in auto)
  next
    case 3
    then have w: "may_wait i s" "ob_flag (objects s (Sem_Obj k)) \<in> {RT_IPC_FLAG_FIFO, RT_IPC_FLAG_PRIO}"
      "0 < sint time \<longrightarrow> unat time \<le> longest_timeout" using p by auto
    then obtain t where t: "rt_current_thread s = Some t" "t \<noteq> i" "th_stat (threads s t) = RT_THREAD_READY"
      by (auto simp: may_wait_def split: option.splits)
    have lt: "linked L (Tlist t)" by (rule kinvD(8) [OF K t(1)])
    obtain ts where ts: "L (Suspend k) = Some (map Tlist ts)" using linked_semaphore [OF kinvD(1) [OF K] k] by blast
    obtain xs where xs: "L (Prio_Node (prio_of t s)) = Some xs" using own_list [OF K lt] by blast
    obtain to where "keeps (rt_tick s) (rt_sem_take k time s) (Take_Waiting t)
        (switched to (waiting t time (remove1 (Tlist t) xs = []) s)) (waiting_for (rt_tick s) k t time s ts L)"
      using rt_sem_take_waits [OF K t(1,3) idle_ready(2) [OF K i t(2)] ts 3(1) w(2) 3(2) w(3) xs] by blast
    then show ?thesis
      by (rule proceeds_keeps)
         (use linked_waiting_for [OF K lt t(3) ts 3(1) w(2,3)] t i in \<open>auto simp: waiting_def asleep_def Let_def\<close>)
  qed
qed

lemma release_proceeds:
  assumes K: "kinv (rt_tick s) s L" and cur: "rt_current_thread s \<noteq> None" and k: "linked L (Suspend k)"
    and i: "th_stat (threads s i) = RT_THREAD_READY"
  shows "proceeds i s L (map_option snd (rt_sem_release k s))"
proof -
  obtain ts where ts: "L (Suspend k) = Some (map Tlist ts)" using linked_semaphore [OF kinvD(1) [OF K] k] by blast
  show ?thesis
  proof (cases ts)
    case Nil
    then have e: "L (Suspend k) = Some []" using ts by simp
    show ?thesis unfolding rt_sem_release_no_waiter [OF kinvD(1) [OF K] e]
      by (rule proceedsI [of _ "upd_sem k (\<lambda>sm. sm\<lparr>sem_value := sem_value sm + 1\<rparr>) s" L])
         (use rt_sem_release_no_waiter_kinv [OF K e] cur i in simp_all)
  next
    case (Cons t us)
    then have h: "L (Suspend k) = Some (Tlist t # map Tlist us)" using ts by simp
    show ?thesis using rt_sem_release_wakes [OF K h cur] linked_readied [OF K waiter_thread(1) [OF K h]] cur i
      by (auto intro: proceeds_keeps)
  qed
qed

lemma fold_wake_ready:
  "th_stat (threads s i) = RT_THREAD_READY \<Longrightarrow> th_stat (threads (fst (fold wake ts (s, L))) i) = RT_THREAD_READY"
  "rt_tick (fst (fold wake ts (s, L))) = rt_tick s"
  by (induction ts arbitrary: s L) (simp_all add: wake_def)

lemma reset_proceeds:
  assumes K: "kinv (rt_tick s) s L" and cur: "rt_current_thread s \<noteq> None" and k: "linked L (Suspend k)"
    and i: "linked L (Tlist i)" "th_stat (threads s i) = RT_THREAD_READY"
  shows "proceeds i s L (map_option snd (rt_sem_control k RT_IPC_CMD_RESET v s))"
proof -
  obtain ts where ts: "L (Suspend k) = Some (map Tlist ts)" using linked_semaphore [OF kinvD(1) [OF K] k] by blast
  from rt_sem_control_reset [OF K ts idle_ready(1) [OF K i] cur, of v] show ?thesis
    using wake_members [OF K ts refl] cur i(2) fold_wake_ready by (auto intro!: proceeds_keeps)
qed

lemma kinv_lock_nest [simp]: "kinv b (s\<lparr>rt_scheduler_lock_nest := x\<rparr>) L = kinv b s L"
  by (rule iffI; erule kinv_frame) auto

lemma enter_critical_proceeds:
  assumes "kinv (rt_tick s) s L" "rt_current_thread s \<noteq> None" "th_stat (threads s i) = RT_THREAD_READY"
  shows "proceeds i s L (Some (rt_enter_critical s))"
  by (rule proceedsI [OF refl, of _ L]) (use assms in \<open>auto simp: rt_enter_critical_def hw_defs\<close>)

lemma exit_critical_proceeds:
  assumes K: "kinv (rt_tick s) s L" and cur: "rt_current_thread s \<noteq> None"
    and i: "linked L (Tlist i)" "th_stat (threads s i) = RT_THREAD_READY"
  shows "proceeds i s L (rt_exit_critical s)"
proof (cases "sint (rt_scheduler_lock_nest s - 1) \<le> 0")
  case True
  let ?s = "s\<lparr>rt_scheduler_lock_nest := 0\<rparr>"
  have K0: "kinv (rt_tick s) ?s L" using K by simp
  obtain to where "rt_schedule ?s = Some (switched to ?s)" "kinv (rt_tick s) (switched to ?s) L"
    using rt_schedule_kinv [OF K0 idle_ready(1) [OF K i]] cur by auto
  then show ?thesis using True cur i
    by (intro proceedsI [of _ "switched to ?s" L]) (simp_all add: rt_exit_critical_def hw_defs)
next
  case False
  then show ?thesis using K cur i
    by (intro proceedsI [OF _, of _ "s\<lparr>rt_scheduler_lock_nest := rt_scheduler_lock_nest s - 1\<rparr>" L])
       (simp_all add: rt_exit_critical_def hw_defs)
qed

lemma idle_loop_proceeds:
  assumes "kinv (rt_tick s) s L" "rt_current_thread s \<noteq> None" "th_stat (threads s i) = RT_THREAD_READY"
  shows "proceeds i s L (Some (idle_body s))"
proof (rule proceedsI [OF refl, of _ L])
  show "kinv (rt_tick (idle_body s)) (idle_body s) L"
    by (rule kinv_frame [of "rt_tick (idle_body s)" s]) (use assms in \<open>auto simp: idle_body_def\<close>)
qed (use assms in \<open>auto simp: idle_body_def\<close>)

text \<open>Every service that is permitted returns, in a state that is in order.\<close>

lemma serve_proceeds:
  assumes K: "kinv (rt_tick s) s L" and N: "\<forall>n \<in> N. linked L n" and cur: "rt_current_thread s \<noteq> None"
    and i: "linked L (Tlist i)" "th_stat (threads s i) = RT_THREAD_READY" and p: "permitted N i c s"
  shows "proceeds i s L (serve c s)"
proof (cases c)
  case (Take_Sem k time)
  then show ?thesis using take_proceeds [OF K cur _ i] p N by auto
qed (use p N delay_proceeds [OF K _ _ _ i] yield_proceeds [OF K cur i(2)] suspend_proceeds [OF K cur i(2)]
    resume_proceeds [OF K cur i(2)] startup_proceeds [OF K cur i(2)] detach_proceeds [OF K cur i(2)]
    start_timer_proceeds [OF K cur i(2)] stop_timer_proceeds [OF K cur i(2)] release_proceeds [OF K cur _ i(2)]
    reset_proceeds [OF K cur _ i] enter_critical_proceeds [OF K cur i(2)] exit_critical_proceeds [OF K cur i]
    idle_loop_proceeds [OF K cur i(2)] in auto)

lemma clock_proceeds:
  assumes K: "kinv (rt_tick s) s L" and cur: "rt_current_thread s \<noteq> None" and i: "th_stat (threads s i) = RT_THREAD_READY"
    and u: "well_behaved user" "spares user i"
  shows "proceeds i s L (SysTick_Handler user s)"
proof -
  obtain s' L' where s': "SysTick_Handler user s = Some s'" "kinv (rt_tick s') s' L'" "rt_current_thread s' \<noteq> None"
    "carries user (s\<lparr>rt_tick := rt_tick s + 1\<rparr>) L s' L'"
    using SysTick_Handler_kinv [OF K cur u(1)] by blast
  then have "\<forall>n. linked L n \<longrightarrow> linked L' n" "th_stat (threads s' i) = RT_THREAD_READY"
    using i u(2) by (auto simp: carries_def)
  then show ?thesis using s' by (intro proceedsI [of _ s' L']) auto
qed

section \<open>The system\<close>

lemma system_serves:
  assumes "system_ok N i s" "permitted N i c s"
  shows "\<exists>s'. serve c s = Some s' \<and> system_ok N i s'"
  using assms(1) by (rule system_proceeds) (use assms serve_proceeds in \<open>auto simp: system_ok_def\<close>)

lemma system_ticks:
  assumes "system_ok N i s" "well_behaved user" "spares user i"
  shows "\<exists>s'. SysTick_Handler user s = Some s' \<and> system_ok N i s'"
  using assms(1) by (rule system_proceeds) (use assms clock_proceeds in \<open>auto simp: system_ok_def\<close>)

inductive_cases kernel_stepE [elim]: "kernel_step N i user s s'"

lemma kernel_step_ok:
  assumes "kernel_step N i user s s'" "system_ok N i s" "well_behaved user" "spares user i"
  shows "system_ok N i s'"
  using assms by cases (auto dest: system_serves system_ticks)

lemma kernel_reachable_ok:
  assumes "(kernel_step N i user)\<^sup>*\<^sup>* s s'" "system_ok N i s" "well_behaved user" "spares user i"
  shows "system_ok N i s'"
  using assms(1) by (induction rule: rtranclp_induct) (use assms(2-4) kernel_step_ok in auto)

lemma main_system_ok:
  "\<exists>s t. main im (boot_with repaired_container 7) = Some s \<and> system_ok (Tlist ` {0..4}) 0 s \<and>
     rt_current_thread s = Some t \<and> th_stat (threads s t) = RT_THREAD_READY \<and> plain_threads 5 s"
proof -
  obtain s L t where m: "main im (boot_with repaired_container 7) = Some s" "kinv 0 s L" "rt_tick s = 0"
    "rt_current_thread s = Some t" "\<forall>u<5. \<exists>p. queued L (Prio_Node p) u" "highest_ready L t" "plain_threads 5 s"
    using main_repaired [of im] by blast
  have l: "linked L (Tlist u)" if "u < 5" for u using m(5) that by (fastforce simp: queued_def intro: linkedI)
  obtain p where "queued L (Prio_Node p) 0" using m(5) by force
  then have "th_stat (threads s 0) = RT_THREAD_READY"
    using kinvD(4) [OF m(2) l, of 0] by (simp add: thread_ok_def)
  then show ?thesis using m l highest_ready_stat(1) [OF m(2,6)] by (intro exI [of _ s] exI [of _ t]) (auto simp: system_ok_def)
qed

section \<open>Sleeping and waking\<close>

text \<open>The clock runs for \<open>n\<close> ticks while no thread calls the kernel.\<close>

primrec ticks :: "(nat \<Rightarrow> void_ptr \<Rightarrow> kernel \<Rightarrow> kernel option) \<Rightarrow> nat \<Rightarrow> kernel \<Rightarrow> kernel option" where
  "ticks user 0 s = Some s"
| "ticks user (Suc n) s = Option.bind (ticks user n s) (SysTick_Handler user)"

text \<open>One tick: a thread sleeps on until its time has come.\<close>

lemma tick_sleeps:
  assumes K: "kinv (rt_tick s) s L" and cur: "rt_current_thread s \<noteq> None" and wb: "well_behaved user"
    and sp: "spares user t" and sl: "sleeps t T s L" and left: "unat (T - rt_tick s) = Suc n"
  shows "\<exists>s' L'. SysTick_Handler user s = Some s' \<and> kinv (rt_tick s') s' L' \<and> rt_current_thread s' \<noteq> None \<and>
    rt_tick s' = rt_tick s + 1 \<and> unat (T - rt_tick s') = n \<and>
    (if n = 0 then th_stat (threads s' t) = RT_THREAD_READY else sleeps t T s' L')"
proof -
  obtain s' L' where s': "SysTick_Handler user s = Some s'" "kinv (rt_tick s') s' L'" "rt_current_thread s' \<noteq> None"
    "rt_tick s' = rt_tick s + 1" "carries user (s\<lparr>rt_tick := rt_tick s + 1\<rparr>) L s' L'"
    "\<forall>r. armed L' r \<longrightarrow> 0 < due (rt_tick s') (timers s') r"
    using SysTick_Handler_kinv [OF K cur wb] by blast
  let ?s1 = "s\<lparr>rt_tick := rt_tick s + 1\<rparr>"
  define d where "d = T - rt_tick s"
  have d: "unat d = Suc n" "unat d < unat RT_TICK_HALF"
    using left list_ok_due [OF kinvD(6) [OF K], of "Thread_Timer t"] sl by (simp_all add: d_def sleeps_def due_def)
  have m: "unat (d - 1) = n" using d(1) by (subst unat_minus_one) auto
  have "T - rt_tick s' = d - 1" unfolding s'(4) d_def by simp
  then have n: "unat (T - rt_tick s') = n" using m by simp
  have "sleeps t T ?s1 L" using sl by (simp add: sleeps_def)
  then have c: "sleeps t T s' L' \<or> overdue T ?s1 \<and> th_stat (threads s' t) = RT_THREAD_READY"
    using s'(5) sp unfolding carries_def by blast
  have "overdue T ?s1 \<longleftrightarrow> n = 0"
  proof -
    have e: "rt_tick s + 1 - T = - (d - 1)" by (simp add: d_def)
    show ?thesis
    proof (cases "n = 0")
      case True
      then have "d - 1 = 0" using m by (simp add: unat_eq_zero)
      then show ?thesis using True unfolding overdue_def by (simp add: e)
    next
      case False
      then have "unat (- (d - 1)) = 2 ^ 32 - n" using unat_diff_wrap [of 0 0 "d - 1"] m by simp
      then have "\<not> - (d - 1) < RT_TICK_HALF" using d by (simp add: word_less_nat_alt)
      then show ?thesis using False unfolding overdue_def by (simp add: e)
    qed
  qed
  moreover have "n \<noteq> 0" if "sleeps t T s' L'"
    using s'(6) that n by (auto simp: sleeps_def due_def)
  ultimately have "if n = 0 then th_stat (threads s' t) = RT_THREAD_READY else sleeps t T s' L'" using c by auto
  then show ?thesis using s'(1-4) n by blast
qed

lemma ticks_sleeps:
  assumes K: "kinv (rt_tick s) s L" and cur: "rt_current_thread s \<noteq> None" and wb: "well_behaved user"
    and sp: "spares user t" and sl: "sleeps t T s L" and left: "unat (T - rt_tick s) = n" "0 < n"
  shows "m \<le> n \<Longrightarrow> \<exists>s' L'. ticks user m s = Some s' \<and> kinv (rt_tick s') s' L' \<and> rt_current_thread s' \<noteq> None \<and>
    unat (T - rt_tick s') = n - m \<and> (if m = n then th_stat (threads s' t) = RT_THREAD_READY else sleeps t T s' L')"
proof (induction m)
  case 0
  then show ?case using K cur sl left by auto
next
  case (Suc m)
  then obtain s1 L1 where s1: "ticks user m s = Some s1" "kinv (rt_tick s1) s1 L1" "rt_current_thread s1 \<noteq> None"
    "unat (T - rt_tick s1) = Suc (n - Suc m)" "sleeps t T s1 L1" by (auto simp: Suc_diff_Suc)
  obtain s' L' where "SysTick_Handler user s1 = Some s'" "kinv (rt_tick s') s' L'" "rt_current_thread s' \<noteq> None"
    "unat (T - rt_tick s') = n - Suc m"
    "if n - Suc m = 0 then th_stat (threads s' t) = RT_THREAD_READY else sleeps t T s' L'"
    using tick_sleeps [OF s1(2,3) wb sp s1(5,4)] by blast
  moreover have "n - Suc m = 0 \<longleftrightarrow> Suc m = n" using Suc.prems by auto
  ultimately show ?case using s1(1) by (intro exI2 [of _ s' L']) simp
qed

end
