(* ===== verification/Samples.thy ===== *)
theory Samples
  imports Boot
begin

text \<open>
  States the program reaches, on which the hypotheses of the properties hold: after \<open>main\<close>
  (with the repaired container), with a semaphore initialised, and with a thread waiting for it.
\<close>

lemma ready_current:
  assumes K: "kinv b s L" and q: "queued L (Prio_Node p) t"
  shows "th_stat (threads s t) = RT_THREAD_READY" "p = prio_of t s" "linked L (Tlist t)"
proof -
  show l: "linked L (Tlist t)" using q by (auto simp: queued_def intro: linkedI)
  then show "th_stat (threads s t) = RT_THREAD_READY" "p = prio_of t s"
    using kinvD(4) [OF K l] q by (auto simp: thread_ok_def)
qed

lemma highest_queued: "highest_ready L t \<Longrightarrow> \<exists>p. queued L (Prio_Node p) t"
  unfolding highest_ready_def queued_def by (metis list.set_intros(1))

text \<open>A thread runs, others are ready, semaphore 0 is initialised with the value \<open>v\<close>.\<close>

definition sample :: "u16 \<Rightarrow> u8 \<Rightarrow> kernel \<Rightarrow> node layout \<Rightarrow> nat \<Rightarrow> bool" where
  "sample v flag s L t \<longleftrightarrow> kinv 0 s L \<and> rt_tick s = 0 \<and> rt_current_thread s = Some t \<and>
     th_stat (threads s t) = RT_THREAD_READY \<and> highest_ready L t \<and> other_ready L t \<and>
     (\<exists>xs. L (Prio_Node (prio_of t s)) = Some xs) \<and> L (Suspend 0) = Some [] \<and>
     linked L (Obj_List (Sem_Obj 0)) \<and>
     sem_value (semaphores s 0) = v \<and> ob_flag (objects s (Sem_Obj 0)) = flag"

lemma sample_exists: "\<exists>s L t. sample v flag s L t"
proof -
  fix im :: image
  obtain s L t where m: "kinv 0 s L" "rt_tick s = 0" "rt_current_thread s = Some t" "highest_ready L t"
    "\<forall>u<5. \<exists>p. queued L (Prio_Node p) u" "rt_object_container s = repaired_container"
    "\<forall>c<7. L (Container_Node c) \<noteq> None" "\<forall>ob. length (ob_name (objects s ob)) = RT_NAME_MAX"
    "\<forall>k. \<not> linked L (Suspend k) \<and> \<not> linked L (Obj_List (Sem_Obj k))"
    using main_repaired [of im] by blast
  obtain p where p: "queued L (Prio_Node p) t" using highest_queued [OF m(4)] by blast
  define u :: nat where "u = (if t = 0 then 1 else 0)"
  obtain q where u: "queued L (Prio_Node q) u" using m(5) unfolding u_def by force
  have other: "u \<noteq> t" by (simp add: u_def)
  let ?nm = "bytes ''sem''" and ?v = "ucast v :: u32"
  have inf: "rt_object_get_information RT_Object_Class_Semaphore s = Some (Suc 0)"
    by (simp add: rt_object_get_information_def m(6) repaired_container_def container_init_def)
  have c: "L (Container_Node (Suc 0)) \<noteq> None" using m(7) by simp
  have fr: "\<not> linked L (Suspend 0)" "\<not> linked L (Obj_List (Sem_Obj 0))" using m(9) by auto
  obtain nx pv where l: "lay nx pv (sem_created_layout (Suc 0) 0 L)"
    using rt_sem_init_ok [OF kinvD(1) [OF m(1)] inf c fr _ readable_bytes, of "''sem''" ?v flag] m(8)
    by (auto simp: returns_def)
  let ?s = "(sem_created 0 ?nm ?v flag s)\<lparr>nxt := nx, prv := pv\<rparr>" and ?L = "sem_created_layout (Suc 0) 0 L"
  have K: "kinv 0 ?s ?L" by (rule kinv_sem_created [OF m(1) c fr l])
  note mem = sem_created_members [OF c fr]
  have same: "?L (Prio_Node i) = L (Prio_Node i)" for i by (simp add: mem(2))
  have q': "queued ?L (Prio_Node i) x \<longleftrightarrow> queued L (Prio_Node i) x" for i x by (simp add: queued_def same)
  have st: "th_stat (threads ?s t) = RT_THREAD_READY" "p = prio_of t ?s"
    using ready_current [OF K, of p t] p q' by auto
  have "\<exists>xs. ?L (Prio_Node (prio_of t ?s)) = Some xs"
    using p st(2) by (auto simp: queued_def same)
  moreover have "highest_ready ?L t" using m(4) by (simp add: highest_ready_def same)
  moreover have "other_ready ?L t" using u other by (auto simp: other_ready_def q')
  moreover have "ucast (ucast v :: u32) = v"
    by (rule bit_word_eqI) (auto simp: bit_simps dest: bit_imp_le_length)
  then have "sem_value (semaphores ?s 0) = v" "ob_flag (objects ?s (Sem_Obj 0)) = flag"
    by (simp_all add: sem_created_def)
  ultimately have "sample v flag ?s ?L t"
    using K st(1) m(2,3) mem(1,3) by (simp add: sample_def) (simp add: sem_created_def)
  then show ?thesis by blast
qed

definition sample_waiting :: "kernel \<Rightarrow> node layout \<Rightarrow> nat \<Rightarrow> bool" where
  "sample_waiting s L t \<longleftrightarrow> kinv 0 s L \<and> rt_tick s = 0 \<and> rt_current_thread s \<noteq> None \<and> some_ready L \<and>
     L (Suspend 0) = Some [Tlist t] \<and> th_stat (threads s t) = RT_THREAD_SUSPEND \<and>
     th_error (threads s t) = RT_EOK \<and> armed L (Thread_Timer t)"

lemma sample_waiting_exists: "\<exists>s L t. sample_waiting s L t"
proof -
  obtain s L t where m: "sample 0 RT_IPC_FLAG_FIFO s L t" using sample_exists by blast
  then have K: "kinv 0 s L" and cur: "rt_current_thread s = Some t" and tk: "rt_tick s = 0"
    and st: "th_stat (threads s t) = RT_THREAD_READY" and oth: "other_ready L t"
    and k: "L (Suspend 0) = Some (map Tlist [])" and v: "sem_value (semaphores s 0) = 0"
    and fl: "ob_flag (objects s (Sem_Obj 0)) = RT_IPC_FLAG_FIFO"
    and xs: "\<exists>xs. L (Prio_Node (prio_of t s)) = Some xs"
    by (auto simp: sample_def)
  obtain xs where xs: "L (Prio_Node (prio_of t s)) = Some xs" using xs by blast
  let ?s1 = "waiting t 1 (remove1 (Tlist t) xs = []) s" and ?L1 = "waiting_for 0 0 t 1 s [] L"
  obtain to where to: "highest_ready ?L1 to"
    "keeps 0 (rt_sem_take 0 1 s) (Take_Waiting t) (switched to ?s1) ?L1"
    using rt_sem_take_waits [OF K cur st oth k v _ _ _ xs, of 1] fl by (auto simp: longest_timeout_def)
  obtain nx pv where w: "rt_sem_take 0 1 s = Some (Take_Waiting t, (switched to ?s1)\<lparr>nxt := nx, prv := pv\<rparr>)"
    "kinv 0 ((switched to ?s1)\<lparr>nxt := nx, prv := pv\<rparr>) ?L1"
    using to(2) by (auto simp: keeps_def)
  obtain s' L' to' where "rt_sem_take 0 1 s = Some (Take_Waiting t, s')" "kinv 0 s' L'"
    "L' (Suspend 0) = Some (map Tlist (wait_insert RT_IPC_FLAG_FIFO t s []))"
    "armed L' (Thread_Timer t)" "highest_ready L' to'"
    using rt_sem_take_blocks [OF K cur st oth k v, of 1] fl by (auto simp: longest_timeout_def)
  then have K': "kinv 0 s' L'" and q: "L' (Suspend 0) = Some [Tlist t]" and a: "armed L' (Thread_Timer t)"
    and h: "highest_ready L' to'" and e: "s' = (switched to ?s1)\<lparr>nxt := nx, prv := pv\<rparr>"
    using w(1) by (auto simp: wait_insert_def)
  have "queued L' (Suspend 0) t" using q by (simp add: queued_def)
  moreover have "linked L' (Tlist t)" by (rule linkedI [where h = "Suspend 0" and xs = "[Tlist t]"]) (use q in auto)
  ultimately have "th_stat (threads s' t) = RT_THREAD_SUSPEND"
    using kinvD(4) [OF K', of t] by (auto simp: thread_ok_def)
  moreover have "some_ready L'" using highest_queued [OF h] by (auto simp: some_ready_def)
  moreover have "rt_current_thread s' \<noteq> None" "rt_tick s' = 0" "th_error (threads s' t) = RT_EOK"
    unfolding e using cur tk by (auto simp: waiting_def Let_def asleep_def timer_started_def suspended_def
        timer_stopped_def made_unready_def)
  ultimately show ?thesis using K' q a unfolding sample_waiting_def by blast
qed

text \<open>The links of a node that nothing initialises are null.\<close>

lemma kinv_defunct_null:
  assumes K: "kinv b s L"
  shows "kinv b (s\<lparr>nxt := (nxt s)(Defunct_Node := None)\<rparr>) L"
proof -
  let ?s = "s\<lparr>nxt := (nxt s)(Defunct_Node := None)\<rparr>"
  have "Defunct_Node \<notin> set (h # xs)" if "L h = Some xs" for h xs
    using defunct_not_linked [OF K] that by (auto simp: linked_def)
  then have "rings ((nxt s)(Defunct_Node := None)) (prv s) L"
    by (intro rings_update [OF lay_rings [OF kinvD(1) [OF K]], where D = "{Defunct_Node}"]) auto
  then have "lay (nxt ?s) (prv ?s) L" using kinvD(1) [OF K] by (simp add: lay_def)
  moreover have "thread_ok ?s L u = thread_ok s L u" "timer_ok ?s L r = timer_ok s L r" for u r
    by (simp_all add: thread_ok_def timer_ok_def cong: timer_ref.case_cong)
  moreover have "\<forall>k. sem_ok ?s L k" using kinvD(7) [OF K] by (simp add: sem_ok_def)
  ultimately show ?thesis using K unfolding kinv_def group_ok_def list_ok_def by simp
qed

end
