(* ===== verification/System_Props.thy ===== *)
theory System_Props
  imports System Samples
begin

text \<open>
  Properties of the system as a whole: the services and the clock interrupt in any order, and what
  the clock does for the timers and for the threads that sleep.
\<close>

section \<open>Every step\<close>



section \<open>The clock\<close>

text \<open>
  C3. No timer is ever late. The clock interrupt returns in every state between two ticks in which the
  kernel's invariant holds; the tick has advanced by one, the invariant holds for the new tick, and
  every timer that is still running has its deadline ahead, within the range in which ticks can be
  compared: those that were due have been removed and their functions have been called. The timeout
  functions of the application are assumed to return and to keep the invariant.
\<close>

theorem systick_leaves_no_timer_late:
  assumes "kinv (rt_tick s) s L" and "rt_current_thread s \<noteq> None" and "well_behaved user"
  shows "\<exists>s' L'. SysTick_Handler user s = Some s' \<and> kinv (rt_tick s') s' L' \<and> rt_current_thread s' \<noteq> None \<and>
    rt_tick s' = rt_tick s + 1 \<and> (\<forall>n. linked L n \<longrightarrow> linked L' n) \<and>
    (\<forall>r. armed L' r \<longrightarrow> tm_timeout_tick (timers s' r) - rt_tick s' \<in> {0 <..< RT_TICK_HALF})"
proof -
  obtain s' L' where s': "SysTick_Handler user s = Some s'" "kinv (rt_tick s') s' L'" "rt_current_thread s' \<noteq> None"
    "rt_tick s' = rt_tick s + 1" "\<forall>n. linked L n \<longrightarrow> linked L' n" "\<forall>r. armed L' r \<longrightarrow> 0 < due (rt_tick s') (timers s') r"
    using SysTick_Handler_kinv [OF assms] by (auto simp: carries_def)
  have "tm_timeout_tick (timers s' r) - rt_tick s' \<in> {0 <..< RT_TICK_HALF}" if "armed L' r" for r
    using s'(6) list_ok_due [OF kinvD(6) [OF s'(2)] that] that by (auto simp: due_def word_less_nat_alt)
  then show ?thesis using s'(1-5) by blast
qed

theorem systick_leaves_no_timer_late_witness:
  "\<exists>s s' L'. SysTick_Handler (\<lambda>_ _ s. Some s) s = Some s' \<and> kinv 1 s' L' \<and> rt_tick s' = 1"
proof -
  obtain s L t where s: "sample 0 0 s L t" using sample_exists by blast
  moreover have "well_behaved (\<lambda>_ _ s. Some s)" by (auto simp: well_behaved_def)
  ultimately show ?thesis
    using systick_leaves_no_timer_late [of s L "\<lambda>_ _ s. Some s"] by (fastforce simp: sample_def)
qed

text \<open>
  C4. A delayed thread wakes up on time: a thread that calls \<open>rt_thread_delay\<close> for \<open>tick\<close> ticks is suspended
  for the \<open>tick - 1\<close> clock interrupts that follow and is ready again after the next one, also when the
  tick counter wraps around in between; none of these interrupts fails. In between the other threads
  compute and call no services; the timers of the application do as \<open>spares\<close> says.
\<close>

theorem rt_thread_delay_wakes_on_time:
  assumes "kinv (rt_tick s) s L" and "rt_current_thread s = Some t"
    and "th_stat (threads s t) = RT_THREAD_READY" and "other_ready L t"
    and "0 < tick" and "unat tick \<le> longest_timeout"
    and "well_behaved user" and "spares user t"
  shows "\<exists>s1. rt_thread_delay tick s = Some (RT_EOK, s1) \<and>
    (\<forall>m \<le> unat tick. \<exists>s2. ticks user m s1 = Some s2 \<and>
       th_stat (threads s2 t) = (if m = unat tick then RT_THREAD_READY else RT_THREAD_SUSPEND))"
proof -
  obtain s1 L1 where s1: "rt_thread_delay tick s = Some (RT_EOK, s1)" "kinv (rt_tick s) s1 L1"
    "th_stat (threads s1 t) = RT_THREAD_SUSPEND" "armed L1 (Thread_Timer t)"
    "tm_timeout_tick (timers s1 (Thread_Timer t)) = rt_tick s + tick" "rt_current_thread s1 \<noteq> None" "rt_tick s1 = rt_tick s"
    using rt_thread_delay_sleeps [OF assms(1-4,6,5)] by blast
  have K1: "kinv (rt_tick s1) s1 L1" using s1(2,7) by simp
  have sl: "sleeps t (rt_tick s + tick) s1 L1" using s1 by (simp add: sleeps_def)
  have left: "unat (rt_tick s + tick - rt_tick s1) = unat tick" "0 < unat tick"
    using s1(7) assms(5) by (simp_all add: word_less_nat_alt)
  have "\<exists>s2. ticks user m s1 = Some s2 \<and>
      th_stat (threads s2 t) = (if m = unat tick then RT_THREAD_READY else RT_THREAD_SUSPEND)" if "m \<le> unat tick" for m
    using ticks_sleeps [OF K1 s1(6) assms(7,8) sl left that] by (auto simp: sleeps_def)
  then show ?thesis using s1(1) by blast
qed

theorem rt_thread_delay_wakes_on_time_witness:
  "\<exists>s s1 s2 s3 t. rt_thread_delay 10 s = Some (RT_EOK, s1) \<and> th_stat (threads s1 t) = RT_THREAD_SUSPEND \<and>
     ticks (\<lambda>_ _ s. Some s) 9 s1 = Some s2 \<and> th_stat (threads s2 t) = RT_THREAD_SUSPEND \<and>
     ticks (\<lambda>_ _ s. Some s) 10 s1 = Some s3 \<and> th_stat (threads s3 t) = RT_THREAD_READY"
proof -
  obtain s L t where s: "sample 0 0 s L t" using sample_exists by blast
  have wb: "well_behaved (\<lambda>_ _ s. Some s)" by (auto simp: well_behaved_def)
  have sp: "spares (\<lambda>_ _ s. Some s) t" by (rule spares_nothing)
  obtain s1 where s1: "rt_thread_delay 10 s = Some (RT_EOK, s1)"
    "\<And>m. m \<le> 10 \<Longrightarrow> \<exists>s2. ticks (\<lambda>_ _ s. Some s) m s1 = Some s2 \<and>
       th_stat (threads s2 t) = (if m = 10 then RT_THREAD_READY else RT_THREAD_SUSPEND)"
    using rt_thread_delay_wakes_on_time [OF _ _ _ _ _ _ wb sp, of s L 10] s
    by (auto simp: sample_def longest_timeout_def)
  have "th_stat (threads s1 t) = RT_THREAD_SUSPEND" using s1(2) [of 0] by simp
  moreover obtain s2 where "ticks (\<lambda>_ _ s. Some s) 9 s1 = Some s2" "th_stat (threads s2 t) = RT_THREAD_SUSPEND"
    using s1(2) [of 9] by auto
  moreover obtain s3 where "ticks (\<lambda>_ _ s. Some s) 10 s1 = Some s3" "th_stat (threads s3 t) = RT_THREAD_READY"
    using s1(2) [of 10] by auto
  ultimately show ?thesis using s1(1) by blast
qed

end
