(* ===== verification/Kernel_Props.thy ===== *)
theory Kernel_Props
  imports Samples
begin

text \<open>
  The properties of the kernel's services, stated over the model's operations: what a call
  does to the lists, the timers and the running thread, that it keeps the invariant, and which
  calls cannot work. Each rests on the lemmas of the component's theory; the states in which
  the hypotheses hold are those of \<open>Samples\<close>.
\<close>

section \<open>Ticks and start-up\<close>


text \<open>
  With an entry for timers in the container \<open>main\<close> starts the system: it returns from
  \<open>rt_system_scheduler_start\<close> in a state that satisfies the kernel's invariant, at tick 0,
  with all five threads ready and the first thread of the highest ready priority running.
\<close>

theorem main_starts_when_repaired:
  "\<exists>s L t. main im (boot_with repaired_container 7) = Some s \<and> kinv 0 s L \<and> rt_tick s = 0 \<and>
     rt_current_thread s = Some t \<and> highest_ready L t \<and> {0, 1, 2, 3, 4} \<subseteq> {u. \<exists>p. queued L (Prio_Node p) u}"
proof -
  obtain s L t where m: "main im (boot_with repaired_container 7) = Some s" "kinv 0 s L" "rt_tick s = 0"
    "rt_current_thread s = Some t" "highest_ready L t" "\<forall>u<5. \<exists>p. queued L (Prio_Node p) u"
    using main_repaired [of im] by blast
  have "{0, 1, 2, 3, 4} \<subseteq> {u. u < (5 :: nat)}" by simp
  also have "\<dots> \<subseteq> {u. \<exists>p. queued L (Prio_Node p) u}" using m(6) by blast
  finally show ?thesis using m(1-5) by blast
qed

section \<open>The scheduler\<close>

text \<open>
  C5. \<open>rt_schedule\<close> chooses a thread of the highest ready priority, the first of its list: no
  thread of a more urgent priority is ready. When the scheduler is not locked this thread is
  the current one afterwards; links, threads and timers are as they were and the invariant holds.
\<close>

theorem rt_schedule_picks_highest:
  assumes "kinv b s L" and "some_ready L" and "rt_current_thread s \<noteq> None"
  shows "\<exists>t p xs s'. rt_schedule s = Some s' \<and> kinv b s' L \<and> threads s' = threads s \<and> timers s' = timers s \<and>
     L (Prio_Node p) = Some (Tlist t # xs) \<and> (\<forall>q<p. \<forall>u. \<not> queued L (Prio_Node q) u) \<and>
     rt_current_thread s' = (if rt_scheduler_lock_nest s = 0 then Some t else rt_current_thread s)"
proof -
  obtain t where t: "rt_schedule s = Some (switched t s)" "highest_ready L t" "kinv b (switched t s) L"
    using rt_schedule_kinv [OF assms] by blast
  obtain p xs where p: "L (Prio_Node p) = Some (Tlist t # xs)" "\<forall>q<p. L (Prio_Node q) = Some []"
    using t(2) by (auto simp: highest_ready_def)
  then have "\<forall>q<p. \<forall>u. \<not> queued L (Prio_Node q) u" by (simp add: queued_def)
  then show ?thesis using t(1,3) p(1) by (intro exI [of _ t] exI [of _ p] exI [of _ xs] exI [of _ "switched t s"]) simp
qed

theorem rt_schedule_picks_highest_witness:
  "\<exists>s s' t. rt_schedule s = Some s' \<and> rt_current_thread s = Some t \<and> threads s' = threads s"
proof -
  obtain s L t where s: "sample 0 0 s L t" using sample_exists by blast
  then have "some_ready L" by (auto simp: sample_def some_ready_def other_ready_def)
  then show ?thesis using rt_schedule_picks_highest [of 0 s L] s by (auto simp: sample_def)
qed

text \<open>
  Without a ready thread the scheduler has nothing to fall back on: \<open>__rt_ffs(0) - 1\<close> is
  the largest 32-bit number, and \<open>rt_schedule\<close> and \<open>rt_system_scheduler_start\<close> index the
  priority table with it.
\<close>

theorem rt_schedule_without_ready_thread:
  "rt_thread_ready_priority_group s = 0 \<Longrightarrow> rt_schedule s = None \<and> rt_system_scheduler_start s = None"
proof -
  assume g: "rt_thread_ready_priority_group s = 0"
  have "rt_ffs 0 - 1 = (- 1 :: u32)" by (simp add: rt_ffs_zero)
  then have "priority_table (unat (rt_ffs (rt_thread_ready_priority_group s) - 1)) = None"
    by (simp only: g priority_table_def) (simp add: unsigned_minus_1_eq_mask mask_eq_exp_minus_1)
  then show ?thesis using rt_schedule_no_ready [OF g]
    by (simp add: rt_system_scheduler_start_def first_thread_def)
qed

theorem rt_schedule_without_ready_thread_witness:
  "rt_schedule (rt_system_scheduler_init boot) = None"
proof -
  have "rt_thread_ready_priority_group (rt_system_scheduler_init boot) = 0"
    by (simp add: rt_system_scheduler_init_def Let_def)
  then show ?thesis using rt_schedule_without_ready_thread by blast
qed

section \<open>Semaphores\<close>

text \<open>
  C6. Taking an exhausted semaphore puts the caller to sleep: \<open>rt_sem_take\<close> takes the running
  thread off its ready list, enters it in the waiting list where the semaphore's flag says (at
  the end, or behind the threads of its own or a more urgent priority), starts its timer to run
  out \<open>time\<close> ticks from now unless it waits for ever, and hands the processor to the most
  urgent thread still ready.
\<close>

theorem rt_sem_take_puts_to_sleep:
  assumes "kinv b s L" and "rt_current_thread s = Some t"
    and "th_stat (threads s t) = RT_THREAD_READY" and "other_ready L t"
    and "L (Suspend k) = Some (map Tlist ts)" and "sem_value (semaphores s k) = 0"
    and "ob_flag (objects s (Sem_Obj k)) \<in> {RT_IPC_FLAG_FIFO, RT_IPC_FLAG_PRIO}"
    and "time \<noteq> 0" and "0 < sint time \<longrightarrow> unat time \<le> longest_timeout"
  shows "\<exists>s' L' to. rt_sem_take k time s = Some (Take_Waiting t, s') \<and> kinv b s' L' \<and>
    L' (Suspend k) = Some (map Tlist (wait_insert (ob_flag (objects s (Sem_Obj k))) t s ts)) \<and>
    (\<forall>p u. queued L' (Prio_Node p) u \<longleftrightarrow> queued L (Prio_Node p) u \<and> u \<noteq> t) \<and>
    (armed L' (Thread_Timer t) \<longleftrightarrow> 0 < sint time) \<and>
    (0 < sint time \<longrightarrow> tm_timeout_tick (timers s' (Thread_Timer t)) = rt_tick s + time) \<and>
    highest_ready L' to \<and> (rt_scheduler_lock_nest s = 0 \<longrightarrow> rt_current_thread s' = Some to)"
  using assms by (rule rt_sem_take_blocks)

theorem rt_sem_take_puts_to_sleep_witness:
  "\<exists>s s' L' t. rt_sem_take 0 5 s = Some (Take_Waiting t, s') \<and> L' (Suspend 0) = Some [Tlist t] \<and>
     kinv 0 s' L' \<and> armed L' (Thread_Timer t)"
proof -
  obtain s L t where "sample 0 RT_IPC_FLAG_FIFO s L t" using sample_exists by blast
  then show ?thesis
    using rt_sem_take_puts_to_sleep [of 0 s L t 0 "[]" 5]
    by (auto simp: sample_def longest_timeout_def wait_insert_def)
qed

text \<open>
  C7. Releasing a semaphore that threads wait for hands it to the first of them: this thread
  leaves the waiting list, is ready again at its priority, the count stays as it was, and the
  most urgent ready thread runs.
\<close>

theorem rt_sem_release_wakes_first:
  assumes K: "kinv b s L" and k: "L (Suspend k) = Some (Tlist t # xs)" and cur: "rt_current_thread s \<noteq> None"
  shows "\<exists>s' L' to. rt_sem_release k s = Some (RT_EOK, s') \<and> kinv b s' L' \<and>
    L' (Suspend k) = Some xs \<and> queued L' (Prio_Node (prio_of t s)) t \<and>
    th_stat (threads s' t) = RT_THREAD_READY \<and> sem_value (semaphores s' k) = sem_value (semaphores s k) \<and>
    highest_ready L' to \<and> (rt_scheduler_lock_nest s = 0 \<longrightarrow> rt_current_thread s' = Some to)"
proof -
  let ?L = "to_tail (Prio_Node (prio_of t s)) (Tlist t) L"
  obtain to nx pv where r: "highest_ready ?L to"
    "rt_sem_release k s = Some (RT_EOK, (switched to (made_ready t s))\<lparr>nxt := nx, prv := pv\<rparr>)"
    "kinv b ((switched to (made_ready t s))\<lparr>nxt := nx, prv := pv\<rparr>) ?L"
    using rt_sem_release_wakes [OF K k cur] by (auto simp: keeps_def)
  have t: "linked L (Tlist t)" by (rule linkedI [where h = "Suspend k" and xs = "Tlist t # xs"]) (use k in auto)
  then have p: "prio_of t s < 32" using kinvD(4) [OF K] by (simp add: thread_ok_def)
  have "?L (Suspend k) = Some xs" using k by (simp add: to_tail_other)
  moreover have "queued ?L (Prio_Node (prio_of t s)) t" by (rule some_ready_to_tail [OF p K t])
  ultimately show ?thesis using r by (auto simp: made_ready_def)
qed

theorem rt_sem_release_wakes_first_witness:
  "\<exists>s s' L' t. rt_sem_release 0 s = Some (RT_EOK, s') \<and> L' (Suspend 0) = Some [] \<and>
     kinv 0 s' L' \<and> th_stat (threads s t) = RT_THREAD_SUSPEND \<and> th_stat (threads s' t) = RT_THREAD_READY"
proof -
  obtain s L t where "sample_waiting s L t" using sample_waiting_exists by blast
  then show ?thesis
    using rt_sem_release_wakes_first [of 0 s L 0 t "[]"] by (simp add: sample_waiting_def) blast
qed

text \<open>
  C8. A thread that waits for a semaphore when its timer runs out stops waiting:
  \<open>rt_thread_timeout\<close> takes it off the waiting list and makes it ready, and \<open>rt_sem_take\<close>
  goes on to return \<open>- RT_ETIMEOUT\<close>. The count and the other waiting threads stay.
\<close>

theorem rt_sem_take_times_out:
  assumes K: "kinv b s L" and k: "L (Suspend k) = Some xs" "Tlist t \<in> set xs" and cur: "rt_current_thread s \<noteq> None"
  shows "\<exists>s' L'. rt_thread_timeout (Thread_Ptr t) s = Some s' \<and> kinv b s' L' \<and>
    L' (Suspend k) = Some (remove1 (Tlist t) xs) \<and> queued L' (Prio_Node (prio_of t s)) t \<and>
    rt_sem_take_resumed t s' = - RT_ETIMEOUT \<and> semaphores s' = semaphores s"
proof -
  let ?L = "to_tail (Prio_Node (prio_of t s)) (Tlist t) L"
  have t: "linked L (Tlist t)" by (rule linkedI [where h = "Suspend k" and xs = xs]) (use k in auto)
  have "queued L (Suspend k) t" using k by (simp add: queued_def)
  then have p: "prio_of t s < 32" and st: "th_stat (threads s t) = RT_THREAD_SUSPEND"
    using kinvD(4) [OF K t] by (auto simp: thread_ok_def)
  obtain to nx pv where r: "rt_thread_timeout (Thread_Ptr t) s = Some ((switched to (timed_out t s))\<lparr>nxt := nx, prv := pv\<rparr>)"
    "kinv b ((switched to (timed_out t s))\<lparr>nxt := nx, prv := pv\<rparr>) ?L"
    using rt_thread_timeout_kinv [OF K t _ cur] st by (auto simp: sustains_def)
  have "?L (Suspend k) = Some (remove1 (Tlist t) xs)" using k by (simp add: to_tail_other)
  moreover have "queued ?L (Prio_Node (prio_of t s)) t" by (rule some_ready_to_tail [OF p K t])
  ultimately show ?thesis using r by (auto simp: rt_sem_take_resumed_def timed_out_def made_ready_def)
qed

theorem rt_sem_take_times_out_witness:
  "\<exists>s s' t. rt_thread_timeout (Thread_Ptr t) s = Some s' \<and> rt_sem_take_resumed t s = RT_EOK \<and>
     rt_sem_take_resumed t s' = - RT_ETIMEOUT"
proof -
  obtain s L t where s: "sample_waiting s L t" using sample_waiting_exists by blast
  then have "rt_sem_take_resumed t s = RT_EOK" by (simp add: sample_waiting_def rt_sem_take_resumed_def)
  then show ?thesis
    using rt_sem_take_times_out [of 0 s L 0 "[Tlist t]" t] s by (simp add: sample_waiting_def) blast
qed

text \<open>
  C21. A release does not stop the timer of the thread it wakes: \<open>rt_thread_resume\<close> leaves it
  armed. If the timer runs out before the thread has gone on, the thread's \<open>rt_sem_take\<close>, which
  was about to return \<open>RT_EOK\<close>, returns \<open>- RT_ETIMEOUT\<close> although the semaphore was handed to it.
\<close>

theorem rt_sem_release_leaves_timer_armed:
  assumes K: "kinv b s L" and k: "L (Suspend k) = Some (Tlist t # xs)" and cur: "rt_current_thread s \<noteq> None"
    and a: "armed L (Thread_Timer t)" and e: "th_error (threads s t) = RT_EOK"
  shows "\<exists>s' L' s''. rt_sem_release k s = Some (RT_EOK, s') \<and> kinv b s' L' \<and> armed L' (Thread_Timer t) \<and>
    rt_sem_take_resumed t s' = RT_EOK \<and> rt_thread_timeout (Thread_Ptr t) s' = Some s'' \<and>
    rt_sem_take_resumed t s'' = - RT_ETIMEOUT"
proof -
  let ?L = "to_tail (Prio_Node (prio_of t s)) (Tlist t) L"
  obtain to nx pv where "highest_ready ?L to"
    "rt_sem_release k s = Some (RT_EOK, (switched to (made_ready t s))\<lparr>nxt := nx, prv := pv\<rparr>)"
    "kinv b ((switched to (made_ready t s))\<lparr>nxt := nx, prv := pv\<rparr>) ?L"
    using rt_sem_release_wakes [OF K k cur] by (auto simp: keeps_def)
  moreover define s1 where "s1 = (switched to (made_ready t s))\<lparr>nxt := nx, prv := pv\<rparr>"
  ultimately have r: "rt_sem_release k s = Some (RT_EOK, s1)" "kinv b s1 ?L" by auto
  have f: "th_stat (threads s1 t) = RT_THREAD_READY" "th_error (threads s1 t) = RT_EOK" "rt_current_thread s1 \<noteq> None"
    using e cur by (auto simp: s1_def made_ready_def)
  have t: "linked L (Tlist t)" by (rule linkedI [where h = "Suspend k" and xs = "Tlist t # xs"]) (use k in auto)
  then have p: "prio_of t s < 32" using kinvD(4) [OF K] by (simp add: thread_ok_def)
  then obtain ys where ys: "L (Prio_Node (prio_of t s)) = Some ys" using ready_list [OF kinvD(2) [OF K]] by blast
  have "armed ?L (Thread_Timer t)" using armed_to_tail [OF kinvD(1) [OF K] t ys] a by simp
  moreover have "linked ?L (Tlist t)" using linked_to_tail [OF kinvD(1) [OF K] _ t ys] t by simp
  then obtain to2 nx2 pv2 where
    "rt_thread_timeout (Thread_Ptr t) s1 = Some ((switched to2 (timed_out t s1))\<lparr>nxt := nx2, prv := pv2\<rparr>)"
    using rt_thread_timeout_kinv [OF r(2) _ _ f(3), of t] f(1) by (auto simp: sustains_def)
  ultimately show ?thesis using r f(2)
    by (auto simp: rt_sem_take_resumed_def timed_out_def made_ready_def)
qed

theorem rt_sem_release_leaves_timer_armed_witness:
  "\<exists>s s' s'' t. rt_sem_release 0 s = Some (RT_EOK, s') \<and> rt_thread_timeout (Thread_Ptr t) s' = Some s'' \<and>
     rt_sem_take_resumed t s'' = - RT_ETIMEOUT"
proof -
  obtain s L t where "sample_waiting s L t" using sample_waiting_exists by blast
  then show ?thesis
    using rt_sem_release_leaves_timer_armed [of 0 s L 0 t "[]"] by (simp add: sample_waiting_def) blast
qed

text \<open>
  Taking and giving back are inverse: a semaphore nobody waits for that is released and
  then taken, or taken while it can be had and then released, leaves the kernel in the very
  state it was in, unless the count of a release wraps around.
\<close>

theorem rt_sem_release_take_inverse:
  assumes "lay (nxt s) (prv s) L" and "L (Suspend k) = Some []"
  shows "(sem_value (semaphores s k) \<noteq> 0xffff \<longrightarrow>
      Option.bind (rt_sem_release k s) (\<lambda>(_, s'). rt_sem_take k time s') = Some (Take_Returned RT_EOK, s)) \<and>
    (0 < sem_value (semaphores s k) \<longrightarrow>
      Option.bind (rt_sem_take k time s) (\<lambda>(_, s'). rt_sem_release k s') = Some (RT_EOK, s))"
proof (intro conjI impI)
  assume w: "sem_value (semaphores s k) \<noteq> 0xffff"
  have "sem_value (semaphores s k) + 1 \<noteq> 0"
  proof
    assume "sem_value (semaphores s k) + 1 = 0"
    then have "sem_value (semaphores s k) = - 1" by (simp add: eq_neg_iff_add_eq_0)
    then show False using w by simp
  qed
  then show "Option.bind (rt_sem_release k s) (\<lambda>(_, s'). rt_sem_take k time s') = Some (Take_Returned RT_EOK, s)"
    by (simp add: rt_sem_release_no_waiter [OF assms] rt_sem_take_available word_gt_0)
next
  assume v: "0 < sem_value (semaphores s k)"
  let ?s = "upd_sem k (\<lambda>sm. sm\<lparr>sem_value := sem_value sm - 1\<rparr>) s"
  have "rt_sem_release k ?s = Some (RT_EOK, s)"
    using rt_sem_release_no_waiter [of ?s L k] assms by simp
  then show "Option.bind (rt_sem_take k time s) (\<lambda>(_, s'). rt_sem_release k s') = Some (RT_EOK, s)"
    by (simp add: rt_sem_take_available [OF v])
qed

theorem rt_sem_release_take_inverse_witness:
  "\<exists>s. sem_value (semaphores s 0) = 3 \<and>
     Option.bind (rt_sem_release 0 s) (\<lambda>(_, s'). rt_sem_take 0 7 s') = Some (Take_Returned RT_EOK, s) \<and>
     Option.bind (rt_sem_take 0 7 s) (\<lambda>(_, s'). rt_sem_release 0 s') = Some (RT_EOK, s)"
proof -
  obtain s L t where "sample 3 0 s L t" using sample_exists by blast
  then show ?thesis
    using rt_sem_release_take_inverse [of s L 0 7] by (auto simp: sample_def dest: kinvD(1) intro!: exI [of _ s])
qed

text \<open>
  C28. The count is 16 bits wide and a release does not check it: the release of a semaphore
  with the count 65535 wraps it to 0, and the next \<open>rt_sem_trytake\<close> finds nothing to take.
\<close>

theorem rt_sem_release_wraps:
  assumes "lay (nxt s) (prv s) L" and "L (Suspend k) = Some []" and "sem_value (semaphores s k) = 0xffff"
  shows "\<exists>s'. rt_sem_release k s = Some (RT_EOK, s') \<and> sem_value (semaphores s' k) = 0 \<and>
    rt_sem_trytake k s' = Some (Take_Returned (- RT_ETIMEOUT), s')"
  using assms(3) by (simp add: rt_sem_release_no_waiter [OF assms(1,2)] rt_sem_trytake_def rt_sem_take_empty)

theorem rt_sem_release_wraps_witness:
  "\<exists>s s'. sem_value (semaphores s 0) = 0xffff \<and> rt_sem_release 0 s = Some (RT_EOK, s') \<and>
     sem_value (semaphores s' 0) = 0"
proof -
  obtain s L t where "sample 0xffff 0 s L t" using sample_exists by blast
  then show ?thesis
    using rt_sem_release_wraps [of s L 0] by (auto simp: sample_def dest: kinvD(1))
qed

text \<open>
  C22. Resetting a semaphore frees everyone: all waiting threads become ready at their
  priorities with the error \<open>- RT_ERROR\<close>, nobody waits any more, every other thread is where it
  was, the count is the low half of the argument, and the most urgent ready thread runs.
\<close>

theorem rt_sem_reset_frees_waiters:
  fixes arg :: u32
  assumes K: "kinv b s L" and k: "L (Suspend k) = Some (map Tlist ts)"
    and rdy: "some_ready L" and cur: "rt_current_thread s \<noteq> None"
  shows "\<exists>s' L' to. rt_sem_control k RT_IPC_CMD_RESET arg s = Some (RT_EOK, s') \<and> kinv b s' L' \<and>
    L' (Suspend k) = Some [] \<and> sem_value (semaphores s' k) = ucast arg \<and>
    (\<forall>h u. queued L' h u \<longleftrightarrow> (if u \<in> set ts then h = Prio_Node (prio_of u s) else queued L h u)) \<and>
    (\<forall>u. th_error (threads s' u) = (if u \<in> set ts then - RT_ERROR else th_error (threads s u))) \<and>
    highest_ready L' to \<and> (rt_scheduler_lock_nest s = 0 \<longrightarrow> rt_current_thread s' = Some to)"
proof -
  let ?s = "upd_sem k (\<lambda>sm. sm\<lparr>sem_value := ucast arg\<rparr>) (fst (fold wake ts (s, L)))"
  let ?L = "snd (fold wake ts (s, L))"
  obtain to nx pv where "highest_ready ?L to"
    "rt_sem_control k RT_IPC_CMD_RESET arg s = Some (RT_EOK, (switched to ?s)\<lparr>nxt := nx, prv := pv\<rparr>)"
    "kinv b ((switched to ?s)\<lparr>nxt := nx, prv := pv\<rparr>) ?L"
    using rt_sem_control_reset [OF K k rdy cur, of arg] by (auto simp: keeps_def)
  moreover note wake_members [OF K k refl]
  ultimately show ?thesis
    by (intro exI [of _ "(switched to ?s)\<lparr>nxt := nx, prv := pv\<rparr>"] exI [of _ ?L] exI [of _ to])
       (simp add: fold_wake_error)
qed

theorem rt_sem_reset_frees_waiters_witness:
  "\<exists>s s' t. rt_sem_control 0 RT_IPC_CMD_RESET 4 s = Some (RT_EOK, s') \<and>
     th_stat (threads s t) = RT_THREAD_SUSPEND \<and> th_error (threads s' t) = - RT_ERROR \<and>
     sem_value (semaphores s' 0) = 4"
proof -
  obtain s L t where s: "sample_waiting s L t" using sample_waiting_exists by blast
  then have "L (Suspend 0) = Some (map Tlist [t])" by (simp add: sample_waiting_def)
  with s show ?thesis
    using rt_sem_reset_frees_waiters [of 0 s L 0 "[t]" 4] by (simp add: sample_waiting_def) (metis (lifting))
qed

text \<open>
  Detaching a semaphore frees everyone who waits for it with the error \<open>- RT_ERROR\<close>, as a
  reset does, and takes the semaphore out of the object container.
\<close>

theorem rt_sem_detach_frees_waiters:
  assumes K: "kinv b s L" and k: "L (Suspend k) = Some (map Tlist ts)" and ob: "linked L (Obj_List (Sem_Obj k))"
  shows "\<exists>s' L'. rt_sem_detach k s = Some (RT_EOK, s') \<and> kinv b s' L' \<and> L' (Suspend k) = Some [] \<and>
    L' (Obj_List (Sem_Obj k)) = Some [] \<and>
    (\<forall>h u. queued L' h u \<longleftrightarrow> (if u \<in> set ts then h = Prio_Node (prio_of u s) else queued L h u)) \<and>
    (\<forall>u. th_error (threads s' u) = (if u \<in> set ts then - RT_ERROR else th_error (threads s u)))"
proof -
  let ?s = "fst (fold wake ts (s, L))" and ?L = "snd (fold wake ts (s, L))"
  let ?U = "unlink (Obj_List (Sem_Obj k)) ?L"
  obtain nx pv where r: "rt_sem_detach k s = Some (RT_EOK, ?s\<lparr>nxt := nx, prv := pv\<rparr>)"
    "kinv b (?s\<lparr>nxt := nx, prv := pv\<rparr>) ?U"
    using rt_sem_detach_kinv [OF K k ob] by (auto simp: keeps_def)
  obtain nx1 pv1 where l: "lay nx1 pv1 ?L"
    using rt_ipc_list_resume_all_kinv [OF K k] by (auto simp: keeps_def dest: kinvD(1))
  have "queued ?U h u \<longleftrightarrow> queued ?L h u" for h u using queued_unlink [OF l] by simp
  then show ?thesis
    using r wake_members [OF K k refl]
    by (intro exI [of _ "?s\<lparr>nxt := nx, prv := pv\<rparr>"] exI [of _ ?U]) (simp add: fold_wake_error)
qed

theorem rt_sem_detach_frees_waiters_witness:
  "\<exists>s s' L'. rt_sem_detach 0 s = Some (RT_EOK, s') \<and> kinv 0 s' L' \<and> L' (Obj_List (Sem_Obj 0)) = Some []"
proof -
  obtain s L t where "sample 3 0 s L t" using sample_exists by blast
  then show ?thesis
    using rt_sem_detach_frees_waiters [of 0 s L 0 "[]"] by (simp add: sample_def) blast
qed

section \<open>Threads\<close>

text \<open>
  \<open>rt_thread_sleep\<close> (and with it \<open>rt_thread_delay\<close>) takes the running thread off the ready
  lists, starts its timer to run out \<open>tick\<close> ticks from now and hands the processor over. The
  timer list stays ordered by the time left, which the invariant contains.
\<close>

theorem rt_thread_delay_puts_to_sleep:
  assumes K: "kinv b s L" and cur: "rt_current_thread s = Some t"
    and st: "th_stat (threads s t) = RT_THREAD_READY" and oth: "other_ready L t"
    and tk: "unat tick \<le> longest_timeout" "0 < tick"
  shows "\<exists>s' L' to. rt_thread_delay tick s = Some (RT_EOK, s') \<and> kinv b s' L' \<and>
    (\<forall>h u. queued L' h u \<longleftrightarrow> queued L h u \<and> u \<noteq> t) \<and>
    th_stat (threads s' t) = RT_THREAD_SUSPEND \<and> armed L' (Thread_Timer t) \<and>
    tm_timeout_tick (timers s' (Thread_Timer t)) = rt_tick s + tick \<and>
    highest_ready L' to \<and> (rt_scheduler_lock_nest s = 0 \<longrightarrow> rt_current_thread s' = Some to)"
  using rt_thread_delay_sleeps [OF assms] by blast

theorem rt_thread_delay_puts_to_sleep_witness:
  "\<exists>s s' t. rt_thread_delay 10 s = Some (RT_EOK, s') \<and> th_stat (threads s t) = RT_THREAD_READY \<and>
     th_stat (threads s' t) = RT_THREAD_SUSPEND \<and> tm_timeout_tick (timers s' (Thread_Timer t)) = 10"
proof -
  obtain s L t where "sample 0 0 s L t" using sample_exists by blast
  then show ?thesis
    using rt_thread_delay_puts_to_sleep [of 0 s L t 10] by (auto simp: sample_def longest_timeout_def)
qed

text \<open>
  C23. Yielding rotates the ready list of the running thread's priority: the thread goes to the
  end, the one behind it runs (the thread itself if it is alone), and no other list changes.
\<close>

theorem rt_thread_yield_rotates:
  assumes K: "kinv b s L" and cur: "rt_current_thread s = Some t"
    and h: "L (Prio_Node p) = Some (Tlist t # xs)" "\<forall>q<p. L (Prio_Node q) = Some []"
  shows "\<exists>s' L' u. rt_thread_yield s = Some (RT_EOK, s') \<and> kinv b s' L' \<and>
    L' (Prio_Node p) = Some (xs @ [Tlist t]) \<and> (\<forall>g v. g \<noteq> Prio_Node p \<longrightarrow> queued L' g v = queued L g v) \<and>
    hd (xs @ [Tlist t]) = Tlist u \<and> (rt_scheduler_lock_nest s = 0 \<longrightarrow> rt_current_thread s' = Some u)"
proof -
  note lay = kinvD(1) [OF K]
  have q: "queued L (Prio_Node p) t" using h(1) by (auto simp: queued_def)
  have t: "linked L (Tlist t)" using kinvD(8) [OF K cur] .
  have st: "th_stat (threads s t) = RT_THREAD_READY" and p: "p = prio_of t s" "p < 32"
    using kinvD(4) [OF K t] q by (auto simp: thread_ok_def)
  show ?thesis
  proof (cases "xs = []")
    case True
    have "nxt s (Tlist t) = Some (Prio_Node p)" "prv s (Tlist t) = Some (Prio_Node p)"
      using ring_neighbours [OF ringsD [OF lay_rings [OF lay]], of "Prio_Node p" "[Tlist t]" "[]"]
        ring_neighbours [OF ringsD [OF lay_rings [OF lay]], of "Prio_Node p" "[]" "[Tlist t]"] h(1) True by auto
    then have "rt_thread_yield s = Some (RT_EOK, s)" by (intro rt_thread_yield_alone [OF K cur]) simp
    then show ?thesis using True h K cur by (intro exI [of _ s] exI [of _ L] exI [of _ t]) simp
  next
    case False
    let ?L = "to_tail (Prio_Node p) (Tlist t) L"
    have d: "distinct (Prio_Node p # Tlist t # xs)" using lay_distinct [OF lay h(1)] .
    have "nxt s (Tlist t) = Some (hd (xs @ [Prio_Node p]))" "prv s (Tlist t) = Some (Prio_Node p)"
      using ring_neighbours [OF ringsD [OF lay_rings [OF lay]], of "Prio_Node p" "[Tlist t]" xs]
        ring_neighbours [OF ringsD [OF lay_rings [OF lay]], of "Prio_Node p" "[]" "Tlist t # xs"] h(1) by auto
    moreover have "hd (xs @ [Prio_Node p]) \<noteq> Prio_Node p" using False d by (cases xs) auto
    ultimately have nb: "nxt s (Tlist t) \<noteq> prv s (Tlist t)" by simp
    obtain to nx pv where r: "highest_ready ?L to" "rt_thread_yield s = Some (RT_EOK, (switched to s)\<lparr>nxt := nx, prv := pv\<rparr>)"
      "kinv b ((switched to s)\<lparr>nxt := nx, prv := pv\<rparr>) ?L"
      using rt_thread_yield_kinv [OF K cur st nb] p(1) by (auto simp: keeps_def)
    have L': "?L (Prio_Node p) = Some (xs @ [Tlist t])" using h(1) by (simp add: to_tail_def)
    have qs: "queued ?L g v = queued L g v" if "g \<noteq> Prio_Node p" for g v
      using queued_to_tail [OF lay t h(1), of g v] that q kinvD(4) [OF K t] st
      by (cases "v = t") (auto simp: queued_def dest: rings_unique [OF lay_rings [OF lay]])
    have "?L (Prio_Node i) = Some []" if "i < p" for i
      using h(2) that by (simp add: to_tail_other)
    moreover obtain u where u: "hd (xs @ [Tlist t]) = Tlist u"
      using thread_list [OF lay h(1)] False by (cases xs) auto
    ultimately have "highest_ready ?L u"
      unfolding highest_ready_def using L' False p(2)
      by (intro exI [of _ p]) (cases xs; simp)
    then have "to = u" using highest_ready_unique r(1) by blast
    then show ?thesis using r L' qs u by (intro exI [of _ "(switched to s)\<lparr>nxt := nx, prv := pv\<rparr>"] exI [of _ ?L]) auto
  qed
qed

theorem rt_thread_yield_rotates_witness:
  "\<exists>s s' L L' p t xs. kinv 0 s L \<and> L (Prio_Node p) = Some (Tlist t # xs) \<and>
     rt_thread_yield s = Some (RT_EOK, s') \<and> L' (Prio_Node p) = Some (xs @ [Tlist t]) \<and> kinv 0 s' L'"
proof -
  obtain s L t where s: "sample 0 0 s L t" using sample_exists by blast
  then obtain p xs where "L (Prio_Node p) = Some (Tlist t # xs)" "\<forall>q<p. L (Prio_Node q) = Some []"
    by (auto simp: sample_def highest_ready_def)
  with s show ?thesis using rt_thread_yield_rotates [of 0 s L t p xs] unfolding sample_def by blast
qed

text \<open>
  Starting a thread puts it at the end of the ready list of its priority and marks it
  ready; if a thread runs already, the most urgent ready thread runs afterwards.
\<close>

theorem rt_thread_startup_makes_ready:
  assumes K: "kinv b s L" and t: "linked L (Tlist t)" and st: "th_stat (threads s t) \<noteq> RT_THREAD_READY"
  shows "\<exists>s' L' to. rt_thread_startup t s = Some (RT_EOK, s') \<and> kinv b s' L' \<and>
    th_stat (threads s' t) = RT_THREAD_READY \<and>
    L' (Prio_Node (prio_of t s)) = Some (the (L (Prio_Node (prio_of t s))) @ [Tlist t]) \<and>
    highest_ready L' to \<and>
    rt_current_thread s' = (if rt_current_thread s = None \<or> rt_scheduler_lock_nest s \<noteq> 0
      then rt_current_thread s else Some to)"
proof -
  let ?p = "Prio_Node (prio_of t s)" and ?s = "made_ready t (prepared t s)"
  obtain to nx pv where r: "highest_ready (to_tail ?p (Tlist t) L) to"
    "rt_thread_startup t s = Some (RT_EOK, (if rt_current_thread s = None then ?s else switched to ?s)\<lparr>nxt := nx, prv := pv\<rparr>)"
    "kinv b ((if rt_current_thread s = None then ?s else switched to ?s)\<lparr>nxt := nx, prv := pv\<rparr>) (to_tail ?p (Tlist t) L)"
    using rt_thread_startup_kinv [OF K t st] by (auto simp: keeps_def)
  have T: "thread_ok s L t" using kinvD(4) [OF K t] .
  then obtain ys where ys: "L ?p = Some ys" using own_list [OF K t] by blast
  have "\<not> queued L ?p t" using T st by (auto simp: thread_ok_def)
  then have "Tlist t \<notin> set ys" using ys by (auto simp: queued_def)
  then have "to_tail ?p (Tlist t) L ?p = Some (the (L ?p) @ [Tlist t])" using ys
    by (simp add: to_tail_def remove1_idem)
  then show ?thesis using r
    by (intro exI [of _ "(if rt_current_thread s = None then ?s else switched to ?s)\<lparr>nxt := nx, prv := pv\<rparr>"]
        exI [of _ "to_tail ?p (Tlist t) L"] exI [of _ to]) (auto simp: made_ready_def prepared_def)
qed

theorem rt_thread_startup_makes_ready_witness:
  "\<exists>s s' t. rt_thread_startup t s = Some (RT_EOK, s') \<and> th_stat (threads s t) = RT_THREAD_SUSPEND \<and>
     th_stat (threads s' t) = RT_THREAD_READY"
proof -
  obtain s L t where s: "sample_waiting s L t" using sample_waiting_exists by blast
  have "linked L (Tlist t)" by (rule linkedI [where h = "Suspend 0" and xs = "[Tlist t]"])
    (use s in \<open>auto simp: sample_waiting_def\<close>)
  with s show ?thesis using rt_thread_startup_makes_ready [of 0 s L t] by (auto simp: sample_waiting_def)
qed

text \<open>
  C26. Detaching a statically created thread removes it from everything: afterwards no ready or
  waiting list holds it, its timer is not armed, its headers are in no object list, and the
  invariant still holds.
\<close>

theorem rt_thread_detach_removes:
  assumes K: "kinv b s L" and t: "linked L (Tlist t)"
    and stc: "rt_object_is_systemobject (Thread_Obj t) s" "th_cleanup (threads s t) = 0"
  shows "\<exists>s' L'. rt_thread_detach t s = Some (RT_EOK, s') \<and> kinv b s' L' \<and>
    (\<forall>h u. queued L' h u \<longleftrightarrow> queued L h u \<and> u \<noteq> t) \<and> (\<forall>r. armed L' r \<longleftrightarrow> armed L r \<and> r \<noteq> Thread_Timer t) \<and>
    L' (Obj_List (Thread_Obj t)) = Some [] \<and> th_stat (threads s' t) = RT_THREAD_CLOSE"
proof -
  note lay = kinvD(1) [OF K]
  have T: "thread_ok s L t" using kinvD(4) [OF K t] .
  then obtain xs where xs: "L (Prio_Node (prio_of t s)) = Some xs"
    using own_list [OF K t] by blast
  have l: "linked L (Row (Thread_Timer t))" "linked L (Obj_List (Thread_Obj t))"
    "linked L (Obj_List (Timer_Obj (Thread_Timer t)))"
    using T kinvD(5) [OF K, of "Thread_Timer t"] by (auto simp: thread_ok_def timer_ok_def)
  obtain n1 p1 where l1: "lay n1 p1 (unlink (Tlist t) L)" using unlink_lay [OF lay _ t] by auto
  note k1 = linked_unlink_leaf [OF lay leaf_simps(1) t]
  obtain n2 p2 where l2: "lay n2 p2 (unlink (Row (Thread_Timer t)) (unlink (Tlist t) L))"
    using unlink_lay [OF l1] k1 l(1) by (metis leaf_simps(2))
  note k2 = linked_unlink_leaf [OF l1 leaf_simps(2), of "Thread_Timer t"]
  obtain n3 p3 where l3: "lay n3 p3 (unlink (Obj_List (Timer_Obj (Thread_Timer t)))
      (unlink (Row (Thread_Timer t)) (unlink (Tlist t) L)))"
    using unlink_lay [OF l2] k1 k2 l by (metis leaf_simps(3))
  have m: "queued (detached_layout t L) h u \<longleftrightarrow> queued L h u \<and> u \<noteq> t"
    "armed (detached_layout t L) r \<longleftrightarrow> armed L r \<and> r \<noteq> Thread_Timer t" for h u r
    unfolding detached_layout_def
    using queued_unlink [OF l3] queued_unlink [OF l2] queued_unlink [OF l1] queued_unlink [OF lay]
      armed_unlink [OF l3] armed_unlink [OF l2] armed_unlink [OF l1] armed_unlink [OF lay] by auto
  have "detached_layout t L (Obj_List (Thread_Obj t)) = Some []" by (simp add: detached_layout_def)
  moreover define s' where
    "s' = detached t (th_stat (threads s t) \<noteq> RT_THREAD_INIT \<and> remove1 (Tlist t) xs = []) s"
  moreover obtain nx pv where "rt_thread_detach t s = Some (RT_EOK, s'\<lparr>nxt := nx, prv := pv\<rparr>)"
    "kinv b (s'\<lparr>nxt := nx, prv := pv\<rparr>) (detached_layout t L)"
    using rt_thread_detach_kinv [OF K t xs stc] by (auto simp: keeps_def s'_def)
  ultimately show ?thesis using m
    by (intro exI [of _ "s'\<lparr>nxt := nx, prv := pv\<rparr>"] exI [of _ "detached_layout t L"])
       (simp add: detached_def made_unready_def)
qed

theorem rt_thread_detach_removes_witness:
  "\<exists>s s' L t. kinv 0 s L \<and> rt_thread_detach t s = Some (RT_EOK, s') \<and> th_stat (threads s t) = RT_THREAD_READY \<and>
     th_stat (threads s' t) = RT_THREAD_CLOSE"
proof -
  obtain s L t where s: "sample 0 0 s L t" using sample_exists by blast
  let ?s = "upd_object (Thread_Obj t) (\<lambda>h. h\<lparr>ob_type := RT_Object_Class_Static\<rparr>) (upd_thread t (\<lambda>th. th\<lparr>th_cleanup := 0\<rparr>) s)"
  have K: "kinv 0 ?s L" by (rule kinv_frame [of 0 s L]) (use s in \<open>auto simp: sample_def\<close>)
  have t: "linked L (Tlist t)" using s by (auto simp: sample_def dest: kinvD(8))
  have "th_stat (threads ?s t) = RT_THREAD_READY" using s by (simp add: sample_def)
  moreover have "rt_object_is_systemobject (Thread_Obj t) ?s" "th_cleanup (threads ?s t) = 0"
    by (simp_all add: rt_object_is_systemobject_def)
  then obtain s' L' where "rt_thread_detach t ?s = Some (RT_EOK, s')" "th_stat (threads s' t) = RT_THREAD_CLOSE"
    using rt_thread_detach_removes [OF K t] by metis
  ultimately show ?thesis using K by blast
qed



section \<open>Timers\<close>

text \<open>
  C9. Starting a timer keeps the timer list in the order in which the timers run out, although
  ticks wrap around: the timer is taken from wherever it was and entered behind all timers that
  run out no later, and everything else stays.
\<close>

theorem rt_timer_start_keeps_order:
  assumes K: "kinv b s L" and r: "linked L (Row r)"
    and th: "\<And>t. r = Thread_Timer t \<Longrightarrow> th_stat (threads s t) \<in> {RT_THREAD_READY, RT_THREAD_SUSPEND}"
    and rs: "L Timer_List_Node = Some (map Row rs)"
  shows "\<exists>s' L'. rt_timer_start r s = Some (RT_EOK, s') \<and> kinv b s' L' \<and>
    L' Timer_List_Node = Some (map Row (timer_insert b (timers s') r (remove1 r rs))) \<and>
    timers_sorted b (timers s') (timer_insert b (timers s') r (remove1 r rs)) \<and>
    tm_timeout_tick (timers s' r) = rt_tick s + tm_init_tick (timers s r) \<and>
    (\<forall>h u. queued L' h u = queued L h u)"
proof -
  obtain nx pv where st: "rt_timer_start r s = Some (RT_EOK, (timer_started r s)\<lparr>nxt := nx, prv := pv\<rparr>)"
    "kinv b ((timer_started r s)\<lparr>nxt := nx, prv := pv\<rparr>) (started_layout b r s L)"
    using rt_timer_start_kinv [OF K r th] by (auto simp: keeps_def)
  let ?s = "(timer_started r s)\<lparr>nxt := nx, prv := pv\<rparr>" and ?rs = "timer_insert b (rearmed r s) r (remove1 r rs)"
  have f: "timers ?s = rearmed r s" by (simp add: timer_started_def)
  obtain us vs where "started_layout b r s L Timer_List_Node = Some (map Row ?rs)"
    using rs by (simp add: started_layout_def inj_map_eq_map inj_def)
  moreover have "timers_sorted b (rearmed r s) ?rs"
    using kinvD(6) [OF st(2)] calculation unfolding list_ok_def f by (auto simp: inj_map_eq_map inj_def)
  moreover have "tm_timeout_tick (rearmed r s r) = rt_tick s + tm_init_tick (timers s r)" by (simp add: rearmed_def)
  ultimately show ?thesis
    using st started_layout_members(1) [OF K r]
    by (intro exI [of _ ?s] exI [of _ "started_layout b r s L"]) (simp add: f)
qed

theorem rt_timer_start_keeps_order_witness:
  "\<exists>s s' L' t rs. rt_timer_start (Thread_Timer t) s = Some (RT_EOK, s') \<and> kinv 0 s' L' \<and>
     L' Timer_List_Node = Some (map Row rs) \<and> Thread_Timer t \<in> set rs \<and> timers_sorted 0 (timers s') rs"
proof -
  obtain s L t where s: "sample 0 0 s L t" using sample_exists by blast
  then have K: "kinv 0 s L" and t: "linked L (Tlist t)" and st: "th_stat (threads s t) = RT_THREAD_READY"
    by (auto simp: sample_def dest: kinvD(8))
  have r: "linked L (Row (Thread_Timer t))" using kinvD(4) [OF K t] by (simp add: thread_ok_def)
  obtain rs where rs: "L Timer_List_Node = Some (map Row rs)" using kinvD(6) [OF K] by (auto simp: list_ok_def)
  obtain s' L' where "rt_timer_start (Thread_Timer t) s = Some (RT_EOK, s')" "kinv 0 s' L'"
    "L' Timer_List_Node = Some (map Row (timer_insert 0 (timers s') (Thread_Timer t) (remove1 (Thread_Timer t) rs)))"
    "timers_sorted 0 (timers s') (timer_insert 0 (timers s') (Thread_Timer t) (remove1 (Thread_Timer t) rs))"
    using rt_timer_start_keeps_order [OF K r _ rs] st by auto
  moreover have "Thread_Timer t \<in> set (timer_insert 0 (timers s') (Thread_Timer t) (remove1 (Thread_Timer t) rs))" for s' :: kernel
    by simp
  ultimately show ?thesis by blast
qed

section \<open>The kernel service functions\<close>

text \<open>
  C24. \<open>__rt_ffs\<close>, the table-driven search for the lowest set bit, is right on every word: 0 for
  0, and otherwise one more than the index of a set bit below which none is set.
\<close>

theorem rt_ffs_finds_lowest_bit:
  "rt_ffs v = 0 \<and> v = 0 \<or>
   0 < unat (rt_ffs v) \<and> unat (rt_ffs v) \<le> 32 \<and> bit v (unat (rt_ffs v) - 1) \<and>
     {i. i < unat (rt_ffs v) - 1 \<and> bit v i} = {}"
  using rt_ffs_nonzero [of v] by (cases "v = 0") (auto simp: rt_ffs_zero lowest_set_def)

text \<open>
  \<open>rt_strncpy\<close> writes exactly \<open>n\<close> bytes: the string up to its end or \<open>n\<close> bytes of it,
  filled up with zeros; the rest of the destination stays. It reads no byte behind the
  terminator and needs \<open>n\<close> bytes of room.
\<close>

theorem rt_strncpy_copies_and_pads:
  assumes "unat n \<le> length dst" and "unat n \<le> length src \<or> 0 \<in> set src"
  shows "rt_strncpy dst src n = Some (padded (unat n) src @ drop (unat n) dst)"
  using assms by (rule rt_strncpy_eq)

theorem rt_strncpy_copies_and_pads_witness:
  "rt_strncpy [9, 9, 9, 9, 9, 9] [65, 66, 0, 7] 5 = Some [65, 66, 0, 0, 0, 9]"
proof -
  have "rt_strncpy [9, 9, 9, 9, 9, 9] [65, 66, 0, 7] 5 = Some (padded (unat (5 :: u32)) [65, 66, 0, 7] @ drop (unat (5 :: u32)) [9, 9, 9, 9, 9, 9])"
    by (rule rt_strncpy_copies_and_pads) simp_all
  moreover have "unat (5 :: u32) = 5" by simp
  moreover have "padded 5 [65, 66, 0, 7] @ drop 5 [9, 9, 9, 9, 9, 9] = [65, 66, 0, 0, 0, 9]" by code_simp
  ultimately show ?thesis by metis
qed

section \<open>The port\<close>

text \<open>
  The stack of a new thread is what the context switch and the exception return expect:
  \<open>rt_hw_stack_init\<close> returns an address aligned to 8, at which 16 words stand ready, the
  parameter for \<open>r0\<close>, the entry for \<open>pc\<close> and the Thumb bit for \<open>psr\<close> among them, and touches no
  other word.
\<close>

theorem rt_hw_stack_init_prepares_frame:
  "\<exists>stk m'. rt_hw_stack_init tentry parameter stack_addr m = (stk, m') \<and> unat stk mod 8 = 0 \<and>
     stk + 64 = RT_ALIGN_DOWN (stack_addr + 4) 8 \<and> unat (RT_ALIGN_DOWN (stack_addr + 4) 8) \<le> unat (stack_addr + 4) \<and>
     load_words stk 16 m' = replicate 8 0xdeadbeef @ [parameter, 0, 0, 0, 0, 0, tentry, 0x01000000] \<and>
     {x. m' x \<noteq> m x} \<subseteq> words_at stk 16"
proof -
  let ?a = "RT_ALIGN_DOWN (stack_addr + 4) 8" and ?f = "initial_frame tentry parameter"
  let ?stk = "?a - 64"
  have "unat (?stk + 64) = (unat ?stk + unat (64 :: u32)) mod 2 ^ 32"
    using unat_word_ariths(1) [of ?stk 64] by simp
  then have "unat ?a mod 8 = (unat ?stk + 64) mod 8" by (simp add: mod_mod_cancel)
  moreover have "unat ?a mod 8 = 0" unfolding align_down_8 by (simp add: mod_eq_0_iff_dvd)
  ultimately have m: "unat ?stk mod 8 = 0" by presburger
  have l: "length ?f = 16" by (simp add: initial_frame_def)
  have "load_words ?stk 16 (store_words ?stk ?f m) = ?f" using load_store_words [of ?f ?stk m] l by simp
  moreover have "{x. store_words ?stk ?f m x \<noteq> m x} \<subseteq> words_at ?stk 16"
    using store_words_outside [of _ ?stk ?f m] l by auto
  moreover have "unat ?a \<le> unat (stack_addr + 4)" unfolding align_down_8 by simp
  ultimately show ?thesis using m unfolding rt_hw_stack_init_frame Let_def initial_frame_def [symmetric] by auto
qed

text \<open>The frame that a switch saved for \<open>f\<close> is still there.\<close>

definition frame_kept :: "nat \<Rightarrow> kernel \<Rightarrow> kernel \<Rightarrow> bool" where
  "frame_kept f s s' \<longleftrightarrow> th_sp (threads s' f) = th_sp (threads s f) \<and>
     load_words (th_sp (threads s f)) 8 (memory s') = load_words (th_sp (threads s f)) 8 (memory s)"

text \<open>
  C25. A context switch loses nothing: switch from thread \<open>f\<close> to \<open>t\<close>, let \<open>t\<close> run in whatever way
  leaves the frame saved for \<open>f\<close> alone, and switch back. The callee-saved registers and the
  stack pointer are again those \<open>f\<close> had, and the interrupt mask is restored.
\<close>

theorem context_switch_round_trip:
  assumes "rt_thread_switch_interrupt_flag s = 0" and "length (r4_r11 s) = 8" and "f \<noteq> t"
    and sw: "PendSV_Handler (rt_hw_context_switch f t s) = Some s1"
    and run: "frame_kept f s1 s2" "rt_thread_switch_interrupt_flag s2 = 0" "length (r4_r11 s2) = 8"
    and dj: "words_at (psp s - 32) 8 \<inter> words_at (psp s2 - 32) 8 = {}"
  shows "\<exists>s3. PendSV_Handler (rt_hw_context_switch t f s2) = Some s3 \<and> r4_r11 s3 = r4_r11 s \<and> psp s3 = psp s \<and>
     primask s3 = primask s2 \<and> rt_thread_switch_interrupt_flag s3 = 0"
proof -
  let ?a = "psp s - 32"
  have s1: "th_sp (threads s1 f) = ?a" "memory s1 = store_words ?a (r4_r11 s) (memory s)"
    using assms(1,3) sw by (auto simp: PendSV_Handler_def rt_hw_context_switch_def switch_to_thread_def Let_def)
  have ld: "load_words ?a 8 (memory s1) = r4_r11 s"
    using load_store_words [of "r4_r11 s" ?a "memory s"] assms(2) by (simp add: s1)
  have "load_words ?a 8 (store_words (psp s2 - 32) (r4_r11 s2) (memory s2)) = r4_r11 s"
    using load_words_outside [of ?a 8 "psp s2 - 32" "r4_r11 s2" "memory s2"] dj run ld
    by (simp add: frame_kept_def s1)
  then show ?thesis using run assms(3)
    by (simp add: PendSV_Handler_def rt_hw_context_switch_def switch_to_thread_def Let_def frame_kept_def s1)
qed

theorem context_switch_round_trip_witness:
  "\<exists>s s1 s3. PendSV_Handler (rt_hw_context_switch 0 1 s) = Some s1 \<and> psp s = 0x1000 \<and>
     PendSV_Handler (rt_hw_context_switch 1 0 (s1\<lparr>psp := 0x2000, r4_r11 := replicate 8 7\<rparr>)) = Some s3 \<and>
     r4_r11 s3 = [1, 2, 3, 4, 5, 6, 7, 8] \<and> psp s3 = 0x1000"
proof -
  let ?s = "boot\<lparr>psp := 0x1000, r4_r11 := [1, 2, 3, 4, 5, 6, 7, 8]\<rparr>"
  have f0: "rt_thread_switch_interrupt_flag ?s = 0" by (simp add: boot_def boot_with_def)
  then obtain s1 where s1: "PendSV_Handler (rt_hw_context_switch 0 1 ?s) = Some s1" "rt_thread_switch_interrupt_flag s1 = 0"
    by (simp add: PendSV_Handler_def rt_hw_context_switch_def switch_to_thread_def Let_def)
  let ?s2 = "s1\<lparr>psp := 0x2000, r4_r11 := replicate 8 7\<rparr>"
  have "words_at 4064 8 \<inter> words_at (4064 + 4 * of_nat 1024) 8 = {}"
    by (rule words_at_disjoint) simp_all
  then have "words_at (0x1000 - 32) 8 \<inter> words_at (0x2000 - 32) 8 = {}" by simp
  then obtain s3 where "PendSV_Handler (rt_hw_context_switch 1 0 ?s2) = Some s3" "r4_r11 s3 = r4_r11 ?s" "psp s3 = psp ?s"
    using context_switch_round_trip [OF f0 _ _ s1(1), of ?s2] s1(2) by (auto simp: frame_kept_def)
  then show ?thesis using s1(1) by (intro exI [of _ ?s] exI [of _ s1] exI [of _ s3]) simp
qed

section \<open>The scheduler lock\<close>

text \<open>
  The scheduler lock nests: leaving a critical section that was entered inside another one
  changes nothing; leaving the outermost one is exactly a call of the scheduler (nothing, when
  no thread runs yet); inside, a call of the scheduler does not switch threads.
\<close>

theorem rt_critical_section_nests:
  assumes "0 \<le> sint (rt_scheduler_lock_nest s)" and "sint (rt_scheduler_lock_nest s) < 255"
  shows "rt_exit_critical (rt_enter_critical s) =
      (if rt_scheduler_lock_nest s = 0 \<and> rt_current_thread s \<noteq> None then rt_schedule s else Some s) \<and>
    (\<forall>s'. rt_schedule (rt_enter_critical s) = Some s' \<longrightarrow> s' = rt_enter_critical s)"
proof -
  let ?n = "rt_scheduler_lock_nest s"
  have e: "rt_enter_critical s = s\<lparr>rt_scheduler_lock_nest := ?n + 1\<rparr>"
    using assms(2) by (simp add: rt_enter_critical_def hw_defs)
  have z: "sint ?n \<le> 0 \<longleftrightarrow> ?n = 0" using assms(1) by (metis order_antisym_conv signed_0 sint_0 signed_eq_0_iff)
  have "rt_schedule (s\<lparr>rt_scheduler_lock_nest := 0\<rparr>) = rt_schedule s" if "?n = 0"
    by (rule arg_cong [where f = rt_schedule]) (use that in simp)
  then have x: "rt_exit_critical (rt_enter_critical s) =
      (if ?n = 0 \<and> rt_current_thread s \<noteq> None then rt_schedule s else Some s)"
    unfolding e by (cases "?n = 0") (simp_all add: rt_exit_critical_def hw_defs z Let_def)
  have "?n + 1 \<noteq> 0"
  proof
    assume "?n + 1 = 0"
    then have "?n = - 1" by (simp add: eq_neg_iff_add_eq_0)
    then show False using assms(1) by simp
  qed
  then have "s' = rt_enter_critical s" if "rt_schedule (rt_enter_critical s) = Some s'" for s'
    using that unfolding e by (auto simp: rt_schedule_def hw_defs elim!: bind_SomeE split: option.splits Option.bind_splits)
  then show ?thesis using x by blast
qed

theorem rt_critical_section_nests_witness:
  "rt_exit_critical (rt_enter_critical (boot\<lparr>rt_scheduler_lock_nest := 3\<rparr>)) = Some (boot\<lparr>rt_scheduler_lock_nest := 3\<rparr>)"
  using rt_critical_section_nests [of "boot\<lparr>rt_scheduler_lock_nest := 3\<rparr>"] by simp

section \<open>Lists\<close>

text \<open>
  C29. The list operations on a store whose links form rings: \<open>rt_list_len\<close> counts the nodes
  (modulo 32 bits), \<open>rt_list_isempty\<close> recognises the empty ring, and the move that the kernel
  makes everywhere, \<open>rt_list_remove\<close> followed by \<open>rt_list_insert_before\<close> at a head, takes the
  node from whatever list holds it to the end of the other list; the links form rings again
  and nothing but links has changed.
\<close>

theorem rt_list_operations_move:
  assumes "holds_rings s L" and "movable L n" and "L h = Some xs" and "h \<noteq> n"
  shows "rt_list_len h s = Some (of_nat (length xs)) \<and> (rt_list_isempty h s \<longleftrightarrow> xs = []) \<and>
    (\<exists>s' s''. rt_list_remove n s = Some s' \<and> rt_list_insert_before h n s' = Some s'' \<and>
       holds_rings s'' (put_list h (remove1 n xs @ [n]) n (unlink n L)) \<and> links_only s s'')"
proof -
  have R: "rings (nxt s) (prv s) L" using assms(1) by (simp add: holds_rings_def)
  have "rt_list_len h s = Some (of_nat (length xs))"
    using rt_list_len_loop_ring [of s h "[]" xs 0] ringsD [OF R assms(3)] by (simp add: rt_list_len_def)
  then show ?thesis
    using rings_isempty [OF R assms(3)] rt_list.move_to_tail [OF assms] by simp
qed

theorem rt_list_operations_move_witness:
  "\<exists>(s :: nat lstore) s' s''. rt_list_len 0 s = Some 2 \<and> rt_list_remove 1 s = Some s' \<and>
     rt_list_insert_before 0 1 s' = Some s'' \<and> nxt s'' 0 = Some 2 \<and> nxt s'' 2 = Some 1"
proof -
  let ?nx = "[0 \<mapsto> 1, 1 \<mapsto> 2, 2 \<mapsto> 0] :: nat \<Rightarrow> nat option" and ?pv = "[0 \<mapsto> 2, 2 \<mapsto> 1, 1 \<mapsto> 0] :: nat \<Rightarrow> nat option"
  let ?s = "\<lparr>nxt = ?nx, prv = ?pv\<rparr> :: nat lstore" and ?L = "[0 \<mapsto> [1, 2]] :: nat layout"
  have h: "holds_rings ?s ?L" by (auto simp: holds_rings_def rings_def ring_def split: if_splits)
  have m: "movable ?L 1" by (auto simp: movable_def linked_def)
  obtain s' s'' where r: "rt_list_remove 1 ?s = Some s'" "rt_list_insert_before 0 1 s' = Some s''"
    "holds_rings s'' (put_list 0 [2, 1] 1 (unlink 1 ?L))" "rt_list_len 0 ?s = Some 2"
    using rt_list_operations_move [OF h m, of 0 "[1, 2]"] by auto
  have "ring (nxt s'') (prv s'') 0 [2, 1]" using r(3) by (auto simp: holds_rings_def intro: ringsD)
  then show ?thesis using r by (intro exI [of _ ?s] exI [of _ s'] exI [of _ s'']) (simp add: ring_def)
qed

end
