(* ===== verification/Demo.thy ===== *)
theory Demo
  imports System
begin

text \<open>
  The demonstration of \<open>User/main.c\<close>: the endless entry functions of the four threads that \<open>main\<close> starts, on
  the model of the kernel. A thread is at a statement of its function; the thread that runs is
  \<open>rt_current_thread\<close>, and a call of a service that switches returns when the caller is next switched to.
  The clock interrupt comes between any two statements. The C statements that read and write a variable
  that threads share are two steps each.
\<close>

section \<open>The variables and the places in the code\<close>

datatype flag1_at = Set_Flag1 | Resume_Thread3 | Enter1 | Read_Counter | Count_Var | Delay_Locked | Write_Counter
  | Exit1 | Resume_Thread3_Again | Clear_Flag1 | Delay1

datatype flag2_at = Set_Flag2 | Enter2 | Load_Counter | Store_Counter | Exit2 | Test_Counter | Detach_Thread4
  | Delay2 | Clear_Flag2 | Delay2_Again

datatype flag3_at = Set_Flag3 | Suspend3 | Clear_Flag3 | Suspend3_Again | Get_Info

datatype flag4_at = Set_Flag4 | Delay4 | Clear_Flag4 | Delay4_Again

record demo =
  kern :: kernel
  flag1 :: u32
  flag2 :: u32
  flag3 :: u32
  flag4 :: u32
  sharecounter :: u32
  thread_info3 :: thread_info
  var_1 :: u32
  load_2 :: u32
  count_4 :: u32
  at_1 :: flag1_at
  at_2 :: flag2_at
  at_3 :: flag3_at
  at_4 :: flag4_at

section \<open>The threads\<close>

text \<open>A call of a service, then the next statement\<close>

definition call :: "demo \<Rightarrow> (rt_err \<times> kernel) option \<Rightarrow> demo option" where
  "call d m = map_option (\<lambda>(_, s). d\<lparr>kern := s\<rparr>) m"

definition flag1_thread_entry :: "demo \<Rightarrow> demo option" where
  "flag1_thread_entry d = (case at_1 d of
     Set_Flag1 \<Rightarrow> Some (d\<lparr>flag1 := 1, at_1 := Resume_Thread3\<rparr>)
   | Resume_Thread3 \<Rightarrow> call (d\<lparr>at_1 := Enter1\<rparr>) (rt_thread_resume 3 (kern d))
   | Enter1 \<Rightarrow> Some (d\<lparr>kern := rt_enter_critical (kern d), at_1 := Read_Counter\<rparr>)
   | Read_Counter \<Rightarrow> Some (d\<lparr>var_1 := sharecounter d, at_1 := Count_Var\<rparr>)
   | Count_Var \<Rightarrow> Some (d\<lparr>var_1 := var_1 d + 1, at_1 := Delay_Locked\<rparr>)
   | Delay_Locked \<Rightarrow> call (d\<lparr>at_1 := Write_Counter\<rparr>) (rt_thread_delay 100 (kern d))
   | Write_Counter \<Rightarrow> Some (d\<lparr>sharecounter := var_1 d, at_1 := Exit1\<rparr>)
   | Exit1 \<Rightarrow> map_option (\<lambda>s. d\<lparr>kern := s, at_1 := Resume_Thread3_Again\<rparr>) (rt_exit_critical (kern d))
   | Resume_Thread3_Again \<Rightarrow> call (d\<lparr>at_1 := Clear_Flag1\<rparr>) (rt_thread_resume 3 (kern d))
   | Clear_Flag1 \<Rightarrow> Some (d\<lparr>flag1 := 0, at_1 := Delay1\<rparr>)
   | Delay1 \<Rightarrow> call (d\<lparr>at_1 := Set_Flag1\<rparr>) (rt_thread_delay 100 (kern d)))"

definition flag2_thread_entry :: "demo \<Rightarrow> demo option" where
  "flag2_thread_entry d = (case at_2 d of
     Set_Flag2 \<Rightarrow> Some (d\<lparr>flag2 := 1, at_2 := Enter2\<rparr>)
   | Enter2 \<Rightarrow> Some (d\<lparr>kern := rt_enter_critical (kern d), at_2 := Load_Counter\<rparr>)
   | Load_Counter \<Rightarrow> Some (d\<lparr>load_2 := sharecounter d, at_2 := Store_Counter\<rparr>)
   | Store_Counter \<Rightarrow> Some (d\<lparr>sharecounter := load_2 d + 1, at_2 := Exit2\<rparr>)
   | Exit2 \<Rightarrow> map_option (\<lambda>s. d\<lparr>kern := s, at_2 := Test_Counter\<rparr>) (rt_exit_critical (kern d))
   | Test_Counter \<Rightarrow> Some (d\<lparr>at_2 := (if sharecounter d = 0xf then Detach_Thread4 else Delay2)\<rparr>)
   | Detach_Thread4 \<Rightarrow> call (d\<lparr>at_2 := Delay2\<rparr>) (rt_thread_detach 4 (kern d))
   | Delay2 \<Rightarrow> call (d\<lparr>at_2 := Clear_Flag2\<rparr>) (rt_thread_delay 10 (kern d))
   | Clear_Flag2 \<Rightarrow> Some (d\<lparr>flag2 := 0, at_2 := Delay2_Again\<rparr>)
   | Delay2_Again \<Rightarrow> call (d\<lparr>at_2 := Set_Flag2\<rparr>) (rt_thread_delay 10 (kern d)))"

definition flag3_thread_entry :: "demo \<Rightarrow> demo option" where
  "flag3_thread_entry d = (case at_3 d of
     Set_Flag3 \<Rightarrow> Some (d\<lparr>flag3 := 1, at_3 := Suspend3\<rparr>)
   | Suspend3 \<Rightarrow> call (d\<lparr>at_3 := Clear_Flag3\<rparr>) (rt_thread_suspend 3 (kern d))
   | Clear_Flag3 \<Rightarrow> Some (d\<lparr>flag3 := 0, at_3 := Suspend3_Again\<rparr>)
   | Suspend3_Again \<Rightarrow> call (d\<lparr>at_3 := Get_Info\<rparr>) (rt_thread_suspend 3 (kern d))
   | Get_Info \<Rightarrow> Some (d\<lparr>thread_info3 := rt_thread_getinfo 3 (kern d), at_3 := Set_Flag3\<rparr>))"

text \<open>One round of the loop of \<open>delay\<close>: \<^const>\<open>None\<close> when it ends\<close>

definition delay :: "u32 \<Rightarrow> u32 option" where
  "delay count = (if count \<noteq> 0 then Some (count - 1) else None)"

definition flag4_thread_entry :: "demo \<Rightarrow> demo" where
  "flag4_thread_entry d = (case at_4 d of
     Set_Flag4 \<Rightarrow> d\<lparr>flag4 := 1, count_4 := 100, at_4 := Delay4\<rparr>
   | Delay4 \<Rightarrow> (case delay (count_4 d) of Some n \<Rightarrow> d\<lparr>count_4 := n\<rparr> | None \<Rightarrow> d\<lparr>at_4 := Clear_Flag4\<rparr>)
   | Clear_Flag4 \<Rightarrow> d\<lparr>flag4 := 0, count_4 := 100, at_4 := Delay4_Again\<rparr>
   | Delay4_Again \<Rightarrow> (case delay (count_4 d) of Some n \<Rightarrow> d\<lparr>count_4 := n\<rparr> | None \<Rightarrow> d\<lparr>at_4 := Set_Flag4\<rparr>))"

text \<open>The processor executes the thread that runs; there is no code for any other than these five.\<close>

definition demo_step :: "demo \<Rightarrow> demo option" where
  "demo_step d = (case rt_current_thread (kern d) of
     Some t \<Rightarrow>
       if t = 0 then Some (d\<lparr>kern := idle_body (kern d)\<rparr>)
       else if t = 1 then flag1_thread_entry d
       else if t = 2 then flag2_thread_entry d
       else if t = 3 then flag3_thread_entry d
       else if t = 4 then Some (flag4_thread_entry d)
       else None
   | None \<Rightarrow> None)"

definition demo_tick :: "demo \<Rightarrow> demo option" where
  "demo_tick d = map_option (\<lambda>s. d\<lparr>kern := s\<rparr>) (SysTick_Handler (\<lambda>_ _ s. Some s) (kern d))"

text \<open>
  A run: statements and clock interrupts in any order. The number counts the increments of
  \<open>sharecounter\<close> that have been stored.
\<close>

definition stores :: "demo \<Rightarrow> bool" where
  "stores d \<longleftrightarrow> rt_current_thread (kern d) = Some 1 \<and> at_1 d = Write_Counter \<or>
     rt_current_thread (kern d) = Some 2 \<and> at_2 d = Store_Counter"

inductive demo_run :: "demo \<Rightarrow> nat \<Rightarrow> demo \<Rightarrow> bool" for d0 where
  Start: "demo_run d0 0 d0"
| Statement: "demo_run d0 k d \<Longrightarrow> demo_step d = Some d' \<Longrightarrow> demo_run d0 (if stores d then Suc k else k) d'"
| Interrupt: "demo_run d0 k d \<Longrightarrow> demo_tick d = Some d' \<Longrightarrow> demo_run d0 k d'"

text \<open>What \<open>main\<close> leaves behind, in a program whose local variables and flags hold anything\<close>

definition demo_started :: "kernel \<Rightarrow> demo \<Rightarrow> bool" where
  "demo_started s d \<longleftrightarrow> kern d = s \<and> sharecounter d = 0 \<and> at_1 d = Set_Flag1 \<and> at_2 d = Set_Flag2 \<and>
     at_3 d = Set_Flag3 \<and> at_4 d = Set_Flag4"

section \<open>What the services do to the threads\<close>

text \<open>As \<open>calm\<close>, but for the states of the threads in \<open>A\<close>\<close>

definition stirs :: "nat set \<Rightarrow> kernel \<Rightarrow> kernel \<Rightarrow> bool" where
  "stirs A s s' \<longleftrightarrow> rt_scheduler_lock_nest s' = rt_scheduler_lock_nest s \<and>
     (rt_current_thread s' = rt_current_thread s \<or> rt_scheduler_lock_nest s = 0 \<and>
        (\<exists>u. rt_current_thread s' = Some u \<and> th_stat (threads s' u) = RT_THREAD_READY)) \<and>
     (\<forall>u. u \<notin> A \<longrightarrow> th_stat (threads s' u) = th_stat (threads s u) \<or>
        th_stat (threads s u) = RT_THREAD_SUSPEND \<and> th_stat (threads s' u) = RT_THREAD_READY) \<and>
     (\<forall>u. th_cleanup (threads s' u) = th_cleanup (threads s u) \<and> objects s' (Thread_Obj u) = objects s (Thread_Obj u))"

lemma calm_stirs: "calm s s' \<Longrightarrow> stirs {} s s'"
  by (simp add: calm_def stirs_def)

lemma stirs_refl [simp]: "stirs A s s"
  by (simp add: stirs_def)

lemma keeps_stirs:
  "keeps b m r s1 L1 \<Longrightarrow> stirs A s s1 \<Longrightarrow>
   \<exists>s'. m = Some (r, s') \<and> stirs A s s' \<and> rt_current_thread s' = rt_current_thread s1"
  by (auto simp: keeps_def stirs_def)

lemma resume_stirs:
  assumes K: "kinv b s L" and t: "linked L (Tlist t)"
  shows "\<exists>r s'. rt_thread_resume t s = Some (r, s') \<and> stirs {} s s' \<and> rt_current_thread s' = rt_current_thread s"
proof (cases "thread_state t s = RT_THREAD_SUSPEND")
  case True
  then have st: "th_stat (threads s t) = RT_THREAD_SUSPEND"
    using kinvD(4) [OF K t] by (auto simp: thread_ok_def thread_state_def)
  have "stirs {} s (made_ready t s)" using st by (auto simp: stirs_def made_ready_def)
  from keeps_stirs [OF rt_thread_resume_kinv [OF K t st] this] show ?thesis by (auto simp: made_ready_def)
qed (simp add: rt_thread_resume_not_suspended)

lemma suspend_stirs:
  assumes K: "kinv b s L" and t: "linked L (Tlist t)"
  shows "\<exists>r s'. rt_thread_suspend t s = Some (r, s') \<and> stirs {t} s s' \<and> rt_current_thread s' = rt_current_thread s"
proof (cases "thread_state t s = RT_THREAD_READY")
  case True
  then have st: "th_stat (threads s t) = RT_THREAD_READY"
    using kinvD(4) [OF K t] by (auto simp: thread_ok_def thread_state_def)
  obtain xs where xs: "L (Prio_Node (prio_of t s)) = Some xs" using own_list [OF K t] by blast
  let ?s = "suspended t (remove1 (Tlist t) xs = []) s"
  have "stirs {t} s ?s" "rt_current_thread ?s = rt_current_thread s"
    by (auto simp: stirs_def suspended_def timer_stopped_def made_unready_def)
  from keeps_stirs [OF rt_thread_suspend_kinv [OF K t st xs] this(1)] this(2) show ?thesis by auto
qed (simp add: rt_thread_suspend_not_ready)

lemma detach_stirs:
  assumes K: "kinv b s L" and t: "linked L (Tlist t)"
    and st: "rt_object_is_systemobject (Thread_Obj t) s" "th_cleanup (threads s t) = 0"
  shows "\<exists>r s'. rt_thread_detach t s = Some (r, s') \<and> stirs {t} s s' \<and> rt_current_thread s' = rt_current_thread s"
proof -
  obtain xs where xs: "L (Prio_Node (prio_of t s)) = Some xs" using own_list [OF K t] by blast
  let ?s = "detached t (th_stat (threads s t) \<noteq> RT_THREAD_INIT \<and> remove1 (Tlist t) xs = []) s"
  have "stirs {t} s ?s" "rt_current_thread ?s = rt_current_thread s"
    by (auto simp: stirs_def detached_def made_unready_def)
  from keeps_stirs [OF rt_thread_detach_kinv [OF K t xs st] this(1)] this(2) show ?thesis by auto
qed

lemma delay_stirs:
  assumes K: "kinv (rt_tick s) s L" and cur: "rt_current_thread s = Some t"
    and st: "th_stat (threads s t) = RT_THREAD_READY" and oth: "other_ready L t"
    and tk: "unat tick \<le> longest_timeout" "0 < tick"
  shows "\<exists>r s'. rt_thread_delay tick s = Some (r, s') \<and> stirs {t} s s' \<and>
    (rt_scheduler_lock_nest s = 0 \<longrightarrow> (\<exists>u. rt_current_thread s' = Some u \<and> th_stat (threads s' u) = RT_THREAD_READY)) \<and>
    (rt_scheduler_lock_nest s \<noteq> 0 \<longrightarrow> rt_current_thread s' = Some t)"
proof -
  obtain s' L' to where d: "rt_thread_delay tick s = Some (RT_EOK, s')" "kinv (rt_tick s) s' L'"
    "highest_ready L' to" "rt_scheduler_lock_nest s = 0 \<longrightarrow> rt_current_thread s' = Some to"
    "\<forall>u. u \<noteq> t \<longrightarrow> th_stat (threads s' u) = th_stat (threads s u)"
    "rt_scheduler_lock_nest s' = rt_scheduler_lock_nest s"
    "rt_scheduler_lock_nest s \<noteq> 0 \<longrightarrow> rt_current_thread s' = rt_current_thread s"
    "\<forall>u. th_cleanup (threads s' u) = th_cleanup (threads s u) \<and> objects s' (Thread_Obj u) = objects s (Thread_Obj u)"
    using rt_thread_delay_sleeps [OF K cur st oth tk] by blast
  have "th_stat (threads s' to) = RT_THREAD_READY" by (rule highest_ready_stat(1) [OF d(2,3)])
  then have "stirs {t} s s'" using d(4-8) by (auto simp: stirs_def)
  then show ?thesis using d cur \<open>th_stat (threads s' to) = RT_THREAD_READY\<close> by auto
qed

lemma tick_stirs:
  assumes "kinv (rt_tick s) s L" and "rt_current_thread s \<noteq> None"
  shows "\<exists>s'. SysTick_Handler (\<lambda>_ _ s. Some s) s = Some s' \<and> stirs {} s s'"
proof -
  have wb: "well_behaved (\<lambda>_ _ s. Some s)" and q: "quiet (\<lambda>_ _ s. Some s)"
    by (auto simp: well_behaved_def quiet_def)
  obtain s' L' where s': "SysTick_Handler (\<lambda>_ _ s. Some s) s = Some s'"
    "carries (\<lambda>_ _ s. Some s) (s\<lparr>rt_tick := rt_tick s + 1\<rparr>) L s' L'"
    using SysTick_Handler_kinv [OF assms wb] by blast
  then have "calm (s\<lparr>rt_tick := rt_tick s + 1\<rparr>) s'" using q unfolding carries_def by blast
  then have "calm s s'" by (simp add: calm_def)
  then show ?thesis using s'(1) calm_stirs by blast
qed

section \<open>The invariant\<close>

text \<open>
  Where each of the first two threads has the scheduler locked. The running thread is ready, but for
  the third, which suspends itself and runs on, and the first between its delay and the end of its critical section.
\<close>

definition locked_1 :: "flag1_at \<Rightarrow> bool" where
  "locked_1 a \<longleftrightarrow> a \<in> {Read_Counter, Count_Var, Delay_Locked, Write_Counter, Exit1}"

definition locked_2 :: "flag2_at \<Rightarrow> bool" where
  "locked_2 a \<longleftrightarrow> a \<in> {Load_Counter, Store_Counter, Exit2}"

definition runs_on :: "flag1_at \<Rightarrow> kernel \<Rightarrow> nat \<Rightarrow> bool" where
  "runs_on a s t \<longleftrightarrow> th_stat (threads s t) = RT_THREAD_READY \<or> t = 3 \<or> t = 1 \<and> a \<in> {Write_Counter, Exit1}"

abbreviation demo_nodes :: "node set" where
  "demo_nodes \<equiv> Tlist ` {0..4 :: nat}"

definition kernel_in_demo :: "flag1_at \<Rightarrow> flag2_at \<Rightarrow> kernel \<Rightarrow> bool" where
  "kernel_in_demo a1 a2 s \<longleftrightarrow> system_ok demo_nodes 0 s \<and>
     (\<forall>u. th_cleanup (threads s u) = 0) \<and> (\<forall>u\<ge>5. th_stat (threads s u) = RT_THREAD_INIT) \<and>
     rt_object_is_systemobject (Thread_Obj 4) s \<and>
     rt_scheduler_lock_nest s = (if locked_1 a1 \<or> locked_2 a2 then 1 else 0) \<and>
     (locked_1 a1 \<longrightarrow> rt_current_thread s = Some 1) \<and> (locked_2 a2 \<longrightarrow> rt_current_thread s = Some 2) \<and>
     (\<forall>t. rt_current_thread s = Some t \<longrightarrow> runs_on a1 s t)"

definition counts :: "nat \<Rightarrow> demo \<Rightarrow> bool" where
  "counts k d \<longleftrightarrow> sharecounter d = of_nat k \<and> (at_1 d = Count_Var \<longrightarrow> var_1 d = sharecounter d) \<and>
     (at_1 d \<in> {Delay_Locked, Write_Counter} \<longrightarrow> var_1 d = sharecounter d + 1) \<and>
     (at_2 d = Store_Counter \<longrightarrow> load_2 d = sharecounter d)"

definition demo_ok :: "nat \<Rightarrow> demo \<Rightarrow> bool" where
  "demo_ok k d \<longleftrightarrow> kernel_in_demo (at_1 d) (at_2 d) (kern d) \<and> counts k d"

lemma kernel_in_demoD:
  assumes "kernel_in_demo a1 a2 s"
  shows "system_ok demo_nodes 0 s" "rt_current_thread s \<noteq> None"
    "rt_scheduler_lock_nest s = (if locked_1 a1 \<or> locked_2 a2 then 1 else 0)"
    "locked_1 a1 \<Longrightarrow> rt_current_thread s = Some 1" "locked_2 a2 \<Longrightarrow> rt_current_thread s = Some 2"
    "rt_current_thread s = Some t \<Longrightarrow> runs_on a1 s t" "rt_current_thread s = Some t \<Longrightarrow> t < 5"
proof -
  show "system_ok demo_nodes 0 s" "rt_current_thread s \<noteq> None"
    "rt_scheduler_lock_nest s = (if locked_1 a1 \<or> locked_2 a2 then 1 else 0)"
    "locked_1 a1 \<Longrightarrow> rt_current_thread s = Some 1" "locked_2 a2 \<Longrightarrow> rt_current_thread s = Some 2"
    "rt_current_thread s = Some t \<Longrightarrow> runs_on a1 s t"
    using assms by (simp_all add: kernel_in_demo_def system_ok_def)
  assume "rt_current_thread s = Some t"
  then have r: "runs_on a1 s t" using assms by (simp add: kernel_in_demo_def)
  have "\<forall>u\<ge>5. th_stat (threads s u) = RT_THREAD_INIT" using assms by (simp add: kernel_in_demo_def)
  then have "th_stat (threads s t) = RT_THREAD_INIT" if "\<not> t < 5" using that by simp
  then show "t < 5" using r by (auto simp: runs_on_def intro: ccontr)
qed

lemma demo_layout:
  assumes "kernel_in_demo a1 a2 s"
  obtains L where "kinv (rt_tick s) s L" "\<And>t. t < 5 \<Longrightarrow> linked L (Tlist t)"
proof -
  obtain L where L: "kinv (rt_tick s) s L" "\<forall>n\<in>demo_nodes. linked L n"
    using kernel_in_demoD(1) [OF assms] by (auto simp: system_ok_def)
  show ?thesis by (rule that [OF L(1)]) (use L(2) in auto)
qed

lemma stirs_in_demo:
  assumes D: "kernel_in_demo a1 a2 s" and s: "stirs A s s'" "system_ok demo_nodes 0 s'" "A \<subseteq> {..<5}"
    and l: "locked_1 a1' = locked_1 a1" "locked_2 a2' = locked_2 a2"
    and r: "\<And>t. rt_current_thread s' = Some t \<Longrightarrow> runs_on a1' s' t"
  shows "kernel_in_demo a1' a2' s'"
proof -
  have c: "rt_current_thread s' = rt_current_thread s" if "locked_1 a1 \<or> locked_2 a2"
    using s(1) that kernel_in_demoD(3) [OF D] by (auto simp: stirs_def)
  have "th_stat (threads s' u) = RT_THREAD_INIT" if u: "5 \<le> u" for u
  proof -
    have "u \<notin> A" using s(3) u by auto
    moreover have "th_stat (threads s u) = RT_THREAD_INIT" using D u by (simp add: kernel_in_demo_def)
    ultimately show ?thesis using s(1) unfolding stirs_def by fastforce
  qed
  moreover have "rt_object_is_systemobject (Thread_Obj 4) s'" "\<forall>u. th_cleanup (threads s' u) = 0"
    using D s(1) by (simp_all add: kernel_in_demo_def stirs_def rt_object_is_systemobject_def)
  moreover have "rt_scheduler_lock_nest s' = (if locked_1 a1 \<or> locked_2 a2 then 1 else 0)"
    using s(1) kernel_in_demoD(3) [OF D] by (simp add: stirs_def)
  ultimately show ?thesis
    using c s(2) r kernel_in_demoD(4,5) [OF D] by (simp add: kernel_in_demo_def l)
qed

lemma runs_on_stirs:
  assumes "stirs A s s'" "runs_on a s t" "t \<notin> A" "a' = a"
  shows "runs_on a' s' t"
  using assms by (auto simp: runs_on_def stirs_def)

text \<open>A service that is permitted, given what it does to the threads\<close>

lemma service_in_demo:
  assumes D: "kernel_in_demo a1 a2 s" and p: "permitted demo_nodes 0 c s" and e: "serve c s = map_option snd m"
    and m: "\<exists>r s'. m = Some (r, s') \<and> stirs A s s' \<and> C s'" and A: "A \<subseteq> {..<5}"
    and l: "locked_1 a1' = locked_1 a1" "locked_2 a2' = locked_2 a2"
    and r: "\<And>s' t. stirs A s s' \<Longrightarrow> C s' \<Longrightarrow> rt_current_thread s' = Some t \<Longrightarrow> runs_on a1' s' t"
  shows "\<exists>r s'. m = Some (r, s') \<and> kernel_in_demo a1' a2' s'"
proof -
  obtain x s' where s': "m = Some (x, s')" "stirs A s s'" "C s'" using m by blast
  have "system_ok demo_nodes 0 s'" using system_serves [OF kernel_in_demoD(1) [OF D] p] s'(1) by (simp add: e)
  then have "kernel_in_demo a1' a2' s'" by (rule stirs_in_demo [OF D s'(2) _ A l r [OF s'(2,3)]])
  then show ?thesis using s'(1) by blast
qed

lemma resume_in_demo:
  assumes D: "kernel_in_demo a1 a2 s" and cur: "rt_current_thread s = Some 1" and a: "\<not> locked_1 a1" "\<not> locked_1 a1'"
  shows "\<exists>r s'. rt_thread_resume 3 s = Some (r, s') \<and> kernel_in_demo a1' a2 s'"
proof -
  obtain L where L: "kinv (rt_tick s) s L" "\<And>t. t < 5 \<Longrightarrow> linked L (Tlist t)" by (rule demo_layout [OF D]) blast
  have m: "\<exists>r s'. rt_thread_resume 3 s = Some (r, s') \<and> stirs {} s s' \<and> rt_current_thread s' = rt_current_thread s"
    by (rule resume_stirs [OF L(1) L(2)]) simp
  have "th_stat (threads s 1) = RT_THREAD_READY"
    using kernel_in_demoD(6) [OF D cur] a(1) by (auto simp: runs_on_def locked_1_def)
  then have r: "th_stat (threads s' 1) = RT_THREAD_READY" if "stirs {} s s'" for s'
    using that unfolding stirs_def by force
  show ?thesis
    by (rule service_in_demo [OF D, where c = "Resume_Thread 3" and A = "{}", OF _ _ m])
      (use a cur r in \<open>auto simp: runs_on_def\<close>)
qed

lemma suspend_in_demo:
  assumes D: "kernel_in_demo a1 a2 s" and cur: "rt_current_thread s = Some 3"
  shows "\<exists>r s'. rt_thread_suspend 3 s = Some (r, s') \<and> kernel_in_demo a1 a2 s'"
proof -
  obtain L where L: "kinv (rt_tick s) s L" "\<And>t. t < 5 \<Longrightarrow> linked L (Tlist t)" by (rule demo_layout [OF D]) blast
  have m: "\<exists>r s'. rt_thread_suspend 3 s = Some (r, s') \<and> stirs {3} s s' \<and> rt_current_thread s' = rt_current_thread s"
    by (rule suspend_stirs [OF L(1) L(2)]) simp
  show ?thesis
    by (rule service_in_demo [OF D, where c = "Suspend_Thread 3" and A = "{3}", OF _ _ m])
      (use cur in \<open>auto simp: runs_on_def\<close>)
qed

lemma detach_in_demo:
  assumes D: "kernel_in_demo a1 a2 s" and cur: "rt_current_thread s = Some 2" and l: "\<not> locked_2 a2" "\<not> locked_2 a2'"
  shows "\<exists>r s'. rt_thread_detach 4 s = Some (r, s') \<and> kernel_in_demo a1 a2' s'"
proof -
  obtain L where L: "kinv (rt_tick s) s L" "\<And>t. t < 5 \<Longrightarrow> linked L (Tlist t)" by (rule demo_layout [OF D]) blast
  have st: "rt_object_is_systemobject (Thread_Obj 4) s" "th_cleanup (threads s 4) = 0"
    using D by (simp_all add: kernel_in_demo_def)
  have m: "\<exists>r s'. rt_thread_detach 4 s = Some (r, s') \<and> stirs {4} s s' \<and> rt_current_thread s' = rt_current_thread s"
    by (rule detach_stirs [OF L(1) L(2) st]) simp
  show ?thesis
    by (rule service_in_demo [OF D, where c = "Detach_Thread 4" and A = "{4}", OF _ _ m])
      (use cur st l runs_on_stirs kernel_in_demoD(6) [OF D] in auto)
qed

lemma delay_in_demo:
  assumes D: "kernel_in_demo a1 a2 s" and cur: "rt_current_thread s = Some t" and t: "t = 1 \<or> t = 2"
    and rdy: "th_stat (threads s t) = RT_THREAD_READY" and n: "0 < n" "unat n \<le> longest_timeout"
    and l: "locked_1 a1' = locked_1 a1" "locked_2 a2' = locked_2 a2"
    and k: "locked_1 a1 \<Longrightarrow> a1' \<in> {Write_Counter, Exit1}" "\<not> locked_2 a2"
  shows "\<exists>r s'. rt_thread_delay n s = Some (r, s') \<and> kernel_in_demo a1' a2' s'"
proof -
  obtain L where L: "kinv (rt_tick s) s L" "\<And>t. t < 5 \<Longrightarrow> linked L (Tlist t)" by (rule demo_layout [OF D]) blast
  have i: "th_stat (threads s 0) = RT_THREAD_READY" using kernel_in_demoD(1) [OF D] by (simp add: system_ok_def)
  have oth: "other_ready L t" using idle_ready(2) [OF L(1) L(2) i] t by auto
  let ?C = "\<lambda>s'. (rt_scheduler_lock_nest s = 0 \<longrightarrow>
        (\<exists>u. rt_current_thread s' = Some u \<and> th_stat (threads s' u) = RT_THREAD_READY)) \<and>
      (rt_scheduler_lock_nest s \<noteq> 0 \<longrightarrow> rt_current_thread s' = Some t)"
  have m: "\<exists>r s'. rt_thread_delay n s = Some (r, s') \<and> stirs {t} s s' \<and> ?C s'"
    by (rule delay_stirs [OF L(1) cur rdy oth n(2,1)])
  show ?thesis
    by (rule service_in_demo [OF D, where c = "Delay n" and A = "{t}", OF _ _ m])
      (use cur t rdy n l k kernel_in_demoD(3,4) [OF D] in \<open>auto simp: may_wait_def runs_on_def split: if_splits\<close>)
qed

lemma tick_in_demo:
  assumes D: "kernel_in_demo a1 a2 s"
  shows "\<exists>s'. SysTick_Handler (\<lambda>_ _ s. Some s) s = Some s' \<and> kernel_in_demo a1 a2 s'"
proof -
  obtain L where L: "kinv (rt_tick s) s L" "\<And>t. t < 5 \<Longrightarrow> linked L (Tlist t)" by (rule demo_layout [OF D]) blast
  obtain s' where s': "SysTick_Handler (\<lambda>_ _ s. Some s) s = Some s'" "stirs {} s s'"
    using tick_stirs [OF L(1) kernel_in_demoD(2) [OF D]] by blast
  have "well_behaved (\<lambda>_ _ s. Some s)" by (auto simp: well_behaved_def)
  then have "system_ok demo_nodes 0 s'"
    using system_ticks [OF kernel_in_demoD(1) [OF D] _ spares_nothing] s'(1) by simp
  moreover have "runs_on a1 s' t" if "rt_current_thread s' = Some t" for t
    using s'(2) that kernel_in_demoD(6) [OF D, of t] runs_on_stirs [OF s'(2), of a1 t]
    by (auto simp: stirs_def runs_on_def)
  ultimately have "kernel_in_demo a1 a2 s'" by (intro stirs_in_demo [OF D s'(2)]) auto
  then show ?thesis using s'(1) by blast
qed

lemma enter_in_demo:
  assumes D: "kernel_in_demo a1 a2 s" and l: "\<not> locked_1 a1" "\<not> locked_2 a2"
    and l': "locked_1 a1' \<and> \<not> locked_2 a2' \<and> rt_current_thread s = Some 1 \<or>
      \<not> locked_1 a1' \<and> locked_2 a2' \<and> rt_current_thread s = Some 2"
  shows "kernel_in_demo a1' a2' (rt_enter_critical s)"
proof -
  have "system_ok demo_nodes 0 (rt_enter_critical s)"
    using system_serves [OF kernel_in_demoD(1) [OF D], of Enter_Critical] by simp
  moreover have "runs_on a1' (rt_enter_critical s) t" if "rt_current_thread s = Some t" for t
    using kernel_in_demoD(6) [OF D that] l(1)
    by (auto simp: runs_on_def locked_1_def rt_enter_critical_def hw_defs)
  moreover have "rt_scheduler_lock_nest (rt_enter_critical s) = 1"
    using kernel_in_demoD(3) [OF D] l by (simp add: rt_enter_critical_def hw_defs)
  moreover have "rt_current_thread (rt_enter_critical s) = rt_current_thread s"
    "threads (rt_enter_critical s) = threads s" "objects (rt_enter_critical s) = objects s"
    by (simp_all add: rt_enter_critical_def hw_defs)
  ultimately show ?thesis using D l' by (auto simp: kernel_in_demo_def rt_object_is_systemobject_def)
qed

lemma exit_in_demo:
  assumes D: "kernel_in_demo a1 a2 s" and l: "locked_1 a1 \<or> locked_2 a2" "\<not> locked_1 a1'" "\<not> locked_2 a2'"
  shows "\<exists>s'. rt_exit_critical s = Some s' \<and> kernel_in_demo a1' a2' s'"
proof -
  obtain L where L: "kinv (rt_tick s) s L" "\<And>t. t < 5 \<Longrightarrow> linked L (Tlist t)" by (rule demo_layout [OF D]) blast
  have i: "th_stat (threads s 0) = RT_THREAD_READY" using kernel_in_demoD(1) [OF D] by (simp add: system_ok_def)
  let ?s = "s\<lparr>rt_scheduler_lock_nest := 0\<rparr>"
  have K: "kinv (rt_tick s) ?s L" using L(1) by simp
  have sr: "some_ready L" by (rule idle_ready(1) [OF L(1) L(2) i]) simp
  obtain to where to: "rt_schedule ?s = Some (switched to ?s)" "highest_ready L to"
    using rt_schedule_kinv [OF K sr] kernel_in_demoD(2) [OF D] by auto
  have rdy: "th_stat (threads s to) = RT_THREAD_READY" using highest_ready_stat(1) [OF L(1) to(2)] .
  have e: "rt_exit_critical s = Some (switched to ?s)"
    using to(1) kernel_in_demoD(2,3) [OF D] l(1) by (auto simp: rt_exit_critical_def hw_defs)
  have "system_ok demo_nodes 0 (switched to ?s)"
    using system_serves [OF kernel_in_demoD(1) [OF D], of Exit_Critical] e by simp
  moreover have "rt_current_thread (switched to ?s) = Some to" by (auto simp: switched_def rt_hw_context_switch_def)
  ultimately have "kernel_in_demo a1' a2' (switched to ?s)"
    using D l(2,3) rdy by (auto simp: kernel_in_demo_def runs_on_def rt_object_is_systemobject_def)
  then show ?thesis using e by blast
qed

lemma idle_in_demo:
  assumes D: "kernel_in_demo a1 a2 s"
  shows "kernel_in_demo a1 a2 (idle_body s)"
proof -
  have "system_ok demo_nodes 0 (idle_body s)"
    using system_serves [OF kernel_in_demoD(1) [OF D], of Idle_Loop] by simp
  then show ?thesis using D by (simp add: kernel_in_demo_def idle_body_def runs_on_def rt_object_is_systemobject_def)
qed


section \<open>Every statement keeps it\<close>

lemma call_Some: "call d m = Some d' \<longleftrightarrow> (\<exists>r s. m = Some (r, s) \<and> d' = d\<lparr>kern := s\<rparr>)"
  by (auto simp: call_def)

lemma flag1_demo_ok:
  assumes ok: "demo_ok k d" and cur: "rt_current_thread (kern d) = Some 1"
  shows "\<exists>d'. flag1_thread_entry d = Some d' \<and> demo_ok (if at_1 d = Write_Counter then Suc k else k) d'"
proof -
  have D: "kernel_in_demo (at_1 d) (at_2 d) (kern d)" and C: "counts k d" using ok by (simp_all add: demo_ok_def)
  have l2: "\<not> locked_2 (at_2 d)" using kernel_in_demoD(5) [OF D] cur by auto
  then have s2: "at_2 d \<noteq> Store_Counter" by (auto simp: locked_2_def)
  have rdy: "th_stat (threads (kern d) 1) = RT_THREAD_READY" if "at_1 d \<notin> {Write_Counter, Exit1}"
    using kernel_in_demoD(6) [OF D cur] that by (simp add: runs_on_def)
  have go: "kernel_in_demo a (at_2 d) (kern d)" if "locked_1 a = locked_1 (at_1 d)"
      "a \<in> {Write_Counter, Exit1} \<or> at_1 d \<notin> {Write_Counter, Exit1}" for a
    by (rule stirs_in_demo [OF D stirs_refl [of "{}"] kernel_in_demoD(1) [OF D]])
      (use that cur rdy in \<open>auto simp: runs_on_def\<close>)
  show ?thesis
  proof (cases "at_1 d")
    case Resume_Thread3
    then obtain r s' where "rt_thread_resume 3 (kern d) = Some (r, s')" "kernel_in_demo Enter1 (at_2 d) s'"
      using resume_in_demo [OF D cur, of Enter1] by (auto simp: locked_1_def)
    then show ?thesis using C Resume_Thread3 by (auto simp: flag1_thread_entry_def call_Some demo_ok_def counts_def)
  next
    case Resume_Thread3_Again
    then obtain r s' where "rt_thread_resume 3 (kern d) = Some (r, s')" "kernel_in_demo Clear_Flag1 (at_2 d) s'"
      using resume_in_demo [OF D cur, of Clear_Flag1] by (auto simp: locked_1_def)
    then show ?thesis using C Resume_Thread3_Again by (auto simp: flag1_thread_entry_def call_Some demo_ok_def counts_def)
  next
    case Enter1
    have "kernel_in_demo Read_Counter (at_2 d) (rt_enter_critical (kern d))"
      by (rule enter_in_demo [OF D]) (use Enter1 l2 cur in \<open>auto simp: locked_1_def\<close>)
    then show ?thesis using C Enter1 by (auto simp: flag1_thread_entry_def demo_ok_def counts_def)
  next
    case Delay_Locked
    then obtain r s' where "rt_thread_delay 100 (kern d) = Some (r, s')" "kernel_in_demo Write_Counter (at_2 d) s'"
      using delay_in_demo [OF D cur, of 100 Write_Counter "at_2 d"] rdy l2 by (auto simp: locked_1_def longest_timeout_def)
    then show ?thesis using C Delay_Locked by (auto simp: flag1_thread_entry_def call_Some demo_ok_def counts_def)
  next
    case Delay1
    then obtain r s' where "rt_thread_delay 100 (kern d) = Some (r, s')" "kernel_in_demo Set_Flag1 (at_2 d) s'"
      using delay_in_demo [OF D cur, of 100 Set_Flag1 "at_2 d"] rdy l2 by (auto simp: locked_1_def longest_timeout_def)
    then show ?thesis using C Delay1 by (auto simp: flag1_thread_entry_def call_Some demo_ok_def counts_def)
  next
    case Exit1
    then obtain s' where "rt_exit_critical (kern d) = Some s'" "kernel_in_demo Resume_Thread3_Again (at_2 d) s'"
      using exit_in_demo [OF D, of Resume_Thread3_Again "at_2 d"] l2 by (auto simp: locked_1_def)
    then show ?thesis using C Exit1 by (auto simp: flag1_thread_entry_def demo_ok_def counts_def)
  next
    case Set_Flag1
    then show ?thesis using C go [of Resume_Thread3] by (auto simp: flag1_thread_entry_def demo_ok_def counts_def locked_1_def)
  next
    case Read_Counter
    then show ?thesis using C go [of Count_Var] by (auto simp: flag1_thread_entry_def demo_ok_def counts_def locked_1_def)
  next
    case Count_Var
    then show ?thesis using C go [of Delay_Locked] by (auto simp: flag1_thread_entry_def demo_ok_def counts_def locked_1_def)
  next
    case Write_Counter
    then show ?thesis using C s2 go [of Exit1] by (auto simp: flag1_thread_entry_def demo_ok_def counts_def locked_1_def)
  next
    case Clear_Flag1
    then show ?thesis using C go [of Delay1] by (auto simp: flag1_thread_entry_def demo_ok_def counts_def locked_1_def)
  qed
qed

lemma flag2_demo_ok:
  assumes ok: "demo_ok k d" and cur: "rt_current_thread (kern d) = Some 2"
  shows "\<exists>d'. flag2_thread_entry d = Some d' \<and> demo_ok (if at_2 d = Store_Counter then Suc k else k) d'"
proof -
  have D: "kernel_in_demo (at_1 d) (at_2 d) (kern d)" and C: "counts k d" using ok by (simp_all add: demo_ok_def)
  have l1: "\<not> locked_1 (at_1 d)" using kernel_in_demoD(4) [OF D] cur by auto
  then have s1: "at_1 d \<notin> {Count_Var, Delay_Locked, Write_Counter}" by (auto simp: locked_1_def)
  have rdy: "th_stat (threads (kern d) 2) = RT_THREAD_READY"
    using kernel_in_demoD(6) [OF D cur] by (simp add: runs_on_def)
  have go: "kernel_in_demo (at_1 d) a (kern d)" if "locked_2 a = locked_2 (at_2 d)" for a
    by (rule stirs_in_demo [OF D stirs_refl [of "{}"] kernel_in_demoD(1) [OF D]])
      (use that kernel_in_demoD(6) [OF D] in auto)
  have sleep: "\<exists>r s'. rt_thread_delay 10 (kern d) = Some (r, s') \<and> kernel_in_demo (at_1 d) a s'"
    if "\<not> locked_2 (at_2 d)" "\<not> locked_2 a" for a
    by (rule delay_in_demo [OF D cur]) (use that rdy l1 in \<open>auto simp: longest_timeout_def\<close>)
  show ?thesis
  proof (cases "at_2 d")
    case Enter2
    have "kernel_in_demo (at_1 d) Load_Counter (rt_enter_critical (kern d))"
      by (rule enter_in_demo [OF D]) (use Enter2 l1 cur in \<open>auto simp: locked_2_def\<close>)
    then show ?thesis using C Enter2 by (auto simp: flag2_thread_entry_def demo_ok_def counts_def)
  next
    case Exit2
    then obtain s' where "rt_exit_critical (kern d) = Some s'" "kernel_in_demo (at_1 d) Test_Counter s'"
      using exit_in_demo [OF D, of "at_1 d" Test_Counter] l1 by (auto simp: locked_2_def)
    then show ?thesis using C Exit2 by (auto simp: flag2_thread_entry_def demo_ok_def counts_def)
  next
    case Detach_Thread4
    then obtain r s' where "rt_thread_detach 4 (kern d) = Some (r, s')" "kernel_in_demo (at_1 d) Delay2 s'"
      using detach_in_demo [OF D cur, of Delay2] by (auto simp: locked_2_def)
    then show ?thesis using C Detach_Thread4 by (auto simp: flag2_thread_entry_def call_Some demo_ok_def counts_def)
  next
    case Delay2
    then obtain r s' where "rt_thread_delay 10 (kern d) = Some (r, s')" "kernel_in_demo (at_1 d) Clear_Flag2 s'"
      using sleep [of Clear_Flag2] by (auto simp: locked_2_def)
    then show ?thesis using C Delay2 by (auto simp: flag2_thread_entry_def call_Some demo_ok_def counts_def)
  next
    case Delay2_Again
    then obtain r s' where "rt_thread_delay 10 (kern d) = Some (r, s')" "kernel_in_demo (at_1 d) Set_Flag2 s'"
      using sleep [of Set_Flag2] by (auto simp: locked_2_def)
    then show ?thesis using C Delay2_Again by (auto simp: flag2_thread_entry_def call_Some demo_ok_def counts_def)
  next
    case Store_Counter
    then show ?thesis using C s1 go [of Exit2] by (auto simp: flag2_thread_entry_def demo_ok_def counts_def locked_2_def)
  qed (use C go in \<open>auto simp: flag2_thread_entry_def demo_ok_def counts_def locked_2_def\<close>)
qed

lemma flag3_demo_ok:
  assumes ok: "demo_ok k d" and cur: "rt_current_thread (kern d) = Some 3"
  shows "\<exists>d'. flag3_thread_entry d = Some d' \<and> demo_ok k d'"
proof -
  have D: "kernel_in_demo (at_1 d) (at_2 d) (kern d)" and C: "counts k d" using ok by (simp_all add: demo_ok_def)
  obtain r s' where "rt_thread_suspend 3 (kern d) = Some (r, s')" "kernel_in_demo (at_1 d) (at_2 d) s'"
    using suspend_in_demo [OF D cur] by blast
  then show ?thesis using C D
    by (cases "at_3 d") (auto simp: flag3_thread_entry_def call_Some demo_ok_def counts_def)
qed

lemma flag4_same [simp]:
  "kern (flag4_thread_entry d) = kern d" "at_1 (flag4_thread_entry d) = at_1 d" "at_2 (flag4_thread_entry d) = at_2 d"
  "var_1 (flag4_thread_entry d) = var_1 d" "load_2 (flag4_thread_entry d) = load_2 d"
  "sharecounter (flag4_thread_entry d) = sharecounter d"
  by (cases "at_4 d"; cases "delay (count_4 d)"; simp add: flag4_thread_entry_def)+

lemma demo_step_ok:
  assumes ok: "demo_ok k d"
  shows "\<exists>d'. demo_step d = Some d' \<and> demo_ok (if stores d then Suc k else k) d'"
proof -
  have D: "kernel_in_demo (at_1 d) (at_2 d) (kern d)" and C: "counts k d" using ok by (simp_all add: demo_ok_def)
  obtain t where t: "rt_current_thread (kern d) = Some t" using kernel_in_demoD(2) [OF D] by auto
  have "t < 5" by (rule kernel_in_demoD(7) [OF D t])
  then consider "t = 0" | "t = 1" | "t = 2" | "t = 3" | "t = 4" by linarith
  then show ?thesis
  proof cases
    case 1
    have "kernel_in_demo (at_1 d) (at_2 d) (idle_body (kern d))" by (rule idle_in_demo [OF D])
    then show ?thesis using t 1 C by (simp add: demo_step_def stores_def demo_ok_def counts_def)
  next
    case 2
    then show ?thesis using t flag1_demo_ok [OF ok] by (simp add: demo_step_def stores_def)
  next
    case 3
    then show ?thesis using t flag2_demo_ok [OF ok] by (simp add: demo_step_def stores_def)
  next
    case 4
    then show ?thesis using t flag3_demo_ok [OF ok] by (simp add: demo_step_def stores_def)
  next
    case 5
    then have "demo_step d = Some (flag4_thread_entry d)" using t by (simp add: demo_step_def)
    moreover have "demo_ok k (flag4_thread_entry d)"
      using ok by (simp add: demo_ok_def counts_def)
    ultimately show ?thesis using t 5 by (simp add: stores_def)
  qed
qed

lemma demo_tick_ok:
  assumes ok: "demo_ok k d"
  shows "\<exists>d'. demo_tick d = Some d' \<and> demo_ok k d'"
  using tick_in_demo [of "at_1 d" "at_2 d" "kern d"] ok by (auto simp: demo_tick_def demo_ok_def counts_def)

lemma demo_run_ok: "demo_run d0 k d \<Longrightarrow> demo_ok 0 d0 \<Longrightarrow> demo_ok k d"
proof (induction rule: demo_run.induct)
  case (Statement k d d')
  then show ?case using demo_step_ok [of k d] by auto
next
  case (Interrupt k d d')
  then show ?case using demo_tick_ok [of k d] by auto
qed

lemma demo_start_ok:
  "\<exists>s. main im (boot_with repaired_container 7) = Some s \<and> (\<forall>d. demo_started s d \<longrightarrow> demo_ok 0 d)"
proof -
  obtain s t where m: "main im (boot_with repaired_container 7) = Some s" "system_ok demo_nodes 0 s"
    "rt_current_thread s = Some t" "th_stat (threads s t) = RT_THREAD_READY" "plain_threads 5 s"
    using main_system_ok [of im] by blast
  have "kernel_in_demo Set_Flag1 Set_Flag2 s"
    using m(2-5) by (auto simp: kernel_in_demo_def plain_threads_def locked_1_def locked_2_def runs_on_def)
  then show ?thesis using m(1) by (auto simp: demo_started_def demo_ok_def counts_def)
qed

section \<open>The property\<close>

text \<open>
  C2. The demonstration. With a timer entry in the object container \<open>main\<close> starts the system, and from then on, in
  whatever order statements and clock interrupts come: the next statement of the running thread and the next
  clock interrupt are defined, at no time are both threads that count inside their critical
  sections, and \<open>sharecounter\<close> is the number of increments that have been stored, so none is lost.
\<close>

theorem demo_never_faults:
  "\<exists>s. main im (boot_with repaired_container 7) = Some s \<and>
     (\<forall>d0 k d. demo_started s d0 \<longrightarrow> demo_run d0 k d \<longrightarrow>
        (\<exists>d'. demo_step d = Some d') \<and> (\<exists>d'. demo_tick d = Some d') \<and>
        \<not> (locked_1 (at_1 d) \<and> locked_2 (at_2 d)) \<and> sharecounter d = of_nat k)"
proof -
  obtain s where s: "main im (boot_with repaired_container 7) = Some s" "\<forall>d. demo_started s d \<longrightarrow> demo_ok 0 d"
    using demo_start_ok by blast
  have "(\<exists>d'. demo_step d = Some d') \<and> (\<exists>d'. demo_tick d = Some d') \<and>
      \<not> (locked_1 (at_1 d) \<and> locked_2 (at_2 d)) \<and> sharecounter d = of_nat k"
    if "demo_started s d0" "demo_run d0 k d" for d0 k d
  proof -
    have ok: "demo_ok k d" using demo_run_ok [OF that(2)] s(2) that(1) by blast
    then have "\<not> (locked_1 (at_1 d) \<and> locked_2 (at_2 d))"
      using kernel_in_demoD(4,5) [of "at_1 d" "at_2 d" "kern d"] by (auto simp: demo_ok_def)
    moreover have "sharecounter d = of_nat k" using ok by (simp add: demo_ok_def counts_def)
    ultimately show ?thesis using demo_step_ok [OF ok] demo_tick_ok [OF ok] by blast
  qed
  then show ?thesis using s(1) by blast
qed

theorem demo_never_faults_witness:
  "\<forall>im. \<exists>s d0 d1 d2 d3. main im (boot_with repaired_container 7) = Some s \<and> demo_started s d0 \<and>
     demo_step d0 = Some d1 \<and> demo_tick d1 = Some d2 \<and> demo_step d2 = Some d3 \<and> sharecounter d2 = 0"
proof
  fix im
  obtain s where m: "main im (boot_with repaired_container 7) = Some s"
    and live: "\<And>d0 k d. demo_started s d0 \<Longrightarrow> demo_run d0 k d \<Longrightarrow> (\<exists>d'. demo_step d = Some d') \<and>
        (\<exists>d'. demo_tick d = Some d') \<and> \<not> (locked_1 (at_1 d) \<and> locked_2 (at_2 d)) \<and> sharecounter d = of_nat k"
    using demo_never_faults [of im] by blast
  define d0 where "d0 = \<lparr>kern = s, flag1 = 0, flag2 = 0, flag3 = 0, flag4 = 0, sharecounter = 0,
    thread_info3 = rt_thread_getinfo 3 s, var_1 = 0, load_2 = 0, count_4 = 0, at_1 = Set_Flag1, at_2 = Set_Flag2,
    at_3 = Set_Flag3, at_4 = Set_Flag4\<rparr>"
  have st: "demo_started s d0" and ns: "\<not> stores d0" by (simp_all add: demo_started_def d0_def stores_def)
  obtain d1 where d1: "demo_step d0 = Some d1" using live [OF st Start] by blast
  have r1: "demo_run d0 0 d1" using Statement [OF Start d1] ns by simp
  obtain d2 where d2: "demo_tick d1 = Some d2" using live [OF st r1] by blast
  have r2: "demo_run d0 0 d2" by (rule Interrupt [OF r1 d2])
  then obtain d3 where "demo_step d2 = Some d3" "sharecounter d2 = 0" using live [OF st r2] by auto
  then show "\<exists>s d0 d1 d2 d3. main im (boot_with repaired_container 7) = Some s \<and> demo_started s d0 \<and>
     demo_step d0 = Some d1 \<and> demo_tick d1 = Some d2 \<and> demo_step d2 = Some d3 \<and> sharecounter d2 = 0"
    using m st d1 d2 by blast
qed

end
