(* ===== verification/Fifo.thy ===== *)
theory Fifo
  imports Prelude
begin

text \<open>
  The contract of a bounded queue: entering an element succeeds exactly if there is room and
  appends it, taking one out yields the oldest. Filling and draining a queue, and the order in
  which elements come out, follow from these two laws for every implementation.
\<close>

primrec feed :: "('a \<Rightarrow> 'q \<Rightarrow> (bool \<times> 'q) option) \<Rightarrow> 'a list \<Rightarrow> 'q \<Rightarrow> 'q option" where
  "feed put [] q = Some q"
| "feed put (x # xs) q = do { (b, q) \<leftarrow> put x q; if b then feed put xs q else None }"

primrec drain :: "('q \<Rightarrow> ('a option \<times> 'q) option) \<Rightarrow> nat \<Rightarrow> 'q \<Rightarrow> ('a list \<times> 'q) option" where
  "drain get 0 q = Some ([], q)"
| "drain get (Suc n) q = do {
     (x, q) \<leftarrow> get q;
     x \<leftarrow> x;
     (xs, q) \<leftarrow> drain get n q;
     Some (x # xs, q) }"

locale bounded_fifo =
  fixes put :: "'a \<Rightarrow> 'q \<Rightarrow> (bool \<times> 'q) option"
    and get :: "'q \<Rightarrow> ('a option \<times> 'q) option"
    and contents :: "'q \<Rightarrow> 'a list"
    and capacity :: "'q \<Rightarrow> nat"
    and ok :: "'q \<Rightarrow> bool"
  assumes put_law: "ok q \<Longrightarrow> \<exists>q'. put x q = Some (length (contents q) < capacity q, q') \<and> ok q' \<and>
      capacity q' = capacity q \<and>
      contents q' = (if length (contents q) < capacity q then contents q @ [x] else contents q)"
    and get_law: "ok q \<Longrightarrow> \<exists>q'. get q = Some (case contents q of [] \<Rightarrow> None | x # _ \<Rightarrow> Some x, q') \<and> ok q' \<and>
      capacity q' = capacity q \<and> contents q' = tl (contents q)"
begin

lemma feed_law:
  "ok q \<Longrightarrow> length (contents q) + length xs \<le> capacity q \<Longrightarrow>
     \<exists>q'. feed put xs q = Some q' \<and> ok q' \<and> capacity q' = capacity q \<and> contents q' = contents q @ xs"
proof (induction xs arbitrary: q)
  case (Cons x xs)
  obtain q1 where q1: "put x q = Some (length (contents q) < capacity q, q1)" "ok q1" "capacity q1 = capacity q"
    "contents q1 = (if length (contents q) < capacity q then contents q @ [x] else contents q)"
    using put_law [OF Cons.prems(1)] by blast
  then show ?case using Cons.IH [OF q1(2)] Cons.prems(2) by auto
qed simp

lemma feed_too_much:
  "ok q \<Longrightarrow> capacity q < length (contents q) + length xs \<Longrightarrow> length (contents q) \<le> capacity q \<Longrightarrow> feed put xs q = None"
proof (induction xs arbitrary: q)
  case (Cons x xs)
  obtain q1 where q1: "put x q = Some (length (contents q) < capacity q, q1)" "ok q1" "capacity q1 = capacity q"
    "contents q1 = (if length (contents q) < capacity q then contents q @ [x] else contents q)"
    using put_law [OF Cons.prems(1)] by blast
  then show ?case using Cons.IH [OF q1(2)] Cons.prems(2,3) by auto
qed simp

lemma drain_law:
  "ok q \<Longrightarrow> n \<le> length (contents q) \<Longrightarrow>
     \<exists>q'. drain get n q = Some (take n (contents q), q') \<and> ok q' \<and> capacity q' = capacity q \<and>
       contents q' = drop n (contents q)"
proof (induction n arbitrary: q)
  case (Suc n)
  obtain x xs where x: "contents q = x # xs" using Suc.prems(2) by (cases "contents q") auto
  obtain q1 where q1: "get q = Some (Some x, q1)" "ok q1" "capacity q1 = capacity q" "contents q1 = xs"
    using get_law [OF Suc.prems(1)] x by auto
  then show ?case using Suc.IH [OF q1(2)] Suc.prems(2) x by auto
qed simp

lemma first_in_first_out:
  assumes "ok q" "length (contents q) + length xs \<le> capacity q"
  shows "\<exists>q' q''. feed put xs q = Some q' \<and>
    drain get (length (contents q) + length xs) q' = Some (contents q @ xs, q'') \<and> ok q'' \<and> contents q'' = []"
proof -
  obtain q' where q': "feed put xs q = Some q'" "ok q'" "contents q' = contents q @ xs"
    using feed_law [OF assms] by blast
  then show ?thesis using drain_law [OF q'(2), of "length (contents q) + length xs"] by auto
qed

end

end
