(* ===== verification/Ringbuffer.thy ===== *)
theory Ringbuffer
  imports Kservice Fifo
begin

text \<open>
  \<open>components/drivers/src/ringbuffer.c\<close> and \<open>include/ipc/ringbuffer.h\<close> of the reference kernel:
  the byte ring buffer with mirror bits. \<open>RT_ALIGN_SIZE\<close> is 4. \<open>rt_ringbuffer_create\<close> and
  \<open>rt_ringbuffer_destroy\<close> take their memory from the heap and are in \<open>Heap_Use\<close>.
\<close>

section \<open>The structure\<close>

text \<open>
  The memory at \<open>buffer_ptr\<close> is the list \<open>rb_buffer\<close>. The mirror bits and the indices keep their
  widths of 1 and 15 bits, the size its sign.
\<close>

record ringbuffer =
  rb_buffer :: "u8 list"
  rb_read_mirror :: "1 word"
  rb_read_index :: "15 word"
  rb_write_mirror :: "1 word"
  rb_write_index :: "15 word"
  rb_buffer_size :: "16 word"

datatype rt_ringbuffer_state = RT_RINGBUFFER_EMPTY | RT_RINGBUFFER_FULL | RT_RINGBUFFER_HALFFULL

definition rt_ringbuffer_status :: "ringbuffer \<Rightarrow> rt_ringbuffer_state" where
  "rt_ringbuffer_status rb =
     (if rb_read_index rb = rb_write_index rb
      then if rb_read_mirror rb = rb_write_mirror rb then RT_RINGBUFFER_EMPTY else RT_RINGBUFFER_FULL
      else RT_RINGBUFFER_HALFFULL)"

definition rt_ringbuffer_init :: "u8 list \<Rightarrow> 16 word \<Rightarrow> ringbuffer \<Rightarrow> ringbuffer option" where
  "rt_ringbuffer_init pool sz rb =
     (if 0 < sint sz
      then Some \<lparr>rb_buffer = pool, rb_read_mirror = 0, rb_read_index = 0, rb_write_mirror = 0,
                 rb_write_index = 0, rb_buffer_size = sz AND NOT (4 - 1)\<rparr>
      else None)"

definition rt_ringbuffer_data_len :: "ringbuffer \<Rightarrow> u32" where
  "rt_ringbuffer_data_len rb =
     (case rt_ringbuffer_status rb of
        RT_RINGBUFFER_EMPTY \<Rightarrow> 0
      | RT_RINGBUFFER_FULL \<Rightarrow> scast (rb_buffer_size rb)
      | RT_RINGBUFFER_HALFFULL \<Rightarrow>
          if rb_read_index rb < rb_write_index rb
          then ucast (rb_write_index rb) - ucast (rb_read_index rb)
          else scast (rb_buffer_size rb) - (ucast (rb_read_index rb) - ucast (rb_write_index rb)))"

definition rt_ringbuffer_space_len :: "ringbuffer \<Rightarrow> u32" where
  "rt_ringbuffer_space_len rb = scast (rb_buffer_size rb) - rt_ringbuffer_data_len rb"

definition rt_ringbuffer_get_size :: "ringbuffer \<Rightarrow> u16" where
  "rt_ringbuffer_get_size rb = rb_buffer_size rb"

definition rt_ringbuffer_reset :: "ringbuffer \<Rightarrow> ringbuffer" where
  "rt_ringbuffer_reset rb =
     rb\<lparr>rb_read_mirror := 0, rb_read_index := 0, rb_write_mirror := 0, rb_write_index := 0\<rparr>"

section \<open>Blocks\<close>

text \<open>
  \<open>memcpy(&dst[d], &src[s], n)\<close> between two buffers. An access outside them is undefined, and a
  negative \<open>n\<close> is a huge \<open>size_t\<close>.
\<close>

definition block_copy :: "u8 list \<Rightarrow> nat \<Rightarrow> u8 list \<Rightarrow> nat \<Rightarrow> int \<Rightarrow> u8 list option" where
  "block_copy dst d src s n =
     (if 0 \<le> n \<and> d + nat n \<le> length dst \<and> s + nat n \<le> length src
      then Some (take d dst @ take (nat n) (drop s src) @ drop (d + nat n) dst) else None)"

text \<open>\<open>rb->buffer_size - rb->write_index\<close> and \<open>rb->buffer_size - rb->read_index\<close>, of type \<open>int\<close>\<close>

definition write_room :: "ringbuffer \<Rightarrow> int" where
  "write_room rb = sint (rb_buffer_size rb) - uint (rb_write_index rb)"

definition read_room :: "ringbuffer \<Rightarrow> int" where
  "read_room rb = sint (rb_buffer_size rb) - uint (rb_read_index rb)"

definition rt_ringbuffer_put :: "u8 list \<Rightarrow> u16 \<Rightarrow> ringbuffer \<Rightarrow> (u32 \<times> ringbuffer) option" where
  "rt_ringbuffer_put ptr len rb =
     (let sz = ucast (rt_ringbuffer_space_len rb) :: u16
      in if sz = 0 then Some (0, rb)
         else
           (let len = (if sz < len then sz else len)
            in if write_room rb > uint len then do {
                 buf \<leftarrow> block_copy (rb_buffer rb) (unat (rb_write_index rb)) ptr 0 (uint len);
                 Some (ucast len, rb\<lparr>rb_buffer := buf,
                   rb_write_index := rb_write_index rb + ucast len\<rparr>) }
               else do {
                 let room = write_room rb;
                 buf \<leftarrow> block_copy (rb_buffer rb) (unat (rb_write_index rb)) ptr 0 room;
                 buf \<leftarrow> block_copy buf 0 ptr (nat room) (uint len - room);
                 Some (ucast len, rb\<lparr>rb_buffer := buf,
                   rb_write_mirror := NOT (rb_write_mirror rb),
                   rb_write_index := of_int (uint len - room)\<rparr>) }))"

definition rt_ringbuffer_put_force :: "u8 list \<Rightarrow> u16 \<Rightarrow> ringbuffer \<Rightarrow> (u32 \<times> ringbuffer) option" where
  "rt_ringbuffer_put_force ptr len rb =
     (let space_length = ucast (rt_ringbuffer_space_len rb) :: u16;
          (ptr, len) =
            (if uint len > sint (rb_buffer_size rb)
             then (drop (nat (uint len - sint (rb_buffer_size rb))) ptr, rb_buffer_size rb)
             else (ptr, len))
      in if write_room rb > uint len then do {
           buf \<leftarrow> block_copy (rb_buffer rb) (unat (rb_write_index rb)) ptr 0 (uint len);
           let rb = rb\<lparr>rb_buffer := buf, rb_write_index := rb_write_index rb + ucast len\<rparr>;
           let rb = (if len > space_length then rb\<lparr>rb_read_index := rb_write_index rb\<rparr> else rb);
           Some (ucast len, rb) }
         else do {
           let room = write_room rb;
           buf \<leftarrow> block_copy (rb_buffer rb) (unat (rb_write_index rb)) ptr 0 room;
           buf \<leftarrow> block_copy buf 0 ptr (nat room) (uint len - room);
           let rb = rb\<lparr>rb_buffer := buf,
             rb_write_mirror := NOT (rb_write_mirror rb),
             rb_write_index := of_int (uint len - room)\<rparr>;
           let rb = (if len > space_length
             then rb\<lparr>rb_read_mirror := NOT (rb_read_mirror rb), rb_read_index := rb_write_index rb\<rparr> else rb);
           Some (ucast len, rb) })"

text \<open>\<open>rt_ringbuffer_get\<close> returns the len, the caller's buffer and the structure.\<close>

definition rt_ringbuffer_get :: "u8 list \<Rightarrow> u16 \<Rightarrow> ringbuffer \<Rightarrow> (u32 \<times> u8 list \<times> ringbuffer) option" where
  "rt_ringbuffer_get ptr len rb =
     (let sz = rt_ringbuffer_data_len rb
      in if sz = 0 then Some (0, ptr, rb)
         else
           (let len = (if sz < ucast len then ucast sz else len)
            in if read_room rb > uint len then do {
                 ptr \<leftarrow> block_copy ptr 0 (rb_buffer rb) (unat (rb_read_index rb)) (uint len);
                 Some (ucast len, ptr, rb\<lparr>rb_read_index := rb_read_index rb + ucast len\<rparr>) }
               else do {
                 let room = read_room rb;
                 ptr \<leftarrow> block_copy ptr 0 (rb_buffer rb) (unat (rb_read_index rb)) room;
                 ptr \<leftarrow> block_copy ptr (nat room) (rb_buffer rb) 0 (uint len - room);
                 Some (ucast len, ptr, rb\<lparr>rb_read_mirror := NOT (rb_read_mirror rb),
                   rb_read_index := of_int (uint len - room)\<rparr>) }))"

section \<open>Single characters\<close>

definition rt_ringbuffer_putchar :: "u8 \<Rightarrow> ringbuffer \<Rightarrow> (u32 \<times> ringbuffer) option" where
  "rt_ringbuffer_putchar ch rb =
     (if rt_ringbuffer_space_len rb = 0 then Some (0, rb)
      else do {
        buf \<leftarrow> buf_put (rb_buffer rb) (unat (rb_write_index rb)) ch;
        let rb = rb\<lparr>rb_buffer := buf\<rparr>;
        let rb = (if uint (rb_write_index rb) = sint (rb_buffer_size rb) - 1
          then rb\<lparr>rb_write_mirror := NOT (rb_write_mirror rb), rb_write_index := 0\<rparr>
          else rb\<lparr>rb_write_index := rb_write_index rb + 1\<rparr>);
        Some (1, rb) })"

definition rt_ringbuffer_putchar_force :: "u8 \<Rightarrow> ringbuffer \<Rightarrow> (u32 \<times> ringbuffer) option" where
  "rt_ringbuffer_putchar_force ch rb = do {
     let old_state = rt_ringbuffer_status rb;
     buf \<leftarrow> buf_put (rb_buffer rb) (unat (rb_write_index rb)) ch;
     let rb = rb\<lparr>rb_buffer := buf\<rparr>;
     let rb = (if uint (rb_write_index rb) = sint (rb_buffer_size rb) - 1
       then
         (let rb = rb\<lparr>rb_write_mirror := NOT (rb_write_mirror rb), rb_write_index := 0\<rparr>
          in if old_state = RT_RINGBUFFER_FULL
             then rb\<lparr>rb_read_mirror := NOT (rb_read_mirror rb), rb_read_index := rb_write_index rb\<rparr>
             else rb)
       else
         (let rb = rb\<lparr>rb_write_index := rb_write_index rb + 1\<rparr>
          in if old_state = RT_RINGBUFFER_FULL then rb\<lparr>rb_read_index := rb_write_index rb\<rparr> else rb));
     Some (1, rb) }"

definition rt_ringbuffer_getchar :: "ringbuffer \<Rightarrow> (u32 \<times> u8 option \<times> ringbuffer) option" where
  "rt_ringbuffer_getchar rb =
     (if rt_ringbuffer_data_len rb = 0 then Some (0, None, rb)
      else do {
        c \<leftarrow> buf_get (rb_buffer rb) (unat (rb_read_index rb));
        let rb' = (if uint (rb_read_index rb) = sint (rb_buffer_size rb) - 1
          then rb\<lparr>rb_read_mirror := NOT (rb_read_mirror rb), rb_read_index := 0\<rparr>
          else rb\<lparr>rb_read_index := rb_read_index rb + 1\<rparr>);
        Some (1, Some c, rb') })"

section \<open>Rings of bytes\<close>

text \<open>
  \<open>ring_list n r l buf\<close> are the \<open>l\<close> bytes from index \<open>r\<close> on, around the end of a buffer of size
  \<open>n\<close>; \<open>ring_write n w xs buf\<close> is the buffer with \<open>xs\<close> written from \<open>w\<close> on.
\<close>

definition ring_list :: "nat \<Rightarrow> nat \<Rightarrow> nat \<Rightarrow> 'a list \<Rightarrow> 'a list" where
  "ring_list n r l buf = map (\<lambda>i. buf ! ((r + i) mod n)) [0..<l]"

definition ring_write :: "nat \<Rightarrow> nat \<Rightarrow> 'a list \<Rightarrow> 'a list \<Rightarrow> 'a list" where
  "ring_write n w xs buf =
     map (\<lambda>p. let j = (p + n - w) mod n in if j < length xs then xs ! j else buf ! p) [0..<n]"

lemma length_ring_list [simp]: "length (ring_list n r l buf) = l"
  by (simp add: ring_list_def)

lemma ring_list_nth [simp]: "i < l \<Longrightarrow> ring_list n r l buf ! i = buf ! ((r + i) mod n)"
  by (simp add: ring_list_def)

lemma length_ring_write [simp]: "length (ring_write n w xs buf) = n"
  by (simp add: ring_write_def)

lemma ring_distance:
  fixes n p w :: nat
  assumes "w < n" "p < n"
  shows "(p + n - w) mod n = (if w \<le> p then p - w else p + n - w)"
proof (cases "w \<le> p")
  case True
  then have "p + n - w = (p - w) + n" by simp
  then have "(p + n - w) mod n = (p - w) mod n" by (metis mod_add_self2)
  then show ?thesis using True assms by simp
qed (use assms in simp)

lemma ring_distance_shift:
  fixes n i l r :: nat
  assumes "0 < n" "i < n + l" "i < n" "l \<le> n"
  shows "((r + i) mod n + n - (r + l) mod n) mod n = (if l \<le> i then i - l else i + n - l)"
proof -
  have "(r + l) mod n \<le> n" using assms(1) by (simp add: less_imp_le)
  then have "int (((r + i) mod n + n - (r + l) mod n) mod n) =
      (int ((r + i) mod n) + int n - int ((r + l) mod n)) mod int n"
    by (simp add: zmod_int of_nat_diff)
  also have "\<dots> = (int (r + i) mod int n - int (r + l) mod int n + int n) mod int n"
    by (simp add: zmod_int algebra_simps)
  also have "\<dots> = (int (r + i) - int (r + l)) mod int n" by (simp only: mod_add_self2 mod_diff_eq)
  also have "\<dots> = (int i - int l) mod int n" by simp
  also have "\<dots> = (if l \<le> i then int i - int l else int i + int n - int l)"
  proof (cases "l \<le> i")
    case False
    then have "(int i - int l) mod int n = (int i - int l + int n) mod int n" by simp
    also have "\<dots> = int i - int l + int n" using False assms by (intro mod_pos_pos_trivial) auto
    finally show ?thesis using False by simp
  qed (use assms in auto)
  also have "\<dots> = int (if l \<le> i then i - l else i + n - l)" using assms(4) by (auto simp: of_nat_diff)
  finally show ?thesis by (simp only: of_nat_eq_iff)
qed

lemma ring_write_nth:
  "p < n \<Longrightarrow> ring_write n w xs buf ! p = (let j = (p + n - w) mod n in if j < length xs then xs ! j else buf ! p)"
  by (simp add: ring_write_def Let_def)

text \<open>Writing behind the contents appends; writing over the oldest bytes drops them.\<close>

lemma ring_list_append:
  assumes "0 < n" "l + length xs \<le> n" "length buf = n"
  shows "ring_list n r (l + length xs) (ring_write n ((r + l) mod n) xs buf) = ring_list n r l buf @ xs"
proof (rule nth_equalityI)
  fix i assume i: "i < length (ring_list n r (l + length xs) (ring_write n ((r + l) mod n) xs buf))"
  then have "i < n" "i < n + l" "l \<le> n" using assms(2) by auto
  note d = ring_distance_shift [OF assms(1) this(2,1,3), of r]
  show "ring_list n r (l + length xs) (ring_write n ((r + l) mod n) xs buf) ! i = (ring_list n r l buf @ xs) ! i"
    using i assms d by (auto simp: ring_list_def ring_write_nth nth_append Let_def)
qed simp

lemma ring_list_force:
  assumes "w < n" "length xs \<le> n" "length buf = n"
  shows "ring_list n ((w + length xs) mod n) n (ring_write n w xs buf) = drop (length xs) (ring_list n w n buf) @ xs"
proof (rule nth_equalityI)
  let ?k = "length xs"
  fix i assume "i < length (ring_list n ((w + ?k) mod n) n (ring_write n w xs buf))"
  then have i: "i < n" by simp
  have e: "((w + ?k) mod n + i) mod n = (w + (?k + i)) mod n" by (simp add: mod_simps add.assoc)
  show "ring_list n ((w + ?k) mod n) n (ring_write n w xs buf) ! i = (drop ?k (ring_list n w n buf) @ xs) ! i"
  proof (cases "?k + i < n")
    case True
    have "((w + (?k + i)) mod n + n - w) mod n = ?k + i"
      using ring_distance_shift [of n "?k + i" 0 w] True assms(1) by simp
    moreover have "i < n - ?k" using True by simp
    ultimately show ?thesis using i assms by (simp add: ring_write_nth e Let_def nth_append)
  next
    case False
    have "(w + (?k + i)) mod n = (w + (?k + i - n)) mod n"
      using False mod_add_self2 [of "w + (?k + i - n)" n] by simp
    moreover have "((w + (?k + i - n)) mod n + n - w) mod n = ?k + i - n"
      using ring_distance_shift [of n "?k + i - n" 0 w] False i assms(1,2) by simp
    moreover have "\<not> i < n - ?k" "?k + i - n < ?k" "i - (n - ?k) = ?k + i - n" using False i assms(2) by auto
    ultimately show ?thesis using False i assms
      by (simp add: ring_write_nth e Let_def nth_append)
  qed
qed (use assms in simp)

lemma ring_list_full:
  assumes "l \<le> n" "0 < n"
  shows "drop (n - l) (ring_list n ((r + l) mod n) n buf) = ring_list n r l buf"
proof (rule nth_equalityI)
  fix i assume "i < length (drop (n - l) (ring_list n ((r + l) mod n) n buf))"
  then have "i < l" using assms(1) by simp
  moreover have "((r + l) mod n + (n - l + i)) mod n = (r + i) mod n"
  proof -
    have "((r + l) mod n + (n - l + i)) mod n = (r + l + (n - l + i)) mod n" by (simp add: mod_simps)
    also have "r + l + (n - l + i) = r + i + n" using assms(1) by simp
    finally show ?thesis by simp
  qed
  moreover have "n - l + i < n" using \<open>i < l\<close> assms(1) by simp
  ultimately show "drop (n - l) (ring_list n ((r + l) mod n) n buf) ! i = ring_list n r l buf ! i"
    using assms(1) by simp
qed (use assms in simp)

text \<open>The code's ways of writing and reading: in one piece or in two.\<close>

lemma ring_write_one:
  assumes "length buf = n" "w + k \<le> n" "k \<le> length ptr" "0 < k \<or> w < n"
  shows "take w buf @ take k ptr @ drop (w + k) buf = ring_write n w (take k ptr) buf"
proof (rule nth_equalityI)
  fix p assume "p < length (take w buf @ take k ptr @ drop (w + k) buf)"
  then have "p < n" "w < n" using assms by auto
  then show "(take w buf @ take k ptr @ drop (w + k) buf) ! p = ring_write n w (take k ptr) buf ! p"
    using assms ring_distance [of w n p] by (auto simp: ring_write_nth nth_append Let_def min_def)
qed (use assms in simp)

lemma ring_write_two:
  assumes "length buf = w + d" "0 < d" "m \<le> w" "d + m \<le> length ptr"
  shows "take m (drop d ptr) @ drop m (take w buf @ take d ptr) = ring_write (w + d) w (take (d + m) ptr) buf"
proof (rule nth_equalityI)
  have la: "length (take m (drop d ptr)) = m" "length (take w buf) = w" using assms by auto
  fix p assume "p < length (take m (drop d ptr) @ drop m (take w buf @ take d ptr))"
  then have p: "p < w + d" using assms by simp
  consider "p < m" | "m \<le> p" "p < w" | "w \<le> p" by linarith
  then show "(take m (drop d ptr) @ drop m (take w buf @ take d ptr)) ! p = ring_write (w + d) w (take (d + m) ptr) buf ! p"
  proof cases
    case 1
    then have "(p + (w + d) - w) mod (w + d) = p + d" using assms(3) by simp
    then show ?thesis using 1 p assms la by (simp add: ring_write_nth nth_append add.commute)
  next
    case 2
    then have "(p + (w + d) - w) mod (w + d) = p + d" by simp
    moreover have "p - m < w - m" using 2 by simp
    ultimately show ?thesis using 2 p assms la by (simp add: ring_write_nth nth_append)
  next
    case 3
    then have "(p + (w + d) - w) mod (w + d) = p - w" using ring_distance [of w "w + d" p] p assms(2) by simp
    moreover have "\<not> p - m < w - m" "p - w < d + m" "p - w < d" "m \<le> p" using 3 p assms by auto
    ultimately show ?thesis using 3 p assms la by (simp add: ring_write_nth nth_append Let_def)
  qed
qed (use assms in simp)

lemma ring_list_one: "r + k \<le> n \<Longrightarrow> length buf = n \<Longrightarrow> 0 < k \<or> r < n \<Longrightarrow> ring_list n r k buf = take k (drop r buf)"
  by (rule nth_equalityI) (auto simp: ring_list_def)

lemma ring_list_two:
  assumes "length buf = n" "r < n" "n - r \<le> k" "k \<le> n"
  shows "ring_list n r k buf = drop r buf @ take (k - (n - r)) buf"
proof (rule nth_equalityI)
  fix i assume "i < length (ring_list n r k buf)"
  then have "i < k" by simp
  moreover have "(r + i) mod n = (if i < n - r then r + i else i - (n - r))"
  proof (cases "i < n - r")
    case False
    then have "r + i = (i - (n - r)) + n" using assms by simp
    then show ?thesis using False \<open>i < k\<close> assms by (metis less_imp_diff_less mod_add_self2 mod_less order_less_le_trans)
  qed simp
  ultimately show "ring_list n r k buf ! i = (drop r buf @ take (k - (n - r)) buf) ! i"
    using assms by (auto simp: ring_list_def nth_append)
qed (use assms in simp)

lemma ring_list_take_drop:
  assumes "k \<le> l"
  shows "take k (ring_list n r l buf) = ring_list n r k buf"
    "drop k (ring_list n r l buf) = ring_list n ((r + k) mod n) (l - k) buf"
  using assms by (auto simp: ring_list_def take_map drop_map add.assoc mod_add_left_eq intro!: nth_equalityI)

section \<open>Well-formed ring buffers\<close>

text \<open>
  \<open>rb_rep rb n r l\<close>: a buffer of \<open>n\<close> bytes that holds \<open>l\<close> bytes from index \<open>r\<close> on. The mirror
  bits differ exactly when the contents reach around the end.
\<close>

definition rb_rep :: "ringbuffer \<Rightarrow> nat \<Rightarrow> nat \<Rightarrow> nat \<Rightarrow> bool" where
  "rb_rep rb n r l \<longleftrightarrow> sint (rb_buffer_size rb) = int n \<and> 0 < n \<and> length (rb_buffer rb) = n \<and>
     r < n \<and> l \<le> n \<and> unat (rb_read_index rb) = r \<and> unat (rb_write_index rb) = (r + l) mod n \<and>
     (rb_read_mirror rb = rb_write_mirror rb \<longleftrightarrow> r + l < n)"

lemma size_bound: "sint (x :: 16 word) = int n \<Longrightarrow> n < 2 ^ 15"
  using sint_lt [of x] by simp

lemma size_word:
  assumes "sint (x :: 16 word) = int n"
  shows "(scast x :: u32) = of_nat n" "x = of_nat n"
proof -
  have "scast x = (of_int (sint x) :: u32)" by simp
  then show "(scast x :: u32) = of_nat n" using assms by simp
  have "x = of_int (sint x)" by simp
  then show "x = of_nat n" using assms by simp
qed

lemma index_word: "ucast (x :: 15 word) = (of_nat (unat x) :: u32)"
  by simp

lemma one_bit_not: "NOT x = y \<longleftrightarrow> x \<noteq> y" "x = NOT y \<longleftrightarrow> x \<noteq> y" for x y :: "1 word"
proof -
  have e: "u = v \<longleftrightarrow> bit u 0 = bit v 0" for u v :: "1 word" by (auto intro!: bit_word_eqI)
  show "NOT x = y \<longleftrightarrow> x \<noteq> y" "x = NOT y \<longleftrightarrow> x \<noteq> y"
    unfolding e by (simp_all add: bit_not_iff possible_bit_word) blast+
qed

lemma wrap_mod: "r < n \<Longrightarrow> l \<le> n \<Longrightarrow> (r + l) mod n = (if r + l < n then r + l else r + l - n)" for r l n :: nat
  by (simp add: mod_if)

lemma rb_status:
  assumes "rb_rep rb n r l"
  shows "rt_ringbuffer_status rb = (if l = 0 then RT_RINGBUFFER_EMPTY else if l = n then RT_RINGBUFFER_FULL
    else RT_RINGBUFFER_HALFFULL)"
proof -
  have "rb_read_index rb = rb_write_index rb \<longleftrightarrow> r = (r + l) mod n"
    using assms word_eq_iff_unsigned [where 'a = nat, of "rb_read_index rb" "rb_write_index rb"] by (simp add: rb_rep_def)
  moreover have "r = (r + l) mod n \<longleftrightarrow> l = 0 \<or> l = n"
    using assms wrap_mod [of r n l] by (auto simp: rb_rep_def)
  ultimately show ?thesis using assms by (auto simp: rt_ringbuffer_status_def rb_rep_def)
qed

lemma rb_data_len:
  assumes R: "rb_rep rb n r l"
  shows "rt_ringbuffer_data_len rb = of_nat l"
proof -
  have w: "unat (rb_write_index rb) = (if r + l < n then r + l else r + l - n)" "unat (rb_read_index rb) = r"
    "sint (rb_buffer_size rb) = int n" "l \<le> n" "r < n"
    using R wrap_mod [of r n l] by (auto simp: rb_rep_def)
  note sz = size_word(1) [OF w(3)]
  show ?thesis
  proof (cases "l = 0 \<or> l = n")
    case True
    then show ?thesis by (auto simp: rt_ringbuffer_data_len_def rb_status [OF R] sz)
  next
    case False
    then have "rt_ringbuffer_data_len rb = (if r < unat (rb_write_index rb)
        then of_nat (unat (rb_write_index rb)) - of_nat r
        else of_nat n - (of_nat r - of_nat (unat (rb_write_index rb))))"
      unfolding rt_ringbuffer_data_len_def rb_status [OF R] w(2) [symmetric] sz by (simp add: word_less_nat_alt)
    also have "\<dots> = of_nat l"
      using w(1,4,5) False by (auto simp: of_nat_diff)
    finally show ?thesis .
  qed
qed

lemma rb_space_len: "rb_rep rb n r l \<Longrightarrow> rt_ringbuffer_space_len rb = of_nat (n - l)"
  using rb_data_len [of rb n r l] size_word(1) [of "rb_buffer_size rb" n]
  by (simp add: rt_ringbuffer_space_len_def rb_rep_def of_nat_diff)

lemma rb_small: "rb_rep rb n r l \<Longrightarrow> n < 2 ^ 15"
  using size_bound by (auto simp: rb_rep_def)

lemma of_nat_small [simp]: "k < 2 ^ 15 \<Longrightarrow> unat (of_nat k :: u32) = k" "k < 2 ^ 15 \<Longrightarrow> unat (of_nat k :: u16) = k"
  "k < 2 ^ 15 \<Longrightarrow> unat (of_nat k :: 15 word) = k"
  by (simp_all add: unat_of_nat)

lemma rb_rooms:
  assumes "rb_rep rb n r l"
  shows "write_room rb = int (n - (r + l) mod n)" "read_room rb = int (n - r)"
proof -
  have "(r + l) mod n < n" using assms by (simp add: rb_rep_def)
  then show "write_room rb = int (n - (r + l) mod n)" "read_room rb = int (n - r)"
    using assms by (auto simp: write_room_def read_room_def rb_rep_def of_nat_diff uint_nat)
qed

definition rb_contents :: "ringbuffer \<Rightarrow> u8 list" where
  "rb_contents rb = ring_list (nat (sint (rb_buffer_size rb))) (unat (rb_read_index rb))
     (unat (rt_ringbuffer_data_len rb)) (rb_buffer rb)"

definition rb_ok :: "ringbuffer \<Rightarrow> bool" where
  "rb_ok rb \<longleftrightarrow> (\<exists>n r l. rb_rep rb n r l)"

definition rb_capacity :: "ringbuffer \<Rightarrow> nat" where
  "rb_capacity rb = nat (sint (rb_buffer_size rb))"

lemma rb_rep_contents:
  assumes "rb_rep rb n r l"
  shows "rb_contents rb = ring_list n r l (rb_buffer rb)" "rb_capacity rb = n" "length (rb_contents rb) = l" "rb_ok rb"
proof -
  have "l < 2 ^ 15" using rb_small [OF assms] assms by (simp add: rb_rep_def)
  then show "rb_contents rb = ring_list n r l (rb_buffer rb)"
    using assms rb_data_len [OF assms] by (simp add: rb_contents_def rb_rep_def)
  then show "length (rb_contents rb) = l" by simp
  show "rb_capacity rb = n" "rb_ok rb" using assms by (auto simp: rb_capacity_def rb_rep_def rb_ok_def)
qed

section \<open>The operations\<close>

lemma block_copy_nat:
  "block_copy dst d src s (int n) = (if d + n \<le> length dst \<and> s + n \<le> length src
     then Some (take d dst @ take n (drop s src) @ drop (d + n) dst) else None)"
  by (simp add: block_copy_def)

lemma copy_in:
  assumes "length buf = n" "w < n" "k \<le> n" "k \<le> length ptr"
  shows "k < n - w \<Longrightarrow> block_copy buf w ptr 0 (int k) = Some (ring_write n w (take k ptr) buf)"
    and "n - w \<le> k \<Longrightarrow> \<exists>b. block_copy buf w ptr 0 (int (n - w)) = Some b \<and>
      block_copy b 0 ptr (n - w) (int (k - (n - w))) = Some (ring_write n w (take k ptr) buf)"
proof -
  assume "k < n - w"
  then show "block_copy buf w ptr 0 (int k) = Some (ring_write n w (take k ptr) buf)"
    using ring_write_one [of buf n w k ptr] assms by (simp add: block_copy_nat)
next
  assume k: "n - w \<le> k"
  have "n = w + (n - w)" "k = (n - w) + (k - (n - w))" using k assms by auto
  then show "\<exists>b. block_copy buf w ptr 0 (int (n - w)) = Some b \<and>
      block_copy b 0 ptr (n - w) (int (k - (n - w))) = Some (ring_write n w (take k ptr) buf)"
    unfolding block_copy_nat using ring_write_two [of buf w "n - w" "k - (n - w)" ptr] k assms by simp
qed

lemma copy_out:
  assumes "length buf = n" "r < n" "k \<le> n" "k \<le> length ptr"
  shows "k < n - r \<Longrightarrow> block_copy ptr 0 buf r (int k) = Some (ring_list n r k buf @ drop k ptr)"
    and "n - r \<le> k \<Longrightarrow> \<exists>b. block_copy ptr 0 buf r (int (n - r)) = Some b \<and>
      block_copy b (n - r) buf 0 (int (k - (n - r))) = Some (ring_list n r k buf @ drop k ptr)"
proof -
  assume "k < n - r"
  then show "block_copy ptr 0 buf r (int k) = Some (ring_list n r k buf @ drop k ptr)"
    using ring_list_one [of r k n buf] assms by (simp add: block_copy_nat)
next
  assume k: "n - r \<le> k"
  then show "\<exists>b. block_copy ptr 0 buf r (int (n - r)) = Some b \<and>
      block_copy b (n - r) buf 0 (int (k - (n - r))) = Some (ring_list n r k buf @ drop k ptr)"
    unfolding block_copy_nat using ring_list_two [OF assms(1,2) k assms(3)] assms by simp
qed

lemma rb_rep_write:
  assumes R: "rb_rep rb n r l" and k: "k \<le> n - l" and b: "length buf = n" and w: "w = (r + l) mod n"
  shows "k < n - w \<Longrightarrow> rb_rep (rb\<lparr>rb_buffer := buf, rb_write_index := rb_write_index rb + of_nat k\<rparr>) n r (l + k)"
    and "n - w \<le> k \<Longrightarrow> rb_rep (rb\<lparr>rb_buffer := buf, rb_write_mirror := NOT (rb_write_mirror rb),
      rb_write_index := of_nat (k - (n - w))\<rparr>) n r (l + k)"
proof -
  have n: "n < 2 ^ 15" using rb_small [OF R] .
  have f: "r < n" "l \<le> n" "unat (rb_write_index rb) = w" "rb_read_mirror rb = rb_write_mirror rb \<longleftrightarrow> r + l < n"
    "w = (if r + l < n then r + l else r + l - n)"
    using R w wrap_mod [of r n l] by (auto simp: rb_rep_def)
  have i: "(r + (l + k)) mod n = (w + k) mod n" by (simp add: w mod_simps add.assoc)
  { assume lt: "k < n - w"
    have "unat (rb_write_index rb + of_nat k) = w + k"
      using lt n f(3) by (subst unat_add_lem [THEN iffD1]) simp_all
    moreover have "(w + k) mod n = w + k" "r + l < n \<longleftrightarrow> r + (l + k) < n"
      using lt f k by (auto split: if_splits)
    ultimately show "rb_rep (rb\<lparr>rb_buffer := buf, rb_write_index := rb_write_index rb + of_nat k\<rparr>) n r (l + k)"
      using R b k i f by (simp add: rb_rep_def) }
  { assume ge: "n - w \<le> k"
    have "(w + k) mod n = k - (n - w)" "r + l < n" "\<not> r + (l + k) < n"
      using ge f k wrap_mod [of w n k] by (auto split: if_splits)
    moreover define m where "m = k - (n - w)"
    moreover have "m < 2 ^ 15" using n k by (simp add: m_def)
    ultimately show "rb_rep (rb\<lparr>rb_buffer := buf, rb_write_mirror := NOT (rb_write_mirror rb),
        rb_write_index := of_nat (k - (n - w))\<rparr>) n r (l + k)"
      unfolding m_def [symmetric] using R b k i f by (simp add: rb_rep_def one_bit_not) }
qed

lemma rb_rep_read:
  assumes R: "rb_rep rb n r l" and k: "k \<le> l"
  shows "k < n - r \<Longrightarrow> rb_rep (rb\<lparr>rb_read_index := rb_read_index rb + of_nat k\<rparr>) n ((r + k) mod n) (l - k)"
    and "n - r \<le> k \<Longrightarrow> rb_rep (rb\<lparr>rb_read_mirror := NOT (rb_read_mirror rb),
      rb_read_index := of_nat (k - (n - r))\<rparr>) n ((r + k) mod n) (l - k)"
proof -
  have n: "n < 2 ^ 15" using rb_small [OF R] .
  have f: "r < n" "l \<le> n" "unat (rb_read_index rb) = r" "rb_read_mirror rb = rb_write_mirror rb \<longleftrightarrow> r + l < n"
    using R by (auto simp: rb_rep_def)
  have i: "((r + k) mod n + (l - k)) mod n = (r + l) mod n" by (simp only: mod_add_left_eq) (simp add: k)
  { assume lt: "k < n - r"
    have "unat (rb_read_index rb + of_nat k) = r + k"
      using lt n f(3) by (subst unat_add_lem [THEN iffD1]) simp_all
    moreover have "(r + k) mod n = r + k" "r + k < n" "l - k \<le> n" using lt f by auto
    ultimately show "rb_rep (rb\<lparr>rb_read_index := rb_read_index rb + of_nat k\<rparr>) n ((r + k) mod n) (l - k)"
      using R k i f lt by (simp add: rb_rep_def) }
  { assume ge: "n - r \<le> k"
    have "(r + k) mod n = k - (n - r)" using ge f k wrap_mod [of r n k] by auto
    moreover have t: "k - (n - r) + (l - k) < n" "\<not> r + l < n" using ge k f by auto
    moreover define m where "m = k - (n - r)"
    moreover have "m < 2 ^ 15" "m < n" "l - k \<le> n" using n k f(1,2) ge by (auto simp: m_def)
    ultimately show "rb_rep (rb\<lparr>rb_read_mirror := NOT (rb_read_mirror rb),
        rb_read_index := of_nat (k - (n - r))\<rparr>) n ((r + k) mod n) (l - k)"
      unfolding m_def [symmetric] using R k i f by (simp add: rb_rep_def one_bit_not) }
qed

lemma cast_small:
  assumes "k < 2 ^ 15"
  shows "(ucast (of_nat k :: u32) :: u16) = of_nat k" "(ucast (of_nat k :: u16) :: u32) = of_nat k"
    "(ucast (of_nat k :: u16) :: 15 word) = of_nat k" "uint (of_nat k :: u16) = int k"
  using assms by (simp_all add: unsigned_of_nat take_bit_nat_eq_self)

lemma rb_put:
  assumes R: "rb_rep rb n r l" and ptr: "unat len \<le> length ptr"
  defines "k \<equiv> min (unat len) (n - l)"
  shows "\<exists>rb'. rt_ringbuffer_put ptr len rb = Some (of_nat k, rb') \<and> rb_rep rb' n r (l + k) \<and>
    rb_buffer rb' = ring_write n ((r + l) mod n) (take k ptr) (rb_buffer rb)"
proof (cases "n - l = 0")
  case True
  have "ring_write n w [] (rb_buffer rb) = rb_buffer rb" for w
    using R by (auto simp: ring_write_def rb_rep_def intro!: nth_equalityI)
  then show ?thesis using R True by (simp add: k_def rt_ringbuffer_put_def rb_space_len [OF R])
next
  case False
  have n: "n < 2 ^ 15" using rb_small [OF R] .
  define w d m where w: "w = (r + l) mod n" and d: "d = n - w" and m: "m = n - l"
  have f: "length (rb_buffer rb) = n" "w < n" "l \<le> n" "unat (rb_write_index rb) = w"
    using R by (auto simp: rb_rep_def w)
  have k: "k \<le> m" "k \<le> length ptr" "k \<le> n" "k < 2 ^ 15" using ptr f(3) n by (auto simp: k_def m)
  have mb: "m < 2 ^ 15" "0 < m" using n False by (auto simp: m)
  have z: "(of_nat m :: u16) \<noteq> 0" using mb of_nat_small(2) [of m] by fastforce
  have ul: "(if of_nat m < len then of_nat m else len) = (of_nat k :: u16)"
    using mb by (auto simp: k_def word_less_nat_alt min_def m [symmetric])
  have put: "rt_ringbuffer_put ptr len rb =
     (if int k < int d then do {
         buf \<leftarrow> block_copy (rb_buffer rb) w ptr 0 (int k);
         Some (of_nat k, rb\<lparr>rb_buffer := buf, rb_write_index := rb_write_index rb + of_nat k\<rparr>) }
       else do {
         buf \<leftarrow> block_copy (rb_buffer rb) w ptr 0 (int d);
         buf \<leftarrow> block_copy buf 0 ptr (nat (int d)) (int k - int d);
         Some (of_nat k, rb\<lparr>rb_buffer := buf, rb_write_mirror := NOT (rb_write_mirror rb),
           rb_write_index := of_int (int k - int d)\<rparr>) })"
    unfolding rt_ringbuffer_put_def Let_def rb_space_len [OF R] rb_rooms(1) [OF R] m [symmetric] w [symmetric] d [symmetric]
      cast_small(1) [OF mb(1)] ul f(4) cast_small [OF k(4)] using z by simp
  show ?thesis
  proof (cases "k < d")
    case True
    then show ?thesis unfolding put w [symmetric]
      using copy_in(1) [OF f(1,2) k(3,2)] rb_rep_write(1) [OF R _ _ w, of k "ring_write n w (take k ptr) (rb_buffer rb)"] k(1)
      unfolding d [symmetric] m [symmetric] by simp
  next
    case False
    then have ge: "d \<le> k" by simp
    define j where j: "j = k - d"
    then have dk: "int k - int d = int j" using ge by simp
    obtain b where "block_copy (rb_buffer rb) w ptr 0 (int d) = Some b"
      "block_copy b 0 ptr d (int j) = Some (ring_write n w (take k ptr) (rb_buffer rb))"
      using copy_in(2) [OF f(1,2) k(3,2)] ge unfolding d [symmetric] j [symmetric] by blast
    moreover have "rb_rep (rb\<lparr>rb_buffer := ring_write n w (take k ptr) (rb_buffer rb),
        rb_write_mirror := NOT (rb_write_mirror rb), rb_write_index := of_nat j\<rparr>) n r (l + k)"
      using rb_rep_write(2) [OF R _ _ w, of k "ring_write n w (take k ptr) (rb_buffer rb)"] k(1) ge
      unfolding d [symmetric] j [symmetric] m [symmetric] by simp
    ultimately show ?thesis unfolding put dk w [symmetric] using ge by simp
  qed
qed

lemma rb_get:
  assumes R: "rb_rep rb n r l" and ptr: "unat len \<le> length ptr"
  defines "k \<equiv> min (unat len) l"
  shows "\<exists>rb'. rt_ringbuffer_get ptr len rb = Some (of_nat k, ring_list n r k (rb_buffer rb) @ drop k ptr, rb') \<and>
    rb_rep rb' n ((r + k) mod n) (l - k) \<and> rb_buffer rb' = rb_buffer rb"
proof (cases "l = 0")
  case True
  then show ?thesis using R
    by (auto simp: k_def rt_ringbuffer_get_def rb_data_len [OF R] ring_list_def rb_rep_def)
next
  case False
  have n: "n < 2 ^ 15" using rb_small [OF R] .
  define d where d: "d = n - r"
  have f: "length (rb_buffer rb) = n" "r < n" "l \<le> n" "unat (rb_read_index rb) = r"
    using R by (auto simp: rb_rep_def)
  have k: "k \<le> l" "k \<le> length ptr" "k \<le> n" "k < 2 ^ 15" "l < 2 ^ 15" using ptr f(3) n by (auto simp: k_def)
  have z: "(of_nat l :: u32) \<noteq> 0" using k(5) False of_nat_small(1) [of l] by fastforce
  have "of_nat l < (ucast len :: u32) \<longleftrightarrow> l < unat len"
    using k(5) by (simp add: word_less_nat_alt unsigned_ucast_eq take_bit_nat_eq_self less_le_trans [OF unsigned_less])
  then have ul: "(if of_nat l < (ucast len :: u32) then of_nat l else len) = (of_nat k :: u16)"
    by (auto simp: k_def min_def)
  have get: "rt_ringbuffer_get ptr len rb =
     (if int k < int d then do {
         ptr \<leftarrow> block_copy ptr 0 (rb_buffer rb) r (int k);
         Some (of_nat k, ptr, rb\<lparr>rb_read_index := rb_read_index rb + of_nat k\<rparr>) }
       else do {
         ptr \<leftarrow> block_copy ptr 0 (rb_buffer rb) r (int d);
         ptr \<leftarrow> block_copy ptr (nat (int d)) (rb_buffer rb) 0 (int k - int d);
         Some (of_nat k, ptr, rb\<lparr>rb_read_mirror := NOT (rb_read_mirror rb),
           rb_read_index := of_int (int k - int d)\<rparr>) })"
    unfolding rt_ringbuffer_get_def Let_def rb_data_len [OF R] rb_rooms(2) [OF R] d [symmetric]
      cast_small(1) [OF k(5)] ul f(4) cast_small [OF k(4)] using z by simp
  show ?thesis
  proof (cases "k < d")
    case True
    then show ?thesis unfolding get
      using copy_out(1) [OF f(1,2) k(3,2)] rb_rep_read(1) [OF R k(1)] unfolding d [symmetric] by simp
  next
    case False
    then have ge: "d \<le> k" by simp
    define j where j: "j = k - d"
    then have dk: "int k - int d = int j" using ge by simp
    obtain b where "block_copy ptr 0 (rb_buffer rb) r (int d) = Some b"
      "block_copy b d (rb_buffer rb) 0 (int j) = Some (ring_list n r k (rb_buffer rb) @ drop k ptr)"
      using copy_out(2) [OF f(1,2) k(3,2)] ge unfolding d [symmetric] j [symmetric] by blast
    moreover have "rb_rep (rb\<lparr>rb_read_mirror := NOT (rb_read_mirror rb), rb_read_index := of_nat j\<rparr>) n
        ((r + k) mod n) (l - k)"
      using rb_rep_read(2) [OF R k(1)] ge unfolding d [symmetric] j [symmetric] by simp
    ultimately show ?thesis unfolding get dk using ge by simp
  qed
qed

text \<open>
  A forced write of \<open>k\<close> bytes that does not fit leaves a full buffer behind the written bytes, if
  the contents reached around the end before, and an empty one otherwise: then both mirror
  bits are flipped and end up equal.
\<close>

lemma rb_put_force:
  assumes R: "rb_rep rb n r l" and ptr: "unat len \<le> length ptr"
  defines "k \<equiv> min (unat len) n" and "xs \<equiv> drop (unat len - n) (take (unat len) ptr)" and "w \<equiv> (r + l) mod n"
  shows "\<exists>rb'. rt_ringbuffer_put_force ptr len rb = Some (of_nat k, rb') \<and>
    (if k \<le> n - l then rb_rep rb' n r (l + k)
     else if r + l < n then rb_rep rb' n ((w + k) mod n) 0 else rb_rep rb' n ((w + k) mod n) n) \<and>
    rb_buffer rb' = ring_write n w xs (rb_buffer rb) \<and> length xs = k"
proof -
  have n: "n < 2 ^ 15" using rb_small [OF R] .
  define d m where d: "d = n - w" and m: "m = n - l"
  define p where p: "p = (if n < unat len then drop (unat len - n) ptr else ptr)"
  have f: "length (rb_buffer rb) = n" "w < n" "l \<le> n" "unat (rb_write_index rb) = w" "r < n"
      "sint (rb_buffer_size rb) = int n" "rb_read_mirror rb = rb_write_mirror rb \<longleftrightarrow> r + l < n"
    using R by (auto simp: rb_rep_def w_def)
  have k: "k \<le> n" "k < 2 ^ 15" using n by (auto simp: k_def)
  have mb: "m < 2 ^ 15" using n by (simp add: m)
  have pl: "k \<le> length p" "take k p = xs" "length xs = k"
    using ptr by (auto simp: p k_def xs_def drop_take min_def)
  have ul: "uint len = int (unat len)" by simp
  have lp: "(if uint len > sint (rb_buffer_size rb)
      then (drop (nat (uint len - sint (rb_buffer_size rb))) ptr, rb_buffer_size rb) else (ptr, len)) = (p, of_nat k)"
  proof (cases "n < unat len")
    case True
    then have "k = n" by (simp add: k_def)
    moreover have "uint len > int n" "nat (uint len - int n) = unat len - n" unfolding ul using True by linarith+
    moreover note True
    ultimately show ?thesis using size_word(2) [OF f(6)] unfolding f(6) p by simp
  next
    case False
    then have "k = unat len" by (simp add: k_def)
    moreover have "\<not> uint len > int n" unfolding ul using False by linarith
    ultimately show ?thesis using False unfolding f(6) p by simp
  qed
  have gt: "of_nat m < (of_nat k :: u16) \<longleftrightarrow> m < k" using mb k(2) by (simp add: word_less_nat_alt)
  let ?b = "ring_write n w xs (rb_buffer rb)"
  define j where j: "j = k - d"
  define rb1 where rb1: "rb1 = (if k < d
     then rb\<lparr>rb_buffer := ?b, rb_write_index := rb_write_index rb + of_nat k\<rparr>
     else rb\<lparr>rb_buffer := ?b, rb_write_mirror := NOT (rb_write_mirror rb), rb_write_index := of_nat j\<rparr>)"
  have put0: "rt_ringbuffer_put_force ptr len rb =
      (if int k < int d then do {
         buf \<leftarrow> block_copy (rb_buffer rb) w p 0 (int k);
         let rb = rb\<lparr>rb_buffer := buf, rb_write_index := rb_write_index rb + of_nat k\<rparr>;
         let rb = (if m < k then rb\<lparr>rb_read_index := rb_write_index rb\<rparr> else rb);
         Some (of_nat k, rb) }
       else do {
         buf \<leftarrow> block_copy (rb_buffer rb) w p 0 (int d);
         buf \<leftarrow> block_copy buf 0 p (nat (int d)) (int k - int d);
         let rb = rb\<lparr>rb_buffer := buf, rb_write_mirror := NOT (rb_write_mirror rb),
           rb_write_index := of_int (int k - int d)\<rparr>;
         let rb = (if m < k
           then rb\<lparr>rb_read_mirror := NOT (rb_read_mirror rb), rb_read_index := rb_write_index rb\<rparr> else rb);
         Some (of_nat k, rb) })"
    unfolding rt_ringbuffer_put_force_def Let_def rb_space_len [OF R] rb_rooms(1) [OF R] w_def [symmetric]
      d [symmetric] m [symmetric] lp prod.case f(4) cast_small [OF k(2)] cast_small [OF mb] gt by (rule refl)
  let ?rb = "if m < k then (if k < d then rb1 else rb1\<lparr>rb_read_mirror := NOT (rb_read_mirror rb1)\<rparr>)
        \<lparr>rb_read_index := rb_write_index rb1\<rparr> else rb1"
  have put: "rt_ringbuffer_put_force ptr len rb = Some (of_nat k, ?rb)"
  proof (cases "k < d")
    case True
    then have "block_copy (rb_buffer rb) w p 0 (int k) = Some ?b"
      using copy_in(1) [OF f(1,2) k(1) pl(1)] by (simp add: d pl(2))
    then show ?thesis unfolding put0 rb1 using True by (cases "m < k") simp_all
  next
    case False
    have dk: "int k - int d = int j" using False by (simp add: j)
    obtain b where "block_copy (rb_buffer rb) w p 0 (int d) = Some b" "block_copy b 0 p d (int j) = Some ?b"
      using copy_in(2) [OF f(1,2) k(1) pl(1)] False unfolding d [symmetric] j [symmetric] pl(2) by fastforce
    then show ?thesis unfolding put0 dk rb1 using False by (cases "m < k") simp_all
  qed
  have e: "(w + k) mod n = (if k < d then w + k else k - d)" using wrap_mod [OF f(2) k(1)] f(2) by (auto simp: d)
  have w': "w = (if r + l < n then r + l else r + l - n)" unfolding w_def by (rule wrap_mod [OF f(5,3)])
  have i: "unat (rb_write_index rb1) = (w + k) mod n" "rb_buffer rb1 = ?b" "rb_buffer_size rb1 = rb_buffer_size rb"
    "rb_read_mirror rb1 = rb_read_mirror rb" "rb_read_index rb1 = rb_read_index rb"
    "rb_write_mirror rb1 = (if k < d then rb_write_mirror rb else NOT (rb_write_mirror rb))"
  proof -
    have "unat (rb_write_index rb + of_nat k) = w + k" if "k < d"
      using that n f(4) k(2) by (subst unat_add_lem [THEN iffD1]) (simp_all add: d)
    moreover have "unat (of_nat j :: 15 word) = j" using of_nat_small(3) [of j] k(2) j by linarith
    ultimately show "unat (rb_write_index rb1) = (w + k) mod n" unfolding e rb1 j [symmetric] by simp
  qed (simp_all add: rb1)
  have "if k \<le> n - l then rb_rep ?rb n r (l + k)
     else if r + l < n then rb_rep ?rb n ((w + k) mod n) 0 else rb_rep ?rb n ((w + k) mod n) n"
  proof (cases "k \<le> n - l")
    case True
    have "(r + (l + k)) mod n = (w + k) mod n" by (simp add: w_def mod_simps add.assoc)
    moreover have "rb_read_mirror rb1 = rb_write_mirror rb1 \<longleftrightarrow> r + (l + k) < n"
      using True f(3,5,7) w' by (auto simp: i d one_bit_not split: if_splits)
    moreover have "l + k \<le> n" "unat (rb_read_index rb) = r" using True f(3) R by (auto simp: rb_rep_def)
    ultimately show ?thesis using True f i by (simp add: rb_rep_def m pl)
  next
    case False
    have "r + l < n \<Longrightarrow> \<not> k < d" using False f(3) w' by (auto simp: d)
    then show ?thesis using False f i
      by (auto simp: rb_rep_def m pl one_bit_not)
  qed
  then show ?thesis using put i(2) pl(3) by (intro exI [of _ ?rb]) simp
qed

section \<open>Single characters\<close>

lemma index_last:
  assumes R: "rb_rep rb n r l"
  shows "uint (rb_write_index rb) = sint (rb_buffer_size rb) - 1 \<longleftrightarrow> n - (r + l) mod n \<le> 1"
    "uint (rb_read_index rb) = sint (rb_buffer_size rb) - 1 \<longleftrightarrow> n - r \<le> 1"
proof -
  have u: "uint (rb_write_index rb) = int (unat (rb_write_index rb))" "uint (rb_read_index rb) = int (unat (rb_read_index rb))"
    by simp_all
  have "sint (rb_buffer_size rb) = int n" "(r + l) mod n < n" "r < n"
    "unat (rb_write_index rb) = (r + l) mod n" "unat (rb_read_index rb) = r"
    using R by (auto simp: rb_rep_def)
  then show "uint (rb_write_index rb) = sint (rb_buffer_size rb) - 1 \<longleftrightarrow> n - (r + l) mod n \<le> 1"
    "uint (rb_read_index rb) = sint (rb_buffer_size rb) - 1 \<longleftrightarrow> n - r \<le> 1" unfolding u by linarith+
qed

lemma ring_write_single:
  assumes "length buf = n" "w < n"
  shows "buf[w := c] = ring_write n w [c] buf"
  using ring_write_one [of buf n w 1 "[c]"] assms by (simp add: upd_conv_take_nth_drop)

lemma rb_putchar:
  assumes R: "rb_rep rb n r l"
  shows "\<exists>rb'. rt_ringbuffer_putchar ch rb = Some (if l < n then 1 else 0, rb') \<and>
    rb_rep rb' n r (if l < n then l + 1 else l) \<and>
    rb_buffer rb' = (if l < n then ring_write n ((r + l) mod n) [ch] (rb_buffer rb) else rb_buffer rb)"
proof (cases "l < n")
  case False
  then show ?thesis using R by (simp add: rt_ringbuffer_putchar_def rb_space_len [OF R])
next
  case True
  define w where w: "w = (r + l) mod n"
  have f: "length (rb_buffer rb) = n" "w < n" "unat (rb_write_index rb) = w" using R by (auto simp: rb_rep_def w)
  have "n - l < 2 ^ 15" "0 < n - l" using True rb_small [OF R] by auto
  then have "rt_ringbuffer_space_len rb \<noteq> 0"
    using of_nat_small(1) [of "n - l"] by (metis rb_space_len [OF R] neq0_conv unsigned_0)
  then have e: "rt_ringbuffer_putchar ch rb = Some (1, if n - w \<le> 1
      then rb\<lparr>rb_buffer := ring_write n w [ch] (rb_buffer rb), rb_write_mirror := NOT (rb_write_mirror rb), rb_write_index := 0\<rparr>
      else rb\<lparr>rb_buffer := ring_write n w [ch] (rb_buffer rb), rb_write_index := rb_write_index rb + 1\<rparr>)"
    using index_last(1) [OF R] f by (simp add: rt_ringbuffer_putchar_def buf_put_def ring_write_single w)
  show ?thesis
  proof (cases "n - w \<le> 1")
    case l: True
    then have "n - w = 1" using f(2) by simp
    then show ?thesis
      using e l True rb_rep_write(2) [OF R _ _ w, of 1 "ring_write n w [ch] (rb_buffer rb)"] unfolding w by simp
  next
    case l: False
    then show ?thesis
      using e True rb_rep_write(1) [OF R _ _ w, of 1 "ring_write n w [ch] (rb_buffer rb)"] unfolding w by simp
  qed
qed

lemma rb_getchar:
  assumes R: "rb_rep rb n r l"
  shows "\<exists>rb'. rt_ringbuffer_getchar rb = Some (if l = 0 then 0 else 1, if l = 0 then None else Some (rb_buffer rb ! r), rb') \<and>
    (if l = 0 then rb' = rb else rb_rep rb' n ((r + 1) mod n) (l - 1) \<and> rb_buffer rb' = rb_buffer rb)"
proof (cases "l = 0")
  case True
  then show ?thesis by (simp add: rt_ringbuffer_getchar_def rb_data_len [OF R])
next
  case False
  have f: "length (rb_buffer rb) = n" "r < n" "unat (rb_read_index rb) = r" "l \<le> n" using R by (auto simp: rb_rep_def)
  have "l < 2 ^ 15" using f(4) rb_small [OF R] by auto
  then have "rt_ringbuffer_data_len rb \<noteq> 0"
    using of_nat_small(1) [of l] False by (metis rb_data_len [OF R] unsigned_0)
  then have e: "rt_ringbuffer_getchar rb = Some (1, Some (rb_buffer rb ! r), if n - r \<le> 1
      then rb\<lparr>rb_read_mirror := NOT (rb_read_mirror rb), rb_read_index := 0\<rparr>
      else rb\<lparr>rb_read_index := rb_read_index rb + 1\<rparr>)"
    using index_last(2) [OF R] f by (simp add: rt_ringbuffer_getchar_def buf_get_def)
  show ?thesis
  proof (cases "n - r \<le> 1")
    case l: True
    then have "n - r = 1" using f(2) by simp
    then show ?thesis using e l False rb_rep_read(2) [OF R, of 1] by simp
  next
    case l: False
    then show ?thesis using e False rb_rep_read(1) [OF R, of 1] by simp
  qed
qed

lemma rb_putchar_force:
  assumes R: "rb_rep rb n r l"
  shows "\<exists>rb'. rt_ringbuffer_putchar_force ch rb = Some (1, rb') \<and>
    (if l < n then rb_rep rb' n r (l + 1) else rb_rep rb' n ((r + 1) mod n) n) \<and>
    rb_buffer rb' = ring_write n ((r + l) mod n) [ch] (rb_buffer rb)"
proof -
  define w where w: "w = (r + l) mod n"
  have f: "length (rb_buffer rb) = n" "w < n" "unat (rb_write_index rb) = w" "r < n" "l \<le> n" "0 < n" "n < 2 ^ 15"
    "rb_read_mirror rb = rb_write_mirror rb \<longleftrightarrow> r + l < n" "unat (rb_read_index rb) = r"
    using R rb_small [OF R] by (auto simp: rb_rep_def w)
  let ?b = "ring_write n w [ch] (rb_buffer rb)"
  define rb1 where rb1: "rb1 = (if n - w \<le> 1
      then rb\<lparr>rb_buffer := ?b, rb_write_mirror := NOT (rb_write_mirror rb), rb_write_index := 0\<rparr>
      else rb\<lparr>rb_buffer := ?b, rb_write_index := rb_write_index rb + 1\<rparr>)"
  have full: "rt_ringbuffer_status rb = RT_RINGBUFFER_FULL \<longleftrightarrow> l = n" using rb_status [OF R] f(6) by auto
  have e: "rt_ringbuffer_putchar_force ch rb = Some (1, if l = n
      then (if n - w \<le> 1 then rb1\<lparr>rb_read_mirror := NOT (rb_read_mirror rb1)\<rparr> else rb1)\<lparr>rb_read_index := rb_write_index rb1\<rparr>
      else rb1)"
    using index_last(1) [OF R] f
    by (simp add: rt_ringbuffer_putchar_force_def buf_put_def ring_write_single full rb1 w [symmetric])
  show ?thesis
  proof (cases "l < n")
    case True
    have "rb_rep rb1 n r (l + 1)"
    proof (cases "n - w \<le> 1")
      case l: True
      then have "n - w = 1" using f(2) by simp
      then show ?thesis
        using l True rb_rep_write(2) [OF R _ _ w, of 1 ?b] unfolding rb1 by simp
    next
      case l: False
      then show ?thesis
        using True rb_rep_write(1) [OF R _ _ w, of 1 ?b] unfolding rb1 by simp
    qed
    then show ?thesis using e True by (simp add: w [symmetric]) (simp add: rb1)
  next
    case False
    then have l: "l = n" "w = r" using f(4,5) by (auto simp: w)
    let ?rb = "(if n - w \<le> 1 then rb1\<lparr>rb_read_mirror := NOT (rb_read_mirror rb1)\<rparr> else rb1)\<lparr>rb_read_index := rb_write_index rb1\<rparr>"
    have i: "unat (rb_write_index rb1) = (r + 1) mod n"
    proof (cases "n - w \<le> 1")
      case True
      then have "r + 1 = n" using f(4) l(2) by simp
      then show ?thesis using True by (simp add: rb1)
    next
      case False
      have "unat (rb_write_index rb + 1) = w + 1"
        using False f(3,7) by (subst unat_add_lem [THEN iffD1]) simp_all
      then show ?thesis using False l(2) by (simp add: rb1)
    qed
    have "rb_rep ?rb n ((r + 1) mod n) n"
      using R i l f unfolding rb_rep_def by (auto simp: rb1 one_bit_not)
    moreover have "rb_buffer ?rb = ?b" by (simp add: rb1)
    ultimately show ?thesis using e l(1) unfolding w by simp
  qed
qed

section \<open>What the operations do to the contents\<close>

lemma rb_okE:
  assumes "rb_ok rb"
  obtains n r l where "rb_rep rb n r l" "rb_contents rb = ring_list n r l (rb_buffer rb)" "rb_capacity rb = n"
    "length (rb_contents rb) = l" "length (rb_buffer rb) = n" "l \<le> n" "0 < n" "r < n"
  using assms rb_rep_contents by (metis rb_ok_def rb_rep_def)

lemma ringbuffer_putchar:
  assumes "rb_ok rb"
  shows "\<exists>rb'. rt_ringbuffer_putchar ch rb = Some (if length (rb_contents rb) < rb_capacity rb then 1 else 0, rb') \<and>
    rb_ok rb' \<and> rb_capacity rb' = rb_capacity rb \<and>
    rb_contents rb' = (if length (rb_contents rb) < rb_capacity rb then rb_contents rb @ [ch] else rb_contents rb)"
proof -
  obtain n r l where o: "rb_rep rb n r l" "rb_contents rb = ring_list n r l (rb_buffer rb)" "rb_capacity rb = n"
    "length (rb_contents rb) = l" "length (rb_buffer rb) = n" "0 < n"
    using assms by (rule rb_okE)
  obtain rb' where r: "rt_ringbuffer_putchar ch rb = Some (if l < n then 1 else 0, rb')"
    "rb_rep rb' n r (if l < n then l + 1 else l)"
    "rb_buffer rb' = (if l < n then ring_write n ((r + l) mod n) [ch] (rb_buffer rb) else rb_buffer rb)"
    using rb_putchar [OF o(1)] by blast
  then show ?thesis
    using o rb_rep_contents [OF r(2)] ring_list_append [of n l "[ch]" "rb_buffer rb" r] by auto
qed

lemma ringbuffer_getchar:
  assumes "rb_ok rb"
  shows "\<exists>rb'. rt_ringbuffer_getchar rb = Some (if rb_contents rb = [] then 0 else 1,
      case rb_contents rb of [] \<Rightarrow> None | c # _ \<Rightarrow> Some c, rb') \<and>
    rb_ok rb' \<and> rb_capacity rb' = rb_capacity rb \<and> rb_contents rb' = tl (rb_contents rb)"
proof -
  obtain n r l where o: "rb_rep rb n r l" "rb_contents rb = ring_list n r l (rb_buffer rb)" "rb_capacity rb = n"
    "length (rb_contents rb) = l" "r < n"
    using assms by (rule rb_okE)
  obtain rb' where r: "rt_ringbuffer_getchar rb = Some (if l = 0 then 0 else 1, if l = 0 then None else Some (rb_buffer rb ! r), rb')"
    "if l = 0 then rb' = rb else rb_rep rb' n ((r + 1) mod n) (l - 1) \<and> rb_buffer rb' = rb_buffer rb"
    using rb_getchar [OF o(1)] by blast
  show ?thesis
  proof (cases "l = 0")
    case True
    then show ?thesis using r o(4) assms by auto
  next
    case False
    then have R: "rb_rep rb' n ((r + 1) mod n) (l - 1)" "rb_buffer rb' = rb_buffer rb" using r(2) by auto
    obtain c cs where c: "rb_contents rb = c # cs" using False o(4) by (cases "rb_contents rb") auto
    have "c = ring_list n r l (rb_buffer rb) ! 0" using o(2) c by (metis nth_Cons_0)
    then have "c = rb_buffer rb ! r" using False o(5) by simp
    moreover have "rb_contents rb' = cs"
      using ring_list_take_drop(2) [of 1 l n r "rb_buffer rb"] False c o(2) rb_rep_contents [OF R(1)] R(2) by (simp add: drop_Suc)
    ultimately show ?thesis using r(1) False c rb_rep_contents [OF R(1)] o by simp
  qed
qed

text \<open>The two calls in the form of the queue contract.\<close>

definition put_byte :: "u8 \<Rightarrow> ringbuffer \<Rightarrow> (bool \<times> ringbuffer) option" where
  "put_byte ch rb = map_option (\<lambda>(n, rb). (n \<noteq> 0, rb)) (rt_ringbuffer_putchar ch rb)"

definition get_byte :: "ringbuffer \<Rightarrow> (u8 option \<times> ringbuffer) option" where
  "get_byte rb = map_option (\<lambda>(_, c, rb). (c, rb)) (rt_ringbuffer_getchar rb)"

interpretation ringbuffer_fifo: bounded_fifo put_byte get_byte rb_contents rb_capacity rb_ok
proof
  fix rb ch
  assume ok: "rb_ok rb"
  show "\<exists>rb'. put_byte ch rb = Some (length (rb_contents rb) < rb_capacity rb, rb') \<and> rb_ok rb' \<and>
      rb_capacity rb' = rb_capacity rb \<and>
      rb_contents rb' = (if length (rb_contents rb) < rb_capacity rb then rb_contents rb @ [ch] else rb_contents rb)"
    using ringbuffer_putchar [OF ok, of ch] by (auto simp: put_byte_def)
  show "\<exists>rb'. get_byte rb = Some (case rb_contents rb of [] \<Rightarrow> None | x # _ \<Rightarrow> Some x, rb') \<and> rb_ok rb' \<and>
      rb_capacity rb' = rb_capacity rb \<and> rb_contents rb' = tl (rb_contents rb)"
    using ringbuffer_getchar [OF ok] by (auto simp: get_byte_def)
qed

section \<open>Properties\<close>

text \<open>A buffer of four bytes that holds the two bytes at indices 1 and 2.\<close>

definition sample_ring :: ringbuffer where
  "sample_ring = \<lparr>rb_buffer = [1, 2, 3, 4], rb_read_mirror = 0, rb_read_index = 1, rb_write_mirror = 0,
     rb_write_index = 3, rb_buffer_size = 4\<rparr>"

lemma sample_ring_rep: "rb_rep sample_ring 4 1 2"
  by (simp add: sample_ring_def rb_rep_def)

lemma sample_ring_contents: "rb_contents sample_ring = [2, 3]" "rb_capacity sample_ring = 4"
    "rb_ok sample_ring" "unat (rb_read_index sample_ring) = 1"
proof -
  have "ring_list 4 1 2 [1, 2, 3, 4 :: u8] = [2, 3]" by (simp add: ring_list_def numeral_2_eq_2)
  then show "rb_contents sample_ring = [2, 3]"
    using rb_rep_contents(1) [OF sample_ring_rep] by (simp add: sample_ring_def)
qed (use rb_rep_contents [OF sample_ring_rep] in \<open>simp_all add: sample_ring_def\<close>)

text \<open>
  C30. \<open>rt_ringbuffer_put\<close> implements the bounded byte queue: it appends the longest prefix of the
  data that fits, returns its length, and never writes outside the buffer, whether or not the
  data reach around the end.
\<close>

theorem rt_ringbuffer_put_appends:
  assumes ok: "rb_ok rb" and ptr: "unat len \<le> length ptr"
  defines "k \<equiv> min (unat len) (rb_capacity rb - length (rb_contents rb))"
  shows "\<exists>rb'. rt_ringbuffer_put ptr len rb = Some (of_nat k, rb') \<and> rb_ok rb' \<and>
    rb_capacity rb' = rb_capacity rb \<and> rb_contents rb' = rb_contents rb @ take k ptr"
proof -
  obtain n r l where o: "rb_rep rb n r l" "rb_contents rb = ring_list n r l (rb_buffer rb)" "rb_capacity rb = n"
    "length (rb_contents rb) = l" "length (rb_buffer rb) = n" "l \<le> n" "0 < n"
    using ok by (rule rb_okE)
  have k: "k = min (unat len) (n - l)" "length (take k ptr) = k" "l + k \<le> n"
    using ptr o(3,4,6) by (auto simp: k_def)
  obtain rb' where r: "rt_ringbuffer_put ptr len rb = Some (of_nat k, rb')" "rb_rep rb' n r (l + k)"
    "rb_buffer rb' = ring_write n ((r + l) mod n) (take k ptr) (rb_buffer rb)"
    using rb_put [OF o(1) ptr] unfolding k(1) [symmetric] by blast
  then show ?thesis
    using o rb_rep_contents [OF r(2)] ring_list_append [of n l "take k ptr" "rb_buffer rb" r] k by auto
qed

theorem rt_ringbuffer_put_appends_witness:
  "\<exists>rb'. rt_ringbuffer_put [7, 8, 9] 3 sample_ring = Some (2, rb') \<and> rb_contents rb' = [2, 3, 7, 8]"
  using rt_ringbuffer_put_appends [OF sample_ring_contents(3), of 3 "[7, 8, 9]"] by (auto simp: sample_ring_contents)

text \<open>
  C31. \<open>rt_ringbuffer_get\<close> removes the oldest bytes: it copies the first bytes of the contents to
  the front of the caller's buffer, as many as asked for and there, leaves the rest of that
  buffer alone, and returns the number.
\<close>

theorem rt_ringbuffer_get_removes:
  assumes ok: "rb_ok rb" and ptr: "unat len \<le> length ptr"
  defines "k \<equiv> min (unat len) (length (rb_contents rb))"
  shows "\<exists>rb'. rt_ringbuffer_get ptr len rb = Some (of_nat k, take k (rb_contents rb) @ drop k ptr, rb') \<and> rb_ok rb' \<and>
    rb_capacity rb' = rb_capacity rb \<and> rb_contents rb' = drop k (rb_contents rb)"
proof -
  obtain n r l where o: "rb_rep rb n r l" "rb_contents rb = ring_list n r l (rb_buffer rb)" "rb_capacity rb = n"
    "length (rb_contents rb) = l"
    using ok by (rule rb_okE)
  have k: "k = min (unat len) l" "k \<le> l" using o(4) by (auto simp: k_def)
  obtain rb' where r: "rt_ringbuffer_get ptr len rb = Some (of_nat k, ring_list n r k (rb_buffer rb) @ drop k ptr, rb')"
    "rb_rep rb' n ((r + k) mod n) (l - k)" "rb_buffer rb' = rb_buffer rb"
    using rb_get [OF o(1) ptr] unfolding k(1) [symmetric] by blast
  then show ?thesis
    using o rb_rep_contents [OF r(2)] ring_list_take_drop [OF k(2), of n r "rb_buffer rb"] by auto
qed

theorem rt_ringbuffer_get_removes_witness:
  "\<exists>rb'. rt_ringbuffer_get [0, 0, 0] 3 sample_ring = Some (2, [2, 3, 0], rb') \<and> rb_contents rb' = []"
  using rt_ringbuffer_get_removes [OF sample_ring_contents(3), of 3 "[0, 0, 0]"] by (auto simp: sample_ring_contents)



text \<open>
  \<open>rt_ringbuffer_putchar_force\<close> keeps the newest bytes: it appends the byte and drops the
  oldest one if the buffer was full.
\<close>

theorem rt_ringbuffer_putchar_force_keeps_newest:
  assumes ok: "rb_ok rb"
  shows "\<exists>rb'. rt_ringbuffer_putchar_force ch rb = Some (1, rb') \<and> rb_ok rb' \<and> rb_capacity rb' = rb_capacity rb \<and>
    rb_contents rb' = (if length (rb_contents rb) < rb_capacity rb then rb_contents rb @ [ch] else tl (rb_contents rb) @ [ch])"
proof -
  obtain n r l where o: "rb_rep rb n r l" "rb_contents rb = ring_list n r l (rb_buffer rb)" "rb_capacity rb = n"
    "length (rb_contents rb) = l" "length (rb_buffer rb) = n" "l \<le> n" "0 < n" "r < n"
    using ok by (rule rb_okE)
  obtain rb' where r: "rt_ringbuffer_putchar_force ch rb = Some (1, rb')"
    "if l < n then rb_rep rb' n r (l + 1) else rb_rep rb' n ((r + 1) mod n) n"
    "rb_buffer rb' = ring_write n ((r + l) mod n) [ch] (rb_buffer rb)"
    using rb_putchar_force [OF o(1)] by blast
  show ?thesis
  proof (cases "l < n")
    case True
    then have R: "rb_rep rb' n r (l + 1)" using r(2) by simp
    then show ?thesis
      using r o True rb_rep_contents [OF R] ring_list_append [of n l "[ch]" "rb_buffer rb" r] by auto
  next
    case False
    then have R: "rb_rep rb' n ((r + 1) mod n) n" using r(2) by simp
    then show ?thesis
      using r o False rb_rep_contents [OF R] ring_list_force [of r n "[ch]" "rb_buffer rb"] by (auto simp: drop_Suc)
  qed
qed

theorem rt_ringbuffer_putchar_force_keeps_newest_witness:
  "\<exists>rb'. rt_ringbuffer_putchar_force 9 sample_ring = Some (1, rb') \<and> rb_contents rb' = [2, 3, 9]"
  using rt_ringbuffer_putchar_force_keeps_newest [OF sample_ring_contents(3), of 9] by (auto simp: sample_ring_contents)

text \<open>
  C33. \<open>rt_ringbuffer_put_force\<close> ought to keep the newest bytes and does so when they fit or when
  the contents reached around the end of the buffer before. When it has to discard bytes and
  the contents did not reach around the end, it flips both mirror bits and the buffer is left
  empty: all bytes, old and new, are lost.
\<close>

theorem rt_ringbuffer_put_force_contents:
  assumes ok: "rb_ok rb" and ptr: "length ptr = unat len"
  defines "n \<equiv> rb_capacity rb"
  shows "\<exists>rb'. rt_ringbuffer_put_force ptr len rb = Some (of_nat (min (unat len) n), rb') \<and> rb_ok rb' \<and>
    rb_capacity rb' = n \<and>
    rb_contents rb' =
      (if n < length (rb_contents rb) + min (unat len) n \<and> unat (rb_read_index rb) + length (rb_contents rb) < n then []
       else drop (length (rb_contents rb) + length ptr - n) (rb_contents rb @ ptr))"
proof -
  obtain r l where o: "rb_rep rb n r l" "rb_contents rb = ring_list n r l (rb_buffer rb)"
    "length (rb_contents rb) = l" "length (rb_buffer rb) = n" "l \<le> n" "0 < n" "r < n"
    using ok by (rule rb_okE) (simp add: n_def)
  have ri: "unat (rb_read_index rb) = r" using o(1) by (simp add: rb_rep_def)
  define k xs w where k: "k = min (unat len) n" and xs: "xs = drop (unat len - n) ptr" and w: "w = (r + l) mod n"
  obtain rb' where r: "rt_ringbuffer_put_force ptr len rb = Some (of_nat k, rb')"
    "if k \<le> n - l then rb_rep rb' n r (l + k)
     else if r + l < n then rb_rep rb' n ((w + k) mod n) 0 else rb_rep rb' n ((w + k) mod n) n"
    "rb_buffer rb' = ring_write n w xs (rb_buffer rb)" "length xs = k"
    using rb_put_force [OF o(1), of len ptr] ptr unfolding k [symmetric] w [symmetric] by (auto simp: xs)
  have wn: "w < n" using o(6) by (simp add: w)
  consider "k \<le> n - l" | "\<not> k \<le> n - l" "r + l < n" | "\<not> k \<le> n - l" "\<not> r + l < n" by blast
  then show ?thesis
  proof cases
    case 1
    then have R: "rb_rep rb' n r (l + k)" using r(2) by simp
    have "rb_contents rb' = rb_contents rb @ xs"
      using rb_rep_contents(1) [OF R] r(3,4) 1 o(2,4,5,6) ring_list_append [of n l xs "rb_buffer rb" r] w by simp
    also have "\<dots> = drop (l + length ptr - n) (rb_contents rb @ ptr)"
    proof (cases "unat len \<le> n")
      case False
      then have "l = 0" using 1 o(5,6) by (simp add: k)
      then show ?thesis using False o(3) ptr by (simp add: xs)
    qed (use 1 o(3,5) ptr in \<open>simp add: xs k\<close>)
    finally show ?thesis using r(1) 1 o(3,5) rb_rep_contents [OF R] ri unfolding k [symmetric] by auto
  next
    case 2
    then have R: "rb_rep rb' n ((w + k) mod n) 0" using r(2) by simp
    then show ?thesis using r(1) 2 o(3,5) rb_rep_contents [OF R] ri unfolding k [symmetric] by (auto simp: ring_list_def)
  next
    case 3
    then have R: "rb_rep rb' n ((w + k) mod n) n" using r(2) by simp
    have "rb_contents rb' = drop k (ring_list n w n (rb_buffer rb)) @ xs"
      using rb_rep_contents(1) [OF R] r(3,4) ring_list_force [OF wn _ o(4), of xs] by (simp add: k)
    also have "drop k (ring_list n w n (rb_buffer rb)) = drop (k - (n - l)) (rb_contents rb)"
    proof -
      have "k - (n - l) + (n - l) = k" using 3 by simp
      then have "drop k (ring_list n w n (rb_buffer rb)) = drop (k - (n - l)) (drop (n - l) (ring_list n w n (rb_buffer rb)))"
        by (simp only: drop_drop)
      then show ?thesis using ring_list_full [OF o(5,6), of r "rb_buffer rb"] by (simp only: o(2) w)
    qed
    also have "drop (k - (n - l)) (rb_contents rb) @ xs = drop (l + length ptr - n) (rb_contents rb @ ptr)"
      using 3 o(3,5) ptr by (cases "unat len \<le> n") (auto simp: xs k add.commute)
    finally show ?thesis using r(1) 3 o(3,5) rb_rep_contents [OF R] ri unfolding k [symmetric] by auto
  qed
qed

theorem rt_ringbuffer_put_force_contents_witness:
  "\<exists>rb'. rt_ringbuffer_put_force [7, 8, 9] 3 sample_ring = Some (3, rb') \<and> rb_contents rb' = []"
  using rt_ringbuffer_put_force_contents [OF sample_ring_contents(3), of "[7, 8, 9]" 3] by (auto simp: sample_ring_contents)

end
