(* ===== verification/Memory.thy ===== *)
theory Memory
  imports Prelude
begin

text \<open>
  The memory of the 32-bit target, byte by byte: a partial map from addresses to bytes. An
  access outside its domain is undefined behaviour. Words are little-endian, as on Cortex-M3,
  and the code accesses them at aligned addresses only.
\<close>

type_synonym mem = "u32 \<rightharpoonup> u8"

definition load8 :: "u32 \<Rightarrow> mem \<Rightarrow> u8 option" where
  "load8 a m = m a"

definition store8 :: "u32 \<Rightarrow> u8 \<Rightarrow> mem \<Rightarrow> mem option" where
  "store8 a v m = (if m a = None then None else Some (m(a \<mapsto> v)))"

definition aligned4 :: "u32 \<Rightarrow> bool" where
  "aligned4 a \<longleftrightarrow> a AND 3 = 0"

definition word_of_bytes :: "u8 \<Rightarrow> u8 \<Rightarrow> u8 \<Rightarrow> u8 \<Rightarrow> u32" where
  "word_of_bytes b0 b1 b2 b3 = ucast b0 OR push_bit 8 (ucast b1) OR push_bit 16 (ucast b2) OR push_bit 24 (ucast b3)"

definition bytes_of_word :: "u32 \<Rightarrow> u8 list" where
  "bytes_of_word w = [ucast w, ucast (drop_bit 8 w), ucast (drop_bit 16 w), ucast (drop_bit 24 w)]"

definition load32 :: "u32 \<Rightarrow> mem \<Rightarrow> u32 option" where
  "load32 a m = (if aligned4 a then do {
     b0 \<leftarrow> load8 a m; b1 \<leftarrow> load8 (a + 1) m; b2 \<leftarrow> load8 (a + 2) m; b3 \<leftarrow> load8 (a + 3) m;
     Some (word_of_bytes b0 b1 b2 b3) } else None)"

definition store32 :: "u32 \<Rightarrow> u32 \<Rightarrow> mem \<Rightarrow> mem option" where
  "store32 a w m = (if aligned4 a then do {
     m \<leftarrow> store8 a (ucast w) m;
     m \<leftarrow> store8 (a + 1) (ucast (drop_bit 8 w)) m;
     m \<leftarrow> store8 (a + 2) (ucast (drop_bit 16 w)) m;
     store8 (a + 3) (ucast (drop_bit 24 w)) m } else None)"

section \<open>Ranges of bytes\<close>

text \<open>
  \<open>holds_at m a xs\<close>: the bytes \<open>xs\<close> stand at \<open>a\<close>. \<open>write_at a xs m\<close>: \<open>m\<close> with \<open>xs\<close> written there.
  Addresses wrap around, so nothing is assumed about the end of the address space.
\<close>

primrec holds_at :: "mem \<Rightarrow> u32 \<Rightarrow> u8 list \<Rightarrow> bool" where
  "holds_at m a [] \<longleftrightarrow> True"
| "holds_at m a (x # xs) \<longleftrightarrow> m a = Some x \<and> holds_at m (a + 1) xs"

primrec write_at :: "u32 \<Rightarrow> u8 list \<Rightarrow> mem \<Rightarrow> mem" where
  "write_at a [] m = m"
| "write_at a (x # xs) m = write_at (a + 1) xs (m(a \<mapsto> x))"

definition range_at :: "u32 \<Rightarrow> nat \<Rightarrow> u32 set" where
  "range_at a n = {a + of_nat i | i. i < n}"

definition mapped :: "mem \<Rightarrow> u32 \<Rightarrow> nat \<Rightarrow> bool" where
  "mapped m a n \<longleftrightarrow> range_at a n \<subseteq> dom m"

lemma range_at_0 [simp]: "range_at a 0 = {}"
  by (simp add: range_at_def)

lemma range_at_Suc: "range_at a (Suc n) = insert a (range_at (a + 1) n)"
proof -
  have "{a + of_nat i | i. i < Suc n} = insert a {a + 1 + of_nat i | i. i < n}"
  proof (intro set_eqI iffI)
    fix x assume "x \<in> {a + of_nat i | i. i < Suc n}"
    then obtain i where "x = a + of_nat i" "i < Suc n" by blast
    then show "x \<in> insert a {a + 1 + of_nat i | i. i < n}" by (cases i) (auto simp: add.assoc)
  next
    fix x assume "x \<in> insert a {a + 1 + of_nat i | i. i < n}"
    then show "x \<in> {a + of_nat i | i. i < Suc n}"
    proof
      assume "x = a" then show ?thesis by (intro CollectI exI [of _ 0]) simp
    next
      assume "x \<in> {a + 1 + of_nat i | i. i < n}"
      then obtain i where "x = a + 1 + of_nat i" "i < n" by blast
      then show ?thesis by (intro CollectI exI [of _ "Suc i"]) (simp add: add.assoc)
    qed
  qed
  then show ?thesis by (simp add: range_at_def)
qed

lemma range_at_mono: "k \<le> n \<Longrightarrow> range_at a k \<subseteq> range_at a n"
  by (auto simp: range_at_def)

lemma range_at_add: "range_at a (k + n) = range_at a k \<union> range_at (a + of_nat k) n"
  by (induction k arbitrary: a) (simp_all add: range_at_Suc add.assoc)

lemma mapped_0 [simp]: "mapped m a 0"
  by (simp add: mapped_def)

lemma mapped_Suc: "mapped m a (Suc n) \<longleftrightarrow> a \<in> dom m \<and> mapped m (a + 1) n"
  by (auto simp: mapped_def range_at_Suc)

lemma mapped_add: "mapped m a (k + n) \<longleftrightarrow> mapped m a k \<and> mapped m (a + of_nat k) n"
  by (auto simp: mapped_def range_at_add)

lemma mapped_upd [simp]: "a \<in> dom m \<Longrightarrow> mapped (m(a \<mapsto> v)) b n = mapped m b n"
  by (simp add: mapped_def insert_absorb)

lemma write_at_append: "write_at a (xs @ ys) m = write_at (a + of_nat (length xs)) ys (write_at a xs m)"
  by (induction xs arbitrary: a m) (simp_all add: add.assoc)

lemma dom_write_at: "dom (write_at a xs m) = dom m \<union> range_at a (length xs)"
  by (induction xs arbitrary: a m) (auto simp: range_at_Suc)

lemma mapped_write_at: "mapped m a (length xs) \<Longrightarrow> mapped (write_at a xs m) b n = mapped m b n"
  by (simp add: mapped_def dom_write_at sup.absorb1)

lemma write_at_outside: "x \<notin> range_at a (length xs) \<Longrightarrow> write_at a xs m x = m x"
  by (induction xs arbitrary: a m) (auto simp: range_at_Suc)

lemma not_in_range:
  assumes "n \<le> 2 ^ 32 - i" "0 < i"
  shows "a \<notin> range_at (a + of_nat i) n"
proof
  assume "a \<in> range_at (a + of_nat i) n"
  then obtain j where j: "a = a + of_nat i + of_nat j" "j < n" by (auto simp: range_at_def)
  then have "(of_nat (i + j) :: u32) = 0" by (simp add: add.assoc)
  then have "2 ^ 32 dvd i + j" by (simp only: word_of_nat_eq_0_iff) simp
  then show False using assms j(2) by (auto dest: dvd_imp_le)
qed

lemma holds_at_write_at:
  "length xs \<le> 2 ^ 32 \<Longrightarrow> holds_at (write_at a xs m) a xs"
proof (induction xs arbitrary: a m)
  case (Cons x xs)
  have "a \<notin> range_at (a + of_nat 1) (length xs)" using Cons.prems by (intro not_in_range) auto
  then show ?case using Cons by (simp add: write_at_outside)
qed simp

lemma holds_at_cong:
  "(\<And>x. x \<in> range_at a (length xs) \<Longrightarrow> m' x = m x) \<Longrightarrow> holds_at m' a xs = holds_at m a xs"
  by (induction xs arbitrary: a) (auto simp: range_at_Suc)

lemma holds_at_other:
  "range_at a (length xs) \<inter> range_at b (length ys) = {} \<Longrightarrow> holds_at (write_at b ys m) a xs = holds_at m a xs"
  by (rule holds_at_cong, rule write_at_outside) blast

lemma holds_at_append:
  "holds_at m a (xs @ ys) \<longleftrightarrow> holds_at m a xs \<and> holds_at m (a + of_nat (length xs)) ys"
  by (induction xs arbitrary: a) (auto simp: add.assoc)

lemma holds_at_mapped: "holds_at m a xs \<Longrightarrow> mapped m a (length xs)"
  by (induction xs arbitrary: a) (auto simp: mapped_Suc)

lemma mapped_holds: "mapped m a n \<Longrightarrow> \<exists>xs. length xs = n \<and> holds_at m a xs"
proof (induction n arbitrary: a)
  case (Suc n)
  obtain xs where "length xs = n" "holds_at m (a + 1) xs" using Suc.IH [of "a + 1"] Suc.prems by (auto simp: mapped_Suc)
  moreover obtain x where "m a = Some x" using Suc.prems by (auto simp: mapped_Suc)
  ultimately show ?case by (intro exI [of _ "x # xs"]) simp
qed simp

lemma holds_at_nth: "holds_at m a xs \<Longrightarrow> i < length xs \<Longrightarrow> m (a + of_nat i) = Some (xs ! i)"
proof (induction xs arbitrary: a i)
  case (Cons x xs)
  show ?case
  proof (cases i)
    case (Suc j)
    then show ?thesis using Cons.IH [of "a + 1" j] Cons.prems by (simp add: add.assoc)
  qed (use Cons.prems in simp)
qed simp

text \<open>Nothing has changed but the \<open>n\<close> bytes from \<open>base\<close> on.\<close>

definition same_outside :: "u32 \<Rightarrow> nat \<Rightarrow> mem \<Rightarrow> mem \<Rightarrow> bool" where
  "same_outside base n m m' \<longleftrightarrow> (\<forall>x. x \<notin> range_at base n \<longrightarrow> m' x = m x)"

lemma same_outside_refl [simp]: "same_outside base n m m"
  by (simp add: same_outside_def)

lemma same_outside_trans: "same_outside base n m m' \<Longrightarrow> same_outside base n m' m'' \<Longrightarrow> same_outside base n m m''"
  by (simp add: same_outside_def)

lemma same_outside_upd: "j < n \<Longrightarrow> same_outside base n m (m(base + of_nat j \<mapsto> v))"
  by (auto simp: same_outside_def range_at_def)

lemma same_outside_write: "length xs \<le> n \<Longrightarrow> same_outside a n m (write_at a xs m)"
  using range_at_mono [of "length xs" n a] by (auto simp: same_outside_def intro: write_at_outside)

lemma store8_dom [simp]: "a \<in> dom m \<Longrightarrow> store8 a v m = Some (m(a \<mapsto> v))"
  by (auto simp: store8_def)

lemma load8_holds [simp]: "holds_at m a (x # xs) \<Longrightarrow> load8 a m = Some x"
  by (simp add: load8_def)

lemma holds_at_upd [simp]: "y \<notin> range_at a (length xs) \<Longrightarrow> holds_at (m(y \<mapsto> v)) a xs = holds_at m a xs"
  by (rule holds_at_cong) auto

lemma range_at_no_wrap:
  assumes "unat a + n \<le> 2 ^ 32"
  shows "x \<in> range_at a n \<longleftrightarrow> unat a \<le> unat x \<and> unat x < unat a + n"
proof
  assume "x \<in> range_at a n"
  then obtain i where "x = a + of_nat i" "i < n" by (auto simp: range_at_def)
  then show "unat a \<le> unat x \<and> unat x < unat a + n" using assms
    by (simp add: unat_word_ariths unat_of_nat)
next
  assume x: "unat a \<le> unat x \<and> unat x < unat a + n"
  define i where "i = unat x - unat a"
  have "unat (a + of_nat i) = unat x" using x assms by (simp add: i_def unat_word_ariths unat_of_nat)
  then have "x = a + of_nat i" by (simp add: word_eq_iff_unsigned [where 'a = nat])
  moreover have "i < n" using x by (auto simp: i_def)
  ultimately show "x \<in> range_at a n" by (auto simp: range_at_def)
qed

lemma four_mapped:
  assumes "mapped m a 16"
  shows "mapped m a 4" "mapped m (a + 4) 4" "mapped m (a + 8) 4" "mapped m (a + 12) 4"
  using assms mapped_add [of m a 4 12] mapped_add [of m "a + 4" 4 8] mapped_add [of m "a + 8" 4 4]
  by (simp_all add: add.assoc)

lemma write_at_commute: "y \<notin> range_at d (length xs) \<Longrightarrow> write_at d xs (m(y \<mapsto> v)) = (write_at d xs m)(y \<mapsto> v)"
  by (induction xs arbitrary: d m) (auto simp: range_at_Suc fun_upd_twist)

lemma unat_small: "n < 2 ^ 32 \<Longrightarrow> unat (of_nat n :: u32) = n"
  by (simp add: unat_of_nat take_bit_nat_eq_self)

lemma range_at_apart:
  assumes "i + a \<le> j" "j + b \<le> n" "n \<le> 2 ^ 32"
  shows "range_at (base + of_nat i) a \<inter> range_at (base + of_nat j) b = {}"
proof -
  have False if "x < a" "y < b" "base + of_nat i + of_nat x = base + of_nat j + of_nat y" for x y
  proof -
    have "(of_nat (i + x) :: u32) = of_nat (j + y)" using that(3) by (simp add: add.assoc)
    then have "unat (of_nat (i + x) :: u32) = unat (of_nat (j + y) :: u32)" by simp
    then have "i + x = j + y" using assms that(1,2) by (subst (asm) (1 2) unat_small) auto
    then show False using assms that(1,2) by simp
  qed
  then show ?thesis by (auto simp: range_at_def)
qed

section \<open>Words\<close>

lemma store8_mapped: "mapped m a (Suc n) \<Longrightarrow> store8 a v m = Some (m(a \<mapsto> v))"
  by (auto simp: store8_def mapped_Suc)

lemma store32_eq:
  assumes "mapped m a 4" "aligned4 a"
  shows "store32 a w m = Some (write_at a (bytes_of_word w) m)"
proof -
  have "a \<in> dom m" "a + 1 \<in> dom m" "a + 2 \<in> dom m" "a + 3 \<in> dom m"
    using assms(1) by (auto simp: numeral_eq_Suc mapped_Suc add.assoc)
  then show ?thesis using assms(2)
    by (auto simp: store32_def store8_def bytes_of_word_def add.assoc)
qed

lemma bit_u8_high: "8 \<le> n \<Longrightarrow> \<not> bit (b :: u8) n"
  by (auto dest: bit_imp_le_length)

lemma bytes_word: "bytes_of_word (word_of_bytes b0 b1 b2 b3) = [b0, b1, b2, b3]"
  unfolding bytes_of_word_def word_of_bytes_def
  by (auto simp: bit_simps bit_u8_high intro!: bit_word_eqI)

lemma load32_eq:
  assumes "holds_at m a [b0, b1, b2, b3]" "aligned4 a"
  shows "load32 a m = Some (word_of_bytes b0 b1 b2 b3)"
  using assms by (simp add: load32_def load8_def add.assoc)

lemma aligned4_unat: "aligned4 a \<longleftrightarrow> unat a mod 4 = 0"
proof -
  have "take_bit 2 a = a AND 3" by (simp add: take_bit_eq_mask mask_eq_exp_minus_1)
  moreover have "unat (take_bit 2 a) = unat a mod 4"
    unfolding unsigned_take_bit_eq by (simp add: take_bit_eq_mod)
  ultimately show ?thesis by (simp add: aligned4_def unat_eq_zero flip: unat_eq_zero)
qed

lemma aligned4_plus4 [simp]: "aligned4 (a + 4) = aligned4 a"
proof -
  have "unat (a + 4) mod 4 = ((unat a + 4) mod 2 ^ 32) mod 4" by (simp add: unat_word_ariths)
  also have "\<dots> = unat a mod 4" by (simp add: mod_mod_cancel)
  finally show ?thesis by (simp add: aligned4_unat)
qed

lemma align4_plus: "aligned4 (a + 8) = aligned4 a" "aligned4 (a + 12) = aligned4 a" "aligned4 (a + 16) = aligned4 a"
  using aligned4_plus4 [of a] aligned4_plus4 [of "a + 4"] aligned4_plus4 [of "a + 8"] aligned4_plus4 [of "a + 12"]
  by (simp_all add: add.assoc)

section \<open>Counters that run down\<close>

lemma counted: "n \<le> c \<Longrightarrow> 0 < n \<Longrightarrow> unat (c - n) < unat c" for c :: u32
  by (simp add: unat_sub word_le_nat_alt word_less_nat_alt)

lemma counted1: "c \<noteq> 0 \<Longrightarrow> unat (c - 1) < unat c" for c :: u32
  by (rule counted) (simp_all add: word_le_nat_alt unat_eq_zero Suc_le_eq word_less_nat_alt flip: unat_gt_0)

lemma unat_minus: "k \<le> unat c \<Longrightarrow> unat (c - of_nat k) = unat c - k" for c :: u32
  using unsigned_less [of c, where 'a = nat]
  by (simp add: unat_sub word_le_nat_alt unat_of_nat take_bit_nat_eq_self)

lemma unat_pred: "c \<noteq> 0 \<Longrightarrow> unat c = Suc (unat (c - 1))" for c :: u32
  using unat_minus [of 1 c] by (simp add: unat_gt_0 Suc_leI)

end
