(* ===== verification/Kservice_Mem.thy ===== *)
theory Kservice_Mem
  imports Memory
begin

text \<open>
  \<open>src/kservice.c\<close> of the reference kernel, the operations on blocks of memory, in the variant
  without \<open>RT_USING_TINY_SIZE\<close>: \<open>rt_memset\<close> and \<open>rt_memcpy\<close> go word by word where the addresses
  allow. \<open>long\<close> has 4 bytes and \<open>char\<close> is unsigned, as on the target.
\<close>

section \<open>rt_memset\<close>

text \<open>\<open>while (count--) *m++ = (char)d;\<close>\<close>

function memset_bytes :: "u32 \<Rightarrow> u32 \<Rightarrow> u32 \<Rightarrow> mem \<Rightarrow> mem option" where
  "memset_bytes p d count m =
     (if count \<noteq> 0 then do {
        m \<leftarrow> store8 p (ucast d) m;
        memset_bytes (p + 1) d (count - 1) m }
      else Some m)"
  by pat_completeness auto
termination by (relation "measure (\<lambda>(_, _, count, _). unat count)") (auto intro: counted1)

text \<open>\<open>while (count >= LBLOCKSIZE) { *aligned_addr++ = buffer; count -= LBLOCKSIZE; }\<close>\<close>

function memset_words :: "u32 \<Rightarrow> u32 \<Rightarrow> u32 \<Rightarrow> mem \<Rightarrow> (u32 \<times> u32 \<times> mem) option" where
  "memset_words aligned_addr buffer count m =
     (if count \<ge> 4 then do {
        m \<leftarrow> store32 aligned_addr buffer m;
        memset_words (aligned_addr + 4) buffer (count - 4) m }
      else Some (aligned_addr, count, m))"
  by pat_completeness auto
termination by (relation "measure (\<lambda>(_, _, count, _). unat count)") (auto intro: counted)

function memset_blocks :: "u32 \<Rightarrow> u32 \<Rightarrow> u32 \<Rightarrow> mem \<Rightarrow> (u32 \<times> u32 \<times> mem) option" where
  "memset_blocks aligned_addr buffer count m =
     (if count \<ge> 16 then do {
        m \<leftarrow> store32 aligned_addr buffer m;
        m \<leftarrow> store32 (aligned_addr + 4) buffer m;
        m \<leftarrow> store32 (aligned_addr + 8) buffer m;
        m \<leftarrow> store32 (aligned_addr + 12) buffer m;
        memset_blocks (aligned_addr + 16) buffer (count - 16) m }
      else Some (aligned_addr, count, m))"
  by pat_completeness auto
termination by (relation "measure (\<lambda>(_, _, count, _). unat count)") (auto intro: counted)

declare memset_bytes.simps [simp del] memset_words.simps [simp del] memset_blocks.simps [simp del]

definition rt_memset :: "u32 \<Rightarrow> u32 \<Rightarrow> u32 \<Rightarrow> mem \<Rightarrow> (u32 \<times> mem) option" where
  "rt_memset s c count m =
     (let d = c AND 0xff
      in do {
        (p, count, m) \<leftarrow>
          (if \<not> count < 4 \<and> aligned4 s then
             (let buffer = push_bit 8 d OR d;
                  buffer = buffer OR push_bit 16 buffer
              in do {
                (aligned_addr, count, m) \<leftarrow> memset_blocks s buffer count m;
                memset_words aligned_addr buffer count m })
           else Some (s, count, m));
        m \<leftarrow> memset_bytes p d count m;
        Some (s, m) })"

section \<open>rt_memcpy\<close>

text \<open>\<open>while (len--) *dst_ptr++ = *src_ptr++;\<close>\<close>

function memcpy_bytes :: "u32 \<Rightarrow> u32 \<Rightarrow> u32 \<Rightarrow> mem \<Rightarrow> mem option" where
  "memcpy_bytes dst_ptr src_ptr len m =
     (if len \<noteq> 0 then do {
        c \<leftarrow> load8 src_ptr m;
        m \<leftarrow> store8 dst_ptr c m;
        memcpy_bytes (dst_ptr + 1) (src_ptr + 1) (len - 1) m }
      else Some m)"
  by pat_completeness auto
termination by (relation "measure (\<lambda>(_, _, len, _). unat len)") (auto intro: counted1)

text \<open>\<open>*aligned_dst++ = *aligned_src++\<close>\<close>

definition copy_word :: "u32 \<Rightarrow> u32 \<Rightarrow> mem \<Rightarrow> mem option" where
  "copy_word aligned_dst aligned_src m = do { w \<leftarrow> load32 aligned_src m; store32 aligned_dst w m }"

function memcpy_words :: "u32 \<Rightarrow> u32 \<Rightarrow> u32 \<Rightarrow> mem \<Rightarrow> (u32 \<times> u32 \<times> u32 \<times> mem) option" where
  "memcpy_words aligned_dst aligned_src len m =
     (if len \<ge> 4 then do {
        m \<leftarrow> copy_word aligned_dst aligned_src m;
        memcpy_words (aligned_dst + 4) (aligned_src + 4) (len - 4) m }
      else Some (aligned_dst, aligned_src, len, m))"
  by pat_completeness auto
termination by (relation "measure (\<lambda>(_, _, len, _). unat len)") (auto intro: counted)

function memcpy_blocks :: "u32 \<Rightarrow> u32 \<Rightarrow> u32 \<Rightarrow> mem \<Rightarrow> (u32 \<times> u32 \<times> u32 \<times> mem) option" where
  "memcpy_blocks aligned_dst aligned_src len m =
     (if len \<ge> 16 then do {
        m \<leftarrow> copy_word aligned_dst aligned_src m;
        m \<leftarrow> copy_word (aligned_dst + 4) (aligned_src + 4) m;
        m \<leftarrow> copy_word (aligned_dst + 8) (aligned_src + 8) m;
        m \<leftarrow> copy_word (aligned_dst + 12) (aligned_src + 12) m;
        memcpy_blocks (aligned_dst + 16) (aligned_src + 16) (len - 16) m }
      else Some (aligned_dst, aligned_src, len, m))"
  by pat_completeness auto
termination by (relation "measure (\<lambda>(_, _, len, _). unat len)") (auto intro: counted)

declare memcpy_bytes.simps [simp del] memcpy_words.simps [simp del] memcpy_blocks.simps [simp del]

definition rt_memcpy :: "u32 \<Rightarrow> u32 \<Rightarrow> u32 \<Rightarrow> mem \<Rightarrow> (u32 \<times> mem) option" where
  "rt_memcpy dst src count m = do {
     (dst_ptr, src_ptr, len, m) \<leftarrow>
       (if \<not> count < 16 \<and> aligned4 src \<and> aligned4 dst then do {
          (aligned_dst, aligned_src, len, m) \<leftarrow> memcpy_blocks dst src count m;
          memcpy_words aligned_dst aligned_src len m }
        else Some (dst, src, count, m));
     m \<leftarrow> memcpy_bytes dst_ptr src_ptr len m;
     Some (dst, m) }"

section \<open>rt_memmove and rt_memcmp\<close>

text \<open>\<open>while (n--) *(--tmp) = *(--s);\<close>\<close>

function memmove_down :: "u32 \<Rightarrow> u32 \<Rightarrow> u32 \<Rightarrow> mem \<Rightarrow> mem option" where
  "memmove_down tmp s n m =
     (if n \<noteq> 0 then do {
        c \<leftarrow> load8 (s - 1) m;
        m \<leftarrow> store8 (tmp - 1) c m;
        memmove_down (tmp - 1) (s - 1) (n - 1) m }
      else Some m)"
  by pat_completeness auto
termination by (relation "measure (\<lambda>(_, _, n, _). unat n)") (auto intro: counted1)

text \<open>\<open>while (n--) *tmp++ = *s++;\<close>\<close>

function memmove_up :: "u32 \<Rightarrow> u32 \<Rightarrow> u32 \<Rightarrow> mem \<Rightarrow> mem option" where
  "memmove_up tmp s n m =
     (if n \<noteq> 0 then do {
        c \<leftarrow> load8 s m;
        m \<leftarrow> store8 tmp c m;
        memmove_up (tmp + 1) (s + 1) (n - 1) m }
      else Some m)"
  by pat_completeness auto
termination by (relation "measure (\<lambda>(_, _, n, _). unat n)") (auto intro: counted1)

definition rt_memmove :: "u32 \<Rightarrow> u32 \<Rightarrow> u32 \<Rightarrow> mem \<Rightarrow> (u32 \<times> mem) option" where
  "rt_memmove dest src n m = do {
     m \<leftarrow> (if src < dest \<and> dest < src + n
           then memmove_down (dest + n) (src + n) n m
           else memmove_up dest src n m);
     Some (dest, m) }"

text \<open>The bytes are \<open>unsigned char\<close>, promoted to \<open>int\<close>.\<close>

function memcmp_loop :: "u32 \<Rightarrow> u32 \<Rightarrow> u32 \<Rightarrow> u32 \<Rightarrow> mem \<Rightarrow> u32 option" where
  "memcmp_loop su1 su2 count res m =
     (if 0 < count then do {
        c1 \<leftarrow> load8 su1 m;
        c2 \<leftarrow> load8 su2 m;
        let res = ucast c1 - ucast c2;
        if res \<noteq> 0 then Some res else memcmp_loop (su1 + 1) (su2 + 1) (count - 1) res m }
      else Some res)"
  by pat_completeness auto
termination by (relation "measure (\<lambda>(_, _, count, _, _). unat count)") (auto intro: counted1)

declare memmove_up.simps [simp del] memmove_down.simps [simp del] memcmp_loop.simps [simp del]

definition rt_memcmp :: "u32 \<Rightarrow> u32 \<Rightarrow> u32 \<Rightarrow> mem \<Rightarrow> u32 option" where
  "rt_memcmp cs ct count m = memcmp_loop cs ct count 0 m"

section \<open>What they do\<close>

subsection \<open>Filling\<close>

lemma memset_bytes_fills:
  "mapped m p (unat c) \<Longrightarrow> memset_bytes p d c m = Some (write_at p (replicate (unat c) (ucast d)) m)"
proof (induction p d c m rule: memset_bytes.induct)
  case (1 p d c m)
  then show ?case
    by (cases "c = 0") (auto simp: memset_bytes.simps [of p d] unat_pred mapped_Suc)
qed

lemma store32_fills:
  assumes "mapped m a n" "4 \<le> n" "aligned4 a" "bytes_of_word w = replicate 4 b"
  shows "store32 a w m = Some (write_at a (replicate 4 b) m)"
proof -
  have "mapped m a 4" using assms(1,2) mapped_add [of m a 4 "n - 4"] by simp
  then show ?thesis using assms(3,4) by (simp add: store32_eq)
qed

text \<open>What is left to fill after \<open>k\<close> bytes\<close>

lemma fill_rest:
  fixes c :: u32
  assumes "mapped m a (unat c)" "k \<le> unat c"
  shows "mapped (write_at a (replicate k b) m) (a + of_nat k) (unat (c - of_nat k))"
    and "write_at (a + of_nat k) (replicate (unat (c - of_nat k)) b) (write_at a (replicate k b) m) =
      write_at a (replicate (unat c) b) m"
proof -
  have c: "unat c = k + unat (c - of_nat k)" using unat_minus [OF assms(2)] assms(2) by linarith
  have "mapped m a k" "mapped m (a + of_nat k) (unat (c - of_nat k))" using assms(1) c by (metis mapped_add)+
  then show "mapped (write_at a (replicate k b) m) (a + of_nat k) (unat (c - of_nat k))"
    by (simp add: mapped_write_at)
  have "replicate (unat c) b = replicate k b @ replicate (unat (c - of_nat k)) b"
    using c by (metis replicate_add)
  then show "write_at (a + of_nat k) (replicate (unat (c - of_nat k)) b) (write_at a (replicate k b) m) =
      write_at a (replicate (unat c) b) m"
    by (simp add: write_at_append)
qed

lemmas fill_word = fill_rest [where k = 4, simplified of_nat_numeral]

text \<open>Both word loops leave the rest of the same task to the next loop.\<close>

definition fills :: "u32 \<Rightarrow> u32 \<Rightarrow> u8 \<Rightarrow> mem \<Rightarrow> (u32 \<times> u32 \<times> mem) option \<Rightarrow> bool" where
  "fills a c b m r \<longleftrightarrow>
     (\<exists>a' c' m'. r = Some (a', c', m') \<and> aligned4 a' \<and> mapped m' a' (unat c') \<and>
        write_at a' (replicate (unat c') b) m' = write_at a (replicate (unat c) b) m)"

lemma memset_words_fills:
  "aligned4 a \<Longrightarrow> mapped m a (unat c) \<Longrightarrow> bytes_of_word w = replicate 4 b \<Longrightarrow>
   fills a c b m (memset_words a w c m)"
proof (induction a w c m rule: memset_words.induct)
  case (1 a w c m)
  show ?case
  proof (cases "4 \<le> c")
    case True
    then have c: "4 \<le> unat c" by (simp add: word_le_nat_alt)
    note s = store32_fills [OF 1(3) c 1(2,4)] and r = fill_word [OF 1(3) c]
    show ?thesis using "1.IH" [OF True s] 1(2,4) r
      by (simp add: memset_words.simps [of a] True s fills_def)
  next
    case False
    then show ?thesis using 1 by (simp add: memset_words.simps [of a] fills_def)
  qed
qed

lemma memset_blocks_fills:
  "aligned4 a \<Longrightarrow> mapped m a (unat c) \<Longrightarrow> bytes_of_word w = replicate 4 b \<Longrightarrow>
   fills a c b m (memset_blocks a w c m)"
proof (induction a w c m rule: memset_blocks.induct)
  case (1 a w c m)
  show ?case
  proof (cases "16 \<le> c")
    case True
    then have c: "16 \<le> unat c" by (simp add: word_le_nat_alt)
    have m: "mapped m a 16" using 1(3) c mapped_add [of m a 16 "unat c - 16"] by simp
    let ?w = "\<lambda>a. write_at a (replicate 4 b)"
    have s: "store32 a w m = Some (?w a m)"
      "store32 (a + 4) w (?w a m) = Some (?w (a + 4) (?w a m))"
      "store32 (a + 8) w (?w (a + 4) (?w a m)) = Some (?w (a + 8) (?w (a + 4) (?w a m)))"
      "store32 (a + 12) w (?w (a + 8) (?w (a + 4) (?w a m))) =
         Some (?w (a + 12) (?w (a + 8) (?w (a + 4) (?w a m))))"
      by (simp_all add: store32_eq four_mapped [OF m] mapped_write_at [where xs = "replicate 4 b", simplified] 1(2,4) align4_plus)
    have r: "?w (a + 12) (?w (a + 8) (?w (a + 4) (?w a m))) = write_at a (replicate 16 b) m"
      by (simp add: numeral_eq_Suc add.assoc)
    note q = fill_rest [OF 1(3) c, simplified of_nat_numeral]
    show ?thesis using "1.IH" [OF True s] 1(2,4) q r
      by (simp add: memset_blocks.simps [of a] True s fills_def align4_plus)
  next
    case False
    then show ?thesis using 1 by (simp add: memset_blocks.simps [of a] fills_def)
  qed
qed


lemma and_ff: "c AND 0xff = take_bit 8 c" for c :: u32
  by (simp add: take_bit_eq_mask mask_eq_exp_minus_1)

lemma ucast_low_byte: "ucast (c AND 0xff :: u32) = (ucast c :: u8)"
  by (auto intro!: bit_word_eqI simp: bit_simps and_ff)

lemma block_buffer:
  fixes c :: u32
  defines "d \<equiv> c AND 0xff"
  defines "w \<equiv> push_bit 8 d OR d"
  shows "bytes_of_word (w OR push_bit 16 w) = replicate 4 (ucast d)"
proof -
  have "ucast (w OR push_bit 16 w) = (ucast d :: u8)" "ucast (drop_bit 8 (w OR push_bit 16 w)) = (ucast d :: u8)"
    "ucast (drop_bit 16 (w OR push_bit 16 w)) = (ucast d :: u8)" "ucast (drop_bit 24 (w OR push_bit 16 w)) = (ucast d :: u8)"
    by (auto intro!: bit_word_eqI simp: d_def w_def bit_simps and_ff)
  then show ?thesis by (simp add: bytes_of_word_def numeral_eq_Suc)
qed

lemma rt_memset_eq:
  assumes "mapped m s (unat count)"
  shows "rt_memset s c count m = Some (s, write_at s (replicate (unat count) (ucast c)) m)"
proof -
  let ?d = "c AND 0xff" and ?w = "push_bit 8 (c AND 0xff) OR (c AND 0xff)"
  show ?thesis
  proof (cases "\<not> count < 4 \<and> aligned4 s")
    case True
    note b = block_buffer [of c]
    obtain a1 c1 m1 where 1: "memset_blocks s (?w OR push_bit 16 ?w) count m = Some (a1, c1, m1)" "aligned4 a1"
      "mapped m1 a1 (unat c1)" "write_at a1 (replicate (unat c1) (ucast ?d)) m1 = write_at s (replicate (unat count) (ucast ?d)) m"
      using memset_blocks_fills [OF _ assms b] True by (auto simp: fills_def)
    obtain a2 c2 m2 where 2: "memset_words a1 (?w OR push_bit 16 ?w) c1 m1 = Some (a2, c2, m2)"
      "mapped m2 a2 (unat c2)" "write_at a2 (replicate (unat c2) (ucast ?d)) m2 = write_at a1 (replicate (unat c1) (ucast ?d)) m1"
      using memset_words_fills [OF 1(2,3) b] by (auto simp: fills_def)
    show ?thesis using True 1 2 memset_bytes_fills [OF 2(2), of ?d]
      by (simp add: rt_memset_def Let_def ucast_low_byte)
  next
    case False
    then show ?thesis using memset_bytes_fills [OF assms, of ?d] by (auto simp: rt_memset_def Let_def ucast_low_byte)
  qed
qed

subsection \<open>Copying\<close>

text \<open>\<open>copying d s c m xs\<close>: the bytes \<open>xs\<close> are still to be copied, between ranges that do not overlap.\<close>

definition copying :: "u32 \<Rightarrow> u32 \<Rightarrow> u32 \<Rightarrow> mem \<Rightarrow> u8 list \<Rightarrow> bool" where
  "copying d s c m xs \<longleftrightarrow> length xs = unat c \<and> holds_at m s xs \<and> mapped m d (unat c) \<and>
     range_at s (unat c) \<inter> range_at d (unat c) = {}"

lemma copy_rest:
  assumes "copying d s c m xs" "k \<le> unat c"
  shows "copying (d + of_nat k) (s + of_nat k) (c - of_nat k) (write_at d (take k xs) m) (drop k xs)"
    and "write_at (d + of_nat k) (drop k xs) (write_at d (take k xs) m) = write_at d xs m"
proof -
  have c: "length xs = unat c" "holds_at m s xs" "mapped m d (unat c)" "range_at s (unat c) \<inter> range_at d (unat c) = {}"
    using assms(1) by (auto simp: copying_def)
  have k: "unat (c - of_nat k) = unat c - k" "unat c = k + (unat c - k)" using unat_minus [OF assms(2)] assms(2) by linarith+
  have l: "length (take k xs) = k" "length (drop k xs) = unat c - k" using c(1) assms(2) by auto
  have r: "range_at d (unat c) = range_at d k \<union> range_at (d + of_nat k) (unat c - k)"
    "range_at s (unat c) = range_at s k \<union> range_at (s + of_nat k) (unat c - k)"
    using range_at_add [of d k "unat c - k"] range_at_add [of s k "unat c - k"] assms(2) by auto
  have h: "holds_at m (s + of_nat k) (drop k xs)"
    using c(2) holds_at_append [of m s "take k xs" "drop k xs"] l(1) by simp
  have "mapped m d k" "mapped m (d + of_nat k) (unat c - k)" using c(3) k(2) by (metis mapped_add)+
  moreover have "range_at (s + of_nat k) (unat c - k) \<inter> range_at d k = {}"
    "range_at (s + of_nat k) (unat c - k) \<inter> range_at (d + of_nat k) (unat c - k) = {}" using c(4) r by blast+
  ultimately show "copying (d + of_nat k) (s + of_nat k) (c - of_nat k) (write_at d (take k xs) m) (drop k xs)"
    unfolding copying_def k(1) using l h by (simp add: mapped_write_at holds_at_other)
  show "write_at (d + of_nat k) (drop k xs) (write_at d (take k xs) m) = write_at d xs m"
    using write_at_append [of d "take k xs" "drop k xs" m] l(1) by simp
qed

lemma copying_ConsD:
  assumes "copying d s c m xs" "c \<noteq> 0"
  obtains x ys where "xs = x # ys" "m s = Some x" "d \<in> dom m" "copying (d + 1) (s + 1) (c - 1) (m(d \<mapsto> x)) ys"
proof (cases xs)
  case Nil
  then show ?thesis using assms by (simp add: copying_def unat_eq_zero)
next
  case (Cons x ys)
  then have "unat c = Suc (length ys)" using assms(1) by (simp add: copying_def)
  then have "1 \<le> unat c" "m s = Some x" "d \<in> dom m" using assms(1) Cons by (simp_all add: copying_def mapped_Suc)
  then show ?thesis using copy_rest(1) [OF assms(1), of 1] that [of x ys] Cons by simp
qed

lemma memcpy_bytes_copies:
  "copying d s c m xs \<Longrightarrow> memcpy_bytes d s c m = Some (write_at d xs m)"
proof (induction d s c m arbitrary: xs rule: memcpy_bytes.induct)
  case (1 d s c m)
  show ?case
  proof (cases "c = 0")
    case False
    obtain x ys where x: "xs = x # ys" "m s = Some x" "d \<in> dom m"
      and c: "copying (d + 1) (s + 1) (c - 1) (m(d \<mapsto> x)) ys"
      by (rule copying_ConsD [OF 1(2) False])
    have s: "load8 s m = Some x" "store8 d x m = Some (m(d \<mapsto> x))" using x by (simp_all add: load8_def)
    have "memcpy_bytes (d + 1) (s + 1) (c - 1) (m(d \<mapsto> x)) = Some (write_at (d + 1) ys (m(d \<mapsto> x)))"
      by (rule "1.IH" [OF False s c])
    then show ?thesis using s False x(1) by (simp add: memcpy_bytes.simps [of d])
  next
    case True
    then show ?thesis using 1(2) by (auto simp: memcpy_bytes.simps [of d] copying_def)
  qed
qed

lemma copy_word_copies:
  assumes "copying d s c m xs" "4 \<le> unat c" "aligned4 d" "aligned4 s"
  shows "copy_word d s m = Some (write_at d (take 4 xs) m)"
    and "copying (d + 4) (s + 4) (c - 4) (write_at d (take 4 xs) m) (drop 4 xs)"
    and "write_at (d + 4) (drop 4 xs) (write_at d (take 4 xs) m) = write_at d xs m"
proof -
  have c: "length xs = unat c" "holds_at m s xs" "mapped m d (unat c)" using assms(1) by (auto simp: copying_def)
  define ys where ys: "ys = take 4 xs"
  have "length ys = Suc (Suc (Suc (Suc 0)))" using c(1) assms(2) ys by simp
  then have "\<exists>b0 b1 b2 b3. ys = [b0, b1, b2, b3]" by (simp add: length_Suc_conv) blast
  then obtain b0 b1 b2 b3 where b: "take 4 xs = [b0, b1, b2, b3]" unfolding ys by blast
  have "holds_at m s (take 4 xs)" using c(2) holds_at_append [of m s "take 4 xs" "drop 4 xs"] by simp
  then have h: "holds_at m s [b0, b1, b2, b3]" unfolding b .
  have "mapped m d 4" using c(3) assms(2) mapped_add [of m d 4 "unat c - 4"] by simp
  then show "copy_word d s m = Some (write_at d (take 4 xs) m)"
    using h assms(3,4) unfolding b copy_word_def by (simp add: load32_eq store32_eq bytes_word del: holds_at.simps write_at.simps)
qed (use copy_rest [OF assms(1,2)] in simp_all)

definition copies :: "u32 \<Rightarrow> mem \<Rightarrow> u8 list \<Rightarrow> (u32 \<times> u32 \<times> u32 \<times> mem) option \<Rightarrow> bool" where
  "copies d m xs r \<longleftrightarrow>
     (\<exists>d' s' c' m' ys. r = Some (d', s', c', m') \<and> aligned4 d' \<and> aligned4 s' \<and> copying d' s' c' m' ys \<and>
        write_at d' ys m' = write_at d xs m)"

lemma memcpy_words_copies:
  "copying d s c m xs \<Longrightarrow> aligned4 d \<Longrightarrow> aligned4 s \<Longrightarrow> copies d m xs (memcpy_words d s c m)"
proof (induction d s c m arbitrary: xs rule: memcpy_words.induct)
  case (1 d s c m)
  show ?case
  proof (cases "4 \<le> c")
    case True
    note w = copy_word_copies [OF 1(2) _ 1(3,4)]
    show ?thesis using "1.IH" [OF True w(1) w(2)] w 1(3,4) True
      by (simp add: memcpy_words.simps [of d] word_le_nat_alt copies_def)
  next
    case False
    then show ?thesis using 1 by (auto simp: memcpy_words.simps [of d] copies_def)
  qed
qed

lemma memcpy_blocks_copies:
  "copying d s c m xs \<Longrightarrow> aligned4 d \<Longrightarrow> aligned4 s \<Longrightarrow> copies d m xs (memcpy_blocks d s c m)"
proof (induction d s c m arbitrary: xs rule: memcpy_blocks.induct)
  case (1 d s c m)
  show ?case
  proof (cases "16 \<le> c")
    case True
    then have c: "16 \<le> unat c" by (simp add: word_le_nat_alt)
    note u = unat_minus [of 4 c, simplified] unat_minus [of 8 c, simplified] unat_minus [of 12 c, simplified]
    note a = align4_plus aligned4_plus4
    note w1 = copy_word_copies [OF 1(2) _ 1(3,4)]
    note w2 = copy_word_copies [OF w1(2), simplified add.assoc diff_diff_eq, simplified]
    note w3 = copy_word_copies [OF w2(2), simplified add.assoc diff_diff_eq, simplified]
    note w4 = copy_word_copies [OF w3(2), simplified add.assoc diff_diff_eq, simplified]
    show ?thesis using "1.IH" [OF True w1(1) w2(1) w3(1) w4(1) w4(2)] w1 w2 w3 w4 1(3,4) True c u
      by (simp add: memcpy_blocks.simps [of d] copies_def a)
  next
    case False
    then show ?thesis using 1 by (auto simp: memcpy_blocks.simps [of d] copies_def)
  qed
qed

lemma rt_memcpy_eq:
  assumes "length xs = unat count" "holds_at m src xs" "mapped m dst (unat count)"
    and "range_at src (unat count) \<inter> range_at dst (unat count) = {}"
  shows "rt_memcpy dst src count m = Some (dst, write_at dst xs m)"
proof -
  have c: "copying dst src count m xs" using assms by (simp add: copying_def)
  show ?thesis
  proof (cases "\<not> count < 16 \<and> aligned4 src \<and> aligned4 dst")
    case True
    obtain d s c1 m1 ys where 1: "memcpy_blocks dst src count m = Some (d, s, c1, m1)" "aligned4 d" "aligned4 s"
      "copying d s c1 m1 ys" "write_at d ys m1 = write_at dst xs m"
      using memcpy_blocks_copies [OF c] True by (auto simp: copies_def)
    obtain d' s' c2 m2 zs where 2: "memcpy_words d s c1 m1 = Some (d', s', c2, m2)"
      "copying d' s' c2 m2 zs" "write_at d' zs m2 = write_at d ys m1"
      using memcpy_words_copies [OF 1(4,2,3)] by (auto simp: copies_def)
    show ?thesis using True 1 2 memcpy_bytes_copies [OF 2(2)] by (simp add: rt_memcpy_def)
  next
    case False
    then show ?thesis using memcpy_bytes_copies [OF c] by (auto simp: rt_memcpy_def)
  qed
qed

subsection \<open>Moving\<close>

lemma memmove_up_moves:
  "holds_at m s xs \<Longrightarrow> length xs = unat n \<Longrightarrow> mapped m d (unat n) \<Longrightarrow> unat s + unat n \<le> 2 ^ 32 \<Longrightarrow>
   d \<le> s \<or> unat s + unat n \<le> unat d \<Longrightarrow> unat d + unat n \<le> 2 ^ 32 \<Longrightarrow>
   memmove_up d s n m = Some (write_at d xs m)"
proof (induction xs arbitrary: d s n m)
  case Nil
  then have "n = 0" by (simp add: unat_eq_zero)
  then show ?case by (simp add: memmove_up.simps)
next
  case (Cons x xs)
  have n: "n \<noteq> 0" "unat (n - 1) = length xs" "unat n = Suc (length xs)"
    using Cons.prems(2) unat_minus [of 1 n] by auto
  have d: "d \<in> dom m" "mapped m (d + 1) (length xs)" using Cons.prems(3) n(3) by (auto simp: mapped_Suc)
  have s: "m s = Some x" "holds_at m (s + 1) xs" using Cons.prems(1) by auto
  show ?case
  proof (cases "xs = []")
    case True
    then show ?thesis using n d s memmove_up.simps [of "d + 1" "s + 1" "n - 1" "m(d \<mapsto> x)"]
      by (auto simp: memmove_up.simps [of d s] load8_def unat_eq_zero fun_upd_def)
  next
    case False
    have "0 < length xs" using False by simp
    then have "unat s + 1 < 2 ^ 32" "unat d + 1 < 2 ^ 32" using Cons.prems(4,6) n(3) by linarith+
    then have w: "unat (s + 1) = unat s + 1" "unat (d + 1) = unat d + 1" by (simp_all add: unat_word_ariths)
    have "d \<notin> range_at (s + 1) (length xs)"
      using range_at_no_wrap [of "s + 1" "length xs" d] w Cons.prems(4,5) n(3) by (auto simp: word_le_nat_alt)
    then have h: "holds_at (m(d \<mapsto> x)) (s + 1) xs" using s(2) by simp
    define m' where m': "m' = m(d \<mapsto> x)"
    have "holds_at m' (s + 1) xs" "mapped m' (d + 1) (length xs)" using h d by (simp_all add: m')
    then have "memmove_up (d + 1) (s + 1) (n - 1) m' = Some (write_at (d + 1) xs m')"
      using Cons.IH [of m' "s + 1" "n - 1" "d + 1"] n w Cons.prems(4-6) by (auto simp: word_le_nat_alt)
    then show ?thesis using n d s by (simp add: memmove_up.simps [of d s] load8_def m')
  qed
qed

lemma memmove_down_moves:
  "holds_at m s xs \<Longrightarrow> length xs = unat n \<Longrightarrow> mapped m d (unat n) \<Longrightarrow> unat s + unat n < 2 ^ 32 \<Longrightarrow>
   s < d \<Longrightarrow> unat d + unat n \<le> 2 ^ 32 \<Longrightarrow>
   memmove_down (d + n) (s + n) n m = Some (write_at d xs m)"
proof (induction xs arbitrary: n m rule: rev_induct)
  case Nil
  then have "n = 0" by (simp add: unat_eq_zero)
  then show ?case by (simp add: memmove_down.simps)
next
  case (snoc x xs)
  let ?y = "d + of_nat (length xs)"
  have n: "n \<noteq> 0" "unat (n - 1) = length xs" "unat n = Suc (length xs)"
    using snoc.prems(2) unat_minus [of 1 n] by auto
  have "n - 1 = of_nat (unat (n - 1))" by simp
  then have n1: "n - 1 = of_nat (length xs)" unfolding n(2) .
  have y: "d + n - 1 = ?y" "s + n - 1 = s + of_nat (length xs)" using n1 by (simp_all add: add_diff_eq [symmetric])
  have s: "holds_at m s xs" "m (s + of_nat (length xs)) = Some x"
    using snoc.prems(1) by (auto simp: holds_at_append)
  have d: "?y \<in> dom m" "mapped m d (length xs)"
    using snoc.prems(3) n(3) mapped_add [of m d "length xs" 1] by (auto simp: mapped_Suc)
  have uy: "unat ?y = unat d + length xs" using snoc.prems(6) n(3) by (simp add: unat_word_ariths unat_of_nat)
  have ns: "?y \<notin> range_at s (length xs)" "?y \<notin> range_at d (length xs)"
    using range_at_no_wrap [of s "length xs" ?y] range_at_no_wrap [of d "length xs" ?y] uy snoc.prems(4,5,6) n(3)
    by (auto simp: word_less_nat_alt)
  then have h: "holds_at (m(?y \<mapsto> x)) s xs" using s(1) by simp
  define m' where m': "m' = m(?y \<mapsto> x)"
  have "holds_at m' s xs" "mapped m' d (length xs)" using h d by (simp_all add: m')
  then have "memmove_down (d + (n - 1)) (s + (n - 1)) (n - 1) m' = Some (write_at d xs m')"
    using snoc.IH [of m' "n - 1"] n snoc.prems(4-6) by simp
  moreover have "write_at d (xs @ [x]) m = write_at d xs m'"
    using ns(2) by (simp add: write_at_append write_at_commute m')
  moreover have "memmove_down (d + n) (s + n) n m = memmove_down (d + n - 1) (s + n - 1) (n - 1) m'"
    using n(1) s(2) d(1) by (simp add: memmove_down.simps [of "d + n"] load8_def y m')
  ultimately show ?case by (simp only: add_diff_eq)
qed

lemma rt_memmove_eq:
  assumes "holds_at m src xs" "length xs = unat n" "mapped m dest (unat n)"
    and "unat src + unat n < 2 ^ 32" "unat dest + unat n \<le> 2 ^ 32"
  shows "rt_memmove dest src n m = Some (dest, write_at dest xs m)"
proof -
  have "unat (src + n) = unat src + unat n" using assms(4) by (simp add: unat_word_ariths)
  then show ?thesis
    using memmove_down_moves [OF assms(1-4) _ assms(5)] memmove_up_moves [OF assms(1-3) _ _ assms(5)] assms(4)
    by (auto simp: rt_memmove_def word_less_nat_alt word_le_nat_alt)
qed

subsection \<open>Comparing\<close>

fun first_difference :: "u8 list \<Rightarrow> u8 list \<Rightarrow> u32" where
  "first_difference (x # xs) (y # ys) = (if x = y then first_difference xs ys else ucast x - ucast y)"
| "first_difference _ _ = 0"

lemma sint_ucast_diff: "sint (ucast x - ucast y :: u32) = uint x - uint y" for x y :: u8
proof -
  have "0 \<le> uint x" "0 \<le> uint y" by simp_all
  then have b: "0 \<le> uint x" "0 \<le> uint y" "- 2147483648 \<le> uint x" "- 2147483648 \<le> uint y" by linarith+
  have c: "uint x < 256" "uint y < 256" using unsigned_less [of x, where 'a = int] unsigned_less [of y, where 'a = int] by simp_all
  have "sint (ucast x :: u32) = uint x" "sint (ucast y :: u32) = uint y"
    using b c signed_take_bit_int_eq_self [of 31 "uint x"] signed_take_bit_int_eq_self [of 31 "uint y"]
    by (simp_all add: sint_uint unsigned_ucast_eq take_bit_int_eq_self)
  moreover have "- 2147483648 \<le> uint x - uint y" "uint x - uint y < 2147483648" using b c by linarith+
  ultimately show ?thesis using signed_take_bit_int_eq_self [of 31 "uint x - uint y"] by (simp add: sint_word_ariths)
qed

lemma ucast_diff_0 [simp]: "(ucast x - ucast y = (0 :: u32)) \<longleftrightarrow> x = y" for x y :: u8
proof
  assume "ucast x - ucast y = (0 :: u32)"
  then have "sint (ucast x - ucast y :: u32) = 0" by simp
  then show "x = y" by (simp add: sint_ucast_diff word_eq_iff_unsigned [where 'a = int])
qed simp

lemma ucast_eq_iff [simp]: "(ucast x = (ucast y :: u32)) \<longleftrightarrow> x = y" for x y :: u8
  using ucast_diff_0 [of x y] by (simp del: ucast_diff_0)

lemma sint_diff_less: "sint (ucast x - ucast y :: u32) < 0 \<longleftrightarrow> x < y" for x y :: u8
  by (simp add: sint_ucast_diff word_less_def)

lemma memcmp_loop_eq:
  "holds_at m a xs \<Longrightarrow> holds_at m b ys \<Longrightarrow> length xs = unat n \<Longrightarrow> length ys = unat n \<Longrightarrow>
   memcmp_loop a b n 0 m = Some (first_difference xs ys)"
proof (induction xs arbitrary: ys a b n)
  case Nil
  then have "n = 0" by (simp add: unat_eq_zero)
  then show ?case by (simp add: memcmp_loop.simps)
next
  case (Cons x xs)
  then obtain y zs where ys: "ys = y # zs" by (cases ys) auto
  have n: "n \<noteq> 0" "unat (n - 1) = length xs" using Cons.prems(3) unat_minus [of 1 n] by auto
  show ?case using Cons.IH [where a = "a + 1" and ys = zs and b = "b + 1" and n = "n - 1"] Cons.prems ys n
    by (simp add: memcmp_loop.simps [of a b n] load8_def Let_def flip: word_neq_0_conv)
qed

lemma first_difference_sign:
  assumes "length xs = length ys"
  shows "first_difference xs ys = 0 \<longleftrightarrow> xs = ys" and "sint (first_difference xs ys) < 0 \<longleftrightarrow> ord_class.lexordp xs ys"
  using assms by (induction xs ys rule: list_induct2) (auto simp: sint_diff_less)

section \<open>Properties\<close>

text \<open>
  C34. \<open>rt_memset\<close>, with its loops over blocks of four words, over words and over bytes, is the
  same as writing the low byte of \<open>c\<close> into each of the \<open>count\<close> bytes at \<open>s\<close>, for every count and
  every alignment; no other byte changes, and it never leaves the block.
\<close>

theorem rt_memset_fills:
  assumes "mapped m s (unat count)"
  shows "rt_memset s c count m = Some (s, write_at s (replicate (unat count) (ucast c)) m)"
  using assms by (rule rt_memset_eq)

theorem rt_memset_fills_witness:
  "rt_memset 8 0x1ab 21 (\<lambda>_. Some 0) = Some (8, write_at 8 (replicate 21 0xab) (\<lambda>_. Some 0))"
proof -
  have e: "(427 :: u8) = 0xab" by simp
  show ?thesis using rt_memset_fills [of "\<lambda>_. Some 0" 8 21 "0x1ab"] by (simp add: mapped_def dom_def e)
qed

text \<open>
  C35. \<open>rt_memcpy\<close> between blocks that do not overlap is the same as writing the bytes of the
  source to the destination one by one, for every count and every alignment of the two.
\<close>

theorem rt_memcpy_copies:
  assumes "holds_at m src xs" and "length xs = unat count" and "mapped m dst (unat count)"
    and "range_at src (unat count) \<inter> range_at dst (unat count) = {}"
  shows "rt_memcpy dst src count m = Some (dst, write_at dst xs m)"
  using assms by (intro rt_memcpy_eq)

theorem rt_memcpy_copies_witness:
  "rt_memcpy 64 4 21 (\<lambda>_. Some 7) = Some (64, write_at 64 (replicate 21 7) (\<lambda>_. Some 7))"
proof -
  have "holds_at (\<lambda>_. Some 7) 4 (replicate 21 7)" by (simp add: eval_nat_numeral)
  moreover have "range_at 4 21 \<inter> range_at 64 21 = {}"
    using range_at_no_wrap [of 4 21] range_at_no_wrap [of 64 21] by auto
  ultimately show ?thesis
    using rt_memcpy_copies [of "\<lambda>_. Some 7" 4 "replicate 21 7" 21 64] by (simp add: mapped_def dom_def)
qed

text \<open>
  C36. \<open>rt_memmove\<close> is right for blocks that overlap, too: whichever of its two directions it
  takes, the destination ends up with what the source held before, and no other byte changes.
\<close>

theorem rt_memmove_moves:
  assumes "holds_at m src xs" and "length xs = unat n" and "mapped m dest (unat n)"
    and "unat src + unat n < 2 ^ 32" and "unat dest + unat n \<le> 2 ^ 32"
  shows "\<exists>m'. rt_memmove dest src n m = Some (dest, m') \<and> holds_at m' dest xs \<and>
    (\<forall>a. a \<notin> range_at dest (unat n) \<longrightarrow> m' a = m a)"
proof -
  have "length xs \<le> 2 ^ 32" using assms(2,5) by linarith
  then show ?thesis using rt_memmove_eq [OF assms] by (simp add: holds_at_write_at write_at_outside assms(2))
qed

theorem rt_memmove_moves_witness:
  "\<exists>m'. rt_memmove 102 100 3 [100 \<mapsto> 1, 101 \<mapsto> 2, 102 \<mapsto> 3, 103 \<mapsto> 4, 104 \<mapsto> 5] = Some (102, m') \<and>
    holds_at m' 102 [1, 2, 3]"
proof -
  let ?m = "[100 \<mapsto> 1, 101 \<mapsto> 2, 102 \<mapsto> 3, 103 \<mapsto> 4, 104 \<mapsto> 5] :: mem"
  have "holds_at ?m 100 [1, 2, 3]" "holds_at ?m 102 [3, 4, 5]" by simp_all
  then have "holds_at ?m 100 [1, 2, 3]" "mapped ?m 102 3" using holds_at_mapped [of ?m 102 "[3, 4, 5]"] by (simp_all add: numeral_3_eq_3)
  then show ?thesis using rt_memmove_moves [of ?m 100 "[1, 2, 3]" 3 102] by auto
qed

end
