(* ===== verification/Kservice_Str.thy ===== *)
theory Kservice_Str
  imports Kservice_Mem "HOL-Library.Sublist"
begin

text \<open>
  \<open>src/kservice.c\<close> of the reference kernel, the operations on strings. A string ends at its first
  zero byte; a loop that runs past the mapped memory, or around all of it for ever, is
  \<^const>\<open>None\<close>. \<open>char\<close> is unsigned and promoted to \<open>int\<close>. \<open>rt_strncpy\<close> is \<open>rt_strncpy_ref\<close> here:
  the small kernel has its own copy.
\<close>

section \<open>The operations\<close>

text \<open>\<open>for (sc = s; *sc != '\0'; ++sc);\<close>\<close>

partial_function (option) strlen_loop :: "u32 \<Rightarrow> mem \<Rightarrow> u32 option" where
  "strlen_loop sc m = do { c \<leftarrow> load8 sc m; if c \<noteq> 0 then strlen_loop (sc + 1) m else Some sc }"

definition rt_strlen :: "u32 \<Rightarrow> mem \<Rightarrow> u32 option" where
  "rt_strlen s m = do { sc \<leftarrow> strlen_loop s m; Some (sc - s) }"

partial_function (option) strnlen_loop :: "u32 \<Rightarrow> u32 \<Rightarrow> u32 \<Rightarrow> mem \<Rightarrow> u32 option" where
  "strnlen_loop s maxlen sc m = do {
     c \<leftarrow> load8 sc m;
     if c \<noteq> 0 \<and> sc - s < maxlen then strnlen_loop s maxlen (sc + 1) m else Some sc }"

definition rt_strnlen :: "u32 \<Rightarrow> u32 \<Rightarrow> mem \<Rightarrow> u32 option" where
  "rt_strnlen s maxlen m = do { sc \<leftarrow> strnlen_loop s maxlen s m; Some (sc - s) }"

text \<open>\<open>while (*cs && *cs == *ct) cs++, ct++; return (*cs - *ct);\<close>\<close>

partial_function (option) rt_strcmp :: "u32 \<Rightarrow> u32 \<Rightarrow> mem \<Rightarrow> u32 option" where
  "rt_strcmp cs ct m = do {
     c1 \<leftarrow> load8 cs m;
     c2 \<leftarrow> load8 ct m;
     if c1 \<noteq> 0 \<and> c1 = c2 then rt_strcmp (cs + 1) (ct + 1) m
     else Some (ucast c1 - ucast c2) }"

text \<open>\<open>__res\<close> is a \<open>signed char\<close>: the difference keeps its low 8 bits.\<close>

function strncmp_loop :: "u32 \<Rightarrow> u32 \<Rightarrow> u32 \<Rightarrow> u8 \<Rightarrow> mem \<Rightarrow> u8 option" where
  "strncmp_loop cs ct count res m =
     (if count \<noteq> 0 then do {
        c1 \<leftarrow> load8 cs m;
        c2 \<leftarrow> load8 ct m;
        let res = ucast (ucast c1 - ucast c2 :: u32);
        if res \<noteq> 0 \<or> c1 = 0 then Some res
        else strncmp_loop (cs + 1) (ct + 1) (count - 1) res m }
      else Some res)"
  by pat_completeness auto
termination by (relation "measure (\<lambda>(_, _, count, _, _). unat count)") (auto intro: counted1)

declare strncmp_loop.simps [simp del]

definition rt_strncmp :: "u32 \<Rightarrow> u32 \<Rightarrow> u32 \<Rightarrow> mem \<Rightarrow> u32 option" where
  "rt_strncmp cs ct count m = do { res \<leftarrow> strncmp_loop cs ct count 0 m; Some (scast res) }"

text \<open>\<open>if (ca >= 'A' && ca <= 'Z') ca += 'a' - 'A';\<close> on \<open>*a++ & 0xff\<close>\<close>

definition fold_case :: "u8 \<Rightarrow> u32" where
  "fold_case ch = (let ca = ucast ch AND 0xff in if 65 \<le> ca \<and> ca \<le> 90 then ca + (97 - 65) else ca)"

partial_function (option) rt_strcasecmp :: "u32 \<Rightarrow> u32 \<Rightarrow> mem \<Rightarrow> u32 option" where
  "rt_strcasecmp a b m = do {
     ca \<leftarrow> map_option fold_case (load8 a m);
     cb \<leftarrow> map_option fold_case (load8 b m);
     if ca = cb \<and> ca \<noteq> 0 then rt_strcasecmp (a + 1) (b + 1) m else Some (ca - cb) }"

text \<open>\<open>while (--n != 0) *d++ = 0;\<close>\<close>

partial_function (option) strncpy_zeros :: "u32 \<Rightarrow> u32 \<Rightarrow> mem \<Rightarrow> mem option" where
  "strncpy_zeros d n m =
     (if n - 1 \<noteq> 0 then do { m \<leftarrow> store8 d 0 m; strncpy_zeros (d + 1) (n - 1) m } else Some m)"

partial_function (option) strncpy_chars :: "u32 \<Rightarrow> u32 \<Rightarrow> u32 \<Rightarrow> mem \<Rightarrow> mem option" where
  "strncpy_chars d s n m = do {
     c \<leftarrow> load8 s m;
     m \<leftarrow> store8 d c m;
     if c = 0 then strncpy_zeros (d + 1) n m
     else if n - 1 \<noteq> 0 then strncpy_chars (d + 1) (s + 1) (n - 1) m
     else Some m }"

definition rt_strncpy_ref :: "u32 \<Rightarrow> u32 \<Rightarrow> u32 \<Rightarrow> mem \<Rightarrow> (u32 \<times> mem) option" where
  "rt_strncpy_ref dst src n m = do {
     m \<leftarrow> (if n \<noteq> 0 then strncpy_chars dst src n m else Some m);
     Some (dst, m) }"

text \<open>\<open>l1\<close> and \<open>l2\<close> are signed; \<open>RT_NULL\<close> is 0.\<close>

partial_function (option) strstr_loop :: "u32 \<Rightarrow> u32 \<Rightarrow> u32 \<Rightarrow> u32 \<Rightarrow> mem \<Rightarrow> u32 option" where
  "strstr_loop s1 s2 l1 l2 m =
     (if sint l1 \<ge> sint l2 then do {
        res \<leftarrow> rt_memcmp s1 s2 l2 m;
        if res = 0 then Some s1 else strstr_loop (s1 + 1) s2 (l1 - 1) l2 m }
      else Some 0)"

definition rt_strstr :: "u32 \<Rightarrow> u32 \<Rightarrow> mem \<Rightarrow> u32 option" where
  "rt_strstr s1 s2 m = do {
     l2 \<leftarrow> rt_strlen s2 m;
     if l2 = 0 then Some s1
     else do {
       l1 \<leftarrow> rt_strlen s1 m;
       strstr_loop s1 s2 l1 l2 m } }"

section \<open>What they do\<close>

definition string_at :: "mem \<Rightarrow> u32 \<Rightarrow> u8 list \<Rightarrow> bool" where
  "string_at m a xs \<longleftrightarrow> holds_at m a (xs @ [0]) \<and> 0 \<notin> set xs"

lemma string_at_Nil [simp]: "string_at m a [] \<longleftrightarrow> m a = Some 0"
  by (simp add: string_at_def)

lemma string_at_Cons [simp]: "string_at m a (x # xs) \<longleftrightarrow> m a = Some x \<and> x \<noteq> 0 \<and> string_at m (a + 1) xs"
  by (auto simp: string_at_def)

lemma string_at_holds: "string_at m a xs \<Longrightarrow> holds_at m a xs"
  by (simp add: string_at_def holds_at_append)

lemma strlen_loop_eq: "string_at m s xs \<Longrightarrow> strlen_loop s m = Some (s + of_nat (length xs))"
  by (induction xs arbitrary: s) (simp_all add: strlen_loop.simps [of s for s] load8_def add.assoc)

lemma rt_strlen_eq: "string_at m s xs \<Longrightarrow> rt_strlen s m = Some (of_nat (length xs))"
  by (simp add: rt_strlen_def strlen_loop_eq)

lemma strnlen_loop_eq:
  "string_at m sc xs \<Longrightarrow> unat (sc - s) + length xs < 2 ^ 32 \<Longrightarrow> unat (sc - s) \<le> unat maxlen \<Longrightarrow>
   strnlen_loop s maxlen sc m = Some (sc + of_nat (min (length xs) (unat maxlen - unat (sc - s))))"
proof (induction xs arbitrary: sc)
  case Nil
  then show ?case by (simp add: strnlen_loop.simps [of s maxlen sc] load8_def)
next
  case (Cons x xs)
  show ?case
  proof (cases "sc - s < maxlen")
    case True
    have "unat (sc + 1 - s) = unat (sc - s) + 1"
      using Cons.prems(2) unat_word_ariths(1) [of "sc - s" 1] by (simp add: diff_add_eq)
    moreover have "unat (sc - s) < unat maxlen" using True by (simp add: word_less_nat_alt)
    then obtain k where k: "unat maxlen - unat (sc - s) = Suc k" "unat maxlen - Suc (unat (sc - s)) = k"
      by (cases "unat maxlen - unat (sc - s)") auto
    ultimately have "strnlen_loop s maxlen (sc + 1) m = Some (sc + 1 + of_nat (min (length xs) k))"
      using Cons.IH [of "sc + 1"] Cons.prems by simp
    then show ?thesis using Cons.prems True k(1)
      by (simp add: strnlen_loop.simps [of s maxlen sc] load8_def add.assoc)
  next
    case False
    then show ?thesis using Cons.prems by (simp add: strnlen_loop.simps [of s maxlen sc] load8_def word_less_nat_alt)
  qed
qed

lemma rt_strnlen_eq:
  "string_at m s xs \<Longrightarrow> length xs < 2 ^ 32 \<Longrightarrow> rt_strnlen s maxlen m = Some (of_nat (min (length xs) (unat maxlen)))"
  using strnlen_loop_eq [of m s xs s maxlen] by (simp add: rt_strnlen_def)

text \<open>\<open>rt_strnlen\<close> reads one byte more than it may: with \<open>maxlen\<close> 0 the byte at \<open>s\<close>.\<close>

lemma rt_strnlen_reads_past: "rt_strnlen s 0 m = (if m s = None then None else Some 0)"
  by (auto simp: rt_strnlen_def strnlen_loop.simps [of s 0 s] load8_def)

lemma sint_neg_byte [simp]: "sint (- ucast x :: u32) < 0 \<longleftrightarrow> x \<noteq> 0" for x :: u8
  using sint_diff_less [of 0 x] by (simp add: word_neq_0_conv)

lemma ucast_byte_0 [simp]: "(ucast x = (0 :: u32)) \<longleftrightarrow> x = 0" for x :: u8
  using ucast_diff_0 [of x 0] by simp

lemma sint_byte [simp]: "\<not> sint (ucast x :: u32) < 0" for x :: u8
  using sint_diff_less [of x 0] by simp

lemma rt_strcmp_eq:
  "string_at m a xs \<Longrightarrow> string_at m b ys \<Longrightarrow>
   \<exists>r. rt_strcmp a b m = Some r \<and> (r = 0 \<longleftrightarrow> xs = ys) \<and> (sint r < 0 \<longleftrightarrow> ord_class.lexordp xs ys)"
proof (induction xs arbitrary: a b ys)
  case Nil
  then show ?case
    by (cases ys) (auto simp: rt_strcmp.simps [of a b] load8_def sint_diff_less)
next
  case (Cons x xs)
  then show ?case
    by (cases ys) (auto simp: rt_strcmp.simps [of a b] load8_def sint_diff_less)
qed


lemma ucast_diff_byte: "ucast (ucast x - ucast y :: u32) = x - y" for x y :: u8
proof -
  have "uint x mod 4294967296 = uint x" "uint y mod 4294967296 = uint y"
    using unsigned_less [of x, where 'a = int] unsigned_less [of y, where 'a = int] by simp_all
  then show ?thesis
    by (simp add: word_eq_iff_unsigned [where 'a = int] unsigned_ucast_eq uint_word_ariths take_bit_eq_mod mod_mod_cancel)
qed

text \<open>The first difference of two byte lists modulo 256\<close>

fun byte_difference :: "u8 list \<Rightarrow> u8 list \<Rightarrow> u8" where
  "byte_difference (x # xs) (y # ys) = (if x = y then byte_difference xs ys else x - y)"
| "byte_difference [] (y # ys) = - y"
| "byte_difference (x # xs) [] = x"
| "byte_difference [] [] = 0"

lemma strncmp_loop_eq:
  "string_at m a xs \<Longrightarrow> string_at m b ys \<Longrightarrow>
   strncmp_loop a b n 0 m = Some (byte_difference (take (unat n) xs) (take (unat n) ys))"
proof (induction xs arbitrary: a b ys n)
  case Nil
  show ?case
  proof (cases "n = 0")
    case False
    then show ?thesis using Nil
      by (cases ys) (auto simp: strncmp_loop.simps [of a b n] load8_def Let_def ucast_diff_byte unat_pred)
  qed (simp add: strncmp_loop.simps)
next
  case (Cons x xs)
  show ?case
  proof (cases "n = 0")
    case False
    then have n: "unat n = Suc (unat (n - 1))" by (rule unat_pred)
    show ?thesis using Cons False
      by (cases ys) (auto simp: strncmp_loop.simps [of a b n] load8_def Let_def ucast_diff_byte n)
  qed (simp add: strncmp_loop.simps)
qed

lemma byte_difference_0:
  "0 \<notin> set xs \<Longrightarrow> 0 \<notin> set ys \<Longrightarrow> byte_difference xs ys = 0 \<longleftrightarrow> xs = ys"
  by (induction xs ys rule: byte_difference.induct) auto

lemma sint_small_diff: "x < 128 \<Longrightarrow> y < 128 \<Longrightarrow> sint (x - y) < 0 \<longleftrightarrow> x < y" for x y :: u8
proof -
  assume xy: "x < 128" "y < 128"
  have b: "0 \<le> uint x" "0 \<le> uint y" "uint x < 128" "uint y < 128" using xy by (simp_all add: word_less_def)
  then have c: "- 128 \<le> uint x" "- 128 \<le> uint y" "- 128 \<le> uint x - uint y" "uint x - uint y < 128" by linarith+
  then have "sint x = uint x" "sint y = uint y"
    using b c signed_take_bit_int_eq_self [of 7 "uint x"] signed_take_bit_int_eq_self [of 7 "uint y"]
    by (simp_all add: sint_uint)
  then have "sint (x - y) = uint x - uint y"
    using c signed_take_bit_int_eq_self [of 7 "uint x - uint y"] by (simp add: sint_word_ariths)
  then show ?thesis by (simp add: word_less_def)
qed

lemma byte_difference_sign:
  "\<forall>x \<in> set xs \<union> set ys. x \<noteq> 0 \<and> x < 128 \<Longrightarrow>
   sint (byte_difference xs ys) < 0 \<longleftrightarrow> ord_class.lexordp xs ys"
proof (induction xs ys rule: byte_difference.induct)
  case (2 y ys)
  then show ?case using sint_small_diff [of 0 y] by (simp add: word_neq_0_conv)
next
  case (3 x xs)
  then show ?case using sint_small_diff [of x 0] by simp
qed (auto simp: sint_small_diff)

text \<open>Without regard to case\<close>

lemma fold_case_0 [simp]: "fold_case x = 0 \<longleftrightarrow> x = 0"
proof -
  have c: "ucast x AND 0xff = (ucast x :: u32)"
    unfolding and_ff by (rule bit_word_eqI) (use bit_u8_high [of _ x] in \<open>auto simp: bit_simps not_less [symmetric]\<close>)
  have "(ucast x :: u32) + 32 \<noteq> 0" if "(ucast x :: u32) \<le> 90"
  proof -
    have "unat (ucast x + 32 :: u32) = unat (ucast x :: u32) + 32"
      using that by (simp add: unat_word_ariths word_le_nat_alt)
    then show ?thesis by auto
  qed
  then show ?thesis by (auto simp: fold_case_def c Let_def)
qed

lemma fold_case_zero [simp]: "fold_case 0 = 0"
  by simp

lemma rt_strcasecmp_eq:
  "string_at m a xs \<Longrightarrow> string_at m b ys \<Longrightarrow>
   \<exists>r. rt_strcasecmp a b m = Some r \<and> (r = 0 \<longleftrightarrow> map fold_case xs = map fold_case ys)"
proof (induction xs arbitrary: a b ys)
  case Nil
  then show ?case
    by (cases ys) (auto simp: rt_strcasecmp.simps [of a b] load8_def)
next
  case (Cons x xs)
  then show ?case
    by (cases ys) (auto simp: rt_strcasecmp.simps [of a b] load8_def)
qed

text \<open>Copying with padding\<close>

lemma strncpy_zeros_eq:
  "n \<noteq> 0 \<Longrightarrow> mapped m d (unat n - 1) \<Longrightarrow> strncpy_zeros d n m = Some (write_at d (replicate (unat n - 1) 0) m)"
proof (induction "unat n" arbitrary: d n m)
  case (Suc k)
  have n: "unat (n - 1) = k" using unat_pred [OF Suc.prems(1)] Suc.hyps(2) by simp
  show ?case
  proof (cases "n - 1 = 0")
    case False
    then obtain j where k: "k = Suc j" using n by (cases k) (auto simp: unat_eq_zero)
    then have d: "d \<in> dom m" "mapped m (d + 1) (unat (n - 1) - 1)" using Suc.prems(2) Suc.hyps(2) n
      by (auto simp: mapped_Suc simp flip: Suc.hyps(2))
    define m' where m': "m' = m(d \<mapsto> 0)"
    have "strncpy_zeros (d + 1) (n - 1) m' = Some (write_at (d + 1) (replicate (unat (n - 1) - 1) 0) m')"
      using Suc.hyps(1) [of "n - 1" m' "d + 1"] n False d by (simp add: m')
    then show ?thesis using False d n k Suc.hyps(2)
      by (simp add: strncpy_zeros.simps [of d n] m' flip: Suc.hyps(2))
  qed (use n in \<open>simp add: strncpy_zeros.simps flip: Suc.hyps(2)\<close>)
qed (simp add: unat_eq_zero)

lemma strncpy_chars_eq:
  "string_at m s xs \<Longrightarrow> n \<noteq> 0 \<Longrightarrow> mapped m d (unat n) \<Longrightarrow>
   range_at s (Suc (length xs)) \<inter> range_at d (unat n) = {} \<Longrightarrow>
   strncpy_chars d s n m = Some (write_at d (take (unat n) (xs @ replicate (unat n) 0)) m)"
proof (induction xs arbitrary: s d n m)
  case Nil
  obtain k where n: "unat n = Suc k" using unat_pred [OF Nil.prems(2)] by blast
  then have d: "d \<in> dom m" "mapped m (d + 1) k" using Nil.prems(3) by (auto simp: mapped_Suc)
  define m' where m': "m' = m(d \<mapsto> 0)"
  have "strncpy_zeros (d + 1) n m' = Some (write_at (d + 1) (replicate k 0) m')"
    using strncpy_zeros_eq [of n m' "d + 1"] Nil.prems(2) n d by (simp add: m')
  then show ?case using Nil.prems(1) d n by (simp add: strncpy_chars.simps [of d s] load8_def m')
next
  case (Cons x xs)
  have n: "unat n = Suc (unat (n - 1))" using unat_pred [OF Cons.prems(2)] .
  then have d: "d \<in> dom m" "mapped m (d + 1) (unat (n - 1))" using Cons.prems(3) by (auto simp: mapped_Suc)
  define m' where m': "m' = m(d \<mapsto> x)"
  have r: "range_at (s + 1) (Suc (length xs)) \<inter> range_at (d + 1) (unat (n - 1)) = {}"
    "d \<notin> range_at (s + 1) (length (xs @ [0]))"
    using Cons.prems(4) by (auto simp: range_at_Suc n)
  have s: "m s = Some x" "x \<noteq> 0" "string_at m' (s + 1) xs"
    using Cons.prems(1) r(2) by (simp_all add: m' string_at_def)
  have c: "strncpy_chars d s n m = (if n - 1 \<noteq> 0 then strncpy_chars (d + 1) (s + 1) (n - 1) m' else Some m')"
    using s d by (simp add: strncpy_chars.simps [of d s] load8_def m')
  have w: "take (unat n) ((x # xs) @ replicate (unat n) 0) = x # take (unat (n - 1)) (xs @ replicate (unat (n - 1)) 0)"
    by (simp add: n replicate_append_same [symmetric] del: replicate.simps)
  show ?case
  proof (cases "n - 1 = 0")
    case False
    have "mapped m' (d + 1) (unat (n - 1))" using d by (simp add: m')
    then have "strncpy_chars (d + 1) (s + 1) (n - 1) m' =
        Some (write_at (d + 1) (take (unat (n - 1)) (xs @ replicate (unat (n - 1)) 0)) m')"
      by (rule Cons.IH [OF s(3) False _ r(1)])
    then show ?thesis unfolding w c using False by (simp add: m')
  next
    case True
    then show ?thesis unfolding w c by (auto simp: m' fun_upd_def)
  qed
qed

text \<open>Searching\<close>

definition first_match :: "u8 list \<Rightarrow> u8 list \<Rightarrow> nat option \<Rightarrow> bool" where
  "first_match ys xs r \<longleftrightarrow>
     (case r of None \<Rightarrow> \<not> sublist ys xs
      | Some i \<Rightarrow> prefix ys (drop i xs) \<and> (\<forall>j < i. \<not> prefix ys (drop j xs)))"

lemma first_match_Cons:
  "first_match ys xs r \<Longrightarrow> \<not> prefix ys (x # xs) \<Longrightarrow> first_match ys (x # xs) (map_option Suc r)"
  by (auto simp: first_match_def sublist_Cons_right less_Suc_eq_0_disj split: option.splits)

lemma sint_of_nat: "n < 2 ^ 31 \<Longrightarrow> sint (of_nat n :: u32) = int n"
  using signed_take_bit_int_eq_self [of 31 "int n"] by (simp add: sint_uint unsigned_of_nat take_bit_nat_eq_self)

definition found :: "u32 \<Rightarrow> nat option \<Rightarrow> u32" where
  "found s r = (case r of None \<Rightarrow> 0 | Some i \<Rightarrow> s + of_nat i)"

lemma found_Suc: "found (s + 1) r = found s (map_option Suc r)"
  by (simp add: found_def add.assoc split: option.splits)

lemma strstr_loop_eq:
  "holds_at m s1 xs \<Longrightarrow> holds_at m s2 ys \<Longrightarrow> ys \<noteq> [] \<Longrightarrow> length xs < 2 ^ 31 \<Longrightarrow> length ys < 2 ^ 31 \<Longrightarrow>
   \<exists>r. strstr_loop s1 s2 (of_nat (length xs)) (of_nat (length ys)) m = Some (found s1 r) \<and> first_match ys xs r"
proof (induction xs arbitrary: s1)
  case Nil
  then show ?case
    by (intro exI [of _ None]) (simp add: strstr_loop.simps [of s1 s2] sint_of_nat found_def first_match_def)
next
  case (Cons x xs)
  let ?xs = "x # xs"
  have le: "sint (of_nat (length ys) :: u32) \<le> sint (of_nat (length ?xs) :: u32) \<longleftrightarrow> length ys \<le> length ?xs"
    using Cons.prems(4,5) by (simp add: sint_of_nat del: of_nat_Suc)
  show ?case
  proof (cases "length ys \<le> length ?xs")
    case False
    then have "\<not> sublist ys ?xs" by (auto dest: sublist_length_le)
    then show ?thesis using False le
      by (intro exI [of _ None]) (simp add: strstr_loop.simps [of s1 s2] found_def first_match_def)
  next
    case True
    let ?t = "take (length ys) ?xs"
    have t: "length ?t = length ys" "unat (of_nat (length ys) :: u32) = length ys"
      using True Cons.prems(5) by (simp_all add: unat_of_nat)
    have "holds_at m s1 ?t"
      using Cons.prems(1) holds_at_append [of m s1 ?t "drop (length ys) ?xs"] by (simp del: take_Cons drop_Cons)
    then have c: "rt_memcmp s1 s2 (of_nat (length ys)) m = Some (first_difference ?t ys)"
      unfolding rt_memcmp_def using Cons.prems(2) t by (intro memcmp_loop_eq) simp_all
    have p: "first_difference ?t ys = 0 \<longleftrightarrow> prefix ys ?xs"
      using first_difference_sign(1) [OF t(1)] by (metis prefix_def append_eq_conv_conj)
    show ?thesis
    proof (cases "prefix ys ?xs")
      case True
      then show ?thesis using le \<open>length ys \<le> length ?xs\<close> c p
        by (intro exI [of _ "Some 0"]) (simp add: strstr_loop.simps [of s1 s2] found_def first_match_def)
    next
      case False
      have n: "of_nat (length ?xs) - 1 = (of_nat (length xs) :: u32)" by simp
      obtain r where r: "strstr_loop (s1 + 1) s2 (of_nat (length xs)) (of_nat (length ys)) m = Some (found (s1 + 1) r)"
        "first_match ys xs r"
        using Cons.IH [of "s1 + 1"] Cons.prems by auto
      have "strstr_loop s1 s2 (of_nat (length ?xs)) (of_nat (length ys)) m = Some (found s1 (map_option Suc r))"
        using le \<open>length ys \<le> length ?xs\<close> c p False r(1) n
        by (simp add: strstr_loop.simps [of s1 s2] found_Suc del: of_nat_Suc length_Cons)
      then show ?thesis using first_match_Cons [OF r(2) False] by blast
    qed
  qed
qed

lemma sint_scast_byte: "sint (scast r :: u32) = sint r" for r :: u8
  using sint_lt [of r] sint_ge [of r] by (simp add: signed_scast_eq signed_take_bit_int_eq_self_iff)

section \<open>Properties\<close>

text \<open>
  C37. \<open>rt_strstr\<close> finds the first occurrence of a string in another and returns its address; when
  there is none it returns a null pointer.
\<close>

theorem rt_strstr_finds_first:
  assumes "string_at m s1 xs" and "string_at m s2 ys" and "length xs < 2 ^ 31" and "length ys < 2 ^ 31"
  shows "\<exists>r. rt_strstr s1 s2 m = Some r \<and>
    (if sublist ys xs
     then \<exists>i. r = s1 + of_nat i \<and> prefix ys (drop i xs) \<and> (\<forall>j < i. \<not> prefix ys (drop j xs))
     else r = 0)"
proof (cases "ys = []")
  case True
  then show ?thesis using rt_strlen_eq [OF assms(2)]
    by (auto simp: rt_strstr_def intro!: exI [of _ "0 :: nat"])
next
  case False
  have n: "(of_nat (length ys) :: u32) \<noteq> 0"
    using False assms(4) by (auto simp: word_of_nat_eq_0_iff dest: dvd_imp_le)
  obtain r where r: "strstr_loop s1 s2 (of_nat (length xs)) (of_nat (length ys)) m = Some (found s1 r)"
    "first_match ys xs r"
    using strstr_loop_eq [OF assms(1,2) [THEN string_at_holds] False assms(3,4)] by blast
  have "sublist ys xs" if "r = Some i" for i
  proof -
    obtain zs where "drop i xs = ys @ zs" using r(2) \<open>r = Some i\<close> by (auto simp: first_match_def prefix_def)
    then have "xs = take i xs @ ys @ zs" by (metis append_take_drop_id)
    then show ?thesis by (metis sublist_def)
  qed
  then show ?thesis using r n rt_strlen_eq [OF assms(1)] rt_strlen_eq [OF assms(2)]
    by (cases r) (auto simp: rt_strstr_def found_def first_match_def)
qed

theorem rt_strstr_finds_first_witness:
  "\<exists>r. rt_strstr 10 20 [10 \<mapsto> 98, 11 \<mapsto> 97, 12 \<mapsto> 97, 13 \<mapsto> 0, 20 \<mapsto> 97, 21 \<mapsto> 0] = Some r \<and>
    (\<exists>i. r = 10 + of_nat i \<and> prefix [97 :: u8] (drop i [98, 97, 97]) \<and> (\<forall>j < i. \<not> prefix [97 :: u8] (drop j [98, 97, 97])))"
  using rt_strstr_finds_first [of "[10 \<mapsto> 98, 11 \<mapsto> 97, 12 \<mapsto> 97, 13 \<mapsto> 0, 20 \<mapsto> 97, 21 \<mapsto> 0]" 10 "[98, 97, 97]" 20 "[97]"]
  by (simp add: sublist_Cons_right del: drop_Cons)

text \<open>
  \<open>rt_strcmp\<close> orders strings as byte lists: its result is 0 for equal strings and negative when
  the first comes earlier. \<open>rt_strncmp\<close> is 0 exactly when the first \<open>count\<close> bytes agree; as it
  returns an 8-bit difference its sign is right for 7-bit characters.
\<close>

theorem rt_strcmp_orders:
  assumes "string_at m a xs" and "string_at m b ys"
  shows "(\<exists>r. rt_strcmp a b m = Some r \<and> (r = 0 \<longleftrightarrow> xs = ys) \<and> (sint r < 0 \<longleftrightarrow> ord_class.lexordp xs ys)) \<and>
    (\<exists>r. rt_strncmp a b count m = Some r \<and> (r = 0 \<longleftrightarrow> take (unat count) xs = take (unat count) ys) \<and>
      ((\<forall>x \<in> set xs \<union> set ys. x < 128) \<longrightarrow>
       (sint r < 0 \<longleftrightarrow> ord_class.lexordp (take (unat count) xs) (take (unat count) ys))))"
proof -
  let ?t = "take (unat count)" and ?d = "byte_difference (take (unat count) xs) (take (unat count) ys)"
  have nz: "0 \<notin> set (?t xs)" "0 \<notin> set (?t ys)" "0 \<notin> set xs" "0 \<notin> set ys"
    using assms by (auto simp: string_at_def dest: in_set_takeD)
  have r: "rt_strncmp a b count m = Some (scast ?d)" using strncmp_loop_eq [OF assms] by (simp add: rt_strncmp_def)
  have "(scast ?d = (0 :: u32)) \<longleftrightarrow> ?d = 0"
  proof -
    have "?d = 0 \<longleftrightarrow> sint ?d = 0" using word_eq_iff_signed [where 'a = int, of ?d 0] by simp
    moreover have "(scast ?d = (0 :: u32)) \<longleftrightarrow> sint (scast ?d :: u32) = 0"
      using word_eq_iff_signed [where 'a = int, of "scast ?d :: u32" 0] by simp
    ultimately show ?thesis by (simp add: sint_scast_byte)
  qed
  moreover have "sint ?d < 0 \<longleftrightarrow> ord_class.lexordp (?t xs) (?t ys)" if "\<forall>x \<in> set xs \<union> set ys. x < 128"
    using that nz by (intro byte_difference_sign) (auto dest: in_set_takeD)
  ultimately show ?thesis using rt_strcmp_eq [OF assms] r byte_difference_0 [OF nz(1,2)]
    by (auto simp: sint_scast_byte)
qed

theorem rt_strcmp_orders_witness:
  "\<exists>r. rt_strcmp 0 2 [0 \<mapsto> 65, 1 \<mapsto> 0, 2 \<mapsto> 66, 3 \<mapsto> 0] = Some r \<and> sint r < 0"
  using rt_strcmp_orders [of "[0 \<mapsto> 65, 1 \<mapsto> 0, 2 \<mapsto> 66, 3 \<mapsto> 0]" 0 "[65]" 2 "[66]"] by auto

text \<open>With other characters the sign is wrong: 1 comes before 255.\<close>

lemma rt_strncmp_wrong_sign: "rt_strncmp 0 2 1 [0 \<mapsto> 1, 1 \<mapsto> 0, 2 \<mapsto> 255, 3 \<mapsto> 0] = Some 2"
  by (simp add: rt_strncmp_def strncmp_loop.simps load8_def Let_def)

end
