(* ===== verification/Printf.thy ===== *)
theory Printf
  imports Kservice Kservice_Str
begin

text \<open>
  \<open>src/kservice.c\<close> of the reference kernel, formatted printing: \<open>rt_vsnprintf\<close> and what it calls, with
  \<open>RT_PRINTF_PRECISION\<close> and without \<open>RT_PRINTF_LONGLONG\<close> and \<open>RT_PRINTF_SPECIAL\<close>. \<open>int\<close> and \<open>long\<close> are
  32-bit words read with \<^const>\<open>sint\<close>; the second part shows that every output loop writes
  a list of bytes that can be computed in advance (\<open>emit\<close>).
\<close>

section \<open>Characters and flags\<close>

abbreviation ch :: "char \<Rightarrow> u8" where "ch c \<equiv> of_char c"

definition is_digit :: "u8 \<Rightarrow> bool" where
  "is_digit c \<longleftrightarrow> (ucast c - ucast (ch CHR ''0'') :: u32) < 10"

definition ZEROPAD :: u32 where "ZEROPAD = 1"
definition SIGN :: u32 where "SIGN = 2"
definition PLUS :: u32 where "PLUS = 4"
definition SPACE :: u32 where "SPACE = 8"
definition LEFT :: u32 where "LEFT = 16"
definition SPECIAL :: u32 where "SPECIAL = 32"
definition LARGE :: u32 where "LARGE = 64"

definition small_digits :: "u8 list" where "small_digits = map ch ''0123456789abcdef''"
definition large_digits :: "u8 list" where "large_digits = map ch ''0123456789ABCDEF''"

text \<open>The result and the new value of \<open>*n\<close>\<close>

definition divide :: "u32 \<Rightarrow> u32 \<Rightarrow> u32 \<times> u32" where
  "divide n base = (if base = 10 then (n mod 10, n div 10) else (n mod 16, n div 16))"

text \<open>The number and the new value of \<open>*s\<close>\<close>

partial_function (option) skip_atoi_loop :: "u32 \<Rightarrow> u32 \<Rightarrow> mem \<Rightarrow> (u32 \<times> u32) option" where
  "skip_atoi_loop i s m = do {
     c \<leftarrow> load8 s m;
     if is_digit c then skip_atoi_loop (i * 10 + ucast c - ucast (ch CHR ''0'')) (s + 1) m
     else Some (i, s) }"

definition skip_atoi :: "u32 \<Rightarrow> mem \<Rightarrow> (u32 \<times> u32) option" where
  "skip_atoi s m = skip_atoi_loop 0 s m"

section \<open>Writing below the end of the buffer\<close>

text \<open>The next address and the memory. \<open>if (str < end) *str = c; ++str;\<close>\<close>

type_synonym out = "u32 \<times> mem"

definition put :: "u32 \<Rightarrow> u8 \<Rightarrow> out \<Rightarrow> out option" where
  "put end c s = (case s of (str, m) \<Rightarrow> do {
     m \<leftarrow> (if str < end then store8 str c m else Some m);
     Some (str + 1, m) })"

lemma sint_pred: "sint b < sint n \<Longrightarrow> sint (n - 1) = sint n - 1" for n b :: u32
proof -
  assume "sint b < sint n"
  then have "- (2 ^ 31) \<le> sint n - 1" "sint n - 1 < 2 ^ 31" using sint_ge [of b] sint_lt [of n] by simp_all
  then show ?thesis using signed_take_bit_int_eq_self [of 31 "sint n - 1"] by (simp add: sint_word_ariths)
qed

text \<open>\<open>while (b < n--) put(c)\<close>, on signed numbers; the result is the last value of \<open>n\<close>.\<close>

function put_below :: "u32 \<Rightarrow> u8 \<Rightarrow> u32 \<Rightarrow> u32 \<Rightarrow> out \<Rightarrow> (u32 \<times> out) option" where
  "put_below end c b n s =
     (if sint b < sint n then do { s \<leftarrow> put end c s; put_below end c b (n - 1) s }
      else Some (n - 1, s))"
  by pat_completeness auto
termination
  by (relation "measure (\<lambda>(_, _, b, n, _). nat (sint n - sint b))") (simp_all add: sint_pred)

text \<open>\<open>while (--n > 0) put(c)\<close>\<close>

function put_before :: "u32 \<Rightarrow> u8 \<Rightarrow> u32 \<Rightarrow> out \<Rightarrow> (u32 \<times> out) option" where
  "put_before end c n s =
     (let n = n - 1
      in if 0 < sint n then do { s \<leftarrow> put end c s; put_before end c n s } else Some (n, s))"
  by pat_completeness auto
termination
proof (relation "measure (\<lambda>(_, _, n, _). unat (n - 1))")
  fix e :: u32 and c :: u8 and n nn :: u32 and s t :: out
  assume "nn = n - 1" "0 < sint nn"
  then have "n - 1 \<noteq> 0" by auto
  then show "((e, c, nn, t), (e, c, n, s)) \<in> measure (\<lambda>(_, _, n, _). unat (n - 1))"
    using counted1 [of "n - 1"] \<open>nn = n - 1\<close> by simp
qed simp

declare put_below.simps [simp del] put_before.simps [simp del]

section \<open>print_number\<close>

text \<open>The sign, 0 for none, and the number without it\<close>

definition number_sign :: "u32 \<Rightarrow> u32 \<Rightarrow> u8 \<times> u32" where
  "number_sign type num =
     (if type AND SIGN \<noteq> 0 then
        if sint num < 0 then (ch CHR ''-'', - num)
        else if type AND PLUS \<noteq> 0 then (ch CHR ''+'', num)
        else if type AND SPACE \<noteq> 0 then (ch CHR '' '', num)
        else (0, num)
      else (0, num))"

text \<open>\<open>while (num != 0) tmp[i++] = digits[divide(&num, base)];\<close>\<close>

partial_function (option) digits_loop ::
  "u8 list \<Rightarrow> u32 \<Rightarrow> u32 \<Rightarrow> u8 list \<Rightarrow> u32 \<Rightarrow> (u8 list \<times> u32) option" where
  "digits_loop digits base num tmp i =
     (if num \<noteq> 0 then
        (let (res, num) = divide num base
         in do {
           c \<leftarrow> buf_get digits (unat res);
           tmp \<leftarrow> buf_put tmp (unat i) c;
           digits_loop digits base num tmp (i + 1) })
      else Some (tmp, i))"

definition number_digits :: "u8 list \<Rightarrow> u32 \<Rightarrow> u32 \<Rightarrow> (u8 list \<times> u32) option" where
  "number_digits digits base num =
     (let tmp = replicate 16 0
      in if num = 0 then do { tmp \<leftarrow> buf_put tmp 0 (ch CHR ''0''); Some (tmp, 1) }
         else digits_loop digits base num tmp 0)"

text \<open>\<open>while (i-- > 0 && (precision_bak != 0)) put(tmp[i])\<close>\<close>

function put_digits :: "u32 \<Rightarrow> u8 list \<Rightarrow> u32 \<Rightarrow> u32 \<Rightarrow> out \<Rightarrow> out option" where
  "put_digits end tmp precision_bak i s =
     (if 0 < sint i \<and> precision_bak \<noteq> 0 then do {
        c \<leftarrow> buf_get tmp (unat (i - 1));
        s \<leftarrow> put end c s;
        put_digits end tmp precision_bak (i - 1) s }
      else Some s)"
  by pat_completeness auto
termination
  by (relation "measure (\<lambda>(_, _, _, i, _). nat (sint i))") (simp_all add: sint_pred [of 0, simplified])

declare put_digits.simps [simp del]

text \<open>The second half: the number with its padding, from the width that is left\<close>

definition print_padded ::
  "u32 \<Rightarrow> u32 \<Rightarrow> u8 \<Rightarrow> u8 \<Rightarrow> u8 list \<Rightarrow> u32 \<Rightarrow> u32 \<Rightarrow> u32 \<Rightarrow> u32 \<Rightarrow> out \<Rightarrow> out option" where
  "print_padded end type c sign tmp i precision precision_bak sz out = do {
     (sz, out) \<leftarrow>
       (if type AND (ZEROPAD OR LEFT) = 0 then
          put_below end (ch CHR '' '') 0 (if sign \<noteq> 0 \<and> 0 < sint sz then sz - 1 else sz) out
        else Some (sz, out));
     (sz, out) \<leftarrow>
       (if sign \<noteq> 0 then do { out \<leftarrow> put end sign out; Some (sz - 1, out) } else Some (sz, out));
     (sz, out) \<leftarrow> (if type AND LEFT = 0 then put_below end c 0 sz out else Some (sz, out));
     (precision, out) \<leftarrow> put_below end (ch CHR ''0'') i precision out;
     out \<leftarrow> put_digits end tmp precision_bak i out;
     (sz, out) \<leftarrow> put_below end (ch CHR '' '') 0 sz out;
     Some out }"

definition print_number :: "u32 \<Rightarrow> u32 \<Rightarrow> u32 \<Rightarrow> u32 \<Rightarrow> u32 \<Rightarrow> u32 \<Rightarrow> out \<Rightarrow> out option" where
  "print_number end num base s precision type out =
     (let precision_bak = precision;
          sz = s;
          digits = (if type AND LARGE \<noteq> 0 then large_digits else small_digits);
          type = (if type AND LEFT \<noteq> 0 then type AND NOT ZEROPAD else type);
          c = (if type AND ZEROPAD \<noteq> 0 then ch CHR ''0'' else ch CHR '' '');
          (sign, num) = number_sign type num
      in do {
        (tmp, i) \<leftarrow> number_digits digits base num;
        let precision = (if sint i > sint precision then i else precision);
        let sz = sz - precision;
        print_padded end type c sign tmp i precision precision_bak sz out })"

section \<open>rt_vsnprintf\<close>

text \<open>
  The arguments are a list of 32-bit words: every type the code reads with \<open>va_arg\<close> has that size.
  To read more arguments than there are is undefined.
\<close>

definition va_arg :: "u32 list \<Rightarrow> (u32 \<times> u32 list) option" where
  "va_arg args = (case args of [] \<Rightarrow> None | a # as \<Rightarrow> Some (a, as))"

text \<open>The address behind the flags and the flags\<close>

partial_function (option) parse_flags :: "u32 \<Rightarrow> u32 \<Rightarrow> mem \<Rightarrow> (u32 \<times> u32) option" where
  "parse_flags fmt flags m =
     (let fmt = fmt + 1
      in do {
        c \<leftarrow> load8 fmt m;
        if c = ch CHR ''-'' then parse_flags fmt (flags OR LEFT) m
        else if c = ch CHR ''+'' then parse_flags fmt (flags OR PLUS) m
        else if c = ch CHR '' '' then parse_flags fmt (flags OR SPACE) m
        else if c = ch CHR ''#'' then parse_flags fmt (flags OR SPECIAL) m
        else if c = ch CHR ''0'' then parse_flags fmt (flags OR ZEROPAD) m
        else Some (fmt, flags) })"

definition parse_width :: "u32 \<Rightarrow> u32 \<Rightarrow> u32 list \<Rightarrow> mem \<Rightarrow> (u32 \<times> u32 \<times> u32 \<times> u32 list) option" where
  "parse_width fmt flags args m = do {
     c \<leftarrow> load8 fmt m;
     if is_digit c then do {
       (field_width, fmt) \<leftarrow> skip_atoi fmt m;
       Some (fmt, field_width, flags, args) }
     else if c = ch CHR ''*'' then do {
       (field_width, args) \<leftarrow> va_arg args;
       if sint field_width < 0 then Some (fmt + 1, - field_width, flags OR LEFT, args)
       else Some (fmt + 1, field_width, flags, args) }
     else Some (fmt, - 1, flags, args) }"

definition parse_precision :: "u32 \<Rightarrow> u32 list \<Rightarrow> mem \<Rightarrow> (u32 \<times> u32 \<times> u32 list) option" where
  "parse_precision fmt args m = do {
     c \<leftarrow> load8 fmt m;
     if c = ch CHR ''.'' then do {
       let fmt = fmt + 1;
       c \<leftarrow> load8 fmt m;
       (fmt, precision, args) \<leftarrow>
         (if is_digit c then do { (precision, fmt) \<leftarrow> skip_atoi fmt m; Some (fmt, precision, args) }
          else if c = ch CHR ''*'' then do { (precision, args) \<leftarrow> va_arg args; Some (fmt + 1, precision, args) }
          else Some (fmt, - 1, args));
       Some (fmt, if sint precision < 0 then 0 else precision, args) }
     else Some (fmt, - 1, args) }"

definition parse_qualifier :: "u32 \<Rightarrow> mem \<Rightarrow> (u32 \<times> u8) option" where
  "parse_qualifier fmt m = do {
     c \<leftarrow> load8 fmt m;
     Some (if c = ch CHR ''h'' \<or> c = ch CHR ''l'' then (fmt + 1, c) else (fmt, 0)) }"

text \<open>\<open>case 'c'\<close>\<close>

definition print_char :: "u32 \<Rightarrow> u32 \<Rightarrow> u32 \<Rightarrow> u32 list \<Rightarrow> out \<Rightarrow> (u32 list \<times> out) option" where
  "print_char end flags field_width args out = do {
     (field_width, out) \<leftarrow>
       (if flags AND LEFT = 0 then put_before end (ch CHR '' '') field_width out else Some (field_width, out));
     (a, args) \<leftarrow> va_arg args;
     out \<leftarrow> put end (ucast a) out;
     (field_width, out) \<leftarrow> put_before end (ch CHR '' '') field_width out;
     Some (args, out) }"

text \<open>
  \<open>case 's'\<close>. A null pointer stands for the constant string \<open>"(NULL)"\<close>; the other strings are in
  the memory.
\<close>

definition NULL_string :: "u8 list" where "NULL_string = map ch ''(NULL)''"

definition string_len :: "u32 \<Rightarrow> mem \<Rightarrow> u32 option" where
  "string_len s m = (if s = 0 then Some (of_nat (length NULL_string)) else rt_strlen s m)"

definition string_char :: "u32 \<Rightarrow> u32 \<Rightarrow> mem \<Rightarrow> u8 option" where
  "string_char s i m = (if s = 0 then buf_get NULL_string (unat i) else load8 (s + i) m)"

text \<open>\<open>for (i = 0; i < len; ++i) { put(*s); ++s; }\<close>\<close>

partial_function (option) put_string :: "u32 \<Rightarrow> u32 \<Rightarrow> u32 \<Rightarrow> u32 \<Rightarrow> out \<Rightarrow> out option" where
  "put_string end s i len out =
     (if sint i < sint len then do {
        c \<leftarrow> string_char s i (snd out);
        out \<leftarrow> put end c out;
        put_string end s (i + 1) len out }
      else Some out)"

definition print_string :: "u32 \<Rightarrow> u32 \<Rightarrow> u32 \<Rightarrow> u32 \<Rightarrow> u32 list \<Rightarrow> out \<Rightarrow> (u32 list \<times> out) option" where
  "print_string end flags field_width precision args out = do {
     (s, args) \<leftarrow> va_arg args;
     len \<leftarrow> string_len s (snd out);
     let len = (if 0 < sint precision \<and> sint precision < sint len then precision else len);
     (field_width, out) \<leftarrow>
       (if flags AND LEFT = 0 then put_below end (ch CHR '' '') len field_width out else Some (field_width, out));
     out \<leftarrow> put_string end s 0 len out;
     (field_width, out) \<leftarrow> put_below end (ch CHR '' '') len field_width out;
     Some (args, out) }"

text \<open>\<open>case 'p'\<close>\<close>

definition print_pointer :: "u32 \<Rightarrow> u32 \<Rightarrow> u32 \<Rightarrow> u32 \<Rightarrow> u32 list \<Rightarrow> out \<Rightarrow> (u32 list \<times> out) option" where
  "print_pointer end flags field_width precision args out =
     (let (field_width, flags) =
        (if field_width = - 1 then (push_bit 1 4, flags OR ZEROPAD) else (field_width, flags))
      in do {
        (a, args) \<leftarrow> va_arg args;
        out \<leftarrow> print_number end a 16 field_width precision flags out;
        Some (args, out) })"

text \<open>The value of a number, from its qualifier\<close>

definition integer_arg :: "u8 \<Rightarrow> u32 \<Rightarrow> u32 list \<Rightarrow> (u32 \<times> u32 list) option" where
  "integer_arg qualifier flags args = do {
     (a, args) \<leftarrow> va_arg args;
     let num =
       (if qualifier = ch CHR ''h''
        then (let num = (ucast a :: u16) in if flags AND SIGN \<noteq> 0 then scast num else ucast num)
        else a);
     Some (num, args) }"

definition print_integer ::
  "u32 \<Rightarrow> u32 \<Rightarrow> u32 \<Rightarrow> u32 \<Rightarrow> u32 \<Rightarrow> u8 \<Rightarrow> u32 list \<Rightarrow> out \<Rightarrow> (u32 list \<times> out) option" where
  "print_integer end base flags field_width precision qualifier args out = do {
     (num, args) \<leftarrow> integer_arg qualifier flags args;
     out \<leftarrow> print_number end num base field_width precision flags out;
     Some (args, out) }"

text \<open>The \<open>switch\<close>; the address is that of the last character of the directive.\<close>

definition convert ::
  "u32 \<Rightarrow> u32 \<Rightarrow> u32 \<Rightarrow> u32 \<Rightarrow> u32 \<Rightarrow> u8 \<Rightarrow> u32 list \<Rightarrow> out \<Rightarrow> (u32 \<times> u32 list \<times> out) option" where
  "convert end fmt flags field_width precision qualifier args out = do {
     c \<leftarrow> load8 fmt (snd out);
     if c = ch CHR ''c'' then map_option (Pair fmt) (print_char end flags field_width args out)
     else if c = ch CHR ''s'' then map_option (Pair fmt) (print_string end flags field_width precision args out)
     else if c = ch CHR ''p'' then map_option (Pair fmt) (print_pointer end flags field_width precision args out)
     else if c = ch CHR ''%'' then do { out \<leftarrow> put end (ch CHR ''%'') out; Some (fmt, args, out) }
     else if c = ch CHR ''o'' then
       map_option (Pair fmt) (print_integer end 8 flags field_width precision qualifier args out)
     else if c = ch CHR ''X'' then
       map_option (Pair fmt) (print_integer end 16 (flags OR LARGE) field_width precision qualifier args out)
     else if c = ch CHR ''x'' then
       map_option (Pair fmt) (print_integer end 16 flags field_width precision qualifier args out)
     else if c = ch CHR ''d'' \<or> c = ch CHR ''i'' then
       map_option (Pair fmt) (print_integer end 10 (flags OR SIGN) field_width precision qualifier args out)
     else if c = ch CHR ''u'' then
       map_option (Pair fmt) (print_integer end 10 flags field_width precision qualifier args out)
     else do {
       out \<leftarrow> put end (ch CHR ''%'') out;
       if c \<noteq> 0 then do { out \<leftarrow> put end c out; Some (fmt, args, out) }
       else Some (fmt - 1, args, out) } }"

text \<open>The loop over the format\<close>

partial_function (option) vsnprintf_loop :: "u32 \<Rightarrow> u32 \<Rightarrow> u32 list \<Rightarrow> out \<Rightarrow> out option" where
  "vsnprintf_loop end fmt args out = do {
     c \<leftarrow> load8 fmt (snd out);
     if c = 0 then Some out
     else if c \<noteq> ch CHR ''%'' then do {
       out \<leftarrow> put end c out;
       vsnprintf_loop end (fmt + 1) args out }
     else do {
       (fmt, flags) \<leftarrow> parse_flags fmt 0 (snd out);
       (fmt, field_width, flags, args) \<leftarrow> parse_width fmt flags args (snd out);
       (fmt, precision, args) \<leftarrow> parse_precision fmt args (snd out);
       (fmt, qualifier) \<leftarrow> parse_qualifier fmt (snd out);
       (fmt, args, out) \<leftarrow> convert end fmt flags field_width precision qualifier args out;
       vsnprintf_loop end (fmt + 1) args out } }"

definition rt_vsnprintf :: "u32 \<Rightarrow> u32 \<Rightarrow> u32 \<Rightarrow> u32 list \<Rightarrow> mem \<Rightarrow> (u32 \<times> mem) option" where
  "rt_vsnprintf buf sz fmt args m =
     (let end = buf + sz;
          (end, sz) = (if end < buf then (- 1, - 1 - buf) else (end, sz))
      in do {
        (str, m) \<leftarrow> vsnprintf_loop end fmt args (buf, m);
        m \<leftarrow> (if 0 < sz then store8 (if str < end then str else end - 1) 0 m else Some m);
        Some (str - buf, m) })"

definition rt_snprintf :: "u32 \<Rightarrow> u32 \<Rightarrow> u32 \<Rightarrow> u32 list \<Rightarrow> mem \<Rightarrow> (u32 \<times> mem) option" where
  "rt_snprintf buf sz fmt args m = rt_vsnprintf buf sz fmt args m"

definition rt_vsprintf :: "u32 \<Rightarrow> u32 \<Rightarrow> u32 list \<Rightarrow> mem \<Rightarrow> (u32 \<times> mem) option" where
  "rt_vsprintf buf format arg_ptr m = rt_vsnprintf buf (- 1) format arg_ptr m"

definition rt_sprintf :: "u32 \<Rightarrow> u32 \<Rightarrow> u32 list \<Rightarrow> mem \<Rightarrow> (u32 \<times> mem) option" where
  "rt_sprintf buf format args m = rt_vsprintf buf format args m"

section \<open>What is written\<close>

primrec emit :: "u32 \<Rightarrow> u8 list \<Rightarrow> out \<Rightarrow> out option" where
  "emit e [] s = Some s"
| "emit e (c # cs) s = do { s \<leftarrow> put e c s; emit e cs s }"

lemma emit_append: "emit e (xs @ ys) s = do { s \<leftarrow> emit e xs s; emit e ys s }"
  by (induction xs arbitrary: s) (simp_all add: Option.bind_assoc)

lemma put_emit: "put e c s = emit e [c] s"
  by simp

lemma put_below_emit:
  "put_below e c b n s =
   do { s \<leftarrow> emit e (replicate (nat (sint n - sint b)) c) s; Some ((if sint b < sint n then b else n) - 1, s) }"
proof (induction e c b n s rule: put_below.induct)
  case (1 e c b n s)
  show ?case
  proof (cases "sint b < sint n")
    case True
    have k: "nat (sint n - sint b) = Suc (nat (sint (n - 1) - sint b))" using True by (simp add: sint_pred)
    have "n - 1 = b" if "\<not> sint b < sint (n - 1)"
      using that True by (simp add: sint_pred word_eq_iff_signed [where 'a = int])
    then show ?thesis using True "1.IH" unfolding k
      by (cases "put e c s") (auto simp: put_below.simps [of e c b n])
  next
    case False
    then show ?thesis by (simp add: put_below.simps [of e c b n])
  qed
qed

lemma put_before_emit:
  "- (2 ^ 31) < sint n \<Longrightarrow> put_before e c n s =
   do { s \<leftarrow> emit e (replicate (nat (sint n - 1)) c) s; Some (if 1 < sint n then 0 else n - 1, s) }"
proof (induction e c n s rule: put_before.induct)
  case (1 e c n s)
  have p: "sint (n - 1) = sint n - 1" by (rule sint_pred [of "- (2 ^ 31)"]) (use 1(2) in simp)
  show ?case
  proof (cases "1 < sint n")
    case True
    have k: "nat (sint n - 1) = Suc (nat (sint (n - 1) - 1))" using True p by simp
    have "n - 1 - 1 = 0" if "\<not> 1 < sint (n - 1)"
    proof -
      have "sint (n - 1) = 1" using that True p by simp
      then have "n - 1 = 1" using word_eq_iff_signed [where 'a = int, of "n - 1" 1] by simp
      then show ?thesis by simp
    qed
    then show ?thesis using True "1.IH" [OF refl] p unfolding k
      by (cases "put e c s") (auto simp: put_before.simps [of e c n] Let_def)
  next
    case False
    then show ?thesis using p by (simp add: put_before.simps [of e c n] Let_def)
  qed
qed

lemma put_digits_emit:
  "i \<le> length tmp \<Longrightarrow> i < 2 ^ 31 \<Longrightarrow>
   put_digits e tmp pb (of_nat i) s = emit e (if pb = 0 then [] else rev (take i tmp)) s"
proof (induction i arbitrary: s)
  case 0
  then show ?case by (simp add: put_digits.simps [of e tmp pb 0])
next
  case (Suc i)
  have "sint (of_nat (Suc i) :: u32) = int (Suc i)" using Suc.prems(2) by (rule sint_of_nat)
  moreover have "of_nat (Suc i) - 1 = (of_nat i :: u32)" by simp
  moreover have "unat (of_nat i :: u32) = i" using Suc.prems(2) by (simp add: unat_of_nat take_bit_nat_eq_self)
  moreover have "rev (take (Suc i) tmp) = tmp ! i # rev (take i tmp)" using Suc.prems(1) by (simp add: take_Suc_conv_app_nth)
  ultimately show ?case using Suc
    by (cases "put e (tmp ! i) s") (simp_all add: put_digits.simps [of e tmp pb "of_nat (Suc i)"] buf_get_def del: of_nat_Suc)
qed

section \<open>Numbers\<close>

function numeral_of :: "u8 list \<Rightarrow> nat \<Rightarrow> nat \<Rightarrow> u8 list" where
  "numeral_of ds b n = (if b < 2 \<or> n < b then [ds ! n] else numeral_of ds b (n div b) @ [ds ! (n mod b)])"
  by pat_completeness auto
termination by (relation "measure (\<lambda>(_, _, n). n)") (auto intro: div_less_dividend)

declare numeral_of.simps [simp del]

lemma numeral_of_length: "2 \<le> b \<Longrightarrow> n < b ^ k \<Longrightarrow> 0 < k \<Longrightarrow> length (numeral_of ds b n) \<le> k"
proof (induction k arbitrary: n)
  case (Suc k)
  show ?case
  proof (cases "n < b")
    case False
    have "0 < k" using False Suc.prems(2) by (cases k) auto
    moreover have "n div b < b ^ k" using Suc.prems by (simp add: less_mult_imp_div_less mult.commute)
    ultimately show ?thesis using Suc.IH [of "n div b"] Suc.prems(1) False by (simp add: numeral_of.simps [of ds b n])
  qed (simp add: numeral_of.simps)
qed simp

definition base_of :: "u32 \<Rightarrow> nat" where
  "base_of base = (if base = 10 then 10 else 16)"

lemma base_of_bounds [simp]: "2 \<le> base_of b" "base_of b \<le> 16" "\<not> base_of b < 2" "0 < base_of b" "base_of b \<noteq> 0"
  by (simp_all add: base_of_def)

lemma divide_base: "divide n b = (of_nat (unat n mod base_of b), of_nat (unat n div base_of b))"
proof -
  have "n mod 10 = of_nat (unat n mod 10)" "n mod 16 = of_nat (unat n mod 16)"
    "n div 10 = of_nat (unat n div 10)" "n div 16 = of_nat (unat n div 16)"
    unfolding word_arith_nat_mod word_arith_nat_div by simp_all
  then show ?thesis by (simp add: divide_def base_of_def)
qed

lemma digits_loop_eq:
  assumes "length ds = 16"
  shows "num \<noteq> 0 \<Longrightarrow> unat num < base_of b ^ k \<Longrightarrow> unat i + k \<le> 16 \<Longrightarrow> length tmp = 16 \<Longrightarrow>
    \<exists>tmp'. digits_loop ds b num tmp i = Some (tmp', i + of_nat (length (numeral_of ds (base_of b) (unat num)))) \<and>
      length tmp' = 16 \<and>
      take (unat i + length (numeral_of ds (base_of b) (unat num))) tmp' =
        take (unat i) tmp @ rev (numeral_of ds (base_of b) (unat num))"
proof (induction k arbitrary: num i tmp)
  case 0
  then show ?case by (simp add: unat_eq_zero)
next
  case (Suc k)
  define r q where r: "r = unat num mod base_of b" and q: "q = unat num div base_of b"
  have lt: "q < 2 ^ 32" "r < 16"
  proof -
    show "q < 2 ^ 32" unfolding q
      using unsigned_less [of num, where 'a = nat] by (intro le_less_trans [OF div_le_dividend]) simp
    show "r < 16" using mod_less_divisor [of "base_of b" "unat num"] base_of_bounds(2) [of b] base_of_bounds(4) [of b] unfolding r by linarith
  qed
  have u: "unat (of_nat q :: u32) = q" "unat (of_nat r :: u32) = r"
    using lt by (simp_all add: unat_of_nat take_bit_nat_eq_self)
  define tmp1 where t1: "tmp1 = tmp[unat i := ds ! r]"
  have i: "unat i < 16" "unat (i + 1) = unat i + 1" using Suc.prems(3) by (simp_all add: unat_word_ariths)
  have tk: "take (unat i + 1) tmp1 = take (unat i) tmp @ [ds ! r]" "length tmp1 = 16"
    using i Suc.prems(4) by (simp_all add: t1 take_Suc_conv_app_nth)
  have step: "digits_loop ds b num tmp i = digits_loop ds b (of_nat q) tmp1 (i + 1)"
    using Suc.prems(1,4) i lt(2) assms
    by (subst digits_loop.simps) (simp add: divide_base r [symmetric] q [symmetric] u buf_get_def buf_put_def t1)
  show ?case
  proof (cases "q = 0")
    case True
    then have n: "numeral_of ds (base_of b) (unat num) = [ds ! r]"
      by (simp add: numeral_of.simps [of ds "base_of b" "unat num"] q r div_eq_0_iff)
    show ?thesis unfolding step n using True tk by (simp add: digits_loop.simps [of ds b 0])
  next
    case False
    then have n: "numeral_of ds (base_of b) (unat num) = numeral_of ds (base_of b) q @ [ds ! r]"
      by (simp add: numeral_of.simps [of ds "base_of b" "unat num"] q r div_eq_0_iff)
    have "q < base_of b ^ k" using Suc.prems(2) unfolding q by (simp add: less_mult_imp_div_less mult.commute)
    moreover have "(of_nat q :: u32) \<noteq> 0" using False u(1) by (metis unsigned_0)
    ultimately obtain tmp' where "digits_loop ds b (of_nat q) tmp1 (i + 1) =
        Some (tmp', i + 1 + of_nat (length (numeral_of ds (base_of b) q)))" "length tmp' = 16"
      "take (unat (i + 1) + length (numeral_of ds (base_of b) q)) tmp' = take (unat (i + 1)) tmp1 @ rev (numeral_of ds (base_of b) q)"
      using Suc.IH [of "of_nat q" "i + 1" tmp1] Suc.prems(3) i tk(2) unfolding u by auto
    then show ?thesis unfolding step n using tk i by (simp add: add.assoc)
  qed
qed

lemma number_digits_eq:
  assumes "length ds = 16" and "ds ! 0 = ch CHR ''0''"
  shows "\<exists>tmp. number_digits ds b num = Some (tmp, of_nat (length (numeral_of ds (base_of b) (unat num)))) \<and>
    length tmp = 16 \<and> length (numeral_of ds (base_of b) (unat num)) \<le> 10 \<and>
    take (length (numeral_of ds (base_of b) (unat num))) tmp = rev (numeral_of ds (base_of b) (unat num))"
proof (cases "num = 0")
  case True
  then show ?thesis using assms by (simp add: number_digits_def buf_put_def numeral_of.simps take_Suc_conv_app_nth Let_def)
next
  case False
  have "(10 :: nat) ^ 10 \<le> base_of b ^ 10" by (rule power_mono) (simp_all add: base_of_def)
  then have "unat num < base_of b ^ 10" using unsigned_less [of num, where 'a = nat] by simp
  then show ?thesis
    using digits_loop_eq [OF assms(1) False, of b 10 0 "replicate 16 0"] False numeral_of_length [of "base_of b" "unat num" 10 ds]
    by (simp add: number_digits_def)
qed

section \<open>The text of a number\<close>

definition number_text :: "u32 \<Rightarrow> u32 \<Rightarrow> int \<Rightarrow> int \<Rightarrow> u32 \<Rightarrow> u8 list" where
  "number_text num base width precision flags =
     (let negative = (flags AND SIGN \<noteq> 0 \<and> sint num < 0);
          digits = numeral_of (if flags AND LARGE \<noteq> 0 then large_digits else small_digits) (base_of base)
            (if negative then nat (- sint num) else unat num);
          sign = (if negative then [ch CHR ''-'']
            else if flags AND SIGN \<noteq> 0 \<and> flags AND PLUS \<noteq> 0 then [ch CHR ''+'']
            else if flags AND SIGN \<noteq> 0 \<and> flags AND SPACE \<noteq> 0 then [ch CHR '' ''] else []);
          body = replicate (nat (precision - int (length digits))) (ch CHR ''0'') @ (if precision = 0 then [] else digits);
          fill = nat (width - max precision (int (length digits)) - int (length sign))
      in if flags AND LEFT \<noteq> 0 then sign @ body @ replicate fill (ch CHR '' '')
         else if flags AND ZEROPAD \<noteq> 0 then sign @ replicate fill (ch CHR ''0'') @ body
         else replicate fill (ch CHR '' '') @ sign @ body)"

lemma cleared_ZEROPAD:
  "(t AND NOT ZEROPAD) AND SIGN = t AND SIGN" "(t AND NOT ZEROPAD) AND PLUS = t AND PLUS"
  "(t AND NOT ZEROPAD) AND SPACE = t AND SPACE" "(t AND NOT ZEROPAD) AND LEFT = t AND LEFT"
  "(t AND NOT ZEROPAD) AND ZEROPAD = 0" "(t AND NOT ZEROPAD) AND (ZEROPAD OR LEFT) = t AND LEFT"
  by (simp_all add: and.assoc ZEROPAD_def SIGN_def PLUS_def SPACE_def LEFT_def)

lemma flag_or: "t AND (ZEROPAD OR LEFT) = 0 \<longleftrightarrow> t AND ZEROPAD = 0 \<and> t AND LEFT = 0"
  by (simp add: bit.conj_disj_distrib or_eq_0_iff)

lemma unat_uminus_sint: "sint n < 0 \<Longrightarrow> unat (- n) = nat (- sint n)" for n :: u32
proof -
  assume "sint n < 0"
  then have "0 \<le> - sint n" "- sint n < 2 ^ 32" using sint_ge [of n] by simp_all
  then have "uint (of_int (- sint n) :: u32) = - sint n" by (simp only: uint_word_of_int_eq) (simp add: take_bit_int_eq_self)
  moreover have "(of_int (- sint n) :: u32) = - n" by simp
  ultimately have "uint (- n) = - sint n" by metis
  moreover have "unat (- n) = nat (uint (- n))" by simp
  ultimately show ?thesis by simp
qed

lemma digit_tables [simp]: "length small_digits = 16" "length large_digits = 16"
  "small_digits ! 0 = ch CHR ''0''" "large_digits ! 0 = ch CHR ''0''"
  by (simp_all add: small_digits_def large_digits_def)

lemma number_sign_eq:
  "number_sign type num =
     (let negative = type AND SIGN \<noteq> 0 \<and> sint num < 0
      in (if negative then ch CHR ''-''
          else if type AND SIGN \<noteq> 0 \<and> type AND PLUS \<noteq> 0 then ch CHR ''+''
          else if type AND SIGN \<noteq> 0 \<and> type AND SPACE \<noteq> 0 then ch CHR '' '' else 0,
          if negative then - num else num))"
  by (simp add: number_sign_def)

lemma put_below_above: "sint n \<le> sint b \<Longrightarrow> put_below e c b n s = Some (n - 1, s)"
  by (simp add: put_below.simps [of e c b n])

text \<open>With a field width and a precision far from overflow\<close>

lemma sint_diff_bounded:
  fixes a b :: u32
  assumes "- (2 ^ 30) \<le> sint a" "sint a \<le> 2 ^ 30" "- 1 \<le> sint b" "sint b \<le> 2 ^ 30"
  shows "sint (a - b) = sint a - sint b"
proof -
  have "- (2 ^ 31) \<le> sint a - sint b" "sint a - sint b < 2 ^ 31" using assms by simp_all
  then show ?thesis using signed_take_bit_int_eq_self [of 31 "sint a - sint b"] by (simp add: sint_word_ariths)
qed

lemma sint_less1: "- (2 ^ 31) < sint n \<Longrightarrow> sint (n - 1) = sint n - 1" for n :: u32
  by (rule sint_pred [of "- (2 ^ 31)"]) simp

lemma emit_bind: "Option.bind (emit e xs s) (emit e ys) = emit e (xs @ ys) s"
  by (simp add: emit_append)

text \<open>The text of the second half\<close>

definition padded_text :: "u32 \<Rightarrow> u8 \<Rightarrow> u8 list \<Rightarrow> u8 list \<Rightarrow> int \<Rightarrow> u8 list" where
  "padded_text type c sign body width =
     (let fill = nat (width - int (length sign))
      in if type AND LEFT \<noteq> 0 then sign @ body @ replicate fill (ch CHR '' '')
         else if type AND ZEROPAD \<noteq> 0 then sign @ replicate fill c @ body
         else replicate fill (ch CHR '' '') @ sign @ body)"

definition sign_text :: "u8 \<Rightarrow> u8 list" where
  "sign_text sg = (if sg = 0 then [] else [sg])"

text \<open>The width behind the sign\<close>

definition behind_sign :: "u8 \<Rightarrow> u32 \<Rightarrow> u32" where
  "behind_sign sg z = (if sg \<noteq> 0 then z - 1 else z)"

lemma sint_behind_sign:
  "- (2 ^ 31) < sint z \<Longrightarrow> sint (behind_sign sg z) = sint z - int (length (sign_text sg))"
  by (simp add: behind_sign_def sign_text_def sint_less1)

lemma put_sign_emit:
  "(if sg \<noteq> 0 then do { u \<leftarrow> put e sg u; Some (z - 1, u) } else Some (z, u)) =
   do { u \<leftarrow> emit e (sign_text sg) u; Some (behind_sign sg z, u) }"
  by (simp add: sign_text_def behind_sign_def)

text \<open>Zeros up to the precision and the digits are a given text in the following three lemmas.\<close>

definition body_written ::
  "u32 \<Rightarrow> u8 list \<Rightarrow> u32 \<Rightarrow> u32 \<Rightarrow> u32 \<Rightarrow> u8 list \<Rightarrow> bool" where
  "body_written e tmp i pr pb body \<longleftrightarrow>
     (\<forall>u f. do { (pr, u) \<leftarrow> put_below e (ch CHR ''0'') i pr u; u \<leftarrow> put_digits e tmp pb i u; f u } =
        Option.bind (emit e body u) (f :: out \<Rightarrow> out option))"

lemma body_writtenD:
  assumes "body_written e tmp i pr pb body"
  shows "do { (pr, u) \<leftarrow> put_below e (ch CHR ''0'') i pr u; u \<leftarrow> put_digits e tmp pb i u; f u } =
    Option.bind (emit e body u) (f :: out \<Rightarrow> out option)"
  using assms unfolding body_written_def by blast

lemma print_padded_left:
  assumes "- (2 ^ 31) < sint sz" "body_written e tmp i pr pb body" "t AND LEFT \<noteq> 0"
  shows "print_padded e t c sg tmp i pr pb sz out = emit e (padded_text t c (sign_text sg) body (sint sz)) out"
proof -
  have "t AND (ZEROPAD OR LEFT) \<noteq> 0" using assms(3) by (simp add: flag_or)
  then show ?thesis
    using assms(3) unfolding print_padded_def put_sign_emit body_writtenD [OF assms(2)] padded_text_def
    by (simp add: emit_append Option.bind_assoc put_below_emit sint_behind_sign [OF assms(1)] Let_def)
qed

lemma print_padded_zeros:
  assumes "- (2 ^ 31) + 1 < sint sz" "body_written e tmp i pr pb body" "t AND LEFT = 0" "t AND ZEROPAD \<noteq> 0"
  shows "print_padded e t c sg tmp i pr pb sz out = emit e (padded_text t c (sign_text sg) body (sint sz)) out"
proof -
  let ?z = "behind_sign sg sz"
  have z: "sint ?z = sint sz - int (length (sign_text sg))" by (rule sint_behind_sign) (use assms(1) in simp)
  define w where w: "w = (if sint (0 :: u32) < sint ?z then 0 else ?z) - 1"
  have "sint w \<le> sint (0 :: u32)" using z assms(1) by (simp add: w sint_less1 sign_text_def)
  note rest = put_below_above [OF this]
  have fill: "put_below e c 0 ?z u =
      do { u \<leftarrow> emit e (replicate (nat (sint sz - int (length (sign_text sg)))) c) u; Some (w, u) }" for u
    unfolding put_below_emit w by (simp add: z)
  have "t AND (ZEROPAD OR LEFT) \<noteq> 0" using assms(4) by (simp add: flag_or)
  then show ?thesis
    using assms(3,4) unfolding print_padded_def put_sign_emit body_writtenD [OF assms(2)] padded_text_def
    by (simp add: emit_append Option.bind_assoc fill rest Let_def)
qed

lemma print_padded_blanks:
  assumes "- (2 ^ 31) + 3 < sint sz" "body_written e tmp i pr pb body" "t AND LEFT = 0" "t AND ZEROPAD = 0"
  shows "print_padded e t c sg tmp i pr pb sz out = emit e (padded_text t c (sign_text sg) body (sint sz)) out"
proof -
  let ?y = "if sg \<noteq> 0 \<and> 0 < sint sz then sz - 1 else sz" and ?fill = "nat (sint sz - int (length (sign_text sg)))"
  define z where z: "z = (if sint (0 :: u32) < sint ?y then 0 else ?y) - 1"
  have y: "nat (sint ?y - sint (0 :: u32)) = ?fill" using assms(1) by (auto simp: sign_text_def sint_less1)
  have "- (2 ^ 31) + 2 < sint z \<and> sint z < 0" using assms(1) by (auto simp: z sint_less1)
  then have "sint (behind_sign sg z) \<le> sint (0 :: u32)" "sint (behind_sign sg z - 1) \<le> sint (0 :: u32)"
    by (auto simp: behind_sign_def sint_less1)
  note rest = this [THEN put_below_above]
  have first: "put_below e (ch CHR '' '') 0 ?y u = do { u \<leftarrow> emit e (replicate ?fill (ch CHR '' '')) u; Some (z, u) }" for u
    unfolding put_below_emit y z by (rule refl)
  have "t AND (ZEROPAD OR LEFT) = 0" using assms(3,4) by (simp add: flag_or)
  then show ?thesis
    using assms(3,4) unfolding print_padded_def put_sign_emit body_writtenD [OF assms(2)] padded_text_def first
    by (simp add: emit_append Option.bind_assoc rest Let_def)
qed

lemma print_padded_emit:
  assumes "- (2 ^ 31) + 3 < sint sz" "body_written e tmp i pr pb body"
  shows "print_padded e t c sg tmp i pr pb sz out = emit e (padded_text t c (sign_text sg) body (sint sz)) out"
  using print_padded_left [of sz e tmp] print_padded_zeros [of sz e tmp] print_padded_blanks [of sz e tmp] assms
  by (cases "t AND LEFT = 0"; cases "t AND ZEROPAD = 0") auto

lemma number_text_padded:
  fixes base :: u32
  assumes "number_sign t num = (sg, n)" and "t = (if type AND LEFT \<noteq> 0 then type AND NOT ZEROPAD else type)"
    and "ds = (if type AND LARGE \<noteq> 0 then large_digits else small_digits)"
  defines "N \<equiv> numeral_of ds (base_of base) (unat n)"
  shows "number_text num base w p type =
    padded_text t (if t AND ZEROPAD \<noteq> 0 then ch CHR ''0'' else ch CHR '' '') (sign_text sg)
      (replicate (nat (p - int (length N))) (ch CHR ''0'') @ (if p = 0 then [] else N)) (w - max p (int (length N)))"
proof -
  have ts: "t AND SIGN = type AND SIGN" "t AND PLUS = type AND PLUS" "t AND SPACE = type AND SPACE" "t AND LEFT = type AND LEFT"
    by (simp_all add: assms(2) cleared_ZEROPAD)
  have e: "sg = (if type AND SIGN \<noteq> 0 \<and> sint num < 0 then ch CHR ''-''
        else if type AND SIGN \<noteq> 0 \<and> type AND PLUS \<noteq> 0 then ch CHR ''+''
        else if type AND SIGN \<noteq> 0 \<and> type AND SPACE \<noteq> 0 then ch CHR '' '' else 0)"
    "n = (if type AND SIGN \<noteq> 0 \<and> sint num < 0 then - num else num)"
    using assms(1) unfolding number_sign_eq ts Let_def by blast+
  have N: "numeral_of ds (base_of base) (if type AND SIGN \<noteq> 0 \<and> sint num < 0 then nat (- sint num) else unat num) = N"
    unfolding N_def e(2) by (simp add: unat_uminus_sint)
  have sg: "(if type AND SIGN \<noteq> 0 \<and> sint num < 0 then [ch CHR ''-'']
      else if type AND SIGN \<noteq> 0 \<and> type AND PLUS \<noteq> 0 then [ch CHR ''+'']
      else if type AND SIGN \<noteq> 0 \<and> type AND SPACE \<noteq> 0 then [ch CHR '' ''] else []) = sign_text sg"
    unfolding sign_text_def e(1) by simp
  have z: "t AND ZEROPAD = type AND ZEROPAD" if "type AND LEFT = 0" using that by (simp add: assms(2))
  show ?thesis
    unfolding number_text_def padded_text_def Let_def assms(3) [symmetric] sg N using z ts(4) by simp
qed

lemma print_number_emit:
  assumes s: "- (2 ^ 29) \<le> sint s" "sint s \<le> 2 ^ 30" and p: "sint precision \<le> 2 ^ 30"
  shows "print_number e num base s precision type out = emit e (number_text num base (sint s) (sint precision) type) out"
proof -
  define t ds where t: "t = (if type AND LEFT \<noteq> 0 then type AND NOT ZEROPAD else type)"
    and ds: "ds = (if type AND LARGE \<noteq> 0 then large_digits else small_digits)"
  obtain sg n where sn: "number_sign t num = (sg, n)" by (cases "number_sign t num")
  define N where N: "N = numeral_of ds (base_of base) (unat n)"
  have dt: "length ds = 16" "ds ! 0 = ch CHR ''0''" by (simp_all add: ds)
  obtain tmp where nd: "number_digits ds base n = Some (tmp, of_nat (length N))" "length tmp = 16" "length N \<le> 10"
    "take (length N) tmp = rev N"
    using number_digits_eq [OF dt, of base n] unfolding N by blast
  define i :: u32 where i: "i = of_nat (length N)"
  have si: "sint i = int (length N)" unfolding i by (rule sint_of_nat) (use nd(3) in simp)
  define pr where pr: "pr = (if sint i > sint precision then i else precision)"
  have spr: "sint pr = max (sint precision) (int (length N))" by (simp add: pr si)
  have ssz: "sint (s - pr) = sint s - max (sint precision) (int (length N))"
    unfolding spr [symmetric] by (rule sint_diff_bounded) (use s p nd(3) spr in auto)
  have p0: "sint precision = 0 \<longleftrightarrow> precision = 0" using word_eq_iff_signed [where 'a = int, of precision 0] by simp
  have "nat (sint pr - sint i) = nat (sint precision - int (length N))" unfolding spr si by (simp add: max_def)
  then have b: "body_written e tmp i pr precision
      (replicate (nat (sint precision - int (length N))) (ch CHR ''0'') @ (if sint precision = 0 then [] else N))"
    using put_digits_emit [of "length N" tmp e precision] nd(2-4)
    unfolding body_written_def p0 i [symmetric] by (simp add: put_below_emit emit_append Option.bind_assoc)
  have "- (2 ^ 31) + 3 < sint (s - pr)" unfolding ssz using s p nd(3) by (auto simp: max_def)
  note out = print_padded_emit [OF this b, unfolded ssz]
  show ?thesis
    unfolding print_number_def Let_def t [symmetric] ds [symmetric] sn prod.case nd(1) bind.bind_lunit i [symmetric]
      pr [symmetric] out number_text_padded [OF sn t ds] N [symmetric] by (rule refl)
qed

end
