(* ===== verification/Printf_Props.thy ===== *)
theory Printf_Props
  imports Printf
begin

text \<open>
  What formatted printing is meant to print, and that it does: the text of a format is computed
  without a buffer, and \<open>rt_vsnprintf\<close> is shown to write that text, cut off to fit.
\<close>


section \<open>The text of a format\<close>

text \<open>
  What \<open>rt_vsnprintf\<close> has to print, as a list of bytes, computed without a buffer from a memory
  that only has to hold the format and the strings. Field widths and precisions of more than
  \<open>2 ^ 29\<close> are left out: with them the C code can overflow an \<open>int\<close>.
\<close>

definition moderate :: "u32 \<Rightarrow> bool" where
  "moderate n \<longleftrightarrow> - (2 ^ 29) \<le> sint n \<and> sint n \<le> 2 ^ 29"

definition char_text :: "u32 \<Rightarrow> int \<Rightarrow> u8 \<Rightarrow> u8 list" where
  "char_text flags width c =
     (let blanks = replicate (nat (width - 1)) (ch CHR '' '')
      in if flags AND LEFT = 0 then blanks @ [c] else c # blanks)"

definition string_text :: "u32 \<Rightarrow> int \<Rightarrow> int \<Rightarrow> u8 list \<Rightarrow> u8 list" where
  "string_text flags width precision cs =
     (let cs = (if 0 < precision then take (nat precision) cs else cs);
          blanks = replicate (nat (width - int (length cs))) (ch CHR '' '')
      in if flags AND LEFT = 0 then blanks @ cs else cs @ blanks)"

partial_function (option) read_string :: "u32 \<Rightarrow> mem \<Rightarrow> u8 list option" where
  "read_string s m = do {
     c \<leftarrow> load8 s m;
     if c = 0 then Some [] else do { cs \<leftarrow> read_string (s + 1) m; Some (c # cs) } }"

definition string_arg :: "u32 \<Rightarrow> mem \<Rightarrow> u8 list option" where
  "string_arg s m = do {
     cs \<leftarrow> (if s = 0 then Some NULL_string else read_string s m);
     if length cs \<le> 2 ^ 29 then Some cs else None }"

text \<open>The text of a directive, the address of its last character and the arguments that are left\<close>

definition integer_text ::
  "u32 \<Rightarrow> u32 \<Rightarrow> u32 \<Rightarrow> u32 \<Rightarrow> u8 \<Rightarrow> u32 list \<Rightarrow> (u8 list \<times> u32 list) option" where
  "integer_text base flags w p qualifier args = do {
     (num, args) \<leftarrow> integer_arg qualifier flags args;
     Some (number_text num base (sint w) (sint p) flags, args) }"

definition directive_text ::
  "mem \<Rightarrow> u32 \<Rightarrow> u32 \<Rightarrow> u32 \<Rightarrow> u32 \<Rightarrow> u8 \<Rightarrow> u32 list \<Rightarrow> (u8 list \<times> u32 \<times> u32 list) option" where
  "directive_text m fmt flags w p qualifier args = do {
     c \<leftarrow> load8 fmt m;
     if \<not> moderate w \<or> \<not> moderate p then None
     else if c = ch CHR ''c'' then do {
       (a, args) \<leftarrow> va_arg args; Some (char_text flags (sint w) (ucast a), fmt, args) }
     else if c = ch CHR ''s'' then do {
       (s, args) \<leftarrow> va_arg args; cs \<leftarrow> string_arg s m; Some (string_text flags (sint w) (sint p) cs, fmt, args) }
     else if c = ch CHR ''p'' then do {
       (a, args) \<leftarrow> va_arg args;
       Some (if w = - 1 then number_text a 16 8 (sint p) (flags OR ZEROPAD)
             else number_text a 16 (sint w) (sint p) flags, fmt, args) }
     else if c = ch CHR ''%'' then Some ([c], fmt, args)
     else if c = ch CHR ''o'' then do { (t, args) \<leftarrow> integer_text 8 flags w p qualifier args; Some (t, fmt, args) }
     else if c = ch CHR ''X'' then do {
       (t, args) \<leftarrow> integer_text 16 (flags OR LARGE) w p qualifier args; Some (t, fmt, args) }
     else if c = ch CHR ''x'' then do { (t, args) \<leftarrow> integer_text 16 flags w p qualifier args; Some (t, fmt, args) }
     else if c = ch CHR ''d'' \<or> c = ch CHR ''i'' then do {
       (t, args) \<leftarrow> integer_text 10 (flags OR SIGN) w p qualifier args; Some (t, fmt, args) }
     else if c = ch CHR ''u'' then do { (t, args) \<leftarrow> integer_text 10 flags w p qualifier args; Some (t, fmt, args) }
     else if c \<noteq> 0 then Some ([ch CHR ''%'', c], fmt, args)
     else Some ([ch CHR ''%''], fmt - 1, args) }"

partial_function (option) format_text :: "mem \<Rightarrow> u32 \<Rightarrow> u32 list \<Rightarrow> u8 list option" where
  "format_text m fmt args = do {
     c \<leftarrow> load8 fmt m;
     if c = 0 then Some []
     else if c \<noteq> ch CHR ''%'' then do { t \<leftarrow> format_text m (fmt + 1) args; Some (c # t) }
     else do {
       (fmt, flags) \<leftarrow> parse_flags fmt 0 m;
       (fmt, w, flags, args) \<leftarrow> parse_width fmt flags args m;
       (fmt, p, args) \<leftarrow> parse_precision fmt args m;
       (fmt, qualifier) \<leftarrow> parse_qualifier fmt m;
       (t, fmt, args) \<leftarrow> directive_text m fmt flags w p qualifier args;
       t' \<leftarrow> format_text m (fmt + 1) args;
       Some (t @ t') } }"

section \<open>Reading is monotone in the memory\<close>

lemma load8_mono: "load8 a m0 = Some c \<Longrightarrow> m0 \<subseteq>\<^sub>m m \<Longrightarrow> load8 a m = Some c"
  by (auto simp: load8_def map_le_def dom_def)

lemma load8_monoE:
  assumes "Option.bind (load8 a m0) f = Some r" "m0 \<subseteq>\<^sub>m m"
  obtains c where "load8 a m0 = Some c" "load8 a m = Some c" "f c = Some r"
  using assms by (auto elim!: bind_SomeE dest: load8_mono)

lemma skip_atoi_loop_mono:
  assumes "skip_atoi_loop i s m0 = Some r"
  shows "m0 \<subseteq>\<^sub>m m \<Longrightarrow> skip_atoi_loop i s m = Some r"
  using assms
proof (induction i s m0 r rule: skip_atoi_loop.raw_induct [rotated 1, consumes 1, case_names 1])
  case (1 loop i s m0 r)
  from 1(2,3) obtain c where c: "load8 s m = Some c"
    "(if is_digit c then loop (i * 10 + ucast c - ucast (ch CHR ''0'')) (s + 1) m0 else Some (i, s)) = Some r"
    by (rule load8_monoE) blast
  then show ?case using 1(1) 1(3) by (simp add: skip_atoi_loop.simps [of i s] split: if_splits)
qed

lemma skip_atoi_mono: "skip_atoi s m0 = Some r \<Longrightarrow> m0 \<subseteq>\<^sub>m m \<Longrightarrow> skip_atoi s m = Some r"
  unfolding skip_atoi_def by (rule skip_atoi_loop_mono)

lemma parse_flags_mono:
  assumes "parse_flags fmt fl m0 = Some r"
  shows "m0 \<subseteq>\<^sub>m m \<Longrightarrow> parse_flags fmt fl m = Some r"
  using assms
proof (induction fmt fl m0 r rule: parse_flags.raw_induct [rotated 1, consumes 1, case_names 1])
  case (1 loop fmt fl m0 r)
  from 1(2,3) show ?case unfolding Let_def
    by (rule load8_monoE) (use 1(1,3) in \<open>simp add: parse_flags.simps [of fmt fl] Let_def split: if_splits\<close>)
qed

lemma parse_width_mono:
  assumes "parse_width fmt fl args m0 = Some r" "m0 \<subseteq>\<^sub>m m"
  shows "parse_width fmt fl args m = Some r"
proof -
  obtain c where c0: "load8 fmt m0 = Some c" using assms(1) by (cases "load8 fmt m0") (simp_all add: parse_width_def)
  note c = c0 load8_mono [OF c0 assms(2)]
  show ?thesis
  proof (cases "is_digit c")
    case True
    then obtain q where "skip_atoi fmt m0 = Some q" using assms(1) c(1) by (cases "skip_atoi fmt m0") (auto simp: parse_width_def)
    then show ?thesis using assms c True skip_atoi_mono [of fmt m0 q m] by (simp add: parse_width_def)
  qed (use assms c in \<open>simp add: parse_width_def\<close>)
qed

lemma parse_precision_mono:
  assumes "parse_precision fmt args m0 = Some r" "m0 \<subseteq>\<^sub>m m"
  shows "parse_precision fmt args m = Some r"
proof -
  obtain c where c0: "load8 fmt m0 = Some c" using assms(1) by (cases "load8 fmt m0") (simp_all add: parse_precision_def)
  note c = c0 load8_mono [OF c0 assms(2)]
  show ?thesis
  proof (cases "c = ch CHR ''.''")
    case True
    obtain d where d: "load8 (fmt + 1) m0 = Some d"
      using assms(1) c(1) True by (cases "load8 (fmt + 1) m0") (auto simp: parse_precision_def)
    note d' = load8_mono [OF this assms(2)]
    show ?thesis
    proof (cases "is_digit d")
      case True
      then obtain q where "skip_atoi (fmt + 1) m0 = Some q"
        using assms(1) c(1) d \<open>c = ch CHR ''.''\<close> by (cases "skip_atoi (fmt + 1) m0") (auto simp: parse_precision_def)
      then show ?thesis using assms c d d' True \<open>c = ch CHR ''.''\<close> skip_atoi_mono [of "fmt + 1" m0 q m]
        by (simp add: parse_precision_def)
    qed (use assms c d d' \<open>c = ch CHR ''.''\<close> in \<open>simp add: parse_precision_def\<close>)
  qed (use assms c in \<open>simp add: parse_precision_def\<close>)
qed

lemma parse_qualifier_mono:
  "parse_qualifier fmt m0 = Some r \<Longrightarrow> m0 \<subseteq>\<^sub>m m \<Longrightarrow> parse_qualifier fmt m = Some r"
  unfolding parse_qualifier_def by (erule load8_monoE, assumption) simp

lemma holds_at_mono: "holds_at m0 a xs \<Longrightarrow> m0 \<subseteq>\<^sub>m m \<Longrightarrow> holds_at m a xs"
  by (induction xs arbitrary: a) (auto simp: map_le_def dom_def)

lemma string_at_mono: "string_at m0 a xs \<Longrightarrow> m0 \<subseteq>\<^sub>m m \<Longrightarrow> string_at m a xs"
  unfolding string_at_def using holds_at_mono by blast

lemma read_string_at:
  assumes "read_string s m = Some cs"
  shows "string_at m s cs"
  using assms
proof (induction s m cs rule: read_string.raw_induct [rotated 1, consumes 1, case_names 1])
  case (1 loop s m cs)
  then show ?case by (auto simp: load8_def elim!: bind_SomeE split: if_splits)
qed

section \<open>The buffer and the rest of the memory\<close>

text \<open>
  \<open>apart m0 e out n\<close>: \<open>m0\<close> is part of the memory and outside what is left of the buffer, and the next
  \<open>n\<close> addresses do not wrap around.
\<close>

definition apart :: "mem \<Rightarrow> u32 \<Rightarrow> out \<Rightarrow> nat \<Rightarrow> bool" where
  "apart m0 e out n \<longleftrightarrow>
     (case out of (str, m) \<Rightarrow> m0 \<subseteq>\<^sub>m m \<and> unat str + n < 2 ^ 32 \<and> (\<forall>a \<in> dom m0. \<not> (str \<le> a \<and> a < e)))"

lemma apart_memory: "apart m0 e out n \<Longrightarrow> m0 \<subseteq>\<^sub>m snd out"
  by (auto simp: apart_def)

lemma apart_less: "apart m0 e out n \<Longrightarrow> k \<le> n \<Longrightarrow> apart m0 e out k"
  by (auto simp: apart_def)

lemma apart_put:
  assumes "apart m0 e out (Suc n)" "put e c out = Some out'"
  shows "apart m0 e out' n"
proof -
  obtain str m where o: "out = (str, m)" by (cases out)
  have a: "m0 \<subseteq>\<^sub>m m" "unat str + Suc n < 2 ^ 32" "\<And>a. a \<in> dom m0 \<Longrightarrow> \<not> (str \<le> a \<and> a < e)"
    using assms(1) by (auto simp: apart_def o)
  have u: "unat (str + 1) = unat str + 1" using a(2) by (simp add: unat_word_ariths)
  have "m0 \<subseteq>\<^sub>m m(str \<mapsto> c)" if "str < e"
  proof -
    have "str \<notin> dom m0" using a(3) [of str] that by auto
    then show ?thesis using a(1) by (auto simp: map_le_def)
  qed
  moreover have "\<not> (str + 1 \<le> x \<and> x < e)" if "x \<in> dom m0" for x
    using a(3) [OF that] u by (auto simp: word_le_nat_alt)
  ultimately show ?thesis using assms(2) a u
    by (auto simp: o put_def apart_def store8_def split: if_splits)
qed

lemma apart_emit: "apart m0 e out (length xs + n) \<Longrightarrow> emit e xs out = Some out' \<Longrightarrow> apart m0 e out' n"
proof (induction xs arbitrary: out)
  case (Cons c xs)
  then obtain u where "put e c out = Some u" "emit e xs u = Some out'" by (auto elim: bind_SomeE)
  then show ?case using Cons apart_put [of m0 e out "length xs + n" c u] by simp
qed simp

text \<open>The text comes first; then something else is done with the output.\<close>

lemma emit_then:
  assumes "\<And>u. emit e xs out = Some u \<Longrightarrow> f u = emit e ys u"
  shows "Option.bind (emit e xs out) f = emit e (xs @ ys) out"
  using assms by (cases "emit e xs out") (auto simp: emit_append)

lemma bind_map: "Option.bind x (\<lambda>y. Some (f y)) = map_option f x"
  by (cases x) simp_all

lemma bind_map_option: "Option.bind (map_option f x) g = Option.bind x (\<lambda>y. g (f y))"
  by (cases x) simp_all

section \<open>Characters and strings\<close>

lemma moderate_bounds: "moderate n \<Longrightarrow> - (2 ^ 31) + 1 < sint n \<and> sint n \<le> 2 ^ 29"
  by (simp add: moderate_def)

lemma print_char_emit:
  assumes "moderate w"
  shows "print_char e flags w (a # args) out =
    map_option (Pair args) (emit e (char_text flags (sint w) (ucast a)) out)"
proof -
  have w: "- (2 ^ 31) < sint w" using moderate_bounds [OF assms] by simp
  define w' where w': "w' = (if 1 < sint w then 0 else w - 1)"
  have "nat (sint w' - 1) = 0" "- (2 ^ 31) < sint w'"
    using moderate_bounds [OF assms] sint_less1 [OF w] by (auto simp: w')
  then have after: "put_before e c w' u = Some (if 1 < sint w' then 0 else w' - 1, u)" for c u
    by (simp add: put_before_emit)
  show ?thesis
  proof (cases "flags AND LEFT = 0")
    case True
    then show ?thesis
      by (cases "emit e (replicate (nat (sint w - 1)) (ch CHR '' '')) out")
         (auto simp: print_char_def va_arg_def put_before_emit [OF w] w' [symmetric] after char_text_def Let_def emit_append
           bind_map option.map_ident)
  next
    case False
    then show ?thesis
      by (cases "put e (ucast a) out")
         (auto simp: print_char_def va_arg_def put_before_emit [OF w] char_text_def Let_def map_option_case split: option.splits)
  qed
qed

text \<open>The bytes that \<open>put_string\<close> reads\<close>

lemma put_string_emit:
  assumes m0: "\<And>i. i < n \<Longrightarrow> \<forall>m. m0 \<subseteq>\<^sub>m m \<longrightarrow> string_char s (of_nat i) m = Some (cs ! i)"
    and n: "n \<le> length cs" "n \<le> 2 ^ 29"
  shows "i \<le> n \<Longrightarrow> apart m0 e out (n - i) \<Longrightarrow>
    put_string e s (of_nat i) (of_nat n) out = emit e (drop i (take n cs)) out"
proof (induction "n - i" arbitrary: i out)
  case 0
  then show ?case by (simp add: put_string.simps)
next
  case (Suc k)
  then have i: "i < n" "n - Suc i = k" by auto
  have lt: "sint (of_nat i :: u32) < sint (of_nat n :: u32)" using i(1) n(2) by (simp add: sint_of_nat)
  have c: "string_char s (of_nat i) (snd out) = Some (cs ! i)"
    using m0 [OF i(1)] apart_memory [OF Suc.prems(2)] by blast
  have d: "drop i (take n cs) = cs ! i # drop (Suc i) (take n cs)"
    using i(1) n(1) by (simp add: Cons_nth_drop_Suc [symmetric])
  show ?case
  proof (cases "put e (cs ! i) out")
    case None
    then show ?thesis using lt c d by (simp add: put_string.simps [of e s "of_nat i"])
  next
    case (Some u)
    have "apart m0 e u (n - Suc i)"
      using apart_put [OF _ Some, of m0 "n - Suc i"] Suc.prems(2) i(1) by (simp add: Suc_diff_Suc)
    then have "put_string e s (of_nat (Suc i)) (of_nat n) u = emit e (drop (Suc i) (take n cs)) u"
      using Suc.hyps(1) [of "Suc i" u] i by simp
    then show ?thesis using lt c d Some by (simp add: put_string.simps [of e s "of_nat i"] add.commute)
  qed
qed

lemma string_argD:
  assumes "string_arg s m0 = Some cs"
  shows "length cs \<le> 2 ^ 29" "m0 \<subseteq>\<^sub>m m \<Longrightarrow> string_len s m = Some (of_nat (length cs))"
    "i < length cs \<Longrightarrow> m0 \<subseteq>\<^sub>m m \<Longrightarrow> string_char s (of_nat i) m = Some (cs ! i)"
proof -
  have l: "length cs \<le> 2 ^ 29" and cs: "(if s = 0 then Some NULL_string else read_string s m0) = Some cs"
    using assms unfolding string_arg_def by (auto elim!: bind_SomeE split: if_splits)
  show "length cs \<le> 2 ^ 29" by fact
  have s: "string_at m s cs" if "s \<noteq> 0" "m0 \<subseteq>\<^sub>m m"
    using cs that string_at_mono [OF read_string_at] by simp
  show "string_len s m = Some (of_nat (length cs))" if "m0 \<subseteq>\<^sub>m m"
    using cs s that by (auto simp: string_len_def rt_strlen_eq)
  show "string_char s (of_nat i) m = Some (cs ! i)" if "i < length cs" "m0 \<subseteq>\<^sub>m m"
    using cs l that holds_at_nth [OF string_at_holds [OF s], of i]
    by (auto simp: string_char_def buf_get_def load8_def unat_of_nat take_bit_nat_eq_self)
qed

lemma print_string_emit:
  assumes cs: "string_arg s m0 = Some cs" and w: "moderate w" "moderate p"
    and a: "apart m0 e out (length (string_text flags (sint w) (sint p) cs))"
  shows "print_string e flags w p (s # args) out =
    map_option (Pair args) (emit e (string_text flags (sint w) (sint p) cs) out)"
proof -
  define n where n: "n = (if 0 < sint p then min (nat (sint p)) (length cs) else length cs)"
  note c = string_argD [OF cs]
  have n2: "n \<le> length cs" "n \<le> 2 ^ 29" using c(1) by (auto simp: n)
  have sn: "sint (of_nat n :: u32) = int n" by (rule sint_of_nat) (use n2 in simp)
  have len: "(if 0 < sint p \<and> sint p < sint (of_nat (length cs) :: u32) then p else of_nat (length cs)) = of_nat n"
  proof -
    have "sint (of_nat (length cs) :: u32) = int (length cs)" by (rule sint_of_nat) (use c(1) in simp)
    moreover have p: "of_nat (nat (sint p)) = p" if "0 < sint p"
    proof -
      have "of_nat (nat (sint p)) = (of_int (sint p) :: u32)" by (rule of_nat_nat) (use that in simp)
      then show ?thesis by simp
    qed
    moreover have "of_nat (length cs) = p" if "nat (sint p) = length cs" "0 < sint p"
      using p [OF that(2)] that(1) by simp
    ultimately show ?thesis by (cases "0 < sint p \<and> sint p < int (length cs)") (auto simp: n min_def)
  qed
  define k where k: "k = nat (sint w - int n)"
  let ?fill = "replicate k (ch CHR '' '')"
  have st: "string_text flags (sint w) (sint p) cs = (if flags AND LEFT = 0 then ?fill @ take n cs else take n cs @ ?fill)"
    by (simp add: string_text_def Let_def k n min_def)
  define w' where w': "w' = (if int n < sint w then of_nat n else w) - 1"
  have "sint w' \<le> sint (of_nat n :: u32)" using moderate_bounds [OF w(1)] sn by (auto simp: w' sint_less1)
  note after = put_below_above [OF this]
  have pre: "put_below e c (of_nat n) w u = do { u \<leftarrow> emit e (replicate k c) u; Some (w', u) }" for c u
    unfolding put_below_emit k w' sn by (rule refl)
  have str: "put_string e s 0 (of_nat n) u = emit e (take n cs) u" if "apart m0 e u n" for u
    using put_string_emit [of n m0 s cs 0 e u] c(3) n2 that by simp
  have o: "string_len s (snd out) = Some (of_nat (length cs))" using c(2) apart_memory [OF a] by blast
  show ?thesis
  proof (cases "flags AND LEFT = 0")
    case True
    have "put_string e s 0 (of_nat n) u = emit e (take n cs) u" if "emit e ?fill out = Some u" for u
      using str apart_emit [of m0 e out ?fill n u] that a n2(1) True by (simp add: st)
    then show ?thesis using True o
      by (cases "emit e ?fill out")
         (auto simp: print_string_def va_arg_def Let_def len pre after st emit_append bind_map)
  next
    case False
    have "put_string e s 0 (of_nat n) out = emit e (take n cs) out"
      using str apart_less [OF a, of n] n2(1) False by (simp add: st)
    then show ?thesis using False o
      by (cases "emit e (take n cs) out")
         (auto simp: print_string_def va_arg_def Let_def len pre st emit_append bind_map bind_map_option Option.bind_assoc)
  qed
qed

section \<open>Directives\<close>

lemma va_argD: "va_arg args = Some (a, as) \<Longrightarrow> args = a # as"
  by (auto simp: va_arg_def split: list.splits)

lemma print_number_moderate:
  "moderate w \<Longrightarrow> moderate p \<Longrightarrow>
   print_number e num base w p type out = emit e (number_text num base (sint w) (sint p) type) out"
  by (rule print_number_emit) (auto simp: moderate_def)

lemma print_integer_emit:
  assumes "integer_text base flags w p q args = Some (t, args')" "moderate w" "moderate p"
  shows "print_integer e base flags w p q args out = map_option (Pair args') (emit e t out)"
  using assms(1) unfolding integer_text_def print_integer_def
  by (auto elim!: bind_SomeE simp: print_number_moderate [OF assms(2,3)] bind_map)

lemma print_pointer_emit:
  assumes "moderate w" "moderate p"
  shows "print_pointer e flags w p (a # args) out =
    map_option (Pair args)
      (emit e (if w = - 1 then number_text a 16 8 (sint p) (flags OR ZEROPAD) else number_text a 16 (sint w) (sint p) flags) out)"
proof -
  have "moderate 8" by (simp add: moderate_def)
  then show ?thesis using assms
    by (auto simp: print_pointer_def va_arg_def print_number_moderate bind_map)
qed

lemma convert_emit:
  assumes d: "directive_text m0 fmt flags w p q args = Some (t, fmt', args')" and a: "apart m0 e out (length t)"
  shows "convert e fmt flags w p q args out = map_option (\<lambda>out. (fmt', args', out)) (emit e t out)"
proof -
  obtain c where c: "load8 fmt m0 = Some c" using d by (cases "load8 fmt m0") (simp_all add: directive_text_def)
  have c': "load8 fmt (snd out) = Some c" by (rule load8_mono [OF c apart_memory [OF a]])
  have w: "moderate w" "moderate p" using d c by (auto simp: directive_text_def split: if_splits)
  show ?thesis
    using d c c' w a unfolding directive_text_def convert_def
    by (auto split: if_splits elim!: bind_SomeE dest!: va_argD
        simp: print_integer_emit print_char_emit print_pointer_emit print_string_emit option.map_comp option.map_ident map_option_bind o_def bind_map)
qed

text \<open>The loop prints what the specification says.\<close>

lemma vsnprintf_loop_emit:
  assumes "format_text m0 fmt args = Some t"
  shows "apart m0 e out (length t) \<Longrightarrow> vsnprintf_loop e fmt args out = emit e t out"
  using assms
proof (induction m0 fmt args t arbitrary: out rule: format_text.raw_induct [rotated 1, consumes 1, case_names step])
  case (step loop m0 fmt args t)
  note mem = apart_memory [OF step.prems]
  obtain c where c: "load8 fmt m0 = Some c" using step.hyps by (cases "load8 fmt m0") simp_all
  note c' = load8_mono [OF c mem]
  consider (zero) "c = 0" | (plain) "c \<noteq> 0" "c \<noteq> ch CHR ''%''" | (directive) "c = ch CHR ''%''" by fastforce
  then show ?case
  proof cases
    case zero
    then show ?thesis using step.hyps c c' by (simp add: vsnprintf_loop.simps [of e fmt])
  next
    case plain
    then obtain t' where t: "loop m0 (fmt + 1) args = Some t'" "t = c # t'"
      using step.hyps c by (auto elim: bind_SomeE)
    show ?thesis
    proof (cases "put e c out")
      case (Some u)
      have "apart m0 e u (length t')" by (rule apart_put [OF _ Some]) (use step.prems t(2) in simp)
      then show ?thesis using step.IH [OF t(1)] plain c' Some t(2) by (simp add: vsnprintf_loop.simps [of e fmt])
    qed (use plain c' t(2) in \<open>simp add: vsnprintf_loop.simps [of e fmt]\<close>)
  next
    case directive
    from step.hyps c directive obtain f1 fl f2 w fl' as f3 p as' f4 q t1 f5 as'' t2 where
      d: "parse_flags fmt 0 m0 = Some (f1, fl)" "parse_width f1 fl args m0 = Some (f2, w, fl', as)"
        "parse_precision f2 as m0 = Some (f3, p, as')" "parse_qualifier f3 m0 = Some (f4, q)"
        "directive_text m0 f4 fl' w p q as' = Some (t1, f5, as'')" "loop m0 (f5 + 1) as'' = Some t2" "t = t1 @ t2"
      by (auto elim!: bind_SomeE)
    note r = parse_flags_mono [OF d(1) mem] parse_width_mono [OF d(2) mem] parse_precision_mono [OF d(3) mem]
      parse_qualifier_mono [OF d(4) mem]
    have cv: "convert e f4 fl' w p q as' out = map_option (\<lambda>out. (f5, as'', out)) (emit e t1 out)"
      by (rule convert_emit [OF d(5)]) (use apart_less [OF step.prems] d(7) in simp)
    have "vsnprintf_loop e (f5 + 1) as'' u = emit e t2 u" if "emit e t1 out = Some u" for u
      by (rule step.IH [OF d(6)], rule apart_emit [OF _ that]) (use step.prems d(7) in simp)
    then show ?thesis using directive c' r cv emit_then [of e t1 out "vsnprintf_loop e (f5 + 1) as''" t2] d(7)
      by (simp add: vsnprintf_loop.simps [of e fmt] bind_map_option)
  qed
qed

section \<open>The whole function\<close>

lemma emit_beyond:
  "e \<le> s \<Longrightarrow> unat s + length xs < 2 ^ 32 \<Longrightarrow> emit e xs (s, m) = Some (s + of_nat (length xs), m)"
proof (induction xs arbitrary: s)
  case (Cons x xs)
  have "unat (s + 1) = unat s + 1" using Cons.prems(2) by (simp add: unat_word_ariths)
  then show ?case using Cons by (simp add: put_def word_le_nat_alt word_less_nat_alt not_less add.assoc)
qed simp

lemma emit_memory:
  "unat str + length t < 2 ^ 32 \<Longrightarrow> str \<le> e \<Longrightarrow> mapped m str (unat e - unat str) \<Longrightarrow>
   emit e t (str, m) = Some (str + of_nat (length t), write_at str (take (unat e - unat str) t) m)"
proof (induction t arbitrary: str m)
  case (Cons c t)
  have u: "unat (str + 1) = unat str + 1" using Cons.prems(1) by (simp add: unat_word_ariths)
  show ?case
  proof (cases "str < e")
    case True
    then have k: "unat e - unat str = Suc (unat e - unat (str + 1))" using u by (simp add: word_less_nat_alt)
    then have m: "str \<in> dom m" "mapped m (str + 1) (unat e - unat (str + 1))" using Cons.prems(3) by (auto simp: mapped_Suc)
    define m' where m': "m' = m(str \<mapsto> c)"
    have mm: "mapped m' (str + 1) (unat e - unat (str + 1))" using m by (simp add: m')
    have "emit e t (str + 1, m') = Some (str + 1 + of_nat (length t), write_at (str + 1) (take (unat e - unat (str + 1)) t) m')"
      using Cons.IH [of "str + 1" m'] Cons.prems(1) u mm True by (simp add: word_less_nat_alt word_le_nat_alt)
    then show ?thesis using True m(1) by (simp add: put_def k m' add.assoc)
  next
    case False
    then have k: "unat e - unat str = 0" "e \<le> str" using Cons.prems(2) by (simp_all add: word_less_nat_alt word_le_nat_alt)
    show ?thesis using emit_beyond [OF k(2), of "c # t"] Cons.prems(1) k(1) by simp
  qed
qed simp

text \<open>The memory outside the buffer\<close>

definition outside :: "mem \<Rightarrow> u32 \<Rightarrow> nat \<Rightarrow> mem" where
  "outside m buf n = m |` (- range_at buf n)"

lemma apart_outside:
  assumes "unat buf + unat sz < 2 ^ 32" "unat buf + k < 2 ^ 32"
  shows "apart (outside m buf (unat sz)) (buf + sz) (buf, m) k"
proof -
  have e: "unat (buf + sz) = unat buf + unat sz" using assms(1) by (simp add: unat_word_ariths)
  have "a \<in> range_at buf (unat sz)" if "buf \<le> a" "a < buf + sz" for a
    using that range_at_no_wrap [of buf "unat sz" a] assms(1) e by (auto simp: word_le_nat_alt word_less_nat_alt)
  then show ?thesis using assms(2)
    by (auto simp: apart_def outside_def map_le_def restrict_map_def split: if_splits)
qed

lemma write_at_last:
  assumes "length t = Suc n" "Suc n \<le> 2 ^ 32"
  shows "(write_at a t m)(a + of_nat n \<mapsto> x) = write_at a (take n t @ [x]) m"
proof -
  have t: "t = take n t @ [t ! n]" using assms(1) take_Suc_conv_app_nth [of n t] by simp
  have "write_at a t m = (write_at a (take n t) m)(a + of_nat n \<mapsto> t ! n)"
    using assms(1) by (subst t) (simp add: write_at_append)
  then show ?thesis using assms(1) by (simp add: write_at_append)
qed

text \<open>A text and its terminating zero in a buffer of \<open>n\<close> bytes\<close>

definition fitted :: "nat \<Rightarrow> u8 list \<Rightarrow> u8 list" where
  "fitted n t = (if n = 0 then [] else take (n - 1) t @ [0])"

lemma rt_vsnprintf_eq:
  assumes t: "format_text (outside m buf (unat sz)) fmt args = Some t"
    and m: "mapped m buf (unat sz)" and w: "unat buf + unat sz < 2 ^ 32" "unat buf + length t < 2 ^ 32"
  shows "rt_vsnprintf buf sz fmt args m = Some (of_nat (length t), write_at buf (fitted (unat sz) t) m)"
proof -
  have e: "unat (buf + sz) = unat buf + unat sz" using w(1) by (simp add: unat_word_ariths)
  then have ge: "\<not> buf + sz < buf" "buf \<le> buf + sz" by (simp_all add: word_less_nat_alt word_le_nat_alt)
  have l: "vsnprintf_loop (buf + sz) fmt args (buf, m) = Some (buf + of_nat (length t), write_at buf (take (unat sz) t) m)"
    using vsnprintf_loop_emit [OF t apart_outside [OF w]] emit_memory [OF w(2) ge(2)] m e by simp
  show ?thesis
  proof (cases "sz = 0")
    case True
    then show ?thesis using l ge by (simp add: rt_vsnprintf_def fitted_def)
  next
    case False
    then obtain n where n: "unat sz = Suc n" by (cases "unat sz") (simp_all add: unat_eq_zero)
    have str: "unat (buf + of_nat (length t)) = unat buf + length t"
      using w(2) by (simp add: unat_word_ariths unat_of_nat)
    have lt: "buf + of_nat (length t) < buf + sz \<longleftrightarrow> length t < Suc n"
      using str e n by (simp add: word_less_nat_alt)
    show ?thesis
    proof (cases "length t < Suc n")
      case True
      have "mapped m (buf + of_nat (length t)) 1"
        using m n True mapped_add [of m buf "length t" "Suc n - length t"]
          mapped_add [of m "buf + of_nat (length t)" 1 "n - length t"] by (simp add: Suc_diff_le)
      then have "buf + of_nat (length t) \<in> dom (write_at buf t m)" by (auto simp: mapped_Suc dom_write_at)
      then show ?thesis using l ge lt True n False
        by (simp add: rt_vsnprintf_def fitted_def write_at_append word_neq_0_conv)
    next
      case False
      have end1: "buf + sz - 1 = buf + of_nat n"
      proof -
        have "sz = of_nat (unat sz)" by simp
        also have "\<dots> = 1 + of_nat n" unfolding n by simp
        finally show ?thesis by simp
      qed
      have k: "length (take (Suc n) t) = Suc n" "Suc n \<le> 2 ^ 32" using False w(1) n by simp_all
      have "mapped m (buf + of_nat n) 1" using m n mapped_add [of m buf n 1] by simp
      then have "buf + of_nat n \<in> dom (write_at buf (take (Suc n) t) m)" by (auto simp: mapped_Suc dom_write_at)
      then show ?thesis using l ge lt False n \<open>sz \<noteq> 0\<close> write_at_last [OF k, of buf m 0]
        by (simp add: rt_vsnprintf_def fitted_def end1 word_neq_0_conv min_absorb1)
    qed
  qed
qed

section \<open>Reading back a number\<close>

lemma small_digit:
  assumes "d < 10"
  shows "is_digit (small_digits ! d)" "ucast (small_digits ! d) - ucast (ch CHR ''0'') = (of_nat d :: u32)"
proof -
  have "d \<in> {0, 1, 2, 3, 4, 5, 6, 7, 8, 9}" using assms by auto
  then show "is_digit (small_digits ! d)" "ucast (small_digits ! d) - ucast (ch CHR ''0'') = (of_nat d :: u32)"
    by (auto simp: small_digits_def is_digit_def)
qed

definition digits_value :: "u32 \<Rightarrow> u8 list \<Rightarrow> u32" where
  "digits_value = foldl (\<lambda>i c. i * 10 + ucast c - ucast (ch CHR ''0''))"

lemma numeral_of_digits: "\<forall>c \<in> set (numeral_of small_digits 10 n). is_digit c"
proof (induction n rule: less_induct)
  case (less n)
  show ?case using less [of "n div 10"]
    by (cases "n < 10") (auto simp: numeral_of.simps [of small_digits 10 n] small_digit)
qed

lemma digits_value_numeral: "digits_value 0 (numeral_of small_digits 10 n) = of_nat n"
proof (induction n rule: less_induct)
  case (less n)
  show ?case
  proof (cases "n < 10")
    case True
    then show ?thesis using small_digit(2) [of n] by (simp add: numeral_of.simps [of small_digits 10 n] digits_value_def)
  next
    case False
    have "digits_value 0 (numeral_of small_digits 10 n) =
        of_nat (n div 10) * 10 + (ucast (small_digits ! (n mod 10)) - ucast (ch CHR ''0''))"
      using less.IH [of "n div 10"] False
      by (simp add: numeral_of.simps [of small_digits 10 n] digits_value_def add_diff_eq)
    also have "\<dots> = of_nat (n div 10 * 10 + n mod 10)" unfolding small_digit(2) [OF mod_less_divisor [OF zero_less_numeral]]
      by (simp only: of_nat_add of_nat_mult of_nat_numeral)
    finally show ?thesis by (simp only: div_mult_mod_eq)
  qed
qed

lemma skip_atoi_digits:
  "holds_at m s (xs @ [x]) \<Longrightarrow> \<forall>c \<in> set xs. is_digit c \<Longrightarrow> \<not> is_digit x \<Longrightarrow>
   skip_atoi_loop i s m = Some (digits_value i xs, s + of_nat (length xs))"
proof (induction xs arbitrary: i s)
  case Nil
  then show ?case by (simp add: skip_atoi_loop.simps [of i s] load8_def digits_value_def)
next
  case (Cons c xs)
  then show ?case
    by (simp add: skip_atoi_loop.simps [of i s] load8_def digits_value_def add.assoc)
qed

section \<open>Rules to compute the text of a format\<close>

lemma format_text_end: "load8 fmt m = Some 0 \<Longrightarrow> format_text m fmt args = Some []"
  by (simp add: format_text.simps [of m fmt])

lemma format_text_plain:
  "load8 fmt m = Some c \<Longrightarrow> c \<noteq> 0 \<Longrightarrow> c \<noteq> ch CHR ''%'' \<Longrightarrow> format_text m (fmt + 1) args = Some t \<Longrightarrow>
   format_text m fmt args = Some (c # t)"
  by (simp add: format_text.simps [of m fmt])

text \<open>A directive without flags, width, precision and qualifier\<close>

lemma format_text_directive:
  assumes "load8 fmt m = Some (ch CHR ''%'')" "load8 (fmt + 1) m = Some c"
    and "c \<notin> {ch CHR ''-'', ch CHR ''+'', ch CHR '' '', ch CHR ''#'', ch CHR ''0'', ch CHR ''*'', ch CHR ''.'', ch CHR ''h'', ch CHR ''l''}"
    and "\<not> is_digit c"
    and "directive_text m (fmt + 1) 0 (- 1) (- 1) 0 args = Some (t1, fmt + 1, args')"
    and "format_text m (fmt + 2) args' = Some t2"
  shows "format_text m fmt args = Some (t1 @ t2)"
  using assms
  by (simp add: format_text.simps [of m fmt] parse_flags.simps [of fmt 0] parse_width_def parse_precision_def parse_qualifier_def
      add.assoc)

lemma moderate_minus_1: "moderate (- 1)"
  by (simp add: moderate_def)

lemma number_text_plain: "number_text num 10 (- 1) (- 1) 0 = numeral_of small_digits 10 (unat num)"
proof -
  have "numeral_of small_digits 10 (unat num) \<noteq> []" by (subst numeral_of.simps) simp
  then have "0 < length (numeral_of small_digits 10 (unat num))" by simp
  then show ?thesis by (simp add: number_text_def base_of_def Let_def)
qed

lemma format_text_u:
  assumes "string_at m fmt [ch CHR ''%'', ch CHR ''u'']"
  shows "format_text m fmt [num] = Some (numeral_of small_digits 10 (unat num))"
proof -
  have b: "load8 fmt m = Some (ch CHR ''%'')" "load8 (fmt + 1) m = Some (ch CHR ''u'')" "load8 (fmt + 2) m = Some 0"
    using assms by (simp_all add: load8_def add.assoc)
  have d: "directive_text m (fmt + 1) 0 (- 1) (- 1) 0 [num] = Some (numeral_of small_digits 10 (unat num), fmt + 1, [])"
    using b(2) by (simp add: directive_text_def moderate_minus_1 integer_text_def integer_arg_def va_arg_def number_text_plain)
  have "\<not> is_digit (ch CHR ''u'')" by (simp add: is_digit_def)
  then show ?thesis
    using format_text_directive [OF b(1,2) _ _ d format_text_end [OF b(3)]] by simp
qed

section \<open>Properties\<close>


text \<open>
  \<open>print_number\<close> prints what its specification says on every branch: the sign, the precision as
  leading zeros, the padding of the field width with zeros or blanks on the left or blanks on the
  right, digits in base 10 or 16. Base 8 comes out in base 16, and a precision of 0 drops
  the digits of every number.
\<close>

theorem print_number_prints:
  assumes "- (2 ^ 29) \<le> sint s" and "sint s \<le> 2 ^ 30" and "sint precision \<le> 2 ^ 30"
    and "str \<le> e" and "mapped m str (unat e - unat str)"
    and "unat str + length (number_text num base (sint s) (sint precision) type) < 2 ^ 32"
  shows "print_number e num base s precision type (str, m) =
    (let t = number_text num base (sint s) (sint precision) type
     in Some (str + of_nat (length t), write_at str (take (unat e - unat str) t) m))"
  unfolding print_number_emit [OF assms(1-3)] Let_def by (rule emit_memory [OF assms(6,4,5)])

text \<open>
  C40. What \<open>rt_snprintf\<close> prints with the format \<open>%u\<close>, \<open>skip_atoi\<close> reads back: every 32-bit number
  survives the round trip.
\<close>

theorem print_and_read_number:
  assumes "string_at (outside m buf (unat sz)) fmt [ch CHR ''%'', ch CHR ''u'']"
    and "mapped m buf (unat sz)" and "unat buf + unat sz < 2 ^ 32" and "11 \<le> unat sz"
  shows "\<exists>n m'. rt_snprintf buf sz fmt [num] m = Some (n, m') \<and> skip_atoi buf m' = Some (num, buf + n)"
proof -
  define t where t: "t = numeral_of small_digits 10 (unat num)"
  have l: "length t \<le> 10"
    using numeral_of_length [of 10 "unat num" 10 small_digits] unsigned_less [of num, where 'a = nat] by (simp add: t)
  have p: "rt_snprintf buf sz fmt [num] m = Some (of_nat (length t), write_at buf (fitted (unat sz) t) m)"
    unfolding rt_snprintf_def
    by (rule rt_vsnprintf_eq [OF format_text_u [OF assms(1), of num, folded t] assms(2,3)]) (use l assms(3,4) in simp)
  have f: "fitted (unat sz) t = t @ [0]" using l assms(4) by (simp add: fitted_def)
  have "holds_at (write_at buf (t @ [0]) m) buf (t @ [0])" by (rule holds_at_write_at) (use l in simp)
  moreover have "\<forall>c \<in> set t. is_digit c" unfolding t by (rule numeral_of_digits)
  moreover have "\<not> is_digit 0" by (simp add: is_digit_def)
  moreover have "digits_value 0 t = num" unfolding t digits_value_numeral by simp
  ultimately have "skip_atoi buf (write_at buf (t @ [0]) m) = Some (num, buf + of_nat (length t))"
    unfolding skip_atoi_def by (simp add: skip_atoi_digits)
  then show ?thesis using p f by auto
qed

text \<open>Concrete inputs\<close>

definition sample_memory :: mem where
  "sample_memory a = Some (if a = 100 then ch CHR ''%'' else if a = 101 then ch CHR ''u'' else 0)"

lemma sample_memory_format: "n \<le> 80 \<Longrightarrow> string_at (outside sample_memory 10 n) 100 [ch CHR ''%'', ch CHR ''u'']"
proof -
  assume n: "n \<le> 80"
  have "100 \<notin> range_at 10 n" "101 \<notin> range_at 10 n" "102 \<notin> range_at 10 n"
    using n by (auto simp: range_at_no_wrap)
  then show ?thesis by (simp add: outside_def sample_memory_def)
qed

lemma sample_memory_mapped [simp]: "mapped sample_memory a n"
  by (simp add: mapped_def sample_memory_def dom_def)


theorem print_number_prints_witness:
  "print_number 20 (- 42) 10 6 (- 1) (SIGN OR ZEROPAD) (10, sample_memory) =
     Some (16, write_at 10 (map ch ''-00042'') sample_memory)"
proof -
  have "numeral_of small_digits 10 42 = map ch ''42''"
    by (simp add: numeral_of.simps [of _ 10] small_digits_def)
  then have t: "number_text (- 42) 10 6 (- 1) (SIGN OR ZEROPAD) = map ch ''-00042''"
    by (simp add: number_text_def base_of_def SIGN_def ZEROPAD_def PLUS_def SPACE_def LEFT_def LARGE_def eval_nat_numeral)
  show ?thesis
    using print_number_prints [of 6 "- 1" 10 20 sample_memory "- 42" 10 "SIGN OR ZEROPAD"] by (simp add: t del: list.map)
qed

theorem print_and_read_number_witness:
  "\<exists>n m'. rt_snprintf 10 20 100 [4000000000] sample_memory = Some (n, m') \<and> skip_atoi 10 m' = Some (4000000000, 10 + n)"
  using print_and_read_number [of sample_memory 10 20 100 4000000000] sample_memory_format [of 20] by simp

text \<open>Two ways in which the numbers are not what the format asks for\<close>

lemma octal_is_hexadecimal: "number_text 8 8 (- 1) (- 1) 0 = [ch CHR ''8'']"
  by (simp add: number_text_def base_of_def numeral_of.simps [of _ 16] LEFT_def ZEROPAD_def SIGN_def PLUS_def SPACE_def
      LARGE_def small_digits_def)

lemma precision_0_drops_digits: "number_text 5 10 (- 1) 0 0 = []"
  by (simp add: number_text_def base_of_def numeral_of.simps [of _ 10] LEFT_def ZEROPAD_def SIGN_def PLUS_def SPACE_def
      LARGE_def)

end
