(* ===== verification/Mem.thy ===== *)
theory Mem
  imports Kservice_Mem
begin

text \<open>
  \<open>src/mem.c\<close> of the reference kernel: the small memory allocator, as configured with
  \<open>RT_USING_HEAP\<close> and \<open>RT_USING_SMALL_MEM\<close> on the 32-bit target, without hooks and tracing.
  \<open>RT_ALIGN_SIZE\<close> is 4.
\<close>

section \<open>The heap\<close>

text \<open>
  \<open>struct heap_mem\<close> without \<open>RT_USING_MEMTRACE\<close>: 12 bytes, and \<open>MIN_SIZE_ALIGNED\<close> is 12, too. The
  headers are kept apart from the bytes that the user of a block sees; to read a header where
  none has been written is undefined.
\<close>

record heap_mem =
  mem_magic :: u16
  mem_used :: u16
  mem_next :: u32
  mem_prev :: u32

record heap =
  heap_ptr :: u32
  heap_end :: u32
  lfree :: u32
  mem_size_aligned :: u32
  used_mem :: u32
  max_mem :: u32
  heap_sem :: u16
  headers :: "u32 \<Rightarrow> heap_mem option"
  user_bytes :: mem

definition HEAP_MAGIC :: u16 where "HEAP_MAGIC = 0x1ea0"
definition MIN_SIZE :: u32 where "MIN_SIZE = 12"
definition SIZEOF_STRUCT_MEM :: u32 where "SIZEOF_STRUCT_MEM = 12"
definition RT_ALIGN :: "u32 \<Rightarrow> u32" where "RT_ALIGN n = (n + 4 - 1) AND NOT (4 - 1)"
definition RT_ALIGN_DOWN :: "u32 \<Rightarrow> u32" where "RT_ALIGN_DOWN n = n AND NOT (4 - 1)"

definition set_header :: "u32 \<Rightarrow> (heap_mem \<Rightarrow> heap_mem) \<Rightarrow> heap \<Rightarrow> heap option" where
  "set_header p f h = do { m \<leftarrow> headers h p; Some (h\<lparr>headers := (headers h)(p \<mapsto> f m)\<rparr>) }"

text \<open>
  \<open>rt_sem_take(&heap_sem, RT_WAITING_FOREVER)\<close> and \<open>rt_sem_release(&heap_sem)\<close> where no other thread
  has the semaphore or waits for it; with a count of 0 the caller would wait for ever.
\<close>

definition heap_lock :: "heap \<Rightarrow> heap option" where
  "heap_lock h = (if 0 < heap_sem h then Some (h\<lparr>heap_sem := heap_sem h - 1\<rparr>) else None)"

definition heap_unlock :: "heap \<Rightarrow> heap" where
  "heap_unlock h = h\<lparr>heap_sem := heap_sem h + 1\<rparr>"

section \<open>plug_holes\<close>

definition plug_forward :: "u32 \<Rightarrow> heap \<Rightarrow> heap option" where
  "plug_forward mem h = do {
     m \<leftarrow> headers h mem;
     let nmem = heap_ptr h + mem_next m;
     if mem \<noteq> nmem then do {
       n \<leftarrow> headers h nmem;
       if mem_used n = 0 \<and> nmem \<noteq> heap_end h then do {
         let h = (if lfree h = nmem then h\<lparr>lfree := mem\<rparr> else h);
         h \<leftarrow> set_header mem (\<lambda>m. m\<lparr>mem_next := mem_next n\<rparr>) h;
         set_header (heap_ptr h + mem_next n) (\<lambda>x. x\<lparr>mem_prev := mem - heap_ptr h\<rparr>) h }
       else Some h }
     else Some h }"

definition plug_backward :: "u32 \<Rightarrow> heap \<Rightarrow> heap option" where
  "plug_backward mem h = do {
     m \<leftarrow> headers h mem;
     let pmem = heap_ptr h + mem_prev m;
     if pmem \<noteq> mem then do {
       p \<leftarrow> headers h pmem;
       if mem_used p = 0 then do {
         let h = (if lfree h = mem then h\<lparr>lfree := pmem\<rparr> else h);
         h \<leftarrow> set_header pmem (\<lambda>p. p\<lparr>mem_next := mem_next m\<rparr>) h;
         set_header (heap_ptr h + mem_next m) (\<lambda>x. x\<lparr>mem_prev := pmem - heap_ptr h\<rparr>) h }
       else Some h }
     else Some h }"

definition plug_holes :: "u32 \<Rightarrow> heap \<Rightarrow> heap option" where
  "plug_holes mem h = do {
     _ \<leftarrow> RT_ASSERT (heap_ptr h \<le> mem);
     _ \<leftarrow> RT_ASSERT (mem < heap_end h);
     m \<leftarrow> headers h mem;
     _ \<leftarrow> RT_ASSERT (mem_used m = 0);
     h \<leftarrow> plug_forward mem h;
     plug_backward mem h }"

section \<open>Start-up\<close>

text \<open>With an area that is too small the function prints a message and leaves the heap as it is.\<close>

definition rt_system_heap_init :: "u32 \<Rightarrow> u32 \<Rightarrow> heap \<Rightarrow> heap" where
  "rt_system_heap_init begin_addr end_addr h =
     (let begin_align = RT_ALIGN begin_addr;
          end_align = RT_ALIGN_DOWN end_addr
      in if end_align > 2 * SIZEOF_STRUCT_MEM \<and> end_align - 2 * SIZEOF_STRUCT_MEM \<ge> begin_align
         then
           (let h = h\<lparr>mem_size_aligned := end_align - begin_align - 2 * SIZEOF_STRUCT_MEM\<rparr>;
                h = h\<lparr>heap_ptr := begin_align\<rparr>;
                nxt = mem_size_aligned h + SIZEOF_STRUCT_MEM;
                h = h\<lparr>headers := (headers h)(heap_ptr h \<mapsto>
                      \<lparr>mem_magic = HEAP_MAGIC, mem_used = 0, mem_next = nxt, mem_prev = 0\<rparr>)\<rparr>;
                h = h\<lparr>heap_end := heap_ptr h + nxt\<rparr>;
                h = h\<lparr>headers := (headers h)(heap_end h \<mapsto>
                      \<lparr>mem_magic = HEAP_MAGIC, mem_used = 1, mem_next = nxt, mem_prev = nxt\<rparr>)\<rparr>;
                h = h\<lparr>heap_sem := 1\<rparr>
            in h\<lparr>lfree := heap_ptr h\<rparr>)
         else h)"

section \<open>rt_malloc\<close>

text \<open>The offset of the first block from \<open>ptr\<close> on that is free and large enough\<close>

partial_function (option) malloc_search :: "u32 \<Rightarrow> u32 \<Rightarrow> heap \<Rightarrow> u32 option option" where
  "malloc_search ptr sz h =
     (if ptr < mem_size_aligned h - sz then do {
        mem \<leftarrow> headers h (heap_ptr h + ptr);
        if mem_used mem = 0 \<and> mem_next mem - (ptr + SIZEOF_STRUCT_MEM) \<ge> sz then Some (Some ptr)
        else malloc_search (mem_next mem) sz h }
      else Some None)"

text \<open>\<open>while (lfree->used && lfree != heap_end) lfree = (struct heap_mem *)&heap_ptr[lfree->next];\<close>\<close>

partial_function (option) advance_lfree :: "heap \<Rightarrow> heap option" where
  "advance_lfree h = do {
     m \<leftarrow> headers h (lfree h);
     if mem_used m \<noteq> 0 \<and> lfree h \<noteq> heap_end h
     then advance_lfree (h\<lparr>lfree := heap_ptr h + mem_next m\<rparr>)
     else Some h }"

definition count_used :: "u32 \<Rightarrow> heap \<Rightarrow> heap" where
  "count_used n h =
     (let h = h\<lparr>used_mem := used_mem h + n\<rparr>
      in if max_mem h < used_mem h then h\<lparr>max_mem := used_mem h\<rparr> else h)"

text \<open>Mark the block at \<open>ptr\<close> as used, after cutting off what is not needed if that is large enough.\<close>

definition malloc_mark :: "u32 \<Rightarrow> u32 \<Rightarrow> heap \<Rightarrow> heap option" where
  "malloc_mark ptr sz h = do {
     let mem = heap_ptr h + ptr;
     m \<leftarrow> headers h mem;
     if mem_next m - (ptr + SIZEOF_STRUCT_MEM) \<ge> sz + SIZEOF_STRUCT_MEM + RT_ALIGN MIN_SIZE then do {
       let ptr2 = ptr + SIZEOF_STRUCT_MEM + sz;
       let mem2 = heap_ptr h + ptr2;
       let h = h\<lparr>headers := (headers h)(mem2 \<mapsto>
         \<lparr>mem_magic = HEAP_MAGIC, mem_used = 0, mem_next = mem_next m, mem_prev = ptr\<rparr>)\<rparr>;
       h \<leftarrow> set_header mem (\<lambda>m. m\<lparr>mem_next := ptr2, mem_used := 1\<rparr>) h;
       h \<leftarrow> (if mem_next m \<noteq> mem_size_aligned h + SIZEOF_STRUCT_MEM
             then set_header (heap_ptr h + mem_next m) (\<lambda>x. x\<lparr>mem_prev := ptr2\<rparr>) h else Some h);
       Some (count_used (sz + SIZEOF_STRUCT_MEM) h) }
     else do {
       h \<leftarrow> set_header mem (\<lambda>m. m\<lparr>mem_used := 1\<rparr>) h;
       Some (count_used (mem_next m - (mem - heap_ptr h)) h) } }"

definition malloc_take :: "u32 \<Rightarrow> u32 \<Rightarrow> heap \<Rightarrow> (u32 \<times> heap) option" where
  "malloc_take ptr sz h = do {
     let mem = heap_ptr h + ptr;
     h \<leftarrow> malloc_mark ptr sz h;
     h \<leftarrow> set_header mem (\<lambda>m. m\<lparr>mem_magic := HEAP_MAGIC\<rparr>) h;
     h \<leftarrow> (if mem = lfree h then do {
             h \<leftarrow> advance_lfree h;
             m \<leftarrow> headers h (lfree h);
             _ \<leftarrow> RT_ASSERT (lfree h = heap_end h \<or> mem_used m = 0);
             Some h }
           else Some h);
     let h = heap_unlock h;
     _ \<leftarrow> RT_ASSERT (mem + SIZEOF_STRUCT_MEM + sz \<le> heap_end h);
     _ \<leftarrow> RT_ASSERT ((mem + SIZEOF_STRUCT_MEM) mod 4 = 0);
     _ \<leftarrow> RT_ASSERT (mem AND (4 - 1) = 0);
     Some (mem + SIZEOF_STRUCT_MEM, h) }"

definition rt_malloc :: "u32 \<Rightarrow> heap \<Rightarrow> (u32 \<times> heap) option" where
  "rt_malloc sz h =
     (if sz = 0 then Some (0, h)
      else
        (let sz = RT_ALIGN sz
         in if sz > mem_size_aligned h then Some (0, h)
            else do {
              let sz = (if sz < RT_ALIGN MIN_SIZE then RT_ALIGN MIN_SIZE else sz);
              h \<leftarrow> heap_lock h;
              r \<leftarrow> malloc_search (lfree h - heap_ptr h) sz h;
              case r of None \<Rightarrow> Some (0, heap_unlock h) | Some ptr \<Rightarrow> malloc_take ptr sz h }))"

section \<open>rt_free, rt_realloc and rt_calloc\<close>

definition rt_free :: "u32 \<Rightarrow> heap \<Rightarrow> heap option" where
  "rt_free rmem h =
     (if rmem = 0 then Some h
      else do {
        _ \<leftarrow> RT_ASSERT (rmem AND (4 - 1) = 0);
        _ \<leftarrow> RT_ASSERT (heap_ptr h \<le> rmem \<and> rmem < heap_end h);
        if rmem < heap_ptr h \<or> rmem \<ge> heap_end h then Some h
        else do {
          let mem = rmem - SIZEOF_STRUCT_MEM;
          h \<leftarrow> heap_lock h;
          m \<leftarrow> headers h mem;
          _ \<leftarrow> RT_ASSERT (mem_used m \<noteq> 0);
          _ \<leftarrow> RT_ASSERT (mem_magic m = HEAP_MAGIC);
          h \<leftarrow> set_header mem (\<lambda>m. m\<lparr>mem_used := 0, mem_magic := HEAP_MAGIC\<rparr>) h;
          let h = (if mem < lfree h then h\<lparr>lfree := mem\<rparr> else h);
          let h = h\<lparr>used_mem := used_mem h - (mem_next m - (mem - heap_ptr h))\<rparr>;
          h \<leftarrow> plug_holes mem h;
          Some (heap_unlock h) } })"

text \<open>The block is cut after \<open>newsize\<close> bytes.\<close>

definition realloc_shrink :: "u32 \<Rightarrow> u32 \<Rightarrow> u32 \<Rightarrow> heap \<Rightarrow> heap option" where
  "realloc_shrink mem sz newsize h = do {
     m \<leftarrow> headers h mem;
     let ptr = mem - heap_ptr h;
     let h = h\<lparr>used_mem := used_mem h - (sz - newsize)\<rparr>;
     let ptr2 = ptr + SIZEOF_STRUCT_MEM + newsize;
     let mem2 = heap_ptr h + ptr2;
     let h = h\<lparr>headers := (headers h)(mem2 \<mapsto>
       \<lparr>mem_magic = HEAP_MAGIC, mem_used = 0, mem_next = mem_next m, mem_prev = ptr\<rparr>)\<rparr>;
     h \<leftarrow> set_header mem (\<lambda>m. m\<lparr>mem_next := ptr2\<rparr>) h;
     h \<leftarrow> (if mem_next m \<noteq> mem_size_aligned h + SIZEOF_STRUCT_MEM
           then set_header (heap_ptr h + mem_next m) (\<lambda>x. x\<lparr>mem_prev := ptr2\<rparr>) h else Some h);
     plug_holes mem2 h }"

definition rt_realloc :: "u32 \<Rightarrow> u32 \<Rightarrow> heap \<Rightarrow> (u32 \<times> heap) option" where
  "rt_realloc rmem newsize h =
     (let newsize = RT_ALIGN newsize
      in if newsize > mem_size_aligned h then Some (0, h)
         else if newsize = 0 then do { h \<leftarrow> rt_free rmem h; Some (0, h) }
         else if rmem = 0 then rt_malloc newsize h
         else do {
           h \<leftarrow> heap_lock h;
           if rmem < heap_ptr h \<or> rmem \<ge> heap_end h then Some (rmem, heap_unlock h)
           else do {
             let mem = rmem - SIZEOF_STRUCT_MEM;
             m \<leftarrow> headers h mem;
             let ptr = mem - heap_ptr h;
             let sz = mem_next m - ptr - SIZEOF_STRUCT_MEM;
             if sz = newsize then Some (rmem, heap_unlock h)
             else if newsize + SIZEOF_STRUCT_MEM + MIN_SIZE < sz then do {
               h \<leftarrow> realloc_shrink mem sz newsize h;
               Some (rmem, heap_unlock h) }
             else do {
               let h = heap_unlock h;
               (nmem, h) \<leftarrow> rt_malloc newsize h;
               if nmem \<noteq> 0 then do {
                 (_, b) \<leftarrow> rt_memcpy nmem rmem (if sz < newsize then sz else newsize) (user_bytes h);
                 h \<leftarrow> rt_free rmem (h\<lparr>user_bytes := b\<rparr>);
                 Some (nmem, h) }
               else Some (nmem, h) } } })"

definition rt_calloc :: "u32 \<Rightarrow> u32 \<Rightarrow> heap \<Rightarrow> (u32 \<times> heap) option" where
  "rt_calloc count sz h = do {
     (p, h) \<leftarrow> rt_malloc (count * sz) h;
     if p \<noteq> 0 then do {
       (_, b) \<leftarrow> rt_memset p 0 (count * sz) (user_bytes h);
       Some (p, h\<lparr>user_bytes := b\<rparr>) }
     else Some (p, h) }"

text \<open>
  The total size, the used size and the most that was ever used, each stored where the caller
  wants it; \<open>None\<close> is a null pointer.
\<close>

definition rt_memory_info ::
  "u32 option \<Rightarrow> u32 option \<Rightarrow> u32 option \<Rightarrow> heap \<Rightarrow> u32 option \<times> u32 option \<times> u32 option" where
  "rt_memory_info tot used max_used h =
     (map_option (\<lambda>_. mem_size_aligned h) tot, map_option (\<lambda>_. used_mem h) used,
      map_option (\<lambda>_. max_mem h) max_used)"

end
