(* ===== verification/Mem_Blocks.thy ===== *)
theory Mem_Blocks
  imports Mem
begin

text \<open>
  The heap of \<open>Mem\<close> as a list of blocks, the invariant of the allocator and what \<open>rt_malloc\<close> does to it:
  the search, the marking and cutting of the block found, and the move of \<open>lfree\<close>.
\<close>

section \<open>The heap as a list of blocks\<close>

text \<open>A block is used or not and has a size with its header.\<close>

type_synonym block = "bool \<times> nat"

definition extent :: "block list \<Rightarrow> nat" where
  "extent bs = sum_list (map snd bs)"

lemma extent_simps [simp]: "extent [] = 0" "extent (b # bs) = snd b + extent bs" "extent (as @ bs) = extent as + extent bs"
  by (simp_all add: extent_def)

definition header_of :: "nat \<Rightarrow> nat \<Rightarrow> block \<Rightarrow> heap_mem" where
  "header_of p off b = \<lparr>mem_magic = HEAP_MAGIC, mem_used = (if fst b then 1 else 0), mem_next = of_nat (off + snd b), mem_prev = of_nat p\<rparr>"

lemma header_offset:
  "mem_used (header_of p off b) = 0 \<longleftrightarrow> \<not> fst b" "mem_next (header_of p off b) = of_nat (off + snd b)"
  "mem_prev (header_of p off b) = of_nat p" "mem_magic (header_of p off b) = HEAP_MAGIC"
  by (simp_all add: header_of_def)

text \<open>\<open>p\<close> is the offset of the block in front of \<open>off\<close>.\<close>

primrec headers_at :: "(u32 \<Rightarrow> heap_mem option) \<Rightarrow> u32 \<Rightarrow> nat \<Rightarrow> nat \<Rightarrow> block list \<Rightarrow> bool" where
  "headers_at H base p off [] \<longleftrightarrow> True"
| "headers_at H base p off (b # bs) \<longleftrightarrow>
     H (base + of_nat off) = Some (header_of p off b) \<and> headers_at H base off (off + snd b) bs"

definition last_off :: "nat \<Rightarrow> nat \<Rightarrow> block list \<Rightarrow> nat" where
  "last_off p off bs = (if bs = [] then p else off + extent (butlast bs))"

lemma last_off_simps [simp]: "last_off p off [] = p" "last_off p off (bs @ [b]) = off + extent bs"
  by (simp_all add: last_off_def)

lemma last_off_Cons [simp]: "last_off p off (b # bs) = last_off off (off + snd b) bs"
  by (simp add: last_off_def)

lemma headers_at_append [simp]:
  "headers_at H base p off (as @ bs) \<longleftrightarrow>
   headers_at H base p off as \<and> headers_at H base (last_off p off as) (off + extent as) bs"
  by (induction as arbitrary: p off) (auto simp: add.assoc)

lemma addr_eq: "i < 2 ^ 32 \<Longrightarrow> j < 2 ^ 32 \<Longrightarrow> base + of_nat i = base + (of_nat j :: u32) \<longleftrightarrow> i = j"
proof -
  assume "i < 2 ^ 32" "j < 2 ^ 32"
  then have "unat (of_nat i :: u32) = i" "unat (of_nat j :: u32) = j" by (simp_all add: unat_of_nat take_bit_nat_eq_self)
  then show ?thesis by (metis add_left_cancel)
qed

definition sized :: "block list \<Rightarrow> bool" where
  "sized bs \<longleftrightarrow> (\<forall>b \<in> set bs. 16 \<le> snd b \<and> 4 dvd snd b)"

lemma sized_simps [simp]: "sized []" "sized (b # bs) \<longleftrightarrow> 16 \<le> snd b \<and> 4 dvd snd b \<and> sized bs"
  "sized (as @ bs) \<longleftrightarrow> sized as \<and> sized bs"
  by (auto simp: sized_def)

lemma sized_extent: "sized bs \<Longrightarrow> 4 dvd extent bs"
  by (induction bs) auto

text \<open>A header outside a row of blocks does not matter to it.\<close>

lemma headers_at_other:
  "off + extent bs \<le> 2 ^ 32 \<Longrightarrow> k < 2 ^ 32 \<Longrightarrow> k < off \<or> off + extent bs \<le> k \<Longrightarrow> sized bs \<Longrightarrow>
   headers_at (H(base + of_nat k := v)) base p off bs = headers_at H base p off bs"
proof (induction bs arbitrary: p off)
  case (Cons b bs)
  have "off < 2 ^ 32" "off \<noteq> k" using Cons.prems by auto
  then have "base + of_nat off \<noteq> base + (of_nat k :: u32)" using addr_eq Cons.prems(2) by blast
  then show ?case using Cons by auto
qed simp

text \<open>A row of blocks with a used header behind it\<close>

primrec row_at :: "(u32 \<Rightarrow> heap_mem option) \<Rightarrow> u32 \<Rightarrow> nat \<Rightarrow> nat \<Rightarrow> block list \<Rightarrow> bool" where
  "row_at H base p off [] \<longleftrightarrow> (\<exists>e. H (base + of_nat off) = Some e \<and> mem_used e = 1)"
| "row_at H base p off (b # bs) \<longleftrightarrow>
     H (base + of_nat off) = Some (header_of p off b) \<and> row_at H base off (off + snd b) bs"

lemma row_at_append [simp]:
  "row_at H base p off (as @ bs) \<longleftrightarrow>
   headers_at H base p off as \<and> row_at H base (last_off p off as) (off + extent as) bs"
  by (induction as arbitrary: p off) (auto simp: add.assoc)

lemma row_at_other:
  "off + extent bs < 2 ^ 32 \<Longrightarrow> k < 2 ^ 32 \<Longrightarrow> k < off \<or> off + extent bs < k \<Longrightarrow> sized bs \<Longrightarrow>
   row_at (H(base + of_nat k := v)) base p off bs = row_at H base p off bs"
proof (induction bs arbitrary: p off)
  case Nil
  then have "base + of_nat off \<noteq> base + (of_nat k :: u32)" using addr_eq [of off k base] by auto
  then show ?case by simp
next
  case (Cons b bs)
  have "off < 2 ^ 32" "off \<noteq> k" using Cons.prems by auto
  then have "base + of_nat off \<noteq> base + (of_nat k :: u32)" using addr_eq Cons.prems(2) by blast
  then show ?case using Cons by auto
qed

text \<open>The first header of a row gets another predecessor.\<close>

lemma row_at_link:
  assumes "row_at H base p off bs" "off + extent bs < 2 ^ 32" "sized bs"
  obtains x where "H (base + of_nat off) = Some x"
    and "row_at (H(base + of_nat off \<mapsto> x\<lparr>mem_prev := of_nat q\<rparr>)) base q off bs"
proof (cases bs)
  case Nil
  then show ?thesis using assms(1) that by auto
next
  case (Cons b cs)
  have "row_at (H(base + of_nat off \<mapsto> header_of q off b)) base off (off + snd b) cs"
    using assms Cons row_at_other [of "off + snd b" cs off H base] by auto
  then show ?thesis using assms(1) Cons that [of "header_of p off b"] by (simp add: header_of_def)
qed

text \<open>No two free blocks are neighbours.\<close>

abbreviation coalesced :: "block list \<Rightarrow> bool" where
  "coalesced \<equiv> successively (\<lambda>a b. fst a \<or> fst b)"

text \<open>The headers in the memory form the row of blocks, and the used bytes are counted.\<close>

definition heap_shape :: "heap \<Rightarrow> block list \<Rightarrow> bool" where
  "heap_shape h bs \<longleftrightarrow>
     bs \<noteq> [] \<and> sized bs \<and> unat (mem_size_aligned h) + 12 = extent bs \<and>
     heap_end h = heap_ptr h + of_nat (extent bs) \<and> unat (heap_ptr h) + extent bs + 12 < 2 ^ 32 \<and> 4 dvd unat (heap_ptr h) \<and>
     row_at (headers h) (heap_ptr h) 0 0 bs \<and>
     used_mem h = of_nat (extent (filter fst bs))"

text \<open>The invariant: besides, \<open>lfree\<close> is the first free block, and nobody holds the semaphore.\<close>

definition heap_ok :: "heap \<Rightarrow> block list \<Rightarrow> bool" where
  "heap_ok h bs \<longleftrightarrow> heap_shape h bs \<and> 24 \<le> extent bs \<and> coalesced bs \<and> 0 < heap_sem h \<and>
     lfree h = heap_ptr h + of_nat (extent (takeWhile fst bs))"

lemma heap_shape_extent: "heap_shape h bs \<Longrightarrow> extent bs < 2 ^ 32"
  by (simp add: heap_shape_def)

lemma heap_shape_header:
  assumes "heap_shape h (as @ b # cs)"
  shows "headers h (heap_ptr h + of_nat (extent as)) = Some (header_of (last_off 0 0 as) (extent as) b)"
  using assms by (simp add: heap_shape_def)

lemma heap_shape_end:
  assumes "heap_shape h bs"
  obtains e where "headers h (heap_end h) = Some e" "mem_used e = 1"
  using assms row_at_append [of "headers h" "heap_ptr h" 0 0 bs "[]"] by (auto simp: heap_shape_def)

lemma heap_shape_size:
  assumes "heap_shape h bs" "extent bs = n"
  shows "mem_size_aligned h + SIZEOF_STRUCT_MEM = of_nat n"
proof -
  have e: "unat (mem_size_aligned h) + 12 = n" "n < 2 ^ 32" using assms by (auto simp: heap_shape_def)
  then have "unat (mem_size_aligned h + SIZEOF_STRUCT_MEM) = n" by (simp add: SIZEOF_STRUCT_MEM_def unat_word_ariths)
  moreover have "mem_size_aligned h + SIZEOF_STRUCT_MEM = of_nat (unat (mem_size_aligned h + SIZEOF_STRUCT_MEM))" by simp
  ultimately show ?thesis by (simp only:)
qed

lemma addr_neq:
  "i < j \<Longrightarrow> j < 2 ^ 32 \<Longrightarrow> base + of_nat i \<noteq> base + (of_nat j :: u32)"
  "i < j \<Longrightarrow> j < 2 ^ 32 \<Longrightarrow> base + of_nat j \<noteq> base + (of_nat i :: u32)"
  using addr_eq [of i j base] by auto

section \<open>Searching\<close>

text \<open>
  \<open>search_ok m n off bs r\<close>: \<open>r\<close> is the offset of a block of the row \<open>bs\<close> at \<open>off\<close> that is free, can hold
  \<open>n\<close> bytes and starts more than \<open>n\<close> bytes in front of \<open>m\<close>, or there is none.
\<close>

definition search_ok :: "nat \<Rightarrow> nat \<Rightarrow> nat \<Rightarrow> block list \<Rightarrow> u32 option \<Rightarrow> bool" where
  "search_ok m n off bs r \<longleftrightarrow>
     (case r of
        None \<Rightarrow> \<forall>ds l es. bs = ds @ (False, l) # es \<and> off + extent ds + n < m \<longrightarrow> l < 12 + n
      | Some ptr \<Rightarrow> \<exists>ds l es. bs = ds @ (False, l) # es \<and> ptr = of_nat (off + extent ds) \<and> 12 + n \<le> l \<and> off + extent ds + n < m)"

lemma search_ok_here: "12 + n \<le> l \<Longrightarrow> off + n < m \<Longrightarrow> search_ok m n off ((False, l) # bs) (Some (of_nat off))"
  unfolding search_ok_def option.case by (intro exI [of _ "[]"] exI [of _ l] exI [of _ bs]) simp

lemma search_ok_Cons:
  assumes "search_ok m n (off + snd b) bs r" "fst b \<or> snd b < 12 + n"
  shows "search_ok m n off (b # bs) r"
proof (cases r)
  case None
  show ?thesis unfolding None search_ok_def option.case
  proof (intro allI impI, elim conjE)
    fix ds l es
    assume e: "b # bs = ds @ (False, l) # es" "off + extent ds + n < m"
    show "l < 12 + n"
    proof (cases ds)
      case (Cons d ds')
      then have "bs = ds' @ (False, l) # es" "off + snd b + extent ds' + n < m" using e by (auto simp: add.assoc)
      then show ?thesis using assms(1) unfolding None search_ok_def option.case by blast
    qed (use e assms(2) in auto)
  qed
next
  case (Some ptr)
  then obtain ds l es where "bs = ds @ (False, l) # es" "ptr = of_nat (off + snd b + extent ds)" "12 + n \<le> l"
    "off + snd b + extent ds + n < m"
    using assms(1) by (auto simp: search_ok_def)
  then show ?thesis unfolding Some search_ok_def option.case
    by (intro exI [of _ "b # ds"] exI [of _ l] exI [of _ es]) (simp add: add.assoc)
qed

lemma search_ok_past: "m \<le> off + n \<Longrightarrow> search_ok m n off bs None"
  by (auto simp: search_ok_def)

text \<open>The loop condition and the size of a free block, read as numbers\<close>

lemma unat_less_diff:
  assumes "unat b \<le> unat a" "k < 2 ^ 32"
  shows "(of_nat k :: u32) < a - b \<longleftrightarrow> k + unat b < unat a"
proof -
  have "unat (a - b) = unat a - unat b" using assms(1) by (simp add: unat_sub word_le_nat_alt)
  then show ?thesis using assms unat_small [of k] by (auto simp: word_less_nat_alt simp del: unsigned_of_nat)
qed

lemma block_room:
  fixes w :: u32
  assumes "12 \<le> l" "l < 2 ^ 32"
  shows "w \<le> of_nat (off + l) - (of_nat off + SIZEOF_STRUCT_MEM) \<longleftrightarrow> 12 + unat w \<le> l"
proof -
  have "(of_nat (off + l) - (of_nat off + SIZEOF_STRUCT_MEM) :: u32) = of_nat (l - 12)"
    using assms(1) by (simp add: of_nat_diff SIZEOF_STRUCT_MEM_def)
  moreover have "unat (of_nat (l - 12) :: u32) = l - 12" by (rule unat_small) (use assms(2) in simp)
  ultimately show ?thesis using assms(1) by (auto simp: word_le_nat_alt simp del: unsigned_of_nat)
qed

lemma malloc_search_finds:
  assumes h: "heap_shape h (as @ cs)" and sz: "unat sz \<le> unat (mem_size_aligned h)"
  shows "\<exists>r. malloc_search (of_nat (extent as)) sz h = Some r \<and>
    search_ok (unat (mem_size_aligned h)) (unat sz) (extent as) cs r"
  using h
proof (induction cs arbitrary: as)
  case Nil
  then have t: "unat (mem_size_aligned h) + 12 = extent as" "extent as < 2 ^ 32" by (simp_all add: heap_shape_def)
  then have "\<not> (of_nat (extent as) :: u32) < mem_size_aligned h - sz"
    unfolding unat_less_diff [OF sz t(2)] by linarith
  then show ?case using t(1) search_ok_past by (subst malloc_search.simps) (auto intro!: exI [of _ None])
next
  case (Cons b cs)
  obtain u l where b: "b = (u, l)" by (cases b)
  have s: "extent as < 2 ^ 32" "12 \<le> l" "l < 2 ^ 32" using Cons.prems by (auto simp: heap_shape_def b)
  note c = unat_less_diff [OF sz s(1)] and hd = heap_shape_header [OF Cons.prems, unfolded header_of_def b]
    and fits = block_room [OF s(2,3), of sz "extent as"]
  show ?case
  proof (cases "extent as + unat sz < unat (mem_size_aligned h)")
    case False
    then show ?thesis using c search_ok_past by (subst malloc_search.simps) (auto intro!: exI [of _ None])
  next
    case True
    show ?thesis
    proof (cases "\<not> u \<and> 12 + unat sz \<le> l")
      case fit: True
      then have "malloc_search (of_nat (extent as)) sz h = Some (Some (of_nat (extent as)))"
        using True c hd fits by (subst malloc_search.simps) (simp del: of_nat_add)
      then show ?thesis using fit True b search_ok_here by auto
    next
      case nofit: False
      then have "malloc_search (of_nat (extent as)) sz h = malloc_search (of_nat (extent (as @ [b]))) sz h"
        using True c hd fits by (subst malloc_search.simps) (auto simp: b simp del: of_nat_add)
      moreover have "heap_shape h ((as @ [b]) @ cs)" using Cons.prems by simp
      ultimately show ?thesis using Cons.IH [of "as @ [b]"] search_ok_Cons [of _ _ "extent as" b cs] nofit b by auto
    qed
  qed
qed

section \<open>Marking a block as used\<close>

lemma heap_shape_fields [simp]:
  "heap_shape (h\<lparr>lfree := x\<rparr>) bs = heap_shape h bs" "heap_shape (h\<lparr>heap_sem := y\<rparr>) bs = heap_shape h bs"
  "heap_shape (h\<lparr>lfree := x, headers := H\<rparr>) bs = heap_shape (h\<lparr>headers := H\<rparr>) bs"
  "heap_shape (h\<lparr>max_mem := x\<rparr>) bs = heap_shape h bs" "heap_shape (h\<lparr>user_bytes := z\<rparr>) bs = heap_shape h bs"
  by (simp_all add: heap_shape_def)

lemma advance_lfree_finds:
  "heap_shape h (as @ cs) \<Longrightarrow> lfree h = heap_ptr h + of_nat (extent as) \<Longrightarrow>
   advance_lfree h = Some (h\<lparr>lfree := heap_ptr h + of_nat (extent as + extent (takeWhile fst cs))\<rparr>)"
proof (induction cs arbitrary: as h)
  case Nil
  then have e: "heap_shape h as" "lfree h = heap_end h" by (simp_all add: heap_shape_def)
  obtain x where "headers h (heap_end h) = Some x" by (rule heap_shape_end [OF e(1)])
  then have "advance_lfree h = Some h" using e(2) by (subst advance_lfree.simps) simp
  then show ?case using Nil.prems(2) by (cases h) simp
next
  case (Cons b cs)
  have ne: "lfree h \<noteq> heap_end h"
    using Cons.prems addr_eq [of "extent as" "extent (as @ b # cs)" "heap_ptr h"] by (auto simp: heap_shape_def)
  note hd = heap_shape_header [OF Cons.prems(1), unfolded header_of_def]
  show ?case
  proof (cases "fst b")
    case True
    let ?h = "h\<lparr>lfree := heap_ptr h + of_nat (extent (as @ [b]))\<rparr>"
    have "advance_lfree h = advance_lfree ?h"
      using True ne hd Cons.prems(2) by (subst advance_lfree.simps) simp
    also have "\<dots> = Some (?h\<lparr>lfree := heap_ptr ?h + of_nat (extent (as @ [b]) + extent (takeWhile fst cs))\<rparr>)"
      by (rule Cons.IH) (use Cons.prems(1) in simp_all)
    finally show ?thesis using True by (simp add: add.assoc)
  next
    case False
    then have "advance_lfree h = Some h" using ne hd Cons.prems(2) by (subst advance_lfree.simps) simp
    then show ?thesis using False Cons.prems(2) by (cases h) simp
  qed
qed

text \<open>A block of size \<open>l\<close> from which \<open>n\<close> bytes are taken\<close>

definition cut :: "nat \<Rightarrow> nat \<Rightarrow> block list" where
  "cut n l = (if n + 36 \<le> l then [(True, n + 12), (False, l - (n + 12))] else [(True, l)])"

definition only_headers_changed :: "heap \<Rightarrow> heap \<Rightarrow> bool" where
  "only_headers_changed h h' \<longleftrightarrow>
     heap_ptr h' = heap_ptr h \<and> heap_end h' = heap_end h \<and> lfree h' = lfree h \<and> mem_size_aligned h' = mem_size_aligned h \<and>
     heap_sem h' = heap_sem h \<and> user_bytes h' = user_bytes h"

lemma count_used_fields [simp]:
  "heap_ptr (count_used n h) = heap_ptr h" "heap_end (count_used n h) = heap_end h" "headers (count_used n h) = headers h"
  "mem_size_aligned (count_used n h) = mem_size_aligned h" "used_mem (count_used n h) = used_mem h + n"
  "heap_sem (count_used n h) = heap_sem h" "lfree (count_used n h) = lfree h" "user_bytes (count_used n h) = user_bytes h"
  by (simp_all add: count_used_def Let_def)

lemma set_header_at:
  "headers h p = Some m \<Longrightarrow> set_header p f h = Some (h\<lparr>headers := (headers h)(p \<mapsto> f m)\<rparr>)"
  by (simp add: set_header_def)

lemma malloc_mark_whole:
  assumes h: "heap_shape h (as @ (False, l) # cs)" and l: "12 + unat sz \<le> l" "l < unat sz + 36"
  shows "\<exists>h'. malloc_mark (of_nat (extent as)) sz h = Some h' \<and> heap_shape h' (as @ (True, l) # cs) \<and> only_headers_changed h h'"
proof -
  let ?a = "heap_ptr h + of_nat (extent as)"
  have s: "extent as + l + extent cs < 2 ^ 32" "12 \<le> l" "l < 2 ^ 32" "sized as" "sized cs" using h by (auto simp: heap_shape_def)
  note hd = heap_shape_header [OF h, unfolded header_of_def]
  have "unat (sz + SIZEOF_STRUCT_MEM + RT_ALIGN MIN_SIZE) = unat sz + 24"
    using h l by (simp add: heap_shape_def SIZEOF_STRUCT_MEM_def MIN_SIZE_def RT_ALIGN_def unat_word_ariths)
  then have small: "\<not> sz + SIZEOF_STRUCT_MEM + RT_ALIGN MIN_SIZE \<le> of_nat (extent as + l) - (of_nat (extent as) + SIZEOF_STRUCT_MEM)"
    using block_room [OF s(2,3), of "sz + SIZEOF_STRUCT_MEM + RT_ALIGN MIN_SIZE" "extent as"] l(2) by simp
  let ?h = "h\<lparr>headers := (headers h)(?a \<mapsto> header_of (last_off 0 0 as) (extent as) (True, l))\<rparr>"
  have mk: "malloc_mark (of_nat (extent as)) sz h = Some (count_used (of_nat l) ?h)"
    using small hd by (simp add: malloc_mark_def set_header_at header_of_def Let_def del: of_nat_add) simp
  have "row_at (headers ?h) (heap_ptr h) (extent as) (extent as + l) cs"
    using h s row_at_other [of "extent as + l" cs "extent as"] by (simp add: heap_shape_def)
  moreover have "headers_at (headers ?h) (heap_ptr h) 0 0 as"
    using h s headers_at_other [of 0 as "extent as"] by (simp add: heap_shape_def)
  ultimately have "heap_shape (count_used (of_nat l) ?h) (as @ (True, l) # cs)"
    using h by (simp add: heap_shape_def)
  then show ?thesis using mk by (auto simp: only_headers_changed_def count_used_def Let_def)
qed

text \<open>A block is cut in two: the new header, the one in front of it and the one behind it are written.\<close>

lemma split_headers:
  assumes h: "heap_shape h (as @ (u, l) # cs)" and k: "16 \<le> k" "4 dvd k" "k + 16 \<le> l"
    and f: "\<And>p. f (header_of p (extent as) (u, l)) = header_of p (extent as) (True, k)"
    and g: "headers g = headers h" "heap_ptr g = heap_ptr h" "mem_size_aligned g = mem_size_aligned h"
    and o1: "o1 = of_nat (extent as)" and o2: "o2 = of_nat (extent as + k)" and o3: "o3 = of_nat (extent as + l)"
  obtains H where
    "do { g \<leftarrow> set_header (heap_ptr h + o1) f (g\<lparr>headers := (headers g)(heap_ptr h + o2 \<mapsto>
            \<lparr>mem_magic = HEAP_MAGIC, mem_used = 0, mem_next = o3, mem_prev = o1\<rparr>)\<rparr>);
          if o3 \<noteq> mem_size_aligned g + SIZEOF_STRUCT_MEM
          then set_header (heap_ptr g + o3) (\<lambda>x. x\<lparr>mem_prev := o2\<rparr>) g else Some g } = Some (g\<lparr>headers := H\<rparr>)"
    and "heap_shape (h\<lparr>headers := H, used_mem := of_nat (extent (filter fst (as @ (True, k) # cs)))\<rparr>)
      (as @ (True, k) # (False, l - k) # cs)"
proof -
  define i1 i2 i3 where i: "i1 = extent as" "i2 = i1 + k" "i3 = i1 + l"
  let ?b = "heap_ptr h"
  let ?a = "\<lambda>i. ?b + of_nat i"
  have s: "i3 + extent cs < 2 ^ 32" "sized as" "sized cs" "4 dvd l"
    and lt: "i1 < i2" "i2 < i3" "i3 < 2 ^ 32" "i2 < 2 ^ 32" "i1 < 2 ^ 32" "i2 + (l - k) = i3"
    using h k by (auto simp: heap_shape_def i)
  have oi: "o1 = of_nat i1" "o2 = of_nat i2" "o3 = of_nat i3" by (simp_all only: o1 o2 o3 i)
  have hd: "headers h (?a i1) = Some (header_of (last_off 0 0 as) i1 (u, l))"
    unfolding i using heap_shape_header [OF h] by simp
  define H1 where H1: "H1 = (headers h)(?a i2 \<mapsto> header_of i1 i2 (False, l - k))"
  define H2 where H2: "H2 = H1(?a i1 \<mapsto> header_of (last_off 0 0 as) i1 (True, k))"
  have r: "row_at H2 ?b i1 i3 cs"
    using h s lt unfolding H1 H2 by (simp add: row_at_other) (simp add: heap_shape_def i)
  have as: "headers_at H2 ?b 0 0 as"
    using h s lt unfolding H1 H2 by (simp add: headers_at_other i(1) [symmetric]) (simp add: heap_shape_def)
  obtain x where x: "H2 (?a i3) = Some x" "row_at (H2(?a i3 \<mapsto> x\<lparr>mem_prev := of_nat i2\<rparr>)) ?b i2 i3 cs"
    by (rule row_at_link [OF r s(1) s(3)])
  define H3 where H3: "H3 = (if cs = [] then H2 else H2(?a i3 \<mapsto> x\<lparr>mem_prev := of_nat i2\<rparr>))"
  have r3: "row_at H3 ?b i2 i3 cs" using x(2) r by (cases cs) (auto simp: H3)
  have H3_as: "headers_at H3 ?b 0 0 as" using as s lt headers_at_other [of 0 as i3] by (simp add: H3 i(1) [symmetric])
  have H3_a: "H3 (?a i1) = Some (header_of (last_off 0 0 as) i1 (True, k))" "H3 (?a i2) = Some (header_of i1 i2 (False, l - k))"
    using addr_neq [of i1 i2] addr_neq [of i1 i3] addr_neq [of i2 i3] lt by (auto simp: H1 H2 H3)
  have end_off: "mem_size_aligned h + SIZEOF_STRUCT_MEM = of_nat (i3 + extent cs)"
    by (rule heap_shape_size [OF h]) (simp add: i)
  have nx: "of_nat i3 \<noteq> mem_size_aligned h + SIZEOF_STRUCT_MEM \<longleftrightarrow> cs \<noteq> []"
    unfolding end_off using addr_eq [of i3 "i3 + extent cs" 0] s(1,3) lt by (cases cs) (auto simp del: of_nat_add)
  have new: "\<lparr>mem_magic = HEAP_MAGIC, mem_used = 0, mem_next = of_nat i3, mem_prev = of_nat i1\<rparr> = header_of i1 i2 (False, l - k)"
    unfolding header_of_def using lt(6) by simp
  have "set_header (?a i1) f (g\<lparr>headers := H1\<rparr>) = Some (g\<lparr>headers := H2\<rparr>)"
    using hd f [folded i(1)] addr_neq(1) [OF lt(1,4)] by (simp add: set_header_def H2 H1)
  moreover have "set_header (?a i3) (\<lambda>x. x\<lparr>mem_prev := of_nat i2\<rparr>) (g\<lparr>headers := H2\<rparr>) =
      Some (g\<lparr>headers := H2(?a i3 \<mapsto> x\<lparr>mem_prev := of_nat i2\<rparr>)\<rparr>)"
    using x(1) by (simp add: set_header_def)
  ultimately have "do { g \<leftarrow> set_header (heap_ptr h + o1) f (g\<lparr>headers := (headers g)(heap_ptr h + o2 \<mapsto>
            \<lparr>mem_magic = HEAP_MAGIC, mem_used = 0, mem_next = o3, mem_prev = o1\<rparr>)\<rparr>);
          if o3 \<noteq> mem_size_aligned g + SIZEOF_STRUCT_MEM
          then set_header (heap_ptr g + o3) (\<lambda>x. x\<lparr>mem_prev := o2\<rparr>) g else Some g } = Some (g\<lparr>headers := H3\<rparr>)"
    unfolding oi new g(1) H1 [symmetric] using nx g by (simp add: H3)
  moreover have "heap_shape (h\<lparr>headers := H3, used_mem := of_nat (extent (filter fst (as @ (True, k) # cs)))\<rparr>)
      (as @ (True, k) # (False, l - k) # cs)"
    using h r3 H3_as H3_a k s(4) lt(6) by (simp add: heap_shape_def i)
  ultimately show ?thesis using that by blast
qed

lemma malloc_mark_cut:
  assumes h: "heap_shape h (as @ (False, l) # cs)" and l: "unat sz + 36 \<le> l" and n: "12 \<le> unat sz" "4 dvd unat sz"
  shows "\<exists>h'. malloc_mark (of_nat (extent as)) sz h = Some h' \<and>
    heap_shape h' (as @ (True, unat sz + 12) # (False, l - (unat sz + 12)) # cs) \<and> only_headers_changed h h'"
proof -
  define k where k: "k = unat sz + 12"
  have s: "12 \<le> l" "l < 2 ^ 32" using h by (auto simp: heap_shape_def)
  have hd: "headers h (heap_ptr h + of_nat (extent as)) = Some (header_of (last_off 0 0 as) (extent as) (False, l))"
    by (rule heap_shape_header [OF h])
  have "unat (sz + SIZEOF_STRUCT_MEM + RT_ALIGN MIN_SIZE) = unat sz + 24"
    using l s(2) by (simp add: SIZEOF_STRUCT_MEM_def MIN_SIZE_def RT_ALIGN_def unat_word_ariths)
  then have large: "sz + SIZEOF_STRUCT_MEM + RT_ALIGN MIN_SIZE \<le> of_nat (extent as + l) - (of_nat (extent as) + SIZEOF_STRUCT_MEM)"
    using block_room [OF s, of "sz + SIZEOF_STRUCT_MEM + RT_ALIGN MIN_SIZE" "extent as"] l by simp
  have p2: "of_nat (extent as) + SIZEOF_STRUCT_MEM + sz = of_nat (extent as + k)" by (simp add: k SIZEOF_STRUCT_MEM_def)
  let ?f = "\<lambda>m. m\<lparr>mem_next := of_nat (extent as + k), mem_used := 1\<rparr>"
  have f: "?f (header_of p (extent as) (False, l)) = header_of p (extent as) (True, k)" for p by (simp add: header_of_def)
  obtain H where H: "do { g \<leftarrow> set_header (heap_ptr h + of_nat (extent as)) ?f
            (h\<lparr>headers := (headers h)(heap_ptr h + of_nat (extent as + k) \<mapsto>
              \<lparr>mem_magic = HEAP_MAGIC, mem_used = 0, mem_next = of_nat (extent as + l), mem_prev = of_nat (extent as)\<rparr>)\<rparr>);
          if of_nat (extent as + l) \<noteq> mem_size_aligned g + SIZEOF_STRUCT_MEM
          then set_header (heap_ptr g + of_nat (extent as + l)) (\<lambda>x. x\<lparr>mem_prev := of_nat (extent as + k)\<rparr>) g else Some g } =
        Some (h\<lparr>headers := H\<rparr>)"
    and shape: "heap_shape (h\<lparr>headers := H, used_mem := of_nat (extent (filter fst (as @ (True, k) # cs)))\<rparr>)
      (as @ (True, k) # (False, l - k) # cs)"
    by (rule split_headers [OF h _ _ _ f refl refl refl refl refl refl]) (use n l in \<open>simp_all add: k\<close>)
  let ?h = "count_used (sz + SIZEOF_STRUCT_MEM) (h\<lparr>headers := H\<rparr>)"
  have "malloc_mark (of_nat (extent as)) sz h = Some ?h"
    unfolding malloc_mark_def Let_def hd Option.bind.bind_lunit header_offset(2) snd_conv p2
    using large arg_cong [OF H, of "\<lambda>r. Option.bind r (\<lambda>h. Some (count_used (sz + SIZEOF_STRUCT_MEM) h))"]
    by (simp add: if_bind del: of_nat_add)
  moreover have "heap_shape ?h (as @ (True, k) # (False, l - k) # cs)"
    using shape h by (simp add: heap_shape_def k SIZEOF_STRUCT_MEM_def)
  ultimately show ?thesis unfolding k by (auto simp: only_headers_changed_def count_used_def Let_def)
qed

section \<open>rt_malloc\<close>

lemma malloc_mark_ok:
  assumes "heap_shape h (as @ (False, l) # cs)" "12 + unat sz \<le> l" "12 \<le> unat sz" "4 dvd unat sz"
  shows "\<exists>h'. malloc_mark (of_nat (extent as)) sz h = Some h' \<and> heap_shape h' (as @ cut (unat sz) l @ cs) \<and>
    only_headers_changed h h'"
proof (cases "unat sz + 36 \<le> l")
  case True
  then show ?thesis using malloc_mark_cut [OF assms(1) True assms(3,4)] by (simp add: cut_def)
next
  case False
  then show ?thesis using malloc_mark_whole [OF assms(1,2)] False by (simp add: cut_def)
qed

lemma extent_takeWhile:
  "sized bs \<Longrightarrow> extent (takeWhile P bs) \<le> extent bs \<and> (extent (takeWhile P bs) = extent bs \<longleftrightarrow> (\<forall>b \<in> set bs. P b))"
  by (induction bs) auto

text \<open>The header at the first free block, or at the end\<close>

lemma first_free_header:
  assumes "heap_shape h bs"
  obtains m where "headers h (heap_ptr h + of_nat (extent (takeWhile fst bs))) = Some m"
    and "heap_ptr h + of_nat (extent (takeWhile fst bs)) = heap_end h \<or> mem_used m = 0"
proof (cases "dropWhile fst bs")
  case Nil
  then have "takeWhile fst bs = bs" by (metis append_Nil2 takeWhile_dropWhile_id)
  moreover obtain e where "headers h (heap_end h) = Some e" by (rule heap_shape_end [OF assms])
  moreover have "heap_end h = heap_ptr h + of_nat (extent bs)" using assms by (simp add: heap_shape_def)
  ultimately show ?thesis using that by metis
next
  case (Cons b cs)
  then have "heap_shape h (takeWhile fst bs @ b # cs)" "\<not> fst b"
    using assms by (metis takeWhile_dropWhile_id) (metis Cons list.sel(1) hd_dropWhile list.distinct(1))
  then show ?thesis using that heap_shape_header by (auto simp: header_of_def)
qed

lemma set_header_same: "headers h p = Some m \<Longrightarrow> f m = m \<Longrightarrow> set_header p f h = Some h"
  by (cases h) (simp add: set_header_def fun_upd_idem)

definition heap_base_same :: "heap \<Rightarrow> heap \<Rightarrow> bool" where
  "heap_base_same h h' \<longleftrightarrow> heap_ptr h' = heap_ptr h \<and> mem_size_aligned h' = mem_size_aligned h \<and> user_bytes h' = user_bytes h"

lemma aligned_word: "4 dvd unat w \<Longrightarrow> w mod 4 = 0 \<and> w AND 3 = 0" for w :: u32
proof -
  assume "4 dvd unat w"
  then have "unat w mod 4 = 0" by simp
  then have "aligned4 w" "unat (w mod 4) = 0" by (simp_all add: aligned4_unat unat_mod)
  then show ?thesis by (simp add: aligned4_def unat_eq_zero)
qed

lemma cut_Cons: obtains k ds where "cut n l = (True, k) # ds"
  by (cases "n + 36 \<le> l") (auto simp: cut_def)

lemma malloc_take_ok:
  assumes h: "heap_shape h (as @ (False, l) # cs)" and l: "12 + unat sz \<le> l" "12 \<le> unat sz" "4 dvd unat sz"
    and f: "lfree h = heap_ptr h + of_nat (extent (takeWhile fst (as @ (False, l) # cs)))"
  shows "\<exists>h'. malloc_take (of_nat (extent as)) sz h = Some (heap_ptr h + of_nat (extent as + 12), h') \<and>
    heap_shape h' (as @ cut (unat sz) l @ cs) \<and>
    lfree h' = heap_ptr h + of_nat (extent (takeWhile fst (as @ cut (unat sz) l @ cs))) \<and>
    heap_sem h' = heap_sem h + 1 \<and> heap_base_same h h'"
proof -
  let ?bs = "as @ cut (unat sz) l @ cs" and ?a = "heap_ptr h + of_nat (extent as)"
  obtain h1 where h1: "malloc_mark (of_nat (extent as)) sz h = Some h1" "heap_shape h1 ?bs" "only_headers_changed h h1"
    using malloc_mark_ok [OF h l] by blast
  then have same: "heap_ptr h1 = heap_ptr h" "mem_size_aligned h1 = mem_size_aligned h" "user_bytes h1 = user_bytes h"
    "heap_sem h1 = heap_sem h" "lfree h1 = lfree h" "heap_end h1 = heap_end h"
    unfolding only_headers_changed_def by simp_all
  obtain k ds where c: "cut (unat sz) l = (True, k) # ds" by (rule cut_Cons)
  then have "headers h1 ?a = Some (header_of (last_off 0 0 as) (extent as) (True, k))"
    using heap_shape_header [of h1 as "(True, k)" "ds @ cs"] h1(2) same by simp
  then have magic: "set_header ?a (\<lambda>m. m\<lparr>mem_magic := HEAP_MAGIC\<rparr>) h1 = Some h1"
    by (rule set_header_same) (simp add: header_of_def)
  have fr: "lfree h1 = heap_ptr h + of_nat (extent (takeWhile fst as))"
  proof (cases "\<forall>b \<in> set as. fst b")
    case True
    then have w: "takeWhile fst (as @ (False, l) # cs) = as" "takeWhile fst as = as" by (simp_all add: takeWhile_eq_all_conv)
    show ?thesis unfolding same f w ..
  next
    case False
    then show ?thesis using f same takeWhile_append1 [of _ as fst "(False, l) # cs"] by auto
  qed
  have s: "sized as" "extent as < 2 ^ 32" using h by (auto simp: heap_shape_def)
  note tw = extent_takeWhile [OF s(1), of fst]
  define h2 where h2: "h2 = h1\<lparr>lfree := heap_ptr h + of_nat (extent (takeWhile fst ?bs))\<rparr>"
  have adv: "(if ?a = lfree h1 then do {
        h \<leftarrow> advance_lfree h1;
        m \<leftarrow> headers h (lfree h);
        _ \<leftarrow> RT_ASSERT (lfree h = heap_end h \<or> mem_used m = 0);
        Some h }
      else Some h1) = Some h2"
  proof (cases "\<forall>b \<in> set as. fst b")
    case True
    then have w: "takeWhile fst as = as" "takeWhile fst ?bs = as @ takeWhile fst (cut (unat sz) l @ cs)"
      by (simp_all add: takeWhile_eq_all_conv)
    have "advance_lfree h1 = Some h2"
      using advance_lfree_finds [OF h1(2)] fr same unfolding h2 w by (simp only: w extent_simps)
    moreover obtain m where "headers h1 (lfree h2) = Some m" "lfree h2 = heap_end h1 \<or> mem_used m = 0"
      using first_free_header [OF h1(2)] same by (auto simp: h2)
    ultimately show ?thesis using fr w by (simp add: h2 RT_ASSERT_def)
  next
    case False
    then have w: "takeWhile fst ?bs = takeWhile fst as" using takeWhile_append1 [of _ as fst] by auto
    have "extent as \<noteq> extent (takeWhile fst as)" using tw False by auto
    then have "?a \<noteq> lfree h1" unfolding fr using addr_eq [of "extent as" "extent (takeWhile fst as)" "heap_ptr h"] s(2) tw by auto
    then show ?thesis using fr by (simp add: h2 w)
  qed
  define p where p: "p = ?a + SIZEOF_STRUCT_MEM"
  have room: "unat (heap_ptr h) + extent as + l + extent cs < 2 ^ 32" "4 dvd unat (heap_ptr h)" "4 dvd extent as"
    "heap_end h = heap_ptr h + of_nat (extent as + l + extent cs)"
    using h sized_extent [OF s(1)] by (auto simp: heap_shape_def add.assoc)
  have u: "unat ?a = unat (heap_ptr h) + extent as" "unat (?a + SIZEOF_STRUCT_MEM) = unat (heap_ptr h) + extent as + 12"
    "unat (?a + SIZEOF_STRUCT_MEM + sz) = unat (heap_ptr h) + extent as + 12 + unat sz"
    "unat (heap_end h) = unat (heap_ptr h) + extent as + l + extent cs"
    using room l by (simp_all add: unat_word_ariths SIZEOF_STRUCT_MEM_def unat_of_nat)
  have "?a + SIZEOF_STRUCT_MEM + sz \<le> heap_end h" unfolding word_le_nat_alt u using l by simp
  moreover have "(?a + SIZEOF_STRUCT_MEM) mod 4 = 0" "?a AND 3 = 0"
    using aligned_word u room by auto
  ultimately have "malloc_take (of_nat (extent as)) sz h = Some (?a + SIZEOF_STRUCT_MEM, heap_unlock h2)"
    unfolding malloc_take_def Let_def h1(1) magic Option.bind.bind_lunit adv
    using same by (simp add: RT_ASSERT_def h2 heap_unlock_def)
  moreover have "?a + SIZEOF_STRUCT_MEM = heap_ptr h + of_nat (extent as + 12)" by (simp add: SIZEOF_STRUCT_MEM_def)
  ultimately show ?thesis using h1(2) same by (simp add: h2 heap_unlock_def heap_base_same_def)
qed

text \<open>The size a request is rounded to\<close>

definition request :: "nat \<Rightarrow> nat" where
  "request n = max 12 (4 * ((n + 3) div 4))"

lemma RT_ALIGN_rounds: "unat n + 3 < 2 ^ 32 \<Longrightarrow> unat (RT_ALIGN n) = 4 * ((unat n + 3) div 4)"
proof -
  assume n: "unat n + 3 < 2 ^ 32"
  define x where x: "x = n + 3"
  have "unat x = unat n + 3" using n by (simp add: x unat_word_ariths)
  have "(x AND 3) + (x AND NOT 3) = (x AND 3) OR (x AND NOT 3)"
    by (rule disjunctive_add) (auto simp: bit_simps)
  also have "\<dots> = x" by (rule bit_word_eqI) (auto simp: bit_simps)
  finally have "x AND NOT 3 = x - (x AND 3)" by (simp add: eq_diff_eq add.commute)
  also have "x AND 3 = x mod 4" using take_bit_eq_mod [of 2 x] by (simp add: take_bit_eq_mask mask_eq_exp_minus_1)
  finally have "x AND NOT 3 = x - x mod 4" .
  moreover have "RT_ALIGN n = x AND NOT 3" by (simp add: RT_ALIGN_def x add.commute)
  ultimately have "unat (RT_ALIGN n) = unat (x - x mod 4)" by (simp only:)
  also have "\<dots> = unat x - unat x mod 4" by (subst unat_sub) (simp_all add: word_le_nat_alt unat_mod)
  also have "\<dots> = 4 * (unat x div 4)" using div_mult_mod_eq [of "unat x" 4] by linarith
  finally show ?thesis using \<open>unat x = unat n + 3\<close> by simp
qed

lemma request_word:
  assumes "unat n + 3 < 2 ^ 32"
  shows "unat (if RT_ALIGN n < RT_ALIGN MIN_SIZE then RT_ALIGN MIN_SIZE else RT_ALIGN n) = request (unat n)"
  using RT_ALIGN_rounds [OF assms] by (simp add: request_def word_less_nat_alt MIN_SIZE_def RT_ALIGN_def max_def)

lemma coalesced_cut: "coalesced (as @ (False, l) # cs) \<Longrightarrow> coalesced (as @ cut n l @ cs)"
  by (cases cs; cases "as = []") (auto simp: cut_def successively_append_iff)

lemma extent_cut: "12 + n \<le> l \<Longrightarrow> extent (cut n l) = l"
  by (simp add: cut_def)

lemma heap_lock_unlock:
  assumes "0 < heap_sem h"
  obtains h1 where "heap_lock h = Some h1" "heap_unlock h1 = h" "h1 = h\<lparr>heap_sem := heap_sem h - 1\<rparr>"
  using assms by (cases h) (auto simp: heap_lock_def heap_unlock_def)

text \<open>No free block holds \<open>n\<close> bytes, but perhaps the last one exactly.\<close>

definition no_room :: "nat \<Rightarrow> block list \<Rightarrow> bool" where
  "no_room n bs \<longleftrightarrow> (\<forall>as l cs. bs = as @ (False, l) # cs \<longrightarrow> l < 12 + n \<or> l = 12 + n \<and> cs = [])"

lemma split_first_free:
  assumes "bs = as @ (False, l) # cs"
  obtains ds where "as = takeWhile fst bs @ ds" "dropWhile fst bs = ds @ (False, l) # cs"
proof -
  have w: "takeWhile fst bs = takeWhile fst as"
  proof (cases "\<forall>b \<in> set as. fst b")
    case True
    then have w: "takeWhile fst as = as" using takeWhile_eq_all_conv by blast
    show ?thesis unfolding assms w using True by (simp add: takeWhile_append2)
  next
    case False
    then show ?thesis using takeWhile_append1 [of _ as fst] assms by auto
  qed
  have "takeWhile fst bs @ dropWhile fst bs = takeWhile fst as @ dropWhile fst as @ (False, l) # cs"
    using assms by simp
  then have "dropWhile fst bs = dropWhile fst as @ (False, l) # cs" unfolding w same_append_eq .
  moreover have "as = takeWhile fst bs @ dropWhile fst as" unfolding w by simp
  ultimately show ?thesis using that by blast
qed

lemma rt_malloc_ok:
  assumes h: "heap_ok h bs" and n: "0 < n" "unat n + 3 < 2 ^ 32"
  shows "(rt_malloc n h = Some (0, h) \<and> no_room (request (unat n)) bs) \<or>
    (\<exists>as l cs h'. bs = as @ (False, l) # cs \<and> 12 + request (unat n) \<le> l \<and>
       rt_malloc n h = Some (heap_ptr h + of_nat (extent as + 12), h') \<and>
       heap_ok h' (as @ cut (request (unat n)) l @ cs) \<and> heap_base_same h h')"
proof -
  define k where k: "k = request (unat n)"
  define sz where sz: "sz = (if RT_ALIGN n < RT_ALIGN MIN_SIZE then RT_ALIGN MIN_SIZE else RT_ALIGN n)"
  have sh: "heap_shape h bs" and m: "unat (mem_size_aligned h) + 12 = extent bs" "24 \<le> extent bs"
    and co: "coalesced bs" and sem: "0 < heap_sem h" and f: "lfree h = heap_ptr h + of_nat (extent (takeWhile fst bs))"
    using h by (simp_all add: heap_ok_def heap_shape_def)
  have u: "unat sz = k" "12 \<le> k" "4 dvd k" using request_word [OF n(2)] by (simp_all add: sz k request_def max_def)
  have al: "unat (RT_ALIGN n) \<le> k" "k = 12 \<or> k = unat (RT_ALIGN n)" using RT_ALIGN_rounds [OF n(2)] by (auto simp: k request_def)
  show ?thesis
  proof (cases "RT_ALIGN n > mem_size_aligned h")
    case True
    then have "rt_malloc n h = Some (0, h)" using n(1) by (simp add: rt_malloc_def Let_def)
    moreover have "no_room k bs"
      using True al(1) m unfolding no_room_def by (auto simp: word_less_nat_alt)
    ultimately show ?thesis by (simp add: k)
  next
    case False
    then have k_le: "k \<le> unat (mem_size_aligned h)" using al(2) m by (auto simp: word_less_nat_alt)
    obtain h1 where h1: "heap_lock h = Some h1" "heap_unlock h1 = h" "h1 = h\<lparr>heap_sem := heap_sem h - 1\<rparr>"
      by (rule heap_lock_unlock [OF sem])
    have n0: "n \<noteq> 0" "lfree h1 = lfree h" "heap_ptr h1 = heap_ptr h" using n(1) h1(3) by auto
    let ?as = "takeWhile fst bs"
    have bs: "bs = ?as @ dropWhile fst bs" by simp
    have "heap_shape h1 (?as @ dropWhile fst bs)" using sh h1(3) by simp
    from malloc_search_finds [OF this, of sz] obtain r where
      r: "malloc_search (of_nat (extent ?as)) sz h1 = Some r"
        "search_ok (unat (mem_size_aligned h)) k (extent ?as) (dropWhile fst bs) r"
      using k_le u h1(3) by auto
    have run: "rt_malloc n h = (case r of None \<Rightarrow> Some (0, h) | Some ptr \<Rightarrow> malloc_take ptr sz h1)"
      using False n0 h1(1,2) r(1) f by (simp add: rt_malloc_def Let_def sz [symmetric])
    show ?thesis
    proof (cases r)
      case None
      have "no_room k bs" unfolding no_room_def
      proof (intro allI impI)
        fix as l cs
        assume b: "bs = as @ (False, l) # cs"
        then obtain ds where "as = ?as @ ds" "dropWhile fst bs = ds @ (False, l) # cs" by (rule split_first_free)
        then have "extent as + k < unat (mem_size_aligned h) \<longrightarrow> l < 12 + k"
          using r(2) unfolding None search_ok_def option.case by (metis extent_simps(3))
        moreover have "cs \<noteq> [] \<Longrightarrow> 12 \<le> extent cs" using sh b by (cases cs) (auto simp: heap_shape_def)
        ultimately show "l < 12 + k \<or> l = 12 + k \<and> cs = []" using m(1) b by (cases "cs = []") auto
      qed
      then show ?thesis using run None by (simp add: k)
    next
      case (Some ptr)
      then obtain ds l es where d: "dropWhile fst bs = ds @ (False, l) # es" "ptr = of_nat (extent ?as + extent ds)" "12 + k \<le> l"
        using r(2) by (auto simp: search_ok_def)
      define as where as: "as = ?as @ ds"
      have b: "bs = as @ (False, l) # es" using bs d(1) by (simp add: as)
      obtain h' where t: "malloc_take (of_nat (extent as)) sz h1 = Some (heap_ptr h1 + of_nat (extent as + 12), h')"
        "heap_shape h' (as @ cut k l @ es)" "lfree h' = heap_ptr h1 + of_nat (extent (takeWhile fst (as @ cut k l @ es)))"
        "heap_sem h' = heap_sem h1 + 1" "heap_base_same h1 h'"
        using malloc_take_ok [of h1 as l es sz] sh f d(3) u h1(3) b by auto
      have "heap_ok h' (as @ cut k l @ es)"
        using t sem m(2) co h1(3) d(3) coalesced_cut [of as l es k] unfolding b
        by (auto simp: heap_ok_def heap_base_same_def extent_cut)
      moreover have "rt_malloc n h = Some (heap_ptr h + of_nat (extent as + 12), h')"
        using run Some t(1) d(2) n0(3) by (simp add: as)
      moreover have "heap_base_same h h'" using t(5) h1(3) by (simp add: heap_base_same_def)
      ultimately show ?thesis using b d(3) unfolding k [symmetric] by blast
    qed
  qed
qed

end
