(* ===== verification/Allocator.thy ===== *)
theory Allocator
  imports Prelude
begin

text \<open>
  The contract between an allocator and the programs that use it: a program holds blocks, each known
  by its address and the size it asked for, gets new ones and gives back only what it holds. If each
  call alone succeeds and keeps what ties the blocks to the state of the allocator, any sequence of
  calls does.
\<close>

datatype heap_request = Malloc u32 | Free nat

text \<open>\<open>live\<close> has the blocks the program holds, newest first. A block to free is given by its position.\<close>

fun client_call :: "(u32 \<Rightarrow> 'h \<Rightarrow> (u32 \<times> 'h) option) \<Rightarrow> (u32 \<Rightarrow> 'h \<Rightarrow> 'h option) \<Rightarrow>
    heap_request \<Rightarrow> (u32 \<times> u32) list \<times> 'h \<Rightarrow> ((u32 \<times> u32) list \<times> 'h) option" where
  "client_call alloc release (Malloc n) (live, h) = do {
     (p, h) \<leftarrow> alloc n h;
     Some (if p = 0 then live else (p, n) # live, h) }"
| "client_call alloc release (Free i) (live, h) =
     (if i < length live then do { h \<leftarrow> release (fst (live ! i)) h; Some (take i live @ drop (Suc i) live, h) }
      else Some (live, h))"

primrec client_calls :: "(u32 \<Rightarrow> 'h \<Rightarrow> (u32 \<times> 'h) option) \<Rightarrow> (u32 \<Rightarrow> 'h \<Rightarrow> 'h option) \<Rightarrow>
    heap_request list \<Rightarrow> (u32 \<times> u32) list \<times> 'h \<Rightarrow> ((u32 \<times> u32) list \<times> 'h) option" where
  "client_calls alloc release [] s = Some s"
| "client_calls alloc release (c # cs) s = do { s \<leftarrow> client_call alloc release c s; client_calls alloc release cs s }"

locale block_allocator =
  fixes alloc :: "u32 \<Rightarrow> 'h \<Rightarrow> (u32 \<times> 'h) option"
    and release :: "u32 \<Rightarrow> 'h \<Rightarrow> 'h option"
    and holds :: "(u32 \<times> u32) list \<Rightarrow> 'h \<Rightarrow> bool"
    and sensible :: "u32 \<Rightarrow> bool"
  assumes alloc_holds: "holds live h \<Longrightarrow> sensible n \<Longrightarrow>
      \<exists>p h'. alloc n h = Some (p, h') \<and> holds (if p = 0 then live else (p, n) # live) h'"
    and release_holds: "holds live h \<Longrightarrow> i < length live \<Longrightarrow>
      \<exists>h'. release (fst (live ! i)) h = Some h' \<and> holds (take i live @ drop (Suc i) live) h'"
begin

lemma call_holds:
  assumes "holds live h" "\<And>n. c = Malloc n \<Longrightarrow> sensible n"
  shows "\<exists>live' h'. client_call alloc release c (live, h) = Some (live', h') \<and> holds live' h'"
proof (cases c)
  case (Malloc n)
  then show ?thesis using alloc_holds [OF assms(1), of n] assms(2) by auto
next
  case (Free i)
  then show ?thesis using release_holds [OF assms(1), of i] assms(1) by auto
qed

lemma calls_hold:
  "holds live h \<Longrightarrow> \<forall>n. Malloc n \<in> set calls \<longrightarrow> sensible n \<Longrightarrow>
   \<exists>live' h'. client_calls alloc release calls (live, h) = Some (live', h') \<and> holds live' h'"
proof (induction calls arbitrary: live h)
  case (Cons c calls)
  obtain live1 h1 where "client_call alloc release c (live, h) = Some (live1, h1)" "holds live1 h1"
    using call_holds [OF Cons.prems(1), of c] Cons.prems(2) by auto
  then show ?case using Cons.IH [of live1 h1] Cons.prems(2) by auto
qed auto

end

end
