(* ===== verification/Mem_Free.thy ===== *)
theory Mem_Free
  imports Mem_Blocks Allocator
begin

text \<open>
  \<open>rt_free\<close> and the merging of free blocks, the heap after start-up, and the invariant over any sequence
  of calls of \<open>rt_malloc\<close> and \<open>rt_free\<close>: the program holds exactly the used blocks, and the heap keeps
  the contract of \<open>Allocator\<close>.
\<close>

section \<open>rt_free\<close>

text \<open>Neighbouring free blocks become one.\<close>

fun coalesce :: "block list \<Rightarrow> block list" where
  "coalesce ((False, a) # (False, b) # bs) = coalesce ((False, a + b) # bs)"
| "coalesce (b # bs) = b # coalesce bs"
| "coalesce [] = []"

lemmas coalesce_induct = coalesce.induct [case_names join used single apart empty]

lemma coalesce_coalesced: "coalesced bs \<Longrightarrow> coalesce bs = bs"
  by (induction bs rule: coalesce.induct) (auto simp: successively_Cons)

lemma coalesce_used [simp]: "coalesce ((True, l) # bs) = (True, l) # coalesce bs"
  by simp

lemma coalesce_append: "coalesced as \<Longrightarrow> as = [] \<or> fst (last as) \<Longrightarrow> coalesce (as @ bs) = as @ coalesce bs"
proof (induction as rule: coalesce_induct)
  case (used v bs)
  then show ?case by (cases bs) auto
qed (auto simp: successively_Cons split: if_splits)

text \<open>The merges with the block behind and the block in front\<close>

definition merge_next :: "nat \<Rightarrow> block list \<Rightarrow> block list" where
  "merge_next l cs = (case cs of (False, n) # cs' \<Rightarrow> (False, l + n) # cs' | _ \<Rightarrow> (False, l) # cs)"

text \<open>Two free blocks become one: the header of the first and the one behind the second change.\<close>

lemma heap_shape_join:
  assumes h: "heap_shape h (as @ (False, l) # (False, n) # cs)"
    and a: "a = heap_ptr h + of_nat (extent as)" "c = heap_ptr h + of_nat (extent as + l + n)"
  obtains x where "((headers h)(a \<mapsto> header_of (last_off 0 0 as) (extent as) (False, l + n))) c = Some x"
    and "heap_shape (h\<lparr>headers := (headers h)(a \<mapsto> header_of (last_off 0 0 as) (extent as) (False, l + n),
      c \<mapsto> x\<lparr>mem_prev := of_nat (extent as)\<rparr>)\<rparr>) (as @ (False, l + n) # cs)"
proof -
  define o1 o3 where o: "o1 = extent as" "o3 = extent as + l + n"
  define H where H: "H = (headers h)(a \<mapsto> header_of (last_off 0 0 as) o1 (False, l + n))"
  have s: "o3 + extent cs < 2 ^ 32" "sized as" "sized cs" "o1 < o3" "o1 < 2 ^ 32" "o3 < 2 ^ 32"
    using h by (auto simp: heap_shape_def o)
  have row: "row_at (headers h) (heap_ptr h) (o1 + l) o3 cs" "headers_at (headers h) (heap_ptr h) 0 0 as"
    using h by (simp_all add: heap_shape_def o add.assoc)
  have "row_at H (heap_ptr h) (o1 + l) o3 cs"
    using row(1) s row_at_other [of o3 cs o1 "headers h" "heap_ptr h"] by (simp add: H a o(1) [symmetric])
  then obtain x where x: "H c = Some x" "row_at (H(c \<mapsto> x\<lparr>mem_prev := of_nat o1\<rparr>)) (heap_ptr h) o1 o3 cs"
    unfolding a o(2) [symmetric] by (rule row_at_link) (use s in simp_all)
  moreover have "headers_at (H(c \<mapsto> x\<lparr>mem_prev := of_nat o1\<rparr>)) (heap_ptr h) 0 0 as"
    unfolding H a o(2) [symmetric] unfolding o(1) [symmetric]
    using row(2) s headers_at_other [of 0 as o1] headers_at_other [of 0 as o3] by (simp add: o(1))
  moreover have "(H(c \<mapsto> x\<lparr>mem_prev := of_nat o1\<rparr>)) (heap_ptr h + of_nat o1) =
    Some (header_of (last_off 0 0 as) o1 (False, l + n))"
    unfolding H a o(2) [symmetric] unfolding o(1) [symmetric]
    using addr_neq [of o1 o3 "heap_ptr h"] s by simp
  ultimately have "heap_shape (h\<lparr>headers := H(c \<mapsto> x\<lparr>mem_prev := of_nat o1\<rparr>)\<rparr>) (as @ (False, l + n) # cs)"
    using h by (simp add: heap_shape_def o add.assoc)
  then show ?thesis using that x(1) unfolding H o(1) by simp
qed

lemma plug_forward_merges:
  assumes h: "heap_shape h (as @ (False, l) # (False, n) # cs)"
  shows "\<exists>h'. plug_forward (heap_ptr h + of_nat (extent as)) h = Some h' \<and> heap_shape h' (as @ (False, l + n) # cs) \<and>
    heap_base_same h h' \<and> heap_sem h' = heap_sem h \<and>
    lfree h' = (if lfree h = heap_ptr h + of_nat (extent as + l) then heap_ptr h + of_nat (extent as) else lfree h)"
proof -
  define a b c where p: "a = heap_ptr h + of_nat (extent as)" "b = heap_ptr h + of_nat (extent as + l)"
    "c = heap_ptr h + of_nat (extent as + l + n)"
  obtain x where x: "((headers h)(a \<mapsto> header_of (last_off 0 0 as) (extent as) (False, l + n))) c = Some x"
    "heap_shape (h\<lparr>headers := (headers h)(a \<mapsto> header_of (last_off 0 0 as) (extent as) (False, l + n),
      c \<mapsto> x\<lparr>mem_prev := of_nat (extent as)\<rparr>)\<rparr>) (as @ (False, l + n) # cs)"
    by (rule heap_shape_join [OF h p(1,3)])
  have hd: "headers h a = Some (header_of (last_off 0 0 as) (extent as) (False, l))"
    "headers h b = Some (header_of (extent as) (extent as + l) (False, n))"
    using heap_shape_header [OF h] heap_shape_header [of h "as @ [(False, l)]" "(False, n)" cs] h by (simp_all add: p)
  have ne: "a \<noteq> b" "b \<noteq> heap_end h"
    using h addr_neq [of "extent as" "extent as + l" "heap_ptr h"]
      addr_neq [of "extent as + l" "extent as + l + n + extent cs" "heap_ptr h"]
    by (auto simp: heap_shape_def p add.assoc)
  have nx: "heap_ptr h + mem_next (header_of q (extent as) (False, l)) = b"
    "heap_ptr h + mem_next (header_of q (extent as + l) (False, n)) = c" "a - heap_ptr h = of_nat (extent as)"
    "header_of q (extent as) (False, l) \<lparr>mem_next := mem_next (header_of r (extent as + l) (False, n))\<rparr> =
       header_of q (extent as) (False, l + n)" for q r
    by (simp_all add: header_of_def p add.assoc)
  show ?thesis unfolding p(1,2) [symmetric]
    using x hd ne nx
    by (cases "lfree h = b") (simp_all add: plug_forward_def set_header_def header_offset(1) heap_base_same_def Let_def del: fun_upd_apply)
qed

lemma plug_forward_used:
  assumes h: "heap_shape h (as @ (False, l) # cs)" and cs: "cs = [] \<or> fst (hd cs)"
  shows "plug_forward (heap_ptr h + of_nat (extent as)) h = Some h"
proof -
  define b where b: "b = heap_ptr h + of_nat (extent as + l)"
  have hd: "headers h (heap_ptr h + of_nat (extent as)) = Some (header_of (last_off 0 0 as) (extent as) (False, l))"
    using heap_shape_header [OF h] .
  have "heap_shape h ((as @ [(False, l)]) @ cs)" using h by simp
  then obtain m where "headers h b = Some m" "mem_used m \<noteq> 0"
  proof (cases cs)
    case Nil
    then have "b = heap_end h" using h by (simp add: heap_shape_def b)
    moreover obtain e where "headers h (heap_end h) = Some e" "mem_used e = 1" by (rule heap_shape_end [OF h])
    ultimately show ?thesis using that by simp
  next
    case (Cons c ds)
    then show ?thesis using that heap_shape_header [of h "as @ [(False, l)]" c ds] h cs by (simp add: b header_offset(1))
  qed
  then show ?thesis using hd by (simp add: plug_forward_def header_offset(2) b Let_def)
qed

lemma plug_backward_merges:
  assumes h: "heap_shape h (as @ (False, p) # (False, l) # cs)"
  shows "\<exists>h'. plug_backward (heap_ptr h + of_nat (extent as + p)) h = Some h' \<and> heap_shape h' (as @ (False, p + l) # cs) \<and>
    heap_base_same h h' \<and> heap_sem h' = heap_sem h \<and>
    lfree h' = (if lfree h = heap_ptr h + of_nat (extent as + p) then heap_ptr h + of_nat (extent as) else lfree h)"
proof -
  define a b c where p: "a = heap_ptr h + of_nat (extent as)" "b = heap_ptr h + of_nat (extent as + p)"
    "c = heap_ptr h + of_nat (extent as + p + l)"
  obtain x where x: "((headers h)(a \<mapsto> header_of (last_off 0 0 as) (extent as) (False, p + l))) c = Some x"
    "heap_shape (h\<lparr>headers := (headers h)(a \<mapsto> header_of (last_off 0 0 as) (extent as) (False, p + l),
      c \<mapsto> x\<lparr>mem_prev := of_nat (extent as)\<rparr>)\<rparr>) (as @ (False, p + l) # cs)"
    by (rule heap_shape_join [OF h p(1,3)])
  have hd: "headers h a = Some (header_of (last_off 0 0 as) (extent as) (False, p))"
    "headers h b = Some (header_of (extent as) (extent as + p) (False, l))"
    using heap_shape_header [OF h] heap_shape_header [of h "as @ [(False, p)]" "(False, l)" cs] h by (simp_all add: p)
  have ne: "a \<noteq> b"
    using h addr_neq [of "extent as" "extent as + p" "heap_ptr h"] by (auto simp: heap_shape_def p)
  have nx: "heap_ptr h + mem_next (header_of q (extent as + p) (False, l)) = c"
    "heap_ptr h + mem_prev (header_of (extent as) (extent as + p) (False, l)) = a" "a - heap_ptr h = of_nat (extent as)"
    "header_of q (extent as) (False, p) \<lparr>mem_next := mem_next (header_of r (extent as + p) (False, l))\<rparr> =
       header_of q (extent as) (False, p + l)" for q r
    by (simp_all add: header_of_def p add.assoc)
  show ?thesis unfolding p(1,2) [symmetric]
    using x hd ne nx
    by (cases "lfree h = b")
      (simp_all add: plug_backward_def set_header_def header_offset(1) heap_base_same_def Let_def del: fun_upd_apply)
qed

lemma plug_backward_used:
  assumes h: "heap_shape h (as @ (False, l) # cs)" and as: "as = [] \<or> fst (last as)"
  shows "plug_backward (heap_ptr h + of_nat (extent as)) h = Some h"
proof (cases as rule: rev_cases)
  case Nil
  then show ?thesis using heap_shape_header [OF h] by (simp add: plug_backward_def header_offset(3) Let_def)
next
  case (snoc ds d)
  have hd: "headers h (heap_ptr h + of_nat (extent as)) = Some (header_of (extent ds) (extent as) (False, l))"
    using heap_shape_header [OF h] snoc by simp
  have "headers h (heap_ptr h + of_nat (extent ds)) = Some (header_of (last_off 0 0 ds) (extent ds) d)"
    using heap_shape_header [of h ds d "(False, l) # cs"] h snoc by simp
  then show ?thesis using hd as snoc by (simp add: plug_backward_def header_offset(1,3) Let_def)
qed

text \<open>Together: the freed block grows into its free neighbours, and \<open>lfree\<close> stays.\<close>

lemma coalesce_free:
  assumes "coalesced cs"
  obtains k ds where "\<And>l. coalesce ((False, l) # cs) = (False, l + k) # ds" and "ds = [] \<or> fst (hd ds)" and "coalesced ds"
proof (cases cs)
  case (Cons c ds)
  show ?thesis
  proof (cases "fst c")
    case True
    then show ?thesis using that [of 0 cs] coalesce_coalesced [OF assms] Cons assms by (cases c) auto
  next
    case False
    then have c: "c = (False, snd c)" by (cases c) auto
    have ds: "coalesced ds" "ds = [] \<or> fst (hd ds)" using assms Cons c False by (auto simp: successively_Cons)
    then have "coalesced ((False, l) # ds)" for l by (auto simp: successively_Cons)
    then have "coalesce ((False, l) # cs) = (False, l + snd c) # ds" for l
      unfolding Cons by (subst c) (simp add: coalesce_coalesced)
    then show ?thesis using that ds by blast
  qed
qed (use that [of 0 "[]"] in auto)

lemma first_free_same:
  "\<exists>c \<in> set as. \<not> fst c \<Longrightarrow> takeWhile fst (as @ bs) = takeWhile fst as"
  "takeWhile fst (as @ (False, l) # cs) = takeWhile fst (as @ (False, n) # ds)"
  by (auto simp: takeWhile_append1) (auto simp: takeWhile_append)

lemma plug_forward_ok:
  assumes h: "heap_shape h (as @ (False, l) # cs)" and co: "coalesced cs"
    and f: "lfree h \<noteq> heap_ptr h + of_nat (extent as + l)"
  shows "\<exists>h'. plug_forward (heap_ptr h + of_nat (extent as)) h = Some h' \<and>
    heap_shape h' (as @ coalesce ((False, l) # cs)) \<and> heap_base_same h h' \<and> heap_sem h' = heap_sem h \<and> lfree h' = lfree h"
proof (cases "cs = [] \<or> fst (hd cs)")
  case True
  then have "coalesced ((False, l) # cs)" using co by (auto simp: successively_Cons)
  then show ?thesis using plug_forward_used [OF h True] h by (simp add: coalesce_coalesced heap_base_same_def)
next
  case False
  then obtain n ds where cs: "cs = (False, n) # ds" by (cases cs) auto
  then have "coalesced ((False, l + n) # ds)" using co by (auto simp: successively_Cons)
  then show ?thesis using plug_forward_merges [of h as l n ds] h f unfolding cs by (simp add: coalesce_coalesced)
qed

lemma plug_backward_ok:
  assumes h: "heap_shape h (as @ (False, l) # cs)" and co: "coalesced as" "coalesced cs" "cs = [] \<or> fst (hd cs)"
    and f: "lfree h = heap_ptr h + of_nat (extent (takeWhile fst as))"
  shows "\<exists>h'. plug_backward (heap_ptr h + of_nat (extent as)) h = Some h' \<and>
    heap_shape h' (coalesce (as @ (False, l) # cs)) \<and> heap_base_same h h' \<and> heap_sem h' = heap_sem h \<and> lfree h' = lfree h"
proof (cases "as = [] \<or> fst (last as)")
  case True
  have "coalesced ((False, l) # cs)" using co by (auto simp: successively_Cons)
  then show ?thesis
    using plug_backward_used [OF h True] h coalesce_append [OF co(1) True] by (simp add: coalesce_coalesced heap_base_same_def)
next
  case False
  then obtain ds p where as: "as = ds @ [(False, p)]" by (cases as rule: rev_cases) auto
  then have ds: "coalesced ds" "ds = [] \<or> fst (last ds)" using co(1) by (auto simp: successively_append_iff)
  have "coalesced ((False, p + l) # cs)" using co by (auto simp: successively_Cons)
  then have c: "coalesce (as @ (False, l) # cs) = ds @ (False, p + l) # cs"
    unfolding as using coalesce_append [OF ds, of "(False, p) # (False, l) # cs"] by (simp add: coalesce_coalesced)
  have "sized as" "extent as < 2 ^ 32" using h by (auto simp: heap_shape_def)
  then have "lfree h \<noteq> heap_ptr h + of_nat (extent as)"
    unfolding f using extent_takeWhile [of as fst] as addr_eq [of "extent (takeWhile fst as)" "extent as"] by fastforce
  then show ?thesis using plug_backward_merges [of h ds p l cs] h unfolding c by (simp add: as del: of_nat_add)
qed

lemma takeWhile_coalesce: "takeWhile fst (coalesce bs) = takeWhile fst bs"
  by (induction bs rule: coalesce.induct) auto

lemma coalesce_twice:
  assumes as: "coalesced as" and c: "\<And>l. coalesce ((False, l) # cs) = (False, l + k) # ds"
    and ds: "ds = [] \<or> fst (hd ds)" "coalesced ds"
  shows "coalesce (as @ (False, l + k) # ds) = coalesce (as @ (False, l) # cs)"
proof -
  have d: "coalesce ((False, x) # ds) = (False, x) # ds" for x
    by (rule coalesce_coalesced) (use ds in \<open>auto simp: successively_Cons\<close>)
  show ?thesis
  proof (cases "as = [] \<or> fst (last as)")
    case True
    show ?thesis unfolding coalesce_append [OF as True] c d ..
  next
    case False
    then obtain xs p where x: "as = xs @ [(False, p)]" by (cases as rule: rev_cases) auto
    then have xs: "coalesced xs" "xs = [] \<or> fst (last xs)" using as by (auto simp: successively_append_iff)
    have "coalesce (xs @ (False, p) # (False, a) # bs) = xs @ coalesce ((False, p + a) # bs)" for a bs
      using coalesce_append [OF xs, of "(False, p) # (False, a) # bs"] by simp
    then show ?thesis unfolding x using c [of "p + l"] d by (simp add: add.assoc)
  qed
qed

lemma plug_holes_checks:
  assumes h: "heap_shape h (as @ (False, l) # cs)" and a: "a = heap_ptr h + of_nat (extent as)"
  shows "plug_holes a h = do { h \<leftarrow> plug_forward a h; plug_backward a h }"
proof -
  have u: "unat a = unat (heap_ptr h) + extent as" "unat (heap_end h) = unat (heap_ptr h) + extent as + l + extent cs" "0 < l"
    using h by (auto simp: heap_shape_def unat_word_ariths unat_of_nat a)
  have "heap_ptr h \<le> a" "a < heap_end h" unfolding word_le_nat_alt word_less_nat_alt u using u(3) by simp_all
  moreover have "headers h a = Some (header_of (last_off 0 0 as) (extent as) (False, l))"
    unfolding a by (rule heap_shape_header [OF h])
  ultimately show ?thesis by (simp add: plug_holes_def RT_ASSERT_def header_offset(1))
qed

lemma plug_holes_ok:
  assumes h: "heap_shape h (as @ (False, l) # cs)" and co: "coalesced as" "coalesced cs"
    and f: "lfree h = heap_ptr h + of_nat (extent (takeWhile fst as))"
  shows "\<exists>h'. plug_holes (heap_ptr h + of_nat (extent as)) h = Some h' \<and>
    heap_shape h' (coalesce (as @ (False, l) # cs)) \<and> heap_base_same h h' \<and> heap_sem h' = heap_sem h \<and> lfree h' = lfree h"
proof -
  let ?a = "heap_ptr h + of_nat (extent as)"
  have s: "sized as" "extent as < extent as + l" "extent as + l < 2 ^ 32" using h by (auto simp: heap_shape_def)
  then have "extent (takeWhile fst as) < extent as + l" using extent_takeWhile [of as fst] by linarith
  then have "lfree h \<noteq> heap_ptr h + of_nat (extent as + l)" unfolding f using addr_neq s(3) by blast
  then obtain h1 where h1: "plug_forward ?a h = Some h1" "heap_shape h1 (as @ coalesce ((False, l) # cs))"
    "heap_base_same h h1" "heap_sem h1 = heap_sem h" "lfree h1 = lfree h"
    using plug_forward_ok [OF h co(2)] by blast
  obtain k ds where c: "\<And>l. coalesce ((False, l) # cs) = (False, l + k) # ds" "ds = [] \<or> fst (hd ds)" "coalesced ds"
    using coalesce_free [OF co(2)] by metis
  obtain h2 where h2: "plug_backward ?a h1 = Some h2" "heap_shape h2 (coalesce (as @ (False, l + k) # ds))"
    "heap_base_same h1 h2" "heap_sem h2 = heap_sem h1" "lfree h2 = lfree h1"
    using plug_backward_ok [of h1 as "l + k" ds] h1 co(1) c f unfolding heap_base_same_def by auto
  have e: "coalesce (as @ (False, l + k) # ds) = coalesce (as @ (False, l) # cs)"
    by (rule coalesce_twice [OF co(1) c])
  have "plug_holes ?a h = Some h2" using h1(1) h2(1) plug_holes_checks [OF h refl] by simp
  then show ?thesis using h2 h1 unfolding e heap_base_same_def by simp
qed

lemma coalesce_extent: "extent (coalesce bs) = extent bs"
  by (induction bs rule: coalesce.induct) auto

lemma hd_coalesce: "bs \<noteq> [] \<Longrightarrow> coalesce bs \<noteq> [] \<and> fst (hd (coalesce bs)) = fst (hd bs)"
  by (induction bs rule: coalesce.induct) auto

lemma coalesced_coalesce: "coalesced (coalesce bs)"
proof (induction bs rule: coalesce_induct)
  case (single v)
  then show ?case by simp
next
  case (apart v b bs)
  then show ?case using hd_coalesce [of "(True, b) # bs"] by (auto simp: successively_Cons)
qed (auto simp: successively_Cons)

lemma takeWhile_free: "extent (takeWhile fst (as @ (False, l) # cs)) = extent (takeWhile fst as)"
  by (induction as) auto

text \<open>Marking a block as free\<close>

lemma heap_shape_release:
  assumes h: "heap_shape h (as @ (True, l) # cs)" and a: "a = heap_ptr h + of_nat (extent as)"
  shows "heap_shape (h\<lparr>headers := (headers h)(a \<mapsto> header_of (last_off 0 0 as) (extent as) (False, l)),
    used_mem := used_mem h - of_nat l\<rparr>) (as @ (False, l) # cs)"
proof -
  let ?H = "(headers h)(a \<mapsto> header_of (last_off 0 0 as) (extent as) (False, l))"
  have s: "extent as + l + extent cs < 2 ^ 32" "12 \<le> l" "sized as" "sized cs" using h by (auto simp: heap_shape_def)
  have "row_at ?H (heap_ptr h) (extent as) (extent as + l) cs"
    using h s row_at_other [of "extent as + l" cs "extent as"] by (simp add: heap_shape_def a)
  moreover have "headers_at ?H (heap_ptr h) 0 0 as"
    using h s headers_at_other [of 0 as "extent as"] by (simp add: heap_shape_def a)
  ultimately show ?thesis using h a by (simp add: heap_shape_def)
qed

lemma unat_addr: "unat b + n < 2 ^ 32 \<Longrightarrow> unat (b + of_nat n :: u32) = unat b + n"
  by (simp add: unat_word_ariths unat_of_nat)

text \<open>\<open>lfree\<close> follows a freed block in front of it.\<close>

lemma lowered_lfree:
  fixes h :: heap
  assumes h: "heap_shape h (as @ (True, l) # cs)"
  defines "a \<equiv> heap_ptr h + of_nat (extent as)"
    and "f \<equiv> heap_ptr h + of_nat (extent (takeWhile fst (as @ (True, l) # cs)))"
  shows "(if a < f then a else f) = heap_ptr h + of_nat (extent (takeWhile fst as))"
proof -
  have s: "unat (heap_ptr h) + extent (as @ (True, l) # cs) + 12 < 2 ^ 32" "sized (as @ (True, l) # cs)" "sized as" "0 < l"
    using h by (auto simp: heap_shape_def)
  have u: "unat a = unat (heap_ptr h) + extent as" unfolding a_def by (rule unat_addr) (use s in simp)
  have "unat f = unat (heap_ptr h) + extent (takeWhile fst (as @ (True, l) # cs))"
    unfolding f_def by (rule unat_addr) (use s extent_takeWhile [OF s(2), of fst] in linarith)
  then have less: "a < f \<longleftrightarrow> extent as < extent (takeWhile fst (as @ (True, l) # cs))"
    unfolding word_less_nat_alt u by simp
  show ?thesis
  proof (cases "\<forall>b \<in> set as. fst b")
    case True
    then have w: "takeWhile fst as = as" using takeWhile_eq_all_conv by blast
    have "a < f" unfolding less using True s(4) by (simp add: takeWhile_append2)
    then show ?thesis unfolding w by (simp add: a_def)
  next
    case False
    then have w: "takeWhile fst (as @ (True, l) # cs) = takeWhile fst as" using takeWhile_append1 [of _ as fst] by auto
    have "\<not> a < f" unfolding less w using extent_takeWhile [OF s(3), of fst] by simp
    then show ?thesis by (simp add: f_def w)
  qed
qed

text \<open>The address of a used block passes the tests.\<close>

lemma block_checks:
  assumes sh: "heap_shape h (as @ (True, l) # cs)" and r: "r = heap_ptr h + of_nat (extent as + 12)"
  shows "r \<noteq> 0" "r AND 3 = 0" "heap_ptr h \<le> r" "r < heap_end h" "\<not> r < heap_ptr h" "\<not> heap_end h \<le> r"
proof -
  have room: "unat (heap_ptr h) + extent as + l + extent cs + 12 < 2 ^ 32" "4 dvd unat (heap_ptr h)" "4 dvd extent as" "12 \<le> l"
    "heap_end h = heap_ptr h + of_nat (extent as + l + extent cs)" "sized as"
    using sh sized_extent [of as] by (auto simp: heap_shape_def add.assoc)
  have u: "unat r = unat (heap_ptr h) + extent as + 12"
    "unat (heap_end h) = unat (heap_ptr h) + extent as + l + extent cs"
    using room by (simp_all add: r unat_word_ariths unat_of_nat)
  have "16 \<le> l" "r \<noteq> 0" using sh u(1) by (auto simp: heap_shape_def)
  moreover have "r AND 3 = 0" using aligned_word [of r] u(1) room by auto
  ultimately show "r \<noteq> 0" "r AND 3 = 0" "heap_ptr h \<le> r" "r < heap_end h" "\<not> r < heap_ptr h" "\<not> heap_end h \<le> r"
    unfolding word_le_nat_alt word_less_nat_alt u by simp_all
qed

lemma rt_free_ok:
  assumes h: "heap_ok h (as @ (True, l) # cs)"
  shows "\<exists>h'. rt_free (heap_ptr h + of_nat (extent as + 12)) h = Some h' \<and>
    heap_ok h' (coalesce (as @ (False, l) # cs)) \<and> heap_base_same h h'"
proof -
  define a where a: "a = heap_ptr h + of_nat (extent as)"
  define r where r: "r = heap_ptr h + of_nat (extent as + 12)"
  have sh: "heap_shape h (as @ (True, l) # cs)" and co: "coalesced (as @ (True, l) # cs)" and sem: "0 < heap_sem h"
    and f: "lfree h = heap_ptr h + of_nat (extent (takeWhile fst (as @ (True, l) # cs)))"
    and big: "24 \<le> extent (as @ (True, l) # cs)"
    using h by (simp_all add: heap_ok_def)
  have ra: "r - SIZEOF_STRUCT_MEM = a" by (simp add: r a SIZEOF_STRUCT_MEM_def)
  note checks = block_checks [OF sh r]
  let ?hd = "header_of (last_off 0 0 as) (extent as)"
  have hd: "headers h a = Some (?hd (True, l))" using heap_shape_header [OF sh] by (simp add: a)
  obtain h1 where h1: "heap_lock h = Some h1" "heap_unlock h1 = h" "h1 = h\<lparr>heap_sem := heap_sem h - 1\<rparr>"
    by (rule heap_lock_unlock [OF sem])
  define g where g: "g = h1\<lparr>headers := (headers h)(a \<mapsto> ?hd (False, l))\<rparr>"
  define h2 where h2: "h2 = (if a < lfree h then g\<lparr>lfree := a\<rparr> else g)\<lparr>used_mem := used_mem h - of_nat l\<rparr>"
  have "heap_shape h2 (as @ (False, l) # cs)"
    using heap_shape_release [OF sh a] by (simp add: h2 g h1(3) heap_shape_def)
  moreover have lf: "lfree h2 = heap_ptr h + of_nat (extent (takeWhile fst as))"
  proof -
    have "lfree h2 = (if a < lfree h then a else lfree h)" by (simp add: h2 g h1(3))
    then show ?thesis unfolding f a lowered_lfree [OF sh] .
  qed
  moreover have fields: "heap_ptr h2 = heap_ptr h" "mem_size_aligned h2 = mem_size_aligned h" "user_bytes h2 = user_bytes h"
    "heap_sem h2 = heap_sem h - 1"
    by (simp_all add: h2 g h1(3))
  moreover have "coalesced as" "coalesced cs" using co by (auto simp: successively_append_iff successively_Cons)
  ultimately obtain h3 where h3: "plug_holes a h2 = Some h3" "heap_shape h3 (coalesce (as @ (False, l) # cs))"
    "heap_base_same h2 h3" "heap_sem h3 = heap_sem h2" "lfree h3 = lfree h2"
    using plug_holes_ok [of h2 as l cs] unfolding a by (auto simp only:)
  have "rt_free r h = Some (heap_unlock h3)"
  proof -
    have "set_header a (\<lambda>m. m\<lparr>mem_used := 0, mem_magic := HEAP_MAGIC\<rparr>) h1 = Some g"
      using hd by (simp add: set_header_def h1(3) header_of_def g)
    moreover have "mem_next (?hd (True, l)) - (a - heap_ptr h) = of_nat l" by (simp add: header_of_def a)
    moreover have "lfree g = lfree h" "used_mem g = used_mem h" "heap_ptr g = heap_ptr h" "heap_ptr h1 = heap_ptr h"
      "headers h1 = headers h"
      by (simp_all add: g h1(3))
    moreover have "rt_free r h = (do {
        g \<leftarrow> set_header a (\<lambda>m. m\<lparr>mem_used := 0, mem_magic := HEAP_MAGIC\<rparr>) h1;
        let k = (if a < lfree g then g\<lparr>lfree := a\<rparr> else g);
        let k = k\<lparr>used_mem := used_mem k - (mem_next (?hd (True, l)) - (a - heap_ptr k))\<rparr>;
        k \<leftarrow> plug_holes a k;
        Some (heap_unlock k) })"
      using hd checks h1(1) calculation by (simp add: rt_free_def RT_ASSERT_def ra header_offset Let_def)
    ultimately show ?thesis using h3(1) by (cases "a < lfree h") (simp_all add: Let_def h2)
  qed
  moreover have "heap_ok (heap_unlock h3) (coalesce (as @ (False, l) # cs))"
    using h3(2-5) big sem lf fields
    by (simp add: heap_ok_def heap_unlock_def coalesce_extent coalesced_coalesce takeWhile_coalesce heap_base_same_def
        takeWhile_free del: of_nat_add)
  ultimately show ?thesis using h3(3) fields by (simp add: r heap_unlock_def heap_base_same_def)
qed

section \<open>Start-up\<close>

lemma and_not_3_dvd: "4 dvd unat (w AND NOT 3)" for w :: u32
proof -
  have "(w AND NOT 3) AND 3 = 0" by (simp add: and.assoc)
  then have "aligned4 (w AND NOT 3)" by (simp add: aligned4_def)
  then show ?thesis unfolding aligned4_unat by presburger
qed

lemma aligned_ends: "4 dvd unat (RT_ALIGN b)" "4 dvd unat (RT_ALIGN_DOWN e)"
  using and_not_3_dvd [of "b + 4 - 1"] and_not_3_dvd [of e] by (simp_all add: RT_ALIGN_def RT_ALIGN_DOWN_def)

lemma rt_system_heap_init_ok:
  assumes room: "unat (RT_ALIGN b) + 36 \<le> unat (RT_ALIGN_DOWN e)" and u: "used_mem h = 0"
  shows "heap_ok (rt_system_heap_init b e h) [(False, unat (RT_ALIGN_DOWN e) - unat (RT_ALIGN b) - 12)]"
    and "heap_ptr (rt_system_heap_init b e h) = RT_ALIGN b"
proof -
  define x y where xy: "x = RT_ALIGN b" "y = RT_ALIGN_DOWN e"
  define n where n: "n = unat y - unat x - 12"
  have y: "unat y = unat x + n + 12" "24 \<le> n" "y > 24" "y - 24 \<ge> x"
    using room unfolding xy [symmetric] by (auto simp: n word_less_nat_alt word_le_nat_alt unat_sub)
  have "unat (y - x - 24) = n - 12" using y by (simp add: unat_sub word_le_nat_alt)
  then have "of_nat (n - 12) = y - x - 24" by (metis of_nat_unat ucast_id)
  moreover have "(of_nat (n - 12) + 12 :: u32) = of_nat n" using y(2) by (simp add: of_nat_diff)
  ultimately have nxt: "y - x - 24 + 12 = of_nat n" by (simp only:)
  have "4 dvd n" using aligned_ends [of b] aligned_ends(2) [of e] y(1) unfolding xy [symmetric] by presburger
  show "heap_ok (rt_system_heap_init b e h) [(False, unat (RT_ALIGN_DOWN e) - unat (RT_ALIGN b) - 12)]"
    using y nxt u room \<open>4 dvd n\<close> aligned_ends(1) [of b] \<open>unat (y - x - 24) = n - 12\<close> 
      addr_neq [of 0 n x] unsigned_less [of y, where 'a = nat]
    unfolding xy [symmetric] n [symmetric]
    by (simp add: rt_system_heap_init_def SIZEOF_STRUCT_MEM_def Let_def xy [symmetric] heap_ok_def heap_shape_def header_of_def)
  show "heap_ptr (rt_system_heap_init b e h) = RT_ALIGN b"
    using y by (simp add: rt_system_heap_init_def SIZEOF_STRUCT_MEM_def Let_def xy [symmetric])
qed

section \<open>Any sequence of calls\<close>

text \<open>There is a used block of size \<open>l\<close> at offset \<open>off\<close>.\<close>

primrec used_at :: "block list \<Rightarrow> nat \<Rightarrow> nat \<Rightarrow> bool" where
  "used_at [] off l \<longleftrightarrow> False"
| "used_at (b # bs) off l \<longleftrightarrow> b = (True, l) \<and> off = 0 \<or> snd b \<le> off \<and> used_at bs (off - snd b) l"

lemma used_at_append:
  "used_at (as @ bs) off l \<longleftrightarrow> used_at as off l \<or> extent as \<le> off \<and> used_at bs (off - extent as) l"
proof (induction as arbitrary: off)
  case (Cons b as)
  have "extent as \<le> off - snd b \<longleftrightarrow> snd b + extent as \<le> off" if "snd b \<le> off" using that by linarith
  then show ?case unfolding append_Cons used_at.simps Cons.IH extent_simps diff_diff_eq by auto
qed simp

lemma used_at_bound: "used_at bs off l \<Longrightarrow> off + l \<le> extent bs"
proof (induction bs arbitrary: off)
  case (Cons b bs)
  from Cons.prems show ?case unfolding used_at.simps
  proof (elim disjE conjE)
    assume "snd b \<le> off" "used_at bs (off - snd b) l"
    then show ?thesis using Cons.IH [of "off - snd b"] by simp
  qed simp
qed simp

lemma used_at_sized: "used_at bs off l \<Longrightarrow> sized bs \<Longrightarrow> 16 \<le> l"
  by (induction bs arbitrary: off) auto

lemma used_at_apart: "used_at bs o1 l1 \<Longrightarrow> used_at bs o2 l2 \<Longrightarrow> o1 \<noteq> o2 \<Longrightarrow> o1 + l1 \<le> o2 \<or> o2 + l2 \<le> o1"
proof (induction bs arbitrary: o1 o2)
  case (Cons b bs)
  from Cons.prems(1,2) show ?case unfolding used_at.simps
  proof (elim disjE conjE)
    assume a: "snd b \<le> o1" "used_at bs (o1 - snd b) l1" "snd b \<le> o2" "used_at bs (o2 - snd b) l2"
    then have "o1 - snd b \<noteq> o2 - snd b" using Cons.prems(3) by simp
    then show ?thesis using Cons.IH [OF a(2,4)] a(1,3) by linarith
  qed (use Cons.prems(3) in auto)
qed simp

lemma used_at_split:
  "used_at bs off l \<Longrightarrow> \<exists>as cs. bs = as @ (True, l) # cs \<and> extent as = off"
proof (induction bs arbitrary: off)
  case (Cons b bs)
  show ?case
  proof (cases "b = (True, l) \<and> off = 0")
    case True
    then show ?thesis by (intro exI [of _ "[]"] exI [of _ bs]) simp
  next
    case False
    then have t: "used_at bs (off - snd b) l" "snd b \<le> off" using Cons.prems by auto
    obtain as cs where "bs = as @ (True, l) # cs" "extent as = off - snd b" using Cons.IH [OF t(1)] by blast
    then show ?thesis using t(2) by (intro exI [of _ "b # as"] exI [of _ cs]) simp
  qed
qed simp

lemma used_at_coalesce: "used_at (coalesce bs) off l = used_at bs off l"
proof (induction bs arbitrary: off rule: coalesce_induct)
  case (join a b bs)
  show ?case unfolding coalesce.simps join by (auto simp: diff_diff_eq)
next
  case (single x)
  then show ?case by simp
qed (simp_all only: coalesce.simps used_at.simps)

lemma used_at_cut:
  assumes "12 + n \<le> l"
  obtains m where "12 + n \<le> m" and "\<And>off k. used_at (as @ cut n l @ cs) off k \<longleftrightarrow>
    used_at (as @ (False, l) # cs) off k \<or> off = extent as \<and> k = m"
proof (cases "n + 36 \<le> l")
  case True
  have "used_at (as @ cut n l @ cs) off k \<longleftrightarrow>
    used_at (as @ (False, l) # cs) off k \<or> off = extent as \<and> k = n + 12" for off k
    using True by (auto simp: cut_def used_at_append diff_diff_eq)
  then show ?thesis using that [of "n + 12"] by simp
next
  case False
  have "used_at (as @ cut n l @ cs) off k \<longleftrightarrow>
    used_at (as @ (False, l) # cs) off k \<or> off = extent as \<and> k = l" for off k
    using False by (auto simp: cut_def used_at_append)
  then show ?thesis using that [of l] assms by simp
qed

lemma used_at_release:
  assumes "0 < l" "sized as"
  shows "used_at (as @ (False, l) # cs) off k \<longleftrightarrow> used_at (as @ (True, l) # cs) off k \<and> off \<noteq> extent as"
  using used_at_bound [of as "extent as" k] used_at_sized [of as "extent as" k] assms by (auto simp: used_at_append)

abbreviation heap_calls :: "heap_request list \<Rightarrow> (u32 \<times> u32) list \<times> heap \<Rightarrow> ((u32 \<times> u32) list \<times> heap) option" where
  "heap_calls \<equiv> client_calls rt_malloc rt_free"

text \<open>The program holds exactly the used blocks.\<close>

definition holds_blocks :: "(u32 \<times> u32) list \<Rightarrow> heap \<Rightarrow> block list \<Rightarrow> bool" where
  "holds_blocks live h bs \<longleftrightarrow>
     heap_ok h bs \<and> distinct (map fst live) \<and>
     (\<forall>(p, n) \<in> set live. \<exists>off l. used_at bs off l \<and> p = heap_ptr h + of_nat (off + 12) \<and> unat n + 12 \<le> l) \<and>
     (\<forall>off l. used_at bs off l \<longrightarrow> heap_ptr h + of_nat (off + 12) \<in> fst ` set live)"

lemma request_covers: "n \<le> request n"
  by (simp add: request_def)

lemma used_at_same_addr:
  assumes "heap_ok h bs" "used_at bs o1 l1" "o2 \<le> extent bs"
  shows "heap_ptr h + of_nat (o1 + 12) = heap_ptr h + of_nat (o2 + 12) \<longleftrightarrow> o1 = o2"
  using addr_eq [of "o1 + 12" "o2 + 12" "heap_ptr h"] used_at_bound [OF assms(2)] assms(1,3)
  by (simp add: heap_ok_def heap_shape_def)

lemma block_addr_nonzero:
  assumes "heap_shape h bs" "off \<le> extent bs"
  shows "heap_ptr h + of_nat (off + 12) \<noteq> 0"
proof -
  have "unat (heap_ptr h + of_nat (off + 12)) = unat (heap_ptr h) + (off + 12)"
    by (rule unat_addr) (use assms in \<open>simp add: heap_shape_def\<close>)
  then show ?thesis by (metis add_is_0 unat_0 zero_neq_numeral)
qed

lemma malloc_holds_blocks:
  assumes h: "holds_blocks live h bs" and n: "unat n + 3 < 2 ^ 32"
  shows "\<exists>p h' bs'. rt_malloc n h = Some (p, h') \<and> holds_blocks (if p = 0 then live else (p, n) # live) h' bs' \<and>
    heap_base_same h h'"
proof (cases "rt_malloc n h = Some (0, h)")
  case True
  then show ?thesis using h by (auto simp: heap_base_same_def)
next
  case False
  have ok: "heap_ok h bs" using h by (simp add: holds_blocks_def)
  have "0 < n" using False by (cases "n = 0") (simp_all add: rt_malloc_def word_neq_0_conv)
  then obtain as l cs h' where m: "bs = as @ (False, l) # cs" "12 + request (unat n) \<le> l"
    "rt_malloc n h = Some (heap_ptr h + of_nat (extent as + 12), h')"
    "heap_ok h' (as @ cut (request (unat n)) l @ cs)" "heap_base_same h h'"
    using rt_malloc_ok [OF ok _ n] False by blast
  define p where p: "p = heap_ptr h + of_nat (extent as + 12)"
  let ?bs = "as @ cut (request (unat n)) l @ cs"
  obtain k where k: "12 + request (unat n) \<le> k"
    and u: "\<And>off j. used_at ?bs off j \<longleftrightarrow> used_at bs off j \<or> off = extent as \<and> j = k"
    using used_at_cut [OF m(2), of as cs] unfolding m(1) by metis
  have fresh: "\<not> used_at bs (extent as) j" for j
    using used_at_release [of l as cs "extent as" j] ok m(1,2) by (simp add: heap_ok_def heap_shape_def)
  have ne: "p \<noteq> 0" unfolding p by (rule block_addr_nonzero [of h bs]) (use ok m(1) in \<open>auto simp: heap_ok_def\<close>)
  have "p \<notin> fst ` set live"
  proof
    assume "p \<in> fst ` set live"
    then obtain off j where "used_at bs off j" "p = heap_ptr h + of_nat (off + 12)"
      using h by (fastforce simp: holds_blocks_def)
    then show False using used_at_same_addr [OF ok, of off j "extent as"] fresh m(1) by (auto simp: p)
  qed
  moreover have "heap_ptr h' = heap_ptr h" using m(5) by (simp add: heap_base_same_def)
  ultimately have "holds_blocks ((p, n) # live) h' ?bs"
    using h m(4) u k request_covers [of "unat n"] unfolding holds_blocks_def p
    by (fastforce simp del: of_nat_add)
  then show ?thesis using m(3,5) ne unfolding p [symmetric] by auto
qed

lemma without_nth:
  "distinct xs \<Longrightarrow> i < length xs \<Longrightarrow>
   set (take i xs @ drop (Suc i) xs) = set xs - {xs ! i} \<and> distinct (take i xs @ drop (Suc i) xs)"
proof -
  assume d: "distinct xs" and i: "i < length xs"
  define a x b where e: "a = take i xs" "x = xs ! i" "b = drop (Suc i) xs"
  then have "xs = a @ x # b" using i by (simp add: id_take_nth_drop)
  then show ?thesis using d unfolding e [symmetric] by auto
qed

lemma free_holds_blocks:
  assumes h: "holds_blocks live h bs" and True: "i < length live"
  shows "\<exists>h' bs'. rt_free (fst (live ! i)) h = Some h' \<and> holds_blocks (take i live @ drop (Suc i) live) h' bs' \<and>
    heap_base_same h h'"
proof -
  have ok: "heap_ok h bs" using h by (simp add: holds_blocks_def)
  obtain p n where pn: "live ! i = (p, n)" by fastforce
  then have "(p, n) \<in> set live" using True by (metis nth_mem)
  then obtain off l where b: "used_at bs off l" "p = heap_ptr h + of_nat (off + 12)"
    using h unfolding holds_blocks_def by fastforce
  obtain as cs where as: "bs = as @ (True, l) # cs" "extent as = off" using used_at_split [OF b(1)] by blast
  obtain h' where f: "rt_free p h = Some h'" "heap_ok h' (coalesce (as @ (False, l) # cs))" "heap_base_same h h'"
    using rt_free_ok [of h as l cs] ok as b(2) by auto
  let ?bs = "coalesce (as @ (False, l) # cs)" and ?live = "take i live @ drop (Suc i) live"
  have u: "used_at ?bs o' j \<longleftrightarrow> used_at bs o' j \<and> o' \<noteq> off" for o' j
    using used_at_release [of l as cs o' j] ok as by (auto simp: used_at_coalesce heap_ok_def heap_shape_def)
  have d: "distinct (map fst live)" using h by (simp add: holds_blocks_def)
  have rest: "fst ` set ?live = fst ` set live - {p}" "set ?live \<subseteq> set live" "distinct (map fst ?live)"
  proof -
    have e: "map fst ?live = take i (map fst live) @ drop (Suc i) (map fst live)" by (simp add: take_map drop_map)
    then have "set (map fst ?live) = set (map fst live) - {map fst live ! i}" "distinct (map fst ?live)"
      using without_nth [OF d, of i] True by simp_all
    then show "fst ` set ?live = fst ` set live - {p}" "distinct (map fst ?live)" using True pn by (simp_all add: image_Un)
    show "set ?live \<subseteq> set live" using set_take_subset [of i live] set_drop_subset [of "Suc i" live] by auto
  qed
  have same: "heap_ptr h' = heap_ptr h" using f(3) by (simp add: heap_base_same_def)
  have held: "\<exists>off j. used_at ?bs off j \<and> q = heap_ptr h + of_nat (off + 12) \<and> unat m + 12 \<le> j"
    if q: "(q, m) \<in> set ?live" for q m
  proof -
    have "q \<in> fst ` set ?live" using q by (metis fst_conv image_eqI)
    then have "q \<noteq> p" unfolding rest(1) by simp
    moreover have "(q, m) \<in> set live" using q rest(2) by blast
    ultimately obtain o' j where "used_at bs o' j" "q = heap_ptr h + of_nat (o' + 12)" "unat m + 12 \<le> j"
      using h unfolding holds_blocks_def by fastforce
    then show ?thesis using u \<open>q \<noteq> p\<close> b(2) by blast
  qed
  have "heap_ptr h + of_nat (o' + 12) \<in> fst ` set ?live" if "used_at ?bs o' j" for o' j
  proof -
    have o': "used_at bs o' j" "o' \<noteq> off" using u that by auto
    then have "heap_ptr h + of_nat (o' + 12) \<noteq> p"
      unfolding b(2) using used_at_same_addr [OF ok o'(1), of off] used_at_bound [OF b(1)] by simp
    then show ?thesis unfolding rest(1) using h o'(1) unfolding holds_blocks_def by blast
  qed
  then have "holds_blocks ?live h' ?bs"
    unfolding holds_blocks_def same using held f(2) rest(3) by blast
  then show ?thesis using f True pn by auto
qed

text \<open>The heap keeps the contract of an allocator; its place \<open>b\<close> and size \<open>m\<close> stay.\<close>

definition heap_client :: "u32 \<Rightarrow> u32 \<Rightarrow> (u32 \<times> u32) list \<Rightarrow> heap \<Rightarrow> bool" where
  "heap_client b m live h \<longleftrightarrow> heap_ptr h = b \<and> mem_size_aligned h = m \<and> (\<exists>bs. holds_blocks live h bs)"

interpretation heap: block_allocator rt_malloc rt_free "heap_client b m" "\<lambda>n. unat n + 3 < 2 ^ 32" for b m
proof
  fix live h and n :: u32
  assume "heap_client b m live h" "unat n + 3 < 2 ^ 32"
  then show "\<exists>p h'. rt_malloc n h = Some (p, h') \<and> heap_client b m (if p = 0 then live else (p, n) # live) h'"
    using malloc_holds_blocks [of live h _ n] unfolding heap_client_def heap_base_same_def by fast
next
  fix live h i
  assume "heap_client b m live h" "i < length live"
  then show "\<exists>h'. rt_free (fst (live ! i)) h = Some h' \<and> heap_client b m (take i live @ drop (Suc i) live) h'"
    using free_holds_blocks [of live h _ i] unfolding heap_client_def heap_base_same_def by fast
qed

text \<open>What holding blocks means for the addresses: the blocks lie in the heap, and they and their headers are disjoint.\<close>

definition in_heap :: "heap \<Rightarrow> u32 \<times> u32 \<Rightarrow> bool" where
  "in_heap h b \<longleftrightarrow> unat (heap_ptr h) + 12 \<le> unat (fst b) \<and> unat (fst b) + unat (snd b) \<le> unat (heap_end h)"

definition apart_blocks :: "u32 \<times> u32 \<Rightarrow> u32 \<times> u32 \<Rightarrow> bool" where
  "apart_blocks b c \<longleftrightarrow>
     unat (fst b) + unat (snd b) + 12 \<le> unat (fst c) \<or> unat (fst c) + unat (snd c) + 12 \<le> unat (fst b)"

lemma holds_blocks_in_heap:
  assumes h: "holds_blocks live h bs" and b: "(p, n) \<in> set live"
  obtains off l where "used_at bs off l" "unat p = unat (heap_ptr h) + off + 12" "unat n + 12 \<le> l" "off + l \<le> extent bs"
proof -
  obtain off l where u: "used_at bs off l" "p = heap_ptr h + of_nat (off + 12)" "unat n + 12 \<le> l"
    using h b unfolding holds_blocks_def by fastforce
  have "off + l \<le> extent bs" by (rule used_at_bound [OF u(1)])
  moreover have "unat p = unat (heap_ptr h) + (off + 12)"
    unfolding u(2) by (rule unat_addr) (use calculation h in \<open>simp add: holds_blocks_def heap_ok_def heap_shape_def\<close>)
  ultimately show ?thesis using that [OF u(1)] u(3) by simp
qed

lemma holds_blocks_safe:
  assumes h: "holds_blocks live h bs"
  shows "list_all (in_heap h) live" and "pairwise apart_blocks (set live)"
proof -
  have e: "unat (heap_end h) = unat (heap_ptr h) + extent bs"
    using h unat_addr [of "heap_ptr h" "extent bs"] by (simp add: holds_blocks_def heap_ok_def heap_shape_def)
  show "list_all (in_heap h) live" unfolding list_all_iff
  proof (clarify)
    fix p n assume "(p, n) \<in> set live"
    then obtain off l where "unat p = unat (heap_ptr h) + off + 12" "unat n + 12 \<le> l" "off + l \<le> extent bs"
      by (rule holds_blocks_in_heap [OF h])
    then show "in_heap h (p, n)" unfolding in_heap_def e by simp
  qed
  show "pairwise apart_blocks (set live)"
  proof (rule pairwiseI)
    fix b c assume bc: "b \<in> set live" "c \<in> set live" "b \<noteq> c"
    obtain p n q m where eq: "b = (p, n)" "c = (q, m)" by (cases b; cases c) blast
    then have p: "(p, n) \<in> set live" and q: "(q, m) \<in> set live" and "(p, n) \<noteq> (q, m)" using bc by auto
    then have "p \<noteq> q" using h eq_key_imp_eq_value unfolding holds_blocks_def by metis
    obtain o1 l1 where 1: "used_at bs o1 l1" "unat p = unat (heap_ptr h) + o1 + 12" "unat n + 12 \<le> l1"
      by (rule holds_blocks_in_heap [OF h p])
    obtain o2 l2 where 2: "used_at bs o2 l2" "unat q = unat (heap_ptr h) + o2 + 12" "unat m + 12 \<le> l2"
      by (rule holds_blocks_in_heap [OF h q])
    have "o1 \<noteq> o2" using \<open>p \<noteq> q\<close> 1(2) 2(2) word_eq_iff_unsigned [of p q, where 'a = nat] by auto
    then show "apart_blocks b c" using used_at_apart [OF 1(1) 2(1)] 1 2 by (auto simp: apart_blocks_def eq)
  qed
qed

text \<open>When everything has been given back, the heap is one free block again.\<close>

lemma no_used_block: "(\<And>off l. \<not> used_at bs off l) \<Longrightarrow> b \<in> set bs \<Longrightarrow> \<not> fst b"
proof
  assume n: "\<And>off l. \<not> used_at bs off l" and "b \<in> set bs" "fst b"
  then obtain as l cs where "bs = as @ (True, l) # cs" by (metis eq_fst_iff split_list)
  then show False using n [of "extent as" l] by (simp add: used_at_append)
qed

lemma holds_nothing:
  assumes "holds_blocks [] h bs"
  shows "bs = [(False, extent bs)]"
proof -
  have n: "\<not> fst b" if "b \<in> set bs" for b using assms no_used_block [of bs b] that by (auto simp: holds_blocks_def)
  have c: "coalesced bs" "bs \<noteq> []" using assms by (auto simp: holds_blocks_def heap_ok_def heap_shape_def)
  then obtain b cs where b: "bs = b # cs" by (cases bs) auto
  then have "cs = []" using c n by (cases cs) auto
  then show ?thesis using b n by (cases b) auto
qed

lemma coalesce_join: "coalesce (as @ (False, a) # (False, b) # cs) = coalesce (as @ (False, a + b) # cs)"
proof -
  have "coalesce ((u, x) # (False, a) # (False, b) # cs) = coalesce ((u, x) # (False, a + b) # cs)" for u x
    by (cases u) (auto simp: add.assoc)
  then show ?thesis by (induction as rule: coalesce.induct) auto
qed

lemma uncut:
  assumes "12 + n \<le> l" "cut n l = (True, k) # ds"
  shows "coalesce (as @ (False, k) # ds @ cs) = coalesce (as @ (False, l) # cs)"
  using assms coalesce_join [of as "n + 12" "l - (n + 12)" cs] by (auto simp: cut_def split: if_splits)

end
