(* ===== verification/Mem_Realloc.thy ===== *)
theory Mem_Realloc
  imports Mem_Free
begin

text \<open>
  \<open>rt_realloc\<close>: a block that stays, one that is cut and one that moves with its contents.
\<close>

section \<open>rt_realloc\<close>

text \<open>
  The rest of a block that shrinks is merged with a free block behind it. \<open>lfree\<close> moves only when it
  pointed to that block.
\<close>

lemma plug_rest:
  assumes h: "heap_shape h (as @ (False, l) # cs)" and as: "as = [] \<or> fst (last as)" and co: "coalesced cs"
  shows "\<exists>h'. plug_holes (heap_ptr h + of_nat (extent as)) h = Some h' \<and> heap_shape h' (as @ coalesce ((False, l) # cs)) \<and>
    heap_base_same h h' \<and> heap_sem h' = heap_sem h \<and>
    lfree h' = (if lfree h = heap_ptr h + of_nat (extent as + l) \<and> cs \<noteq> [] \<and> \<not> fst (hd cs)
      then heap_ptr h + of_nat (extent as) else lfree h)"
proof (cases "cs = [] \<or> fst (hd cs)")
  case True
  then have "coalesced ((False, l) # cs)" using co by (auto simp: successively_Cons)
  then show ?thesis
    using True plug_holes_checks [OF h refl] plug_forward_used [OF h True] plug_backward_used [OF h as] h
    by (auto simp: coalesce_coalesced heap_base_same_def)
next
  case False
  then obtain n ds where cs: "cs = (False, n) # ds" by (cases cs) auto
  then have "coalesced ((False, l + n) # ds)" using co by (auto simp: successively_Cons)
  then have c: "coalesce ((False, l) # cs) = (False, l + n) # ds" by (simp add: cs coalesce_coalesced)
  obtain h1 where h1: "plug_forward (heap_ptr h + of_nat (extent as)) h = Some h1" "heap_shape h1 (as @ (False, l + n) # ds)"
    "heap_base_same h h1" "heap_sem h1 = heap_sem h"
    "lfree h1 = (if lfree h = heap_ptr h + of_nat (extent as + l) then heap_ptr h + of_nat (extent as) else lfree h)"
    using plug_forward_merges [of h as l n ds] h unfolding cs by blast
  have "heap_ptr h1 = heap_ptr h" using h1(3) by (simp add: heap_base_same_def)
  then have "plug_holes (heap_ptr h + of_nat (extent as)) h = Some h1"
    using plug_holes_checks [OF h refl] h1(1) plug_backward_used [OF h1(2) as] by simp
  then show ?thesis using h1 c by (simp add: cs)
qed

lemma realloc_shrink_ok:
  assumes h: "heap_shape h (as @ (True, l) # cs)" and co: "coalesced cs"
    and n: "4 \<le> unat n" "4 dvd unat n" "unat n + 36 < l" and k: "k = unat n + 12"
  shows "\<exists>h'. realloc_shrink (heap_ptr h + of_nat (extent as)) (of_nat (l - 12)) n h = Some h' \<and>
    heap_shape h' (as @ (True, k) # coalesce ((False, l - k) # cs)) \<and> heap_base_same h h' \<and> heap_sem h' = heap_sem h \<and>
    lfree h' = (if lfree h = heap_ptr h + of_nat (extent as + l) \<and> cs \<noteq> [] \<and> \<not> fst (hd cs)
      then heap_ptr h + of_nat (extent as + k) else lfree h)"
proof -
  have hd: "headers h (heap_ptr h + of_nat (extent as)) = Some (header_of (last_off 0 0 as) (extent as) (True, l))"
    by (rule heap_shape_header [OF h])
  let ?f = "\<lambda>m. m\<lparr>mem_next := of_nat (extent as + k)\<rparr>"
  define g where g: "g = h\<lparr>used_mem := used_mem h - (of_nat (l - 12) - n)\<rparr>"
  have f: "?f (header_of p (extent as) (True, l)) = header_of p (extent as) (True, k)" for p by (simp add: header_of_def)
  obtain H where H: "do { g \<leftarrow> set_header (heap_ptr h + of_nat (extent as)) ?f
            (g\<lparr>headers := (headers g)(heap_ptr h + of_nat (extent as + k) \<mapsto>
              \<lparr>mem_magic = HEAP_MAGIC, mem_used = 0, mem_next = of_nat (extent as + l), mem_prev = of_nat (extent as)\<rparr>)\<rparr>);
          if of_nat (extent as + l) \<noteq> mem_size_aligned g + SIZEOF_STRUCT_MEM
          then set_header (heap_ptr g + of_nat (extent as + l)) (\<lambda>x. x\<lparr>mem_prev := of_nat (extent as + k)\<rparr>) g else Some g } =
        Some (g\<lparr>headers := H\<rparr>)"
    and shape: "heap_shape (h\<lparr>headers := H, used_mem := of_nat (extent (filter fst (as @ (True, k) # cs)))\<rparr>)
      (as @ (True, k) # (False, l - k) # cs)"
    by (rule split_headers [OF h _ _ _ f _ _ _ refl refl refl, of g]) (use n in \<open>simp_all add: k g\<close>)
  let ?g = "g\<lparr>headers := H\<rparr>"
  have used: "used_mem g = of_nat (extent (filter fst (as @ (True, k) # cs)))"
    using h n(3) by (simp add: g heap_shape_def k of_nat_diff)
  have g_shape: "heap_shape ?g ((as @ [(True, k)]) @ (False, l - k) # cs)"
    using shape used by (simp add: heap_shape_def g)
  have p2: "of_nat (extent as) + SIZEOF_STRUCT_MEM + n = of_nat (extent as + k)"
    by (simp add: k SIZEOF_STRUCT_MEM_def)
  have p1: "heap_ptr h + of_nat (extent as) - heap_ptr h = (of_nat (extent as) :: u32)" by simp
  have fields: "heap_ptr g = heap_ptr h" "headers g = headers h" "lfree g = lfree h" "heap_sem g = heap_sem h"
    "mem_size_aligned g = mem_size_aligned h" "user_bytes g = user_bytes h" by (simp_all add: g)
  have "realloc_shrink (heap_ptr h + of_nat (extent as)) (of_nat (l - 12)) n h =
      plug_holes (heap_ptr h + of_nat (extent as + k)) ?g"
    unfolding realloc_shrink_def Let_def hd Option.bind.bind_lunit header_offset(2) snd_conv g [symmetric] p1 p2 fields
    using arg_cong [OF H, of "\<lambda>r. Option.bind r (plug_holes (heap_ptr h + of_nat (extent as + k)))"]
    by (simp add: fields del: of_nat_add)
  moreover have e: "extent (as @ [(True, k)]) = extent as + k" "extent as + k + (l - k) = extent as + l"
    "(as @ [(True, k)]) @ xs = as @ (True, k) # xs" for xs using n k by simp_all
  moreover have gf: "heap_ptr ?g = heap_ptr h" "lfree ?g = lfree h" "heap_sem ?g = heap_sem h" "heap_base_same ?g = heap_base_same h"
    by (simp_all add: fields heap_base_same_def fun_eq_iff)
  ultimately show ?thesis using plug_rest [OF g_shape _ co] unfolding gf e by simp
qed

text \<open>Growing: a new block is allocated, filled and the old one freed.\<close>

lemma used_range:
  assumes "heap_shape h bs" "used_at bs off l"
  shows "unat (heap_ptr h + of_nat (off + 12)) = unat (heap_ptr h) + off + 12"
    and "n + 12 \<le> l \<Longrightarrow> x \<in> range_at (heap_ptr h + of_nat (off + 12)) n \<longleftrightarrow>
      unat (heap_ptr h) + off + 12 \<le> unat x \<and> unat x < unat (heap_ptr h) + off + 12 + n"
proof -
  have b: "off + l \<le> extent bs" "unat (heap_ptr h) + extent bs + 12 < 2 ^ 32"
    using used_at_bound [OF assms(2)] assms(1) by (simp_all add: heap_shape_def)
  show u: "unat (heap_ptr h + of_nat (off + 12)) = unat (heap_ptr h) + off + 12"
    using unat_addr [of "heap_ptr h" "off + 12"] b by simp
  assume "n + 12 \<le> l"
  then show "x \<in> range_at (heap_ptr h + of_nat (off + 12)) n \<longleftrightarrow>
      unat (heap_ptr h) + off + 12 \<le> unat x \<and> unat x < unat (heap_ptr h) + off + 12 + n"
    using range_at_no_wrap [of "heap_ptr h + of_nat (off + 12)" n x] b unfolding u by simp
qed

lemma used_ranges_disjoint:
  assumes "heap_shape h bs" "used_at bs o1 l1" "used_at bs o2 l2" "o1 \<noteq> o2" "n1 + 12 \<le> l1" "n2 + 12 \<le> l2"
  shows "range_at (heap_ptr h + of_nat (o1 + 12)) n1 \<inter> range_at (heap_ptr h + of_nat (o2 + 12)) n2 = {}"
  using used_at_apart [OF assms(2,3,4)] used_range(2) [OF assms(1,2,5)] used_range(2) [OF assms(1,3,6)] assms(5,6)
  by (auto simp del: of_nat_add) 

text \<open>A block of at least \<open>n\<close> bytes at \<open>q\<close> that begins with \<open>xs\<close>\<close>

definition block_holding :: "heap \<Rightarrow> block list \<Rightarrow> u32 \<Rightarrow> nat \<Rightarrow> u8 list \<Rightarrow> bool" where
  "block_holding h bs q n xs \<longleftrightarrow>
     (\<exists>off l. used_at bs off l \<and> q = heap_ptr h + of_nat (off + 12) \<and> n + 12 \<le> l) \<and> holds_at (user_bytes h) q xs"

lemma realloc_grow_ok:
  assumes h: "heap_ok h bs" and b: "used_at bs off l" and p: "p = heap_ptr h + of_nat (off + 12)"
    and m: "mapped (user_bytes h) (heap_ptr h) (extent bs)" and xs: "holds_at (user_bytes h) p xs" "length xs = l - 12"
    and n: "0 < n" "unat n + 3 < 2 ^ 32" "sz = of_nat (l - 12)"
  shows "\<exists>q h1. rt_malloc n h = Some (q, h1) \<and> (q = 0 \<and> h1 = h \<or>
    q \<noteq> 0 \<and> (\<exists>b h2 bs2. rt_memcpy q p (if sz < n then sz else n) (user_bytes h1) = Some (q, b) \<and>
      rt_free p (h1\<lparr>user_bytes := b\<rparr>) = Some h2 \<and> heap_ok h2 bs2 \<and> heap_ptr h2 = heap_ptr h \<and>
      block_holding h2 bs2 q (unat n) (take (unat n) xs)))"
proof (cases "rt_malloc n h = Some (0, h)")
  case False
  then obtain as k cs h1 where r: "bs = as @ (False, k) # cs" "12 + request (unat n) \<le> k"
    "rt_malloc n h = Some (heap_ptr h + of_nat (extent as + 12), h1)"
    "heap_ok h1 (as @ cut (request (unat n)) k @ cs)" "heap_base_same h h1"
    using rt_malloc_ok [OF h n(1,2)] by blast
  define q where q: "q = heap_ptr h + of_nat (extent as + 12)"
  let ?bs = "as @ cut (request (unat n)) k @ cs"
  obtain j where j: "12 + request (unat n) \<le> j"
    and u: "\<And>off i. used_at ?bs off i \<longleftrightarrow> used_at bs off i \<or> off = extent as \<and> i = j"
    using used_at_cut [OF r(2), of as cs] unfolding r(1) by metis
  have fresh: "\<not> used_at bs (extent as) i" for i
    using used_at_release [of k as cs "extent as" i] h r(1,2) by (simp add: heap_ok_def heap_shape_def)
  have same: "heap_ptr h1 = heap_ptr h" "user_bytes h1 = user_bytes h" using r(5) by (simp_all add: heap_base_same_def)
  have sh: "heap_shape h1 ?bs" using r(4) by (simp add: heap_ok_def)
  have o: "off \<noteq> extent as" "used_at ?bs off l" "used_at ?bs (extent as) j" "unat n + 12 \<le> j" "16 \<le> l"
    using fresh b u j request_covers [of "unat n"] used_at_sized [OF b] h
    by (auto simp: heap_ok_def heap_shape_def)
  define c where c: "c = (if sz < n then sz else n)"
  define ys where ys: "ys = take (unat n) xs"
  have ext: "extent ?bs = extent bs" using extent_cut [OF r(2)] by (simp add: r(1))
  have "l - 12 < 2 ^ 32" using used_at_bound [OF o(2)] heap_shape_extent [OF sh] by linarith
  then have "unat sz = l - 12" unfolding n(3) by (rule unat_small)
  then have c_len: "length ys = unat c" "unat c + 12 \<le> l" "unat c \<le> unat n"
    using o(5) xs(2) by (auto simp: c ys word_less_nat_alt)
  have apart: "range_at p (unat c) \<inter> range_at q (unat c) = {}"
    using used_ranges_disjoint [OF sh o(2,3,1) c_len(2), of "unat c"] o(4) c_len(3) unfolding p q same by simp
  have "range_at q (unat c) \<subseteq> range_at (heap_ptr h) (extent bs)"
  proof
    fix x assume x: "x \<in> range_at q (unat c)"
    have "unat (heap_ptr h) + extent bs \<le> 2 ^ 32" using h by (simp add: heap_ok_def heap_shape_def)
    moreover have "unat c + 12 \<le> j" using c_len(3) o(4) by simp
    then have "unat (heap_ptr h) + extent as + 12 \<le> unat x \<and> unat x < unat (heap_ptr h) + extent as + 12 + unat c"
      using used_range(2) [OF sh o(3)] x unfolding q same by blast
    ultimately show "x \<in> range_at (heap_ptr h) (extent bs)"
      using range_at_no_wrap [of "heap_ptr h" "extent bs" x] used_at_bound [OF o(3)] o(4) c_len(3) unfolding ext by linarith
  qed
  then have "mapped (user_bytes h) q (unat c)" using m by (auto simp: mapped_def)
  moreover have "holds_at (user_bytes h) p ys" using xs(1) holds_at_append [of _ p ys "drop (unat n) xs"] by (simp add: ys)
  ultimately have cp: "rt_memcpy q p c (user_bytes h1) = Some (q, write_at q ys (user_bytes h))"
    unfolding same by (intro rt_memcpy_eq c_len(1) apart)
  define h2 where h2: "h2 = h1\<lparr>user_bytes := write_at q ys (user_bytes h)\<rparr>"
  have "heap_ok h2 ?bs" using r(4) by (simp add: h2 heap_ok_def)
  moreover obtain as' cs' where s: "?bs = as' @ (True, l) # cs'" "extent as' = off" using used_at_split [OF o(2)] by blast
  moreover have "heap_ptr h2 = heap_ptr h" by (simp add: h2 same)
  ultimately obtain h3 where f: "rt_free p h2 = Some h3" "heap_ok h3 (coalesce (as' @ (False, l) # cs'))" "heap_base_same h2 h3"
    using rt_free_ok [of h2 as' l cs'] unfolding p by auto
  have "used_at (coalesce (as' @ (False, l) # cs')) (extent as) j"
    unfolding used_at_coalesce using used_at_release [of l as' cs'] o s sh by (simp add: heap_shape_def)
  moreover have "holds_at (user_bytes h3) q ys"
    using f(3) holds_at_write_at [of ys q "user_bytes h"] c_len unsigned_less [of c, where 'a = nat]
    by (simp add: heap_base_same_def h2)
  ultimately have "block_holding h3 (coalesce (as' @ (False, l) # cs')) q (unat n) (take (unat n) xs)"
    using f(3) o(4) unfolding block_holding_def ys [symmetric] by (auto simp: heap_base_same_def h2 same q)
  moreover have "q \<noteq> 0" unfolding q by (rule block_addr_nonzero [of h bs]) (use h r(1) in \<open>auto simp: heap_ok_def\<close>)
  ultimately show ?thesis
    using r(3) cp f h2 same unfolding q [symmetric] c [symmetric] by (auto simp: heap_base_same_def)
qed simp

text \<open>The three ways through \<open>rt_realloc\<close> for a block of the heap\<close>

lemma rt_realloc_cases:
  assumes h: "heap_ok h (as @ (True, l) # cs)" and p: "p = heap_ptr h + of_nat (extent as + 12)"
    and n: "0 < n" "unat n + 3 < 2 ^ 32" and N: "N = 4 * ((unat n + 3) div 4)" "w = RT_ALIGN n"
    and fits: "N \<le> unat (mem_size_aligned h)"
  shows "unat w = N" "N \<noteq> 0" "unat n \<le> N"
    and "l = N + 12 \<Longrightarrow> rt_realloc p n h = Some (p, h)"
    and "N + 36 < l \<Longrightarrow> rt_realloc p n h = do {
      h \<leftarrow> realloc_shrink (heap_ptr h + of_nat (extent as)) (of_nat (l - 12)) w (h\<lparr>heap_sem := heap_sem h - 1\<rparr>);
      Some (p, heap_unlock h) }"
    and "l \<noteq> N + 12 \<Longrightarrow> \<not> N + 36 < l \<Longrightarrow> rt_realloc p n h = do {
      (nmem, h) \<leftarrow> rt_malloc w h;
      if nmem \<noteq> 0 then do {
        (_, b) \<leftarrow> rt_memcpy nmem p (if of_nat (l - 12) < w then of_nat (l - 12) else w) (user_bytes h);
        h \<leftarrow> rt_free p (h\<lparr>user_bytes := b\<rparr>);
        Some (nmem, h) }
      else Some (nmem, h) }"
proof -
  have sh: "heap_shape h (as @ (True, l) # cs)" and sem: "0 < heap_sem h" using h by (simp_all add: heap_ok_def)
  show w: "unat w = N" "N \<noteq> 0" "unat n \<le> N" using RT_ALIGN_rounds [OF n(2)] n(1) by (auto simp: N word_less_nat_alt)
  obtain h1 where h1: "heap_lock h = Some h1" "heap_unlock h1 = h" "h1 = h\<lparr>heap_sem := heap_sem h - 1\<rparr>"
    by (rule heap_lock_unlock [OF sem])
  have hd: "headers h (heap_ptr h + of_nat (extent as)) = Some (header_of (last_off 0 0 as) (extent as) (True, l))"
    by (rule heap_shape_header [OF sh])
  have l: "16 \<le> l" "l < 2 ^ 32" "unat (mem_size_aligned h) + 24 < 2 ^ 32" using sh by (auto simp: heap_shape_def)
  have ra: "p - SIZEOF_STRUCT_MEM = heap_ptr h + of_nat (extent as)" by (simp add: p SIZEOF_STRUCT_MEM_def)
  have off: "heap_ptr h + of_nat (extent as) - heap_ptr h = of_nat (extent as)" by simp
  have sz: "of_nat (extent as + l) - of_nat (extent as) - SIZEOF_STRUCT_MEM = (of_nat (l - 12) :: u32)"
    using l(1) by (simp add: SIZEOF_STRUCT_MEM_def of_nat_diff)
  have u: "unat (of_nat (l - 12) :: u32) = l - 12" by (rule unat_small) (use l(2) in simp)
  have t1: "of_nat (l - 12) = w \<longleftrightarrow> l = N + 12"
    using l(1) unfolding word_eq_iff_unsigned [where 'a = nat] u w(1) by auto
  have "unat (w + SIZEOF_STRUCT_MEM + MIN_SIZE) = N + 24"
    using fits l(3) w(1) by (simp add: SIZEOF_STRUCT_MEM_def MIN_SIZE_def unat_word_ariths)
  then have t2: "w + SIZEOF_STRUCT_MEM + MIN_SIZE < of_nat (l - 12) \<longleftrightarrow> N + 36 < l"
    using l(1) unfolding word_less_nat_alt u by auto
  have same: "heap_ptr h1 = heap_ptr h" "heap_end h1 = heap_end h" "headers h1 = headers h" by (simp_all add: h1(3))
  have "\<not> mem_size_aligned h < w" "w \<noteq> 0" using fits w by (auto simp: word_less_nat_alt)
  then have run: "rt_realloc p n h =
      (if of_nat (l - 12) = w then Some (p, heap_unlock h1)
       else if w + SIZEOF_STRUCT_MEM + MIN_SIZE < of_nat (l - 12) then do {
         h \<leftarrow> realloc_shrink (heap_ptr h + of_nat (extent as)) (of_nat (l - 12)) w h1;
         Some (p, heap_unlock h) }
       else do {
         (nmem, h) \<leftarrow> rt_malloc w (heap_unlock h1);
         if nmem \<noteq> 0 then do {
           (_, b) \<leftarrow> rt_memcpy nmem p (if of_nat (l - 12) < w then of_nat (l - 12) else w) (user_bytes h);
           h \<leftarrow> rt_free p (h\<lparr>user_bytes := b\<rparr>);
           Some (nmem, h) }
         else Some (nmem, h) })"
    unfolding rt_realloc_def Let_def N(2) [symmetric] h1(1) Option.bind.bind_lunit same ra hd header_offset(2) snd_conv off sz
    using block_checks [OF sh p] by simp
  show "l = N + 12 \<Longrightarrow> rt_realloc p n h = Some (p, h)" using run t1 h1(2) by simp
  show "N + 36 < l \<Longrightarrow> rt_realloc p n h = do {
      h \<leftarrow> realloc_shrink (heap_ptr h + of_nat (extent as)) (of_nat (l - 12)) w (h\<lparr>heap_sem := heap_sem h - 1\<rparr>);
      Some (p, heap_unlock h) }"
    unfolding run t1 t2 h1(3) by simp
  show "l \<noteq> N + 12 \<Longrightarrow> \<not> N + 36 < l \<Longrightarrow> rt_realloc p n h = do {
      (nmem, h) \<leftarrow> rt_malloc w h;
      if nmem \<noteq> 0 then do {
        (_, b) \<leftarrow> rt_memcpy nmem p (if of_nat (l - 12) < w then of_nat (l - 12) else w) (user_bytes h);
        h \<leftarrow> rt_free p (h\<lparr>user_bytes := b\<rparr>);
        Some (nmem, h) }
      else Some (nmem, h) }"
    unfolding run t1 t2 h1(2) by simp
qed

lemma rt_realloc_shrinks:
  assumes h: "heap_ok h (as @ (True, l) # cs)" and p: "p = heap_ptr h + of_nat (extent as + 12)"
    and n: "0 < n" "unat n + 3 < 2 ^ 32" and k: "k = 4 * ((unat n + 3) div 4) + 12" "k + 24 < l"
  shows "\<exists>h'. rt_realloc p n h = Some (p, h') \<and> heap_shape h' (as @ (True, k) # coalesce ((False, l - k) # cs)) \<and>
    heap_base_same h h' \<and> heap_sem h' = heap_sem h \<and>
    lfree h' = (if lfree h = heap_ptr h + of_nat (extent as + l) \<and> cs \<noteq> [] \<and> \<not> fst (hd cs)
      then heap_ptr h + of_nat (extent as + k) else lfree h)"
proof -
  have sh: "heap_shape h (as @ (True, l) # cs)" and co: "coalesced cs"
    using h by (auto simp: heap_ok_def successively_append_iff successively_Cons)
  have fits: "4 * ((unat n + 3) div 4) \<le> unat (mem_size_aligned h)" using sh k by (simp add: heap_shape_def)
  note r = rt_realloc_cases [OF h p n refl refl fits]
  let ?h = "h\<lparr>heap_sem := heap_sem h - 1\<rparr>"
  have "heap_shape ?h (as @ (True, l) # cs)" using sh by simp
  from realloc_shrink_ok [OF this co, of "RT_ALIGN n" k] obtain h' where
    "realloc_shrink (heap_ptr h + of_nat (extent as)) (of_nat (l - 12)) (RT_ALIGN n) ?h = Some h'"
    "heap_shape h' (as @ (True, k) # coalesce ((False, l - k) # cs))" "heap_base_same ?h h'" "heap_sem h' = heap_sem h - 1"
    "lfree h' = (if lfree h = heap_ptr h + of_nat (extent as + l) \<and> cs \<noteq> [] \<and> \<not> fst (hd cs)
      then heap_ptr h + of_nat (extent as + k) else lfree h)"
    using r(1,2) k by auto
  then show ?thesis using r(5) k by (simp add: heap_base_same_def heap_unlock_def)
qed

lemma block_holdingI:
  "used_at bs off l \<Longrightarrow> q = heap_ptr h + of_nat (off + 12) \<Longrightarrow> n + 12 \<le> l \<Longrightarrow> holds_at (user_bytes h) q xs \<Longrightarrow>
   block_holding h bs q n xs"
  by (force simp: block_holding_def)

lemma block_holding_weaken:
  assumes "block_holding h bs q m (take m xs)" "n \<le> m"
  shows "block_holding h bs q n (take n xs)"
proof -
  obtain off l where o: "used_at bs off l" "q = heap_ptr h + of_nat (off + 12)" "m + 12 \<le> l" "holds_at (user_bytes h) q (take m xs)"
    using assms(1) unfolding block_holding_def by blast
  have "take m xs = take n xs @ drop n (take m xs)" using append_take_drop_id [of n "take m xs"] assms(2) by (simp add: min_absorb1)
  then have "holds_at (user_bytes h) q (take n xs)" using o(4) holds_at_append [of _ q "take n xs"] by metis
  then show ?thesis using o(3) assms(2) by (intro block_holdingI [OF o(1,2)]) simp_all
qed

lemma rt_realloc_keeps:
  assumes h: "heap_ok h bs" and b: "used_at bs off l" and p: "p = heap_ptr h + of_nat (off + 12)"
    and m: "mapped (user_bytes h) (heap_ptr h) (extent bs)" and xs: "holds_at (user_bytes h) p xs" "length xs = l - 12"
    and n: "0 < n" "unat n + 3 < 2 ^ 32"
  shows "\<exists>q h'. rt_realloc p n h = Some (q, h') \<and>
    (q = 0 \<and> h' = h \<or> q \<noteq> 0 \<and> (\<exists>bs'. heap_shape h' bs' \<and> block_holding h' bs' q (unat n) (take (unat n) xs)))"
proof -
  obtain as cs where s: "bs = as @ (True, l) # cs" "extent as = off" using used_at_split [OF b] by blast
  have h': "heap_ok h (as @ (True, l) # cs)" and p': "p = heap_ptr h + of_nat (extent as + 12)" using h p s by simp_all
  have sh: "heap_shape h (as @ (True, l) # cs)" using h' by (simp add: heap_ok_def)
  note checks = block_checks [OF sh p']
  define N where N: "N = 4 * ((unat n + 3) div 4)"
  have prefix: "holds_at (user_bytes h) p (take i xs)" for i
    using xs(1) holds_at_append [of _ p "take i xs" "drop i xs"] by simp
  consider "unat (mem_size_aligned h) < N" | "N \<le> unat (mem_size_aligned h)" "l = N + 12"
    | "N \<le> unat (mem_size_aligned h)" "N + 36 < l" | "N \<le> unat (mem_size_aligned h)" "l \<noteq> N + 12" "\<not> N + 36 < l"
    by linarith
  then show ?thesis
  proof cases
    case 1
    then have "rt_realloc p n h = Some (0, h)"
      using RT_ALIGN_rounds [OF n(2)] by (simp add: rt_realloc_def N word_less_nat_alt)
    then show ?thesis by simp
  next
    case 2
    note r = rt_realloc_cases [OF h' p' n N refl 2(1)]
    have "block_holding h bs p (unat n) (take (unat n) xs)"
      by (rule block_holdingI [OF b p _ prefix]) (use r(3) 2(2) in simp)
    then show ?thesis using r(4) [OF 2(2)] checks(1) h by (auto simp: heap_ok_def)
  next
    case 3
    note r = rt_realloc_cases [OF h' p' n N refl 3(1)]
    obtain h1 where h1: "rt_realloc p n h = Some (p, h1)" "heap_shape h1 (as @ (True, N + 12) # coalesce ((False, l - (N + 12)) # cs))"
      "heap_base_same h h1"
      using rt_realloc_shrinks [OF h' p' n, of "N + 12"] 3(2) N by auto
    have "used_at (as @ (True, N + 12) # coalesce ((False, l - (N + 12)) # cs)) off (N + 12)"
      using s(2) by (simp add: used_at_append)
    then have "block_holding h1 (as @ (True, N + 12) # coalesce ((False, l - (N + 12)) # cs)) p (unat n) (take (unat n) xs)"
      by (rule block_holdingI) (use h1(3) prefix r(3) p in \<open>simp_all add: heap_base_same_def\<close>)
    then show ?thesis using h1 checks(1) by blast
  next
    case 4
    note r = rt_realloc_cases [OF h' p' n N refl 4(1)]
    have w: "0 < RT_ALIGN n" "unat (RT_ALIGN n) + 3 < 2 ^ 32"
      using r(1,2) 4(1) sh by (auto simp: heap_shape_def word_less_nat_alt)
    from realloc_grow_ok [OF h b p m xs w refl] obtain q h1 where g: "rt_malloc (RT_ALIGN n) h = Some (q, h1)"
      "q = 0 \<and> h1 = h \<or>
        q \<noteq> 0 \<and> (\<exists>b h2 bs2. rt_memcpy q p (if of_nat (l - 12) < RT_ALIGN n then of_nat (l - 12) else RT_ALIGN n) (user_bytes h1) = Some (q, b) \<and>
          rt_free p (h1\<lparr>user_bytes := b\<rparr>) = Some h2 \<and> heap_ok h2 bs2 \<and> heap_ptr h2 = heap_ptr h \<and>
          block_holding h2 bs2 q (unat (RT_ALIGN n)) (take (unat (RT_ALIGN n)) xs))" by blast
    show ?thesis
    proof (cases "q = 0")
      case True
      then show ?thesis using g r(6) [OF 4(2,3)] by simp
    next
      case False
      then obtain b h2 bs2 where c: "rt_memcpy q p (if of_nat (l - 12) < RT_ALIGN n then of_nat (l - 12) else RT_ALIGN n) (user_bytes h1) = Some (q, b)"
        "rt_free p (h1\<lparr>user_bytes := b\<rparr>) = Some h2" "heap_ok h2 bs2"
        "block_holding h2 bs2 q (unat (RT_ALIGN n)) (take (unat (RT_ALIGN n)) xs)" using g(2) by blast
      have "block_holding h2 bs2 q (unat n) (take (unat n) xs)" by (rule block_holding_weaken [OF c(4)]) (use r in simp)
      moreover have "rt_realloc p n h = Some (q, h2)" using r(6) [OF 4(2,3)] g(1) c(1,2) False by simp
      ultimately show ?thesis using c(3) False by (auto simp: heap_ok_def)
    qed
  qed
qed

end
