(* ===== verification/Mem_Props.thy ===== *)
theory Mem_Props
  imports Mem_Realloc
begin

text \<open>
  The properties of the allocator, with what goes wrong in it.
\<close>

section \<open>What goes wrong\<close>

text \<open>A size close to \<open>2 ^ 32\<close> is rounded to 0, and a block of 12 bytes is handed out.\<close>

lemma RT_ALIGN_wraps:
  assumes "0xFFFFFFFC < n"
  shows "RT_ALIGN n = 0"
proof -
  have "unat n < 4294967296" using unsigned_less [of n, where 'a = nat] by simp
  then have "unat n = 4294967293 \<or> unat n = 4294967294 \<or> unat n = 4294967295"
    using assms by (simp add: word_less_nat_alt) arith
  then have "n = 4294967293 \<or> n = 4294967294 \<or> n = 4294967295" by (simp add: word_eq_iff_unsigned [where 'a = nat])
  then show ?thesis by (auto simp: RT_ALIGN_def)
qed

lemma rt_malloc_wraps:
  assumes "0xFFFFFFFC < n" "12 \<le> mem_size_aligned h"
  shows "rt_malloc n h = rt_malloc 12 h"
proof -
  have "n \<noteq> 0" using assms(1) by auto
  then show ?thesis using assms(2) RT_ALIGN_wraps [OF assms(1)] by (simp add: rt_malloc_def Let_def) (auto simp: RT_ALIGN_def MIN_SIZE_def not_le [symmetric])
qed

lemma rt_realloc_wraps_frees: "0xFFFFFFFC < n \<Longrightarrow> rt_realloc p n h = map_option (Pair 0) (rt_free p h)"
  using RT_ALIGN_wraps [of n] by (cases "rt_free p h") (simp_all add: rt_realloc_def Let_def)

text \<open>So is the product of \<open>rt_calloc\<close>.\<close>

lemma rt_calloc_wraps: "rt_calloc 0x10000 0x10001 h = rt_calloc 1 0x10000 h"
proof -
  have e: "(0x10000 * 0x10001 :: u32) = 1 * 0x10000" by simp
  show ?thesis unfolding rt_calloc_def e ..
qed


text \<open>
  \<open>rt_realloc\<close> cuts a block but does not look whether the rest is the first free block of the heap:
  where every other block is used, \<open>rt_malloc\<close> never finds it.
\<close>

lemma rt_realloc_loses_rest:
  assumes h: "heap_ok h (as @ (True, l) # cs)" and used: "\<forall>b \<in> set as \<union> set cs. fst b"
    and p: "p = heap_ptr h + of_nat (extent as + 12)"
    and n: "0 < n" "unat n + 3 < 2 ^ 32" and k: "k = 4 * ((unat n + 3) div 4) + 12" "k + 24 < l"
    and m: "0 < m" "unat m + 3 < 2 ^ 32"
  shows "\<exists>h'. rt_realloc p n h = Some (p, h') \<and> heap_shape h' (as @ (True, k) # (False, l - k) # cs) \<and>
    rt_malloc m h' = Some (0, h')"
proof -
  let ?bs = "as @ (True, k) # (False, l - k) # cs"
  have sh: "heap_shape h (as @ (True, l) # cs)" and big: "24 \<le> extent (as @ (True, l) # cs)" and sem: "0 < heap_sem h"
    using h by (auto simp: heap_ok_def)
  have "takeWhile fst (as @ (True, l) # cs) = as @ (True, l) # cs" using used by (auto simp: takeWhile_eq_all_conv)
  then have f: "lfree h = heap_ptr h + of_nat (extent (as @ (True, l) # cs))" using h unfolding heap_ok_def by metis
  have "coalesced ((False, l - k) # cs)" using h used by (auto simp: heap_ok_def successively_append_iff successively_Cons)
  then have co: "coalesce ((False, l - k) # cs) = (False, l - k) # cs" by (rule coalesce_coalesced)
  have "cs = [] \<or> fst (hd cs)" using used by (cases cs) auto
  then obtain h' where r: "rt_realloc p n h = Some (p, h')" "heap_shape h' ?bs" "heap_base_same h h'" "heap_sem h' = heap_sem h"
    "lfree h' = lfree h"
    using rt_realloc_shrinks [OF h p n k] unfolding co by auto
  have ext: "extent ?bs = extent (as @ (True, l) # cs)" using k by simp
  have same: "heap_ptr h' = heap_ptr h" "mem_size_aligned h' = mem_size_aligned h" using r(3) by (simp_all add: heap_base_same_def)
  have "rt_malloc m h' = Some (0, h')"
  proof (cases "mem_size_aligned h' < RT_ALIGN m")
    case True
    then show ?thesis using m(1) by (simp add: rt_malloc_def)
  next
    case False
    define sz where sz: "sz = (if RT_ALIGN m < RT_ALIGN MIN_SIZE then RT_ALIGN MIN_SIZE else RT_ALIGN m)"
    have le: "unat sz \<le> unat (mem_size_aligned h')"
      using False sh big unfolding same
      by (auto simp: sz MIN_SIZE_def RT_ALIGN_def word_le_nat_alt not_less heap_shape_def)
    obtain h1 where h1: "heap_lock h' = Some h1" "heap_unlock h1 = h'" "h1 = h'\<lparr>heap_sem := heap_sem h' - 1\<rparr>"
      using heap_lock_unlock [of h'] sem unfolding r(4) by blast
    have "heap_shape h1 (?bs @ [])" using r(2) h1(3) by simp
    from malloc_search_finds [OF this, of sz] obtain x where
      x: "malloc_search (of_nat (extent ?bs)) sz h1 = Some x" "search_ok (unat (mem_size_aligned h1)) (unat sz) (extent ?bs) [] x"
      using le h1(3) by auto
    have "x = None" using x(2) by (cases x) (auto simp: search_ok_def)
    moreover have "lfree h1 - heap_ptr h1 = of_nat (extent ?bs)" unfolding ext using f r(5) same h1(3) by simp
    ultimately show ?thesis using x(1) h1(1,2) False m(1) by (simp add: rt_malloc_def Let_def sz [symmetric] del: extent_simps)
  qed
  then show ?thesis using r by blast
qed

section \<open>Samples\<close>

text \<open>256 bytes of memory\<close>

definition no_heap :: heap where
  "no_heap = \<lparr>heap_ptr = 0, heap_end = 0, lfree = 0, mem_size_aligned = 0, used_mem = 0, max_mem = 0, heap_sem = 0,
     headers = (\<lambda>_. None), user_bytes = (\<lambda>_. None)\<rparr>"

definition sample_heap :: heap where
  "sample_heap = rt_system_heap_init 0x20000000 0x20000100 no_heap"

lemma sample_ends: "RT_ALIGN 0x20000000 = 0x20000000" "RT_ALIGN_DOWN 0x20000100 = 0x20000100"
  by (simp_all add: RT_ALIGN_def RT_ALIGN_DOWN_def)

lemma sample_room: "unat (RT_ALIGN 0x20000000) + 36 \<le> unat (RT_ALIGN_DOWN 0x20000100)" "used_mem no_heap = 0"
  unfolding sample_ends by (simp_all add: no_heap_def)

lemma sample_heap_ok: "heap_ok sample_heap [(False, 244)]" and sample_heap_ptr: "heap_ptr sample_heap = 0x20000000"
  using rt_system_heap_init_ok [OF sample_room] unfolding sample_heap_def sample_ends by simp_all

lemma one_block: "[b] = as @ c # cs \<longleftrightarrow> as = [] \<and> c = b \<and> cs = []"
  by (cases as) auto

section \<open>Properties\<close>

text \<open>
  C12. \<open>rt_malloc\<close> returns: on a well-formed heap its two loops end. Either it answers with a null pointer
  and leaves the heap as it was, and then no free block holds the rounded size, except perhaps the last
  block exactly; or it takes a free block that is large enough, cuts off the rest if that can be a
  block of its own, and answers with the address behind the block's header, and the heap is well-formed
  again.
\<close>

theorem rt_malloc_serves:
  assumes "heap_ok h bs" "0 < n" "unat n + 3 < 2 ^ 32"
  shows "(rt_malloc n h = Some (0, h) \<and> no_room (request (unat n)) bs) \<or>
    (\<exists>as l cs h'. bs = as @ (False, l) # cs \<and> 12 + request (unat n) \<le> l \<and>
       rt_malloc n h = Some (heap_ptr h + of_nat (extent as + 12), h') \<and>
       heap_ok h' (as @ cut (request (unat n)) l @ cs) \<and> heap_base_same h h')"
  by (rule rt_malloc_ok [OF assms])

theorem rt_malloc_serves_witness:
  "\<exists>h'. rt_malloc 20 sample_heap = Some (0x2000000C, h') \<and> heap_ok h' [(True, 32), (False, 212)]"
proof -
  have "\<not> no_room (request 20) [(False, 244)]" by (auto simp: no_room_def one_block request_def)
  then show ?thesis
    using rt_malloc_serves [OF sample_heap_ok, of 20]
    by (auto simp: one_block request_def cut_def sample_heap_ptr)
qed

text \<open>
  C14. Allocating a block and giving it back leaves the heap with the blocks it had before: what was cut
  off is merged again, and the first free block is found again.
\<close>

theorem rt_malloc_free_restores:
  assumes "heap_ok h bs" "unat n + 3 < 2 ^ 32" "rt_malloc n h = Some (p, h1)" "p \<noteq> 0"
  shows "\<exists>h2. rt_free p h1 = Some h2 \<and> heap_ok h2 bs \<and> heap_base_same h h2"
proof -
  have "0 < n" using assms(3,4) by (cases "n = 0") (simp_all add: rt_malloc_def word_neq_0_conv)
  then obtain as l cs where m: "bs = as @ (False, l) # cs" "12 + request (unat n) \<le> l" "p = heap_ptr h + of_nat (extent as + 12)"
    "heap_ok h1 (as @ cut (request (unat n)) l @ cs)" "heap_base_same h h1"
    using rt_malloc_ok [OF assms(1) _ assms(2)] assms(3,4) by auto
  obtain k ds where c: "cut (request (unat n)) l = (True, k) # ds" by (rule cut_Cons)
  then obtain h2 where f: "rt_free p h1 = Some h2" "heap_ok h2 (coalesce (as @ (False, k) # ds @ cs))" "heap_base_same h1 h2"
    using rt_free_ok [of h1 as k "ds @ cs"] m(3,4,5) by (auto simp: heap_base_same_def)
  have "coalesce (as @ (False, k) # ds @ cs) = coalesce (as @ (False, l) # cs)"
    using uncut [OF m(2) c] .
  moreover have "coalesced (as @ (False, l) # cs)" using assms(1) m(1) by (simp add: heap_ok_def)
  ultimately show ?thesis using f m(1,5) by (simp add: coalesce_coalesced heap_base_same_def)
qed

theorem rt_malloc_free_restores_witness:
  "\<exists>h1 h2. rt_malloc 20 sample_heap = Some (0x2000000C, h1) \<and> rt_free 0x2000000C h1 = Some h2 \<and> heap_ok h2 [(False, 244)]"
proof -
  obtain h1 where h1: "rt_malloc 20 sample_heap = Some (0x2000000C, h1)"
    using rt_malloc_ok [OF sample_heap_ok, of 20] by (auto simp: one_block request_def no_room_def sample_heap_ptr)
  then show ?thesis using rt_malloc_free_restores [OF sample_heap_ok _ h1] by auto
qed

text \<open>
  C13. \<open>rt_realloc\<close> of a block the program holds keeps the contents: either it answers with a null
  pointer and has changed nothing, or with the address of a used block of at least the new size
  that starts with what the old block held, as far as the new size goes. That is so for the block
  that stays, the one that is cut and the one that moves.
\<close>

theorem rt_realloc_keeps_contents:
  assumes "heap_ok h bs" and "used_at bs off l" and "p = heap_ptr h + of_nat (off + 12)"
    and "mapped (user_bytes h) (heap_ptr h) (extent bs)" and "holds_at (user_bytes h) p xs" and "length xs = l - 12"
    and "0 < n" and "unat n + 3 < 2 ^ 32"
  shows "\<exists>q h'. rt_realloc p n h = Some (q, h') \<and>
    (q = 0 \<and> h' = h \<or> q \<noteq> 0 \<and> (\<exists>bs'. heap_shape h' bs' \<and> block_holding h' bs' q (unat n) (take (unat n) xs)))"
  by (rule rt_realloc_keeps [OF assms])

lemma sample_malloc:
  "\<exists>h1. rt_malloc 20 (sample_heap\<lparr>user_bytes := \<lambda>_. Some 7\<rparr>) = Some (0x2000000C, h1) \<and>
    heap_ok h1 [(True, 32), (False, 212)] \<and> heap_ptr h1 = 0x20000000 \<and> user_bytes h1 = (\<lambda>_. Some 7)"
proof -
  let ?h = "sample_heap\<lparr>user_bytes := \<lambda>_. Some 7\<rparr>"
  have ok: "heap_ok ?h [(False, 244)]" using sample_heap_ok by (simp add: heap_ok_def)
  have "\<not> no_room (request 20) [(False, 244)]" by (auto simp: no_room_def one_block request_def)
  then show ?thesis
    using rt_malloc_ok [OF ok, of 20] by (auto simp: one_block request_def cut_def sample_heap_ptr heap_base_same_def)
qed

theorem rt_realloc_keeps_contents_witness:
  "\<exists>h1 q h'. rt_malloc 20 (sample_heap\<lparr>user_bytes := \<lambda>_. Some 7\<rparr>) = Some (0x2000000C, h1) \<and>
    rt_realloc 0x2000000C 100 h1 = Some (q, h') \<and> (q = 0 \<or> holds_at (user_bytes h') q (replicate 20 7))"
proof -
  obtain h1 where h1: "rt_malloc 20 (sample_heap\<lparr>user_bytes := \<lambda>_. Some 7\<rparr>) = Some (0x2000000C, h1)"
    "heap_ok h1 [(True, 32), (False, 212)]" "heap_ptr h1 = 0x20000000" "user_bytes h1 = (\<lambda>_. Some 7)"
    using sample_malloc by blast
  have u: "used_at [(True, 32), (False, 212)] 0 32" by simp
  have m: "mapped (user_bytes h1) (heap_ptr h1) (extent [(True, 32), (False, 212)])" by (simp add: h1(4) mapped_def dom_def)
  have x: "holds_at (user_bytes h1) 0x2000000C (replicate 20 7)" by (simp add: h1(4) eval_nat_numeral)
  obtain q h' where "rt_realloc 0x2000000C 100 h1 = Some (q, h')"
    "q = 0 \<or> (\<exists>bs'. block_holding h' bs' q 100 (take 100 (replicate 20 7)))"
    using rt_realloc_keeps_contents [OF h1(2) u _ m x, of 100] h1(3) by auto
  then show ?thesis using h1(1) by (auto simp: block_holding_def)
qed

text \<open>
  C11. After start-up any sequence of calls of \<open>rt_malloc\<close> and \<open>rt_free\<close> by a program that frees only what it
  holds runs to its end: no assertion fails and no call hangs. The blocks the program holds then lie
  in the heap, and no two of them, with their headers, overlap. When it holds none, the heap is one
  free block again.
\<close>

theorem heap_calls_safe:
  assumes "unat (RT_ALIGN b) + 36 \<le> unat (RT_ALIGN_DOWN e)" "used_mem h = 0"
    and "\<forall>n. Malloc n \<in> set calls \<longrightarrow> unat n + 3 < 2 ^ 32"
  shows "\<exists>live h'. heap_calls calls ([], rt_system_heap_init b e h) = Some (live, h') \<and> heap_ptr h' = RT_ALIGN b \<and>
    distinct (map fst live) \<and> list_all (in_heap h') live \<and> pairwise apart_blocks (set live) \<and>
    (live = [] \<longrightarrow> heap_ok h' [(False, unat (RT_ALIGN_DOWN e) - unat (RT_ALIGN b) - 12)])"
proof -
  define n where n: "n = unat (RT_ALIGN_DOWN e) - unat (RT_ALIGN b) - 12"
  let ?h = "rt_system_heap_init b e h"
  have "holds_blocks [] ?h [(False, n)]"
    using rt_system_heap_init_ok(1) [OF assms(1,2)] by (simp add: holds_blocks_def n)
  then have "heap_client (heap_ptr ?h) (mem_size_aligned ?h) [] ?h" by (auto simp: heap_client_def)
  from heap.calls_hold [OF this assms(3)] obtain live h' bs where
    r: "heap_calls calls ([], ?h) = Some (live, h')" "holds_blocks live h' bs" "heap_ptr h' = heap_ptr ?h"
      "mem_size_aligned h' = mem_size_aligned ?h"
    unfolding heap_client_def by blast
  have "unat (mem_size_aligned ?h) + 12 = n" "unat (mem_size_aligned h') + 12 = extent bs"
    using rt_system_heap_init_ok(1) [OF assms(1,2)] r(2) by (simp_all add: holds_blocks_def heap_ok_def heap_shape_def n)
  then have "live = [] \<Longrightarrow> bs = [(False, n)]" using holds_nothing [of h' bs] r(2,4) by simp
  then show ?thesis
    using r holds_blocks_safe [OF r(2)] rt_system_heap_init_ok(2) [OF assms(1,2)]
    by (auto simp: holds_blocks_def n)
qed

lemma sample_calls: "\<forall>n. Malloc n \<in> set [Malloc 20, Malloc 40, Free 1, Malloc 8] \<longrightarrow> unat n + 3 < 2 ^ 32"
  by auto

theorem heap_calls_safe_witness:
  "\<exists>live h'. heap_calls [Malloc 20, Malloc 40, Free 1, Malloc 8] ([], sample_heap) = Some (live, h') \<and>
    list_all (in_heap h') live \<and> pairwise apart_blocks (set live)"
  using heap_calls_safe [OF sample_room sample_calls] unfolding sample_heap_def by blast

end
