(* ===== verification/Heap_Use.thy ===== *)
theory Heap_Use
  imports Mem_Props Kservice_Str Ringbuffer
begin

text \<open>
  Functions of the reference kernel that rest on the heap: \<open>rt_strdup\<close>, \<open>rt_malloc_align\<close> and \<open>rt_free_align\<close>
  of \<open>src/kservice.c\<close>, \<open>rt_ringbuffer_create\<close> and \<open>rt_ringbuffer_destroy\<close> of \<open>ringbuffer.c\<close>. What is shown of
  them is said in terms of the blocks the program holds: what a call takes it hands out or gives back.
\<close>

section \<open>The functions\<close>

definition rt_strdup :: "u32 \<Rightarrow> heap \<Rightarrow> (u32 \<times> heap) option" where
  "rt_strdup s h = do {
     n \<leftarrow> rt_strlen s (user_bytes h);
     let len = n + 1;
     (tmp, h) \<leftarrow> rt_malloc len h;
     if tmp = 0 then Some (0, h)
     else do {
       (_, b) \<leftarrow> rt_memcpy tmp s len (user_bytes h);
       Some (tmp, h\<lparr>user_bytes := b\<rparr>) } }"

text \<open>The word in front of the aligned address keeps the address of the block.\<close>

definition rt_malloc_align :: "u32 \<Rightarrow> u32 \<Rightarrow> heap \<Rightarrow> (u32 \<times> heap) option" where
  "rt_malloc_align sz align h =
     (let uintptr_size = 4;
          uintptr_size = uintptr_size - 1;
          align = (align + uintptr_size) AND NOT uintptr_size;
          align_size = ((sz + uintptr_size) AND NOT uintptr_size) + align
      in do {
        (ptr, h) \<leftarrow> rt_malloc align_size h;
        if ptr \<noteq> 0 then do {
          let align_ptr = (if ptr AND (align - 1) = 0 then ptr + align
                           else (ptr + (align - 1)) AND NOT (align - 1));
          b \<leftarrow> store32 (align_ptr - 4) ptr (user_bytes h);
          Some (align_ptr, h\<lparr>user_bytes := b\<rparr>) }
        else Some (ptr, h) })"

definition rt_free_align :: "u32 \<Rightarrow> heap \<Rightarrow> heap option" where
  "rt_free_align ptr h = do {
     real_ptr \<leftarrow> load32 (ptr - 4) (user_bytes h);
     rt_free real_ptr h }"

text \<open>
  A structure that lives on the heap is known by its address; with it goes \<open>buffer_ptr\<close>, the address
  of the memory the list \<open>rb_buffer\<close> stands for. The structure has 12 bytes. The size is a
  \<open>rt_uint16_t\<close> here and a \<open>rt_int16_t\<close> for \<open>rt_ringbuffer_init\<close>.
\<close>

type_synonym ringbuffers = "u32 \<rightharpoonup> u32 \<times> ringbuffer"

primrec read_bytes :: "nat \<Rightarrow> u32 \<Rightarrow> mem \<Rightarrow> u8 list option" where
  "read_bytes 0 a m = Some []"
| "read_bytes (Suc n) a m = do { x \<leftarrow> load8 a m; xs \<leftarrow> read_bytes n (a + 1) m; Some (x # xs) }"

text \<open>The structure before \<open>rt_ringbuffer_init\<close>, which sets all its fields\<close>

definition fresh_ringbuffer :: "u8 list \<Rightarrow> ringbuffer" where
  "fresh_ringbuffer bytes = \<lparr>rb_buffer = bytes, rb_read_mirror = 0, rb_read_index = 0, rb_write_mirror = 0,
     rb_write_index = 0, rb_buffer_size = 0\<rparr>"

definition rt_ringbuffer_create :: "u16 \<Rightarrow> heap \<Rightarrow> ringbuffers \<Rightarrow> (u32 \<times> heap \<times> ringbuffers) option" where
  "rt_ringbuffer_create sz h rbs = do {
     _ \<leftarrow> RT_ASSERT (sz > 0);
     let sz = sz AND NOT (4 - 1);
     (rb, h) \<leftarrow> rt_malloc 12 h;
     if rb = 0 then Some (rb, h, rbs)
     else do {
       (pool, h) \<leftarrow> rt_malloc (ucast sz) h;
       if pool = 0 then do {
         h \<leftarrow> rt_free rb h;
         Some (0, h, rbs) }
       else do {
         bytes \<leftarrow> read_bytes (unat sz) pool (user_bytes h);
         r \<leftarrow> rt_ringbuffer_init bytes sz (fresh_ringbuffer bytes);
         Some (rb, h, rbs(rb \<mapsto> (pool, r))) } } }"

definition rt_ringbuffer_destroy :: "u32 \<Rightarrow> heap \<Rightarrow> ringbuffers \<Rightarrow> (heap \<times> ringbuffers) option" where
  "rt_ringbuffer_destroy rb h rbs = do {
     _ \<leftarrow> RT_ASSERT (rb \<noteq> 0);
     (buffer_ptr, _) \<leftarrow> rbs rb;
     h \<leftarrow> rt_free buffer_ptr h;
     h \<leftarrow> rt_free rb h;
     Some (h, rbs(rb := None)) }"

section \<open>Blocks that are held\<close>

text \<open>All bytes of the heap exist.\<close>

definition heap_mapped :: "heap \<Rightarrow> bool" where
  "heap_mapped h \<longleftrightarrow> mapped (user_bytes h) (heap_ptr h) (unat (mem_size_aligned h) + 12)"

lemma heap_mapped_base: "heap_base_same h h' \<Longrightarrow> heap_mapped h' = heap_mapped h"
  by (simp add: heap_mapped_def heap_base_same_def)

lemma holds_blocks_bytes [simp]: "holds_blocks live (h\<lparr>user_bytes := b\<rparr>) bs = holds_blocks live h bs"
  by (simp add: holds_blocks_def heap_ok_def heap_shape_def)

lemma held_block:
  assumes h: "holds_blocks live h bs" and p: "(p, n) \<in> set live"
  shows "4 dvd unat p" and "unat p + unat n < 2 ^ 32" and "heap_mapped h \<Longrightarrow> mapped (user_bytes h) p (unat n)"
proof -
  have sh: "heap_shape h bs" "sized bs" using h by (auto simp: holds_blocks_def heap_ok_def heap_shape_def)
  obtain off l where o: "used_at bs off l" "unat p = unat (heap_ptr h) + off + 12" "unat n + 12 \<le> l" "off + l \<le> extent bs"
    by (rule holds_blocks_in_heap [OF h p])
  obtain as cs where as: "bs = as @ (True, l) # cs" "extent as = off" using used_at_split [OF o(1)] by blast
  have "4 dvd off" using sh(2) as by (auto dest: sized_extent)
  then show "4 dvd unat p" using sh(1) o(2) by (simp add: heap_shape_def)
  show b: "unat p + unat n < 2 ^ 32" using o sh(1) by (simp add: heap_shape_def)
  assume "heap_mapped h"
  then have m: "range_at (heap_ptr h) (extent bs) \<subseteq> dom (user_bytes h)"
    using sh(1) by (simp add: heap_mapped_def heap_shape_def mapped_def)
  have e: "unat (heap_ptr h) + extent bs < 2 ^ 32" using sh(1) by (simp add: heap_shape_def)
  have "range_at p (unat n) \<subseteq> range_at (heap_ptr h) (extent bs)"
    using o b e by (auto simp: range_at_no_wrap [of p "unat n"] range_at_no_wrap [of "heap_ptr h" "extent bs"])
  then show "mapped (user_bytes h) p (unat n)" using m by (simp add: mapped_def)
qed

lemma held_apart:
  assumes h: "holds_blocks live h bs" and "(p, n) \<in> set live" "(q, m) \<in> set live" "p \<noteq> q"
  shows "range_at p (unat n) \<inter> range_at q (unat m) = {}"
proof -
  have "apart_blocks (p, n) (q, m)"
    using holds_blocks_safe(2) [OF h] assms(2-4) by (auto simp: pairwise_def)
  then show ?thesis
    using held_block(2) [OF h assms(2)] held_block(2) [OF h assms(3)]
      range_at_no_wrap [of p "unat n"] range_at_no_wrap [of q "unat m"]
    by (auto simp: apart_blocks_def)
qed

section \<open>Duplicating a string\<close>

text \<open>The string is in a block the program holds or does not touch the heap.\<close>

definition keeps_clear :: "(u32 \<times> u32) list \<Rightarrow> heap \<Rightarrow> u32 set \<Rightarrow> bool" where
  "keeps_clear live h A \<longleftrightarrow> (\<exists>(q, m) \<in> set live. A \<subseteq> range_at q (unat m)) \<or>
     A \<inter> range_at (heap_ptr h) (unat (mem_size_aligned h) + 12) = {}"

lemma held_clear:
  assumes h: "holds_blocks ((p, n) # live) h' bs" and c: "keeps_clear live h A" and b: "heap_base_same h h'"
  shows "A \<inter> range_at p (unat n) = {}"
proof -
  have sh: "heap_shape h' bs" "sized bs" using h by (auto simp: holds_blocks_def heap_ok_def heap_shape_def)
  consider q m where "(q, m) \<in> set live" "A \<subseteq> range_at q (unat m)"
    | "A \<inter> range_at (heap_ptr h) (unat (mem_size_aligned h) + 12) = {}"
    using c unfolding keeps_clear_def by blast
  then show ?thesis
  proof cases
    case 1
    then have "p \<noteq> q" using h by (auto simp: holds_blocks_def image_iff)
    then show ?thesis using held_apart [OF h, of p n q m] 1 by auto
  next
    case 2
    have e: "unat (heap_ptr h') + extent bs < 2 ^ 32" "unat (mem_size_aligned h') + 12 = extent bs"
      using sh(1) by (simp_all add: heap_shape_def)
    obtain off l where o: "used_at bs off l" "unat p = unat (heap_ptr h') + off + 12" "unat n + 12 \<le> l" "off + l \<le> extent bs"
      by (rule holds_blocks_in_heap [OF h, of p n]) simp
    have "range_at p (unat n) \<subseteq> range_at (heap_ptr h') (extent bs)"
      using o e by (auto simp: range_at_no_wrap [of p "unat n"] range_at_no_wrap [of "heap_ptr h'" "extent bs"])
    then show ?thesis using 2 b e(2) by (auto simp: heap_base_same_def)
  qed
qed

lemma malloc_null_same:
  assumes "holds_blocks live h bs" "0 < n" "unat n + 3 < 2 ^ 32" "rt_malloc n h = Some (0, h')"
  shows "h' = h"
proof -
  have "heap_ok h bs" using assms(1) by (simp add: holds_blocks_def)
  then show ?thesis using rt_malloc_ok [of h bs n] assms(2-4) block_addr_nonzero [of h bs]
    by (fastforce simp: heap_ok_def)
qed

lemma rt_strdup_ok:
  assumes h: "holds_blocks live h bs" and m: "heap_mapped h"
    and s: "string_at (user_bytes h) s xs" "length xs + 4 < 2 ^ 32" "keeps_clear live h (range_at s (length xs + 1))"
  shows "\<exists>p h' bs'. rt_strdup s h = Some (p, h') \<and>
    (if p = 0 then h' = h
     else holds_blocks ((p, of_nat (length xs + 1)) # live) h' bs' \<and>
       string_at (user_bytes h') p xs \<and> string_at (user_bytes h') s xs \<and>
       same_outside p (length xs + 1) (user_bytes h) (user_bytes h'))"
proof -
  define n :: u32 where "n = of_nat (length xs + 1)"
  have n: "unat n = length xs + 1" unfolding n_def using s(2) by (subst unat_small) auto
  have len: "rt_strlen s (user_bytes h) = Some (of_nat (length xs))" by (rule rt_strlen_eq [OF s(1)])
  have n1: "of_nat (length xs) + 1 = n" by (simp add: n_def)
  have "0 < n" using n by (metis unat_gt_0 zero_less_Suc Suc_eq_plus1 word_neq_0_conv)
  obtain p h1 bs1 where r: "rt_malloc n h = Some (p, h1)"
    "holds_blocks (if p = 0 then live else (p, n) # live) h1 bs1" "heap_base_same h h1"
    using malloc_holds_blocks [OF h, of n] n s(2) by auto
  show ?thesis
  proof (cases "p = 0")
    case True
    have "h1 = h" by (rule malloc_null_same [OF h \<open>0 < n\<close>]) (use r(1) True n s(2) in simp_all)
    then show ?thesis using len r(1) True n1 by (auto simp: rt_strdup_def)
  next
    case False
    have hb: "holds_blocks ((p, n) # live) h1 bs1" using r(2) False by simp
    have hs: "holds_at (user_bytes h1) s (xs @ [0])" and z: "0 \<notin> set xs"
      using s(1) r(3) by (simp_all add: string_at_def heap_base_same_def)
    have mp: "mapped (user_bytes h1) p (unat n)"
      by (rule held_block(3) [OF hb]) (use heap_mapped_base [OF r(3)] m in auto)
    have dis: "range_at s (unat n) \<inter> range_at p (unat n) = {}"
      using held_clear [OF hb s(3) r(3)] n by simp
    let ?b = "write_at p (xs @ [0]) (user_bytes h1)"
    have "rt_memcpy p s n (user_bytes h1) = Some (p, ?b)"
      by (rule rt_memcpy_eq [OF _ hs mp dis]) (simp add: n)
    then have e: "rt_strdup s h = Some (p, h1\<lparr>user_bytes := ?b\<rparr>)"
      using len r(1) False n1 by (simp add: rt_strdup_def)
    have "holds_at ?b p (xs @ [0])" by (rule holds_at_write_at) (use s(2) in simp)
    moreover have "holds_at ?b s (xs @ [0])" using dis n hs by (subst holds_at_other) simp_all
    moreover have "same_outside p (length xs + 1) (user_bytes h) ?b"
      using same_outside_write [of "xs @ [0]" "length xs + 1" p "user_bytes h1"] r(3) by (simp add: heap_base_same_def)
    ultimately show ?thesis using e hb False z
      by (intro exI [of _ p] exI [of _ "h1\<lparr>user_bytes := ?b\<rparr>"] exI [of _ bs1]) (simp add: string_at_def n_def)
  qed
qed

section \<open>Aligned blocks\<close>

lemma unat_and_not_mask:
  fixes x :: u32
  shows "unat (x AND NOT (2 ^ k - 1)) = 2 ^ k * (unat x div 2 ^ k)"
proof -
  have "(x AND mask k) + (x AND NOT (mask k)) = (x AND mask k) OR (x AND NOT (mask k))"
    by (rule disjunctive_add) (auto simp: bit_simps)
  also have "\<dots> = x" by (rule bit_word_eqI) (auto simp: bit_simps)
  finally have e: "x AND NOT (mask k) = x - take_bit k x" by (simp add: eq_diff_eq add.commute take_bit_eq_mask)
  have t: "unat (take_bit k x) = unat x mod 2 ^ k" unfolding unsigned_take_bit_eq by (simp add: take_bit_eq_mod)
  have "unat (x - take_bit k x) = unat x - unat x mod 2 ^ k"
    by (subst unat_sub) (simp_all add: word_le_nat_alt t)
  also have "\<dots> = 2 ^ k * (unat x div 2 ^ k)" using mult_div_mod_eq [of "2 ^ k" "unat x"] by linarith
  finally show ?thesis using e by (simp add: mask_eq_exp_minus_1)
qed

lemma and_mask_dvd:
  fixes x :: u32
  shows "x AND (2 ^ k - 1) = 0 \<longleftrightarrow> 2 ^ k dvd unat x"
proof -
  have "x AND (2 ^ k - 1) = take_bit k x" by (simp add: take_bit_eq_mask mask_eq_exp_minus_1)
  moreover have "unat (take_bit k x) = unat x mod 2 ^ k" unfolding unsigned_take_bit_eq by (simp add: take_bit_eq_mod)
  ultimately show ?thesis by (simp add: dvd_eq_mod_eq_0 flip: unat_eq_zero)
qed

lemma unat_two_power: "k < 32 \<Longrightarrow> unat (2 ^ k :: u32) = 2 ^ k"
  using unat_small [of "2 ^ k"] power_strict_increasing [of k 32 "2 :: nat"] by simp

text \<open>Where the aligned address is: behind the word for the address of the block, with room for the object.\<close>

definition align_in :: "u32 \<Rightarrow> u32 \<Rightarrow> u32" where
  "align_in align ptr = (if ptr AND (align - 1) = 0 then ptr + align else (ptr + (align - 1)) AND NOT (align - 1))"

lemma next_multiple:
  fixes a x :: nat
  assumes "\<not> a dvd x" "4 dvd a" "4 dvd x" "0 < a"
  shows "x + 4 \<le> a * ((x + (a - 1)) div a)" and "a * ((x + (a - 1)) div a) < x + a"
proof -
  define q r where q: "q = x div a" and r: "r = x mod a"
  have x: "x = a * q + r" "0 < r" "r < a" using assms by (auto simp: q r dvd_eq_mod_eq_0)
  have "(x + (a - 1)) div a = q + 1"
  proof -
    have "x + (a - 1) = (r - 1) + a * (q + 1)" using x by (simp add: algebra_simps)
    moreover have "((r - 1) + a * (q + 1)) div a = (q + 1) + (r - 1) div a"
      by (rule div_mult_self2) (use assms(4) in simp)
    ultimately show ?thesis using x by simp
  qed
  then have m: "a * ((x + (a - 1)) div a) = a * q + a" by simp
  then show "a * ((x + (a - 1)) div a) < x + a" using x by simp
  have "4 dvd a * q + a" "4 dvd x" using assms by auto
  moreover have "x < a * q + a" using x by simp
  ultimately show "x + 4 \<le> a * ((x + (a - 1)) div a)" unfolding m by (elim dvdE) simp
qed

lemma align_in_place:
  fixes align ptr :: u32
  assumes a: "align = 2 ^ k" "2 \<le> k" "k < 32" and p: "4 dvd unat ptr" "unat ptr + unat align < 2 ^ 32"
  shows "2 ^ k dvd unat (align_in align ptr)" and "unat ptr + 4 \<le> unat (align_in align ptr)"
    and "unat (align_in align ptr) \<le> unat ptr + unat align" and "4 dvd unat (align_in align ptr)"
proof -
  have ua: "unat align = 2 ^ k" unfolding a(1) by (rule unat_two_power [OF a(3)])
  have f: "4 dvd (2 ^ k :: nat)" "(4 :: nat) \<le> 2 ^ k"
    using le_imp_power_dvd [OF a(2), of "2 :: nat"] power_increasing [OF a(2), of "2 :: nat"] by simp_all
  have "2 ^ k dvd unat (align_in align ptr) \<and> unat ptr + 4 \<le> unat (align_in align ptr) \<and>
    unat (align_in align ptr) \<le> unat ptr + unat align"
  proof (cases "2 ^ k dvd unat ptr")
    case True
    then have "align_in align ptr = ptr + align" by (simp add: align_in_def a(1) and_mask_dvd)
    moreover have "unat (ptr + align) = unat ptr + unat align" using p(2) by (simp add: unat_word_ariths)
    ultimately show ?thesis using True f ua by simp
  next
    case False
    then have e: "align_in align ptr = (ptr + (align - 1)) AND NOT (2 ^ k - 1)" by (simp add: align_in_def a(1) and_mask_dvd)
    have "unat (align - 1) = 2 ^ k - 1" using ua f by (subst unat_minus_one) auto
    then have "unat (ptr + (align - 1)) = unat ptr + (2 ^ k - 1)" using p(2) ua by (simp add: unat_word_ariths)
    then have "unat (align_in align ptr) = 2 ^ k * ((unat ptr + (2 ^ k - 1)) div 2 ^ k)"
      unfolding e unat_and_not_mask by simp
    then show ?thesis using next_multiple [OF False f(1) p(1)] ua by simp
  qed
  then show "2 ^ k dvd unat (align_in align ptr)" "unat ptr + 4 \<le> unat (align_in align ptr)"
    "unat (align_in align ptr) \<le> unat ptr + unat align" "4 dvd unat (align_in align ptr)"
    using f(1) dvd_trans by blast+
qed

text \<open>
  The block behind an aligned address: the program holds it, the word in front of the address names
  it, and the object fits.
\<close>

definition aligned_block :: "u32 \<Rightarrow> u32 \<Rightarrow> u32 \<Rightarrow> u32 \<Rightarrow> bool" where
  "aligned_block ptr n p sz \<longleftrightarrow> unat ptr + 4 \<le> unat p \<and> unat p + unat sz \<le> unat ptr + unat n"

lemma round4: "(x + (4 - 1)) AND NOT (4 - 1) = RT_ALIGN x"
  by (simp add: RT_ALIGN_def add.commute)

lemma rt_malloc_align_ok:
  assumes h: "holds_blocks live h bs" and m: "heap_mapped h"
    and a: "align = 2 ^ k" "2 \<le> k" "k < 32" and n: "unat sz + unat align + 6 < 2 ^ 32"
  shows "\<exists>p h' bs' ptr n. rt_malloc_align sz align h = Some (p, h') \<and>
    (if p = 0 then holds_blocks live h' bs'
     else 2 ^ k dvd unat p \<and> aligned_block ptr n p sz \<and> holds_blocks ((ptr, n) # live) h' bs' \<and>
       holds_at (user_bytes h') (p - 4) (bytes_of_word ptr))"
proof -
  have ua: "unat align = 2 ^ k" unfolding a(1) by (rule unat_two_power [OF a(3)])
  have f: "4 dvd (2 ^ k :: nat)" using le_imp_power_dvd [OF a(2), of "2 :: nat"] by simp
  define sz4 where "sz4 = 4 * ((unat sz + 3) div 4)"
  have s4: "unat sz \<le> sz4" "sz4 \<le> unat sz + 3" unfolding sz4_def by linarith+
  define n where "n = RT_ALIGN sz + align"
  have "unat (RT_ALIGN align) = 4 * ((2 ^ k + 3) div 4)" using RT_ALIGN_rounds [of align] n ua by simp
  also have "\<dots> = 2 ^ k" using f by (elim dvdE) simp
  finally have al: "RT_ALIGN align = align" using ua by (simp add: word_eq_iff_unsigned [where 'a = nat])
  have "unat (RT_ALIGN sz) = sz4" using RT_ALIGN_rounds [of sz] n by (simp add: sz4_def)
  then have un: "unat n = sz4 + unat align" using s4 n by (simp add: n_def unat_word_ariths)
  have e: "rt_malloc_align sz align h = Option.bind (rt_malloc n h) (\<lambda>(ptr, h).
      if ptr \<noteq> 0 then Option.bind (store32 (align_in align ptr - 4) ptr (user_bytes h))
        (\<lambda>b. Some (align_in align ptr, h\<lparr>user_bytes := b\<rparr>)) else Some (ptr, h))"
    unfolding rt_malloc_align_def Let_def round4 al n_def align_in_def by (rule refl)
  obtain ptr h1 bs1 where r: "rt_malloc n h = Some (ptr, h1)"
    "holds_blocks (if ptr = 0 then live else (ptr, n) # live) h1 bs1" "heap_base_same h h1"
    using malloc_holds_blocks [OF h, of n] un s4 n by auto
  show ?thesis
  proof (cases "ptr = 0")
    case True
    then show ?thesis using r(1,2) unfolding e by auto
  next
    case False
    have hb: "holds_blocks ((ptr, n) # live) h1 bs1" using r(2) False by simp
    have b: "4 dvd unat ptr" "unat ptr + unat n < 2 ^ 32" "mapped (user_bytes h1) ptr (unat n)"
      using held_block [OF hb, of ptr n] heap_mapped_base [OF r(3)] m by auto
    let ?p = "align_in align ptr"
    have p: "2 ^ k dvd unat ?p" "unat ptr + 4 \<le> unat ?p" "unat ?p \<le> unat ptr + unat align" "4 dvd unat ?p"
      using align_in_place [OF a b(1)] b(2) un by simp_all
    have u4: "unat (?p - 4) = unat ?p - 4" by (subst unat_sub) (use p(2) in \<open>simp_all add: word_le_nat_alt\<close>)
    have "range_at (?p - 4) 4 \<subseteq> range_at ptr (unat n)"
    proof -
      have "unat (?p - 4) + 4 \<le> 2 ^ 32" "unat ptr + unat n \<le> 2 ^ 32" using p u4 b(2) un by simp_all
      then show ?thesis using p(2,3) u4 un by (auto simp: range_at_no_wrap)
    qed
    then have mp: "mapped (user_bytes h1) (?p - 4) 4" using b(3) by (auto simp: mapped_def)
    have "aligned4 (?p - 4)" using p(2,4) u4 by (simp add: aligned4_unat dvd_eq_mod_eq_0 [symmetric] dvd_diff_nat)
    then have st: "store32 (?p - 4) ptr (user_bytes h1) = Some (write_at (?p - 4) (bytes_of_word ptr) (user_bytes h1))"
      by (rule store32_eq [OF mp])
    have "?p \<noteq> 0" using p(2) by auto
    moreover have "aligned_block ptr n ?p sz" using p(2,3) un s4 by (simp add: aligned_block_def)
    moreover have "holds_at (write_at (?p - 4) (bytes_of_word ptr) (user_bytes h1)) (?p - 4) (bytes_of_word ptr)"
      by (rule holds_at_write_at) (simp add: bytes_of_word_def)
    ultimately show ?thesis unfolding e using r(1) False hb p(1) st by auto
  qed
qed

lemma load32_word:
  assumes "holds_at m a (bytes_of_word w)" "aligned4 a"
  shows "load32 a m = Some w"
proof -
  have "word_of_bytes (ucast w) (ucast (drop_bit 8 w)) (ucast (drop_bit 16 w)) (ucast (drop_bit 24 w)) = w"
  proof (rule bit_word_eqI)
    fix n assume "n < LENGTH(32)"
    then show "bit (word_of_bytes (ucast w) (ucast (drop_bit 8 w)) (ucast (drop_bit 16 w)) (ucast (drop_bit 24 w))) n = bit w n"
      unfolding word_of_bytes_def by (cases "n < 8"; cases "n < 16"; cases "n < 24") (auto simp: bit_simps)
  qed
  then show ?thesis using assms load32_eq [of m a _ _ _ _] by (simp add: bytes_of_word_def)
qed

lemma rt_free_align_ok:
  assumes h: "holds_blocks ((ptr, n) # live) h bs" and p: "4 dvd unat p" "aligned_block ptr n p sz"
    and w: "holds_at (user_bytes h) (p - 4) (bytes_of_word ptr)"
  shows "\<exists>h' bs'. rt_free_align p h = Some h' \<and> holds_blocks live h' bs' \<and> heap_base_same h h'"
proof -
  have "unat (p - 4) = unat p - 4"
    by (subst unat_sub) (use p(2) in \<open>simp_all add: word_le_nat_alt aligned_block_def\<close>)
  then have "aligned4 (p - 4)" using p by (simp add: aligned4_unat aligned_block_def)
  then have "load32 (p - 4) (user_bytes h) = Some ptr" by (rule load32_word [OF w])
  then show ?thesis using free_holds_blocks [OF h, of 0] by (simp add: rt_free_align_def)
qed

section \<open>Ring buffers on the heap\<close>

lemma read_bytes_mapped: "mapped m a n \<Longrightarrow> \<exists>xs. read_bytes n a m = Some xs \<and> length xs = n"
proof (induction n arbitrary: a)
  case (Suc n)
  then show ?case by (force simp: mapped_Suc load8_def)
qed simp

lemma sint_small: "unat (w :: u16) < 2 ^ 15 \<Longrightarrow> sint w = int (unat w)"
proof -
  assume "unat w < 2 ^ 15"
  then have "int (unat w) < int (2 ^ 15)" by (simp only: of_nat_less_iff)
  then have "uint w < 2 ^ 15" by (simp only: uint_nat of_nat_power of_nat_numeral)
  then have "signed_take_bit (LENGTH(16) - 1) (uint w) = uint w"
    by (intro signed_take_bit_int_eq_self order_trans [OF _ uint_ge_0]) simp_all
  then show ?thesis by (simp add: sint_uint)
qed

lemma unat_u16_u32: "unat (ucast (w :: u16) :: u32) = unat w"
proof -
  have "unat w < 2 ^ 32" using unsigned_less [of w, where 'a = nat] by simp
  then show ?thesis by (simp add: unsigned_ucast_eq take_bit_nat_eq_self)
qed

lemma sint_positive:
  fixes w :: u16
  assumes "0 < sint w"
  shows "unat w < 2 ^ 15"
proof -
  have "uint w = take_bit 16 (sint w)" by (simp add: uint_sint)
  also have "\<dots> = sint w" using assms sint_lt [of w] by (intro take_bit_int_eq_self) simp_all
  finally show ?thesis using sint_lt [of w] by (simp add: unat_eq_nat_uint)
qed

lemma round16:
  fixes sz :: u16
  shows "(sz AND NOT 3) AND NOT 3 = sz AND NOT 3" and "unat (sz AND NOT 3) \<le> unat sz"
  by (simp_all add: and.assoc word_and_le2 flip: word_le_nat_alt)

lemma init_represents:
  assumes "0 < unat sz" "unat sz < 2 ^ 15" "sz AND NOT 3 = sz" "length xs = unat sz"
  shows "\<exists>r. rt_ringbuffer_init xs sz rb = Some r \<and> rb_rep r (unat sz) 0 0"
proof -
  have "sint sz = int (unat sz)" by (rule sint_small [OF assms(2)])
  moreover from this have "0 < sint sz" using assms(1) by linarith
  ultimately show ?thesis using assms by (simp add: rt_ringbuffer_init_def rb_rep_def)
qed

lemma rt_ringbuffer_create_ok:
  assumes h: "holds_blocks live h bs" and m: "heap_mapped h" and sz: "0 < sz" "sint sz > 0"
  shows "\<exists>p h' rbs' bs'. rt_ringbuffer_create sz h rbs = Some (p, h', rbs') \<and> heap_base_same h h' \<and>
    (if p = 0 then rbs' = rbs \<and> holds_blocks live h' bs'
     else \<exists>pool rb. rbs' = rbs(p \<mapsto> (pool, rb)) \<and> rb_ok rb \<and> rb_contents rb = [] \<and>
       rb_capacity rb = unat (sz AND NOT 3) \<and> holds_blocks ((pool, ucast (sz AND NOT 3)) # (p, 12) # live) h' bs')"
proof -
  let ?sz = "sz AND NOT 3"
  obtain p h1 bs1 where r1: "rt_malloc 12 h = Some (p, h1)"
    "holds_blocks (if p = 0 then live else (p, 12) # live) h1 bs1" "heap_base_same h h1"
    using malloc_holds_blocks [OF h, of 12] by auto
  show ?thesis
  proof (cases "p = 0")
    case True
    then have "holds_blocks live h1 bs1" using r1(2) by simp
    then show ?thesis using True r1(1,3) sz(1) by (auto simp: rt_ringbuffer_create_def RT_ASSERT_def)
  next
    case p: False
    then have h1: "holds_blocks ((p, 12) # live) h1 bs1" using r1(2) by simp
    have "unat (ucast ?sz :: u32) < 2 ^ 16" using unsigned_less [of ?sz, where 'a = nat] by (simp add: unat_u16_u32)
    then obtain q h2 bs2 where r2: "rt_malloc (ucast ?sz) h1 = Some (q, h2)"
      "holds_blocks (if q = 0 then (p, 12) # live else (q, ucast ?sz) # (p, 12) # live) h2 bs2" "heap_base_same h1 h2"
      using malloc_holds_blocks [OF h1, of "ucast ?sz"] by auto
    show ?thesis
    proof (cases "q = 0")
      case True
      then have "holds_blocks ((p, 12) # live) h2 bs2" using r2(2) by simp
      from free_holds_blocks [OF this, of 0] obtain h3 bs3 where
        "rt_free p h2 = Some h3" "holds_blocks live h3 bs3" "heap_base_same h2 h3" by auto
      then show ?thesis using r1(1,3) r2(1,3) p True sz(1)
        by (simp add: rt_ringbuffer_create_def RT_ASSERT_def heap_base_same_def) blast
    next
      case False
      then have h2: "holds_blocks ((q, ucast ?sz) # (p, 12) # live) h2 bs2" using r2(2) by simp
      have "heap_mapped h2" using m heap_mapped_base [OF r1(3)] heap_mapped_base [OF r2(3)] by simp
      then have "mapped (user_bytes h2) q (unat (ucast ?sz :: u32))" using held_block(3) [OF h2, of q "ucast ?sz"] by simp
      moreover have "unat (ucast ?sz :: u32) = unat ?sz" by (rule unat_u16_u32)
      ultimately obtain xs where xs: "read_bytes (unat ?sz) q (user_bytes h2) = Some xs" "length xs = unat ?sz"
        using read_bytes_mapped by metis
      have ne: "?sz \<noteq> 0"
      proof
        assume "?sz = 0"
        then have "rt_malloc (ucast ?sz) h1 = Some (0, h1)" unfolding \<open>?sz = 0\<close> by (simp add: rt_malloc_def)
        then show False using r2(1) False by simp
      qed
      have "unat ?sz < 2 ^ 15" using round16(2) [of sz] sint_positive [OF sz(2)] by simp
      then obtain r where r: "rt_ringbuffer_init xs ?sz (fresh_ringbuffer xs) = Some r" "rb_rep r (unat ?sz) 0 0"
        using init_represents [of ?sz xs "fresh_ringbuffer xs"] round16(1) xs(2) ne by (auto simp: unat_gt_0)
      have e: "rt_ringbuffer_create sz h rbs = Some (p, h2, rbs(p \<mapsto> (q, r)))"
        using r1(1) r2(1) p False xs(1) r(1) sz(1) by (simp add: rt_ringbuffer_create_def RT_ASSERT_def)
      have b: "heap_base_same h h2" using r1(3) r2(3) by (simp add: heap_base_same_def)
      have "rb_ok r \<and> rb_contents r = [] \<and> rb_capacity r = unat ?sz" using rb_rep_contents [OF r(2)] by (simp add: ring_list_def)
      then show ?thesis using e b h2 p by (intro exI [of _ p] exI [of _ h2] exI [of _ "rbs(p \<mapsto> (q, r))"] exI [of _ bs2]) auto
    qed
  qed
qed

lemma rt_ringbuffer_destroy_ok:
  assumes h: "holds_blocks ((pool, n) # (p, 12) # live) h bs" and rb: "rbs p = Some (pool, rb)"
  shows "\<exists>h' bs'. rt_ringbuffer_destroy p h rbs = Some (h', rbs(p := None)) \<and> holds_blocks live h' bs' \<and> heap_base_same h h'"
proof -
  obtain h1 bs1 where h1: "rt_free pool h = Some h1" "holds_blocks ((p, 12) # live) h1 bs1" "heap_base_same h h1"
    using free_holds_blocks [OF h, of 0] by auto
  obtain h2 bs2 where h2: "rt_free p h1 = Some h2" "holds_blocks live h2 bs2" "heap_base_same h1 h2"
    using free_holds_blocks [OF h1(2), of 0] by auto
  obtain off l where "unat p = unat (heap_ptr h1) + off + 12"
    by (rule holds_blocks_in_heap [OF h1(2), of p 12]) simp
  then have "p \<noteq> 0" by auto
  then show ?thesis using rb h1 h2 by (simp add: rt_ringbuffer_destroy_def RT_ASSERT_def heap_base_same_def) blast
qed

section \<open>Properties\<close>

text \<open>
  \<open>rt_malloc_align\<close> with an alignment that is a power of two from 4 on either fails and leaves the program
  with the blocks it had, or answers with an address that is a multiple of the alignment, in a block that
  the program then holds besides, with room for the object in it. Whatever the program writes
  to the object, \<open>rt_free_align\<close> of the address gives that block back.
\<close>

theorem rt_malloc_align_aligns:
  assumes "holds_blocks live h bs" and "heap_mapped h"
    and "align = 2 ^ k" and "2 \<le> k" and "k < 32" and "unat sz + unat align + 6 < 2 ^ 32"
  shows "\<exists>p h' bs'. rt_malloc_align sz align h = Some (p, h') \<and>
    (p = 0 \<and> holds_blocks live h' bs' \<or>
     2 ^ k dvd unat p \<and>
     (\<exists>ptr n. holds_blocks ((ptr, n) # live) h' bs' \<and> unat ptr < unat p \<and> unat p + unat sz \<le> unat ptr + unat n) \<and>
     (\<forall>b. (\<forall>a. a \<notin> range_at p (unat sz) \<longrightarrow> b a = user_bytes h' a) \<longrightarrow>
        (\<exists>h'' bs''. rt_free_align p (h'\<lparr>user_bytes := b\<rparr>) = Some h'' \<and> holds_blocks live h'' bs'')))"
proof -
  obtain p h' bs' ptr n where r: "rt_malloc_align sz align h = Some (p, h')"
    "if p = 0 then holds_blocks live h' bs'
     else 2 ^ k dvd unat p \<and> aligned_block ptr n p sz \<and> holds_blocks ((ptr, n) # live) h' bs' \<and>
       holds_at (user_bytes h') (p - 4) (bytes_of_word ptr)"
    using rt_malloc_align_ok [OF assms] by blast
  show ?thesis
  proof (cases "p = 0")
    case False
    then have a: "2 ^ k dvd unat p" "aligned_block ptr n p sz" "holds_blocks ((ptr, n) # live) h' bs'"
      "holds_at (user_bytes h') (p - 4) (bytes_of_word ptr)" using r(2) by simp_all
    have "4 dvd (2 ^ k :: nat)" using le_imp_power_dvd [OF assms(4), of "2 :: nat"] by simp
    then have d: "4 dvd unat p" using a(1) dvd_trans by blast
    have l: "unat p + unat sz < 2 ^ 32"
      using a(2) held_block(2) [OF a(3), of ptr n] by (simp add: aligned_block_def)
    have p4: "4 \<le> unat p" using a(2) by (simp add: aligned_block_def)
    then have u: "unat (p - 4) = unat p - 4" by (subst unat_sub) (simp_all add: word_le_nat_alt)
    have out: "x \<notin> range_at p (unat sz)" if "x \<in> range_at (p - 4) 4" for x
      using that l u p4 by (auto simp: range_at_no_wrap)
    have "\<exists>h'' bs''. rt_free_align p (h'\<lparr>user_bytes := b\<rparr>) = Some h'' \<and> holds_blocks live h'' bs''"
      if b: "\<forall>a. a \<notin> range_at p (unat sz) \<longrightarrow> b a = user_bytes h' a" for b
    proof -
      have "holds_at b (p - 4) (bytes_of_word ptr)"
      proof (subst holds_at_cong)
        fix x assume "x \<in> range_at (p - 4) (length (bytes_of_word ptr))"
        then have "x \<in> range_at (p - 4) 4" by (simp add: bytes_of_word_def eval_nat_numeral)
        then show "b x = user_bytes h' x" using b out by blast
      qed (rule a(4))
      then show ?thesis using rt_free_align_ok [of ptr n live "h'\<lparr>user_bytes := b\<rparr>" bs' p sz] a(2,3) d by auto
    qed
    moreover have "unat ptr < unat p" "unat p + unat sz \<le> unat ptr + unat n"
      using a(2) by (simp_all add: aligned_block_def)
    ultimately show ?thesis using r(1) a(1,3) by blast
  qed (use r in auto)
qed

lemma sample_holds:
  "holds_blocks [] (sample_heap\<lparr>user_bytes := \<lambda>_. Some 7\<rparr>) [(False, 244)]"
  "heap_mapped (sample_heap\<lparr>user_bytes := \<lambda>_. Some 7\<rparr>)"
proof -
  have "holds_blocks [] sample_heap [(False, 244)]" using sample_heap_ok by (simp add: holds_blocks_def)
  then show "holds_blocks [] (sample_heap\<lparr>user_bytes := \<lambda>_. Some 7\<rparr>) [(False, 244)]" by simp
qed (simp add: heap_mapped_def mapped_def dom_def)

theorem rt_malloc_align_aligns_witness:
  "\<exists>p h'. rt_malloc_align 20 16 (sample_heap\<lparr>user_bytes := \<lambda>_. Some 7\<rparr>) = Some (p, h') \<and> 16 dvd unat p"
  using rt_malloc_align_aligns [OF sample_holds, of 16 4 20] by fastforce

text \<open>
  \<open>rt_ringbuffer_create\<close> takes what it needs and loses nothing: it fails, and the program holds the blocks
  it held before (a structure for which there is no memory is given back), or the program holds
  two blocks more, the structure and its buffer, and the ring buffer is empty and has the size that was asked
  for, rounded down. \<open>rt_ringbuffer_destroy\<close>, whatever has been done with the ring buffer, gives both back.
\<close>

theorem rt_ringbuffer_create_owns:
  assumes "holds_blocks live h bs" and "heap_mapped h" and "0 < sint sz"
  shows "\<exists>p h' rbs' bs'. rt_ringbuffer_create sz h rbs = Some (p, h', rbs') \<and>
    (p = 0 \<and> rbs' = rbs \<and> holds_blocks live h' bs' \<or>
     (\<exists>pool rb. rbs' = rbs(p \<mapsto> (pool, rb)) \<and> rb_ok rb \<and> rb_contents rb = [] \<and>
        rb_capacity rb = unat (sz AND NOT 3) \<and> holds_blocks ((pool, ucast (sz AND NOT 3)) # (p, 12) # live) h' bs' \<and>
        (\<forall>rb'. \<exists>h'' bs''. rt_ringbuffer_destroy p h' (rbs(p \<mapsto> (pool, rb'))) = Some (h'', rbs(p := None)) \<and>
           holds_blocks live h'' bs'')))"
proof -
  have "0 < sz" using assms(3) by (cases "sz = 0") (simp_all add: word_gt_0)
  from rt_ringbuffer_create_ok [OF assms(1,2) this assms(3), of rbs] obtain p h' rbs' bs' where
    r: "rt_ringbuffer_create sz h rbs = Some (p, h', rbs')"
      "if p = 0 then rbs' = rbs \<and> holds_blocks live h' bs'
       else \<exists>pool rb. rbs' = rbs(p \<mapsto> (pool, rb)) \<and> rb_ok rb \<and> rb_contents rb = [] \<and>
         rb_capacity rb = unat (sz AND NOT 3) \<and> holds_blocks ((pool, ucast (sz AND NOT 3)) # (p, 12) # live) h' bs'" by blast
  show ?thesis
  proof (cases "p = 0")
    case False
    then obtain pool rb where s: "rbs' = rbs(p \<mapsto> (pool, rb))" "rb_ok rb" "rb_contents rb = []"
      "rb_capacity rb = unat (sz AND NOT 3)" "holds_blocks ((pool, ucast (sz AND NOT 3)) # (p, 12) # live) h' bs'"
      using r(2) by auto
    have "\<exists>h'' bs''. rt_ringbuffer_destroy p h' (rbs(p \<mapsto> (pool, rb'))) = Some (h'', rbs(p := None)) \<and>
        holds_blocks live h'' bs''" for rb'
      using rt_ringbuffer_destroy_ok [OF s(5), of "rbs(p \<mapsto> (pool, rb'))" rb'] by auto
    then show ?thesis using r(1) s by blast
  qed (use r in auto)
qed

theorem rt_ringbuffer_create_owns_witness:
  "\<exists>p h' rbs'. rt_ringbuffer_create 30 (sample_heap\<lparr>user_bytes := \<lambda>_. Some 7\<rparr>) (\<lambda>_. None) = Some (p, h', rbs')"
  using rt_ringbuffer_create_owns [OF sample_holds, of 30 "\<lambda>_. None"] by fastforce

text \<open>The size is a \<open>rt_uint16_t\<close>, but from 32768 on \<open>rt_ringbuffer_init\<close> takes it for negative and its assertion fails.\<close>

lemma rt_ringbuffer_create_large:
  assumes "rt_malloc 12 h = Some (p, h1)" "p \<noteq> 0" "rt_malloc 0x8000 h1 = Some (q, h2)" "q \<noteq> 0"
  shows "rt_ringbuffer_create 0x8000 h rbs = None"
  using assms by (simp add: rt_ringbuffer_create_def RT_ASSERT_def rt_ringbuffer_init_def bind_eq_None_conv)

end
