(* ===== verification/Slist.thy ===== *)
theory Slist
  imports Prelude
begin

text \<open>
  The singly linked lists of \<open>include/rtservice.h\<close> of the reference kernel. A node is a member of a
  structure and its address a value of the type \<open>'n\<close>; the store maps an address to the node's \<open>next\<close>
  field, \<^const>\<open>None\<close> for NULL. A list is the chain from its head node to the first NULL. A loop that
  follows a chain without end is \<^const>\<open>None\<close>.
\<close>

section \<open>Operations\<close>

type_synonym 'n next_store = "'n \<Rightarrow> 'n option"

definition rt_slist_init :: "'n \<Rightarrow> 'n next_store \<Rightarrow> 'n next_store" where
  "rt_slist_init l nx = nx(l := None)"

text \<open>\<open>while (node->next) node = node->next;\<close>\<close>

partial_function (option) slist_walk :: "'n \<Rightarrow> 'n next_store \<Rightarrow> 'n option" where
  "slist_walk node nx = (case nx node of None \<Rightarrow> Some node | Some n \<Rightarrow> slist_walk n nx)"

declare slist_walk.simps [code]

definition rt_slist_append :: "'n \<Rightarrow> 'n \<Rightarrow> 'n next_store \<Rightarrow> 'n next_store option" where
  "rt_slist_append l n nx = do {
     node \<leftarrow> slist_walk l nx;
     let nx = nx(node := Some n);
     Some (nx(n := None)) }"

definition rt_slist_insert :: "'n \<Rightarrow> 'n \<Rightarrow> 'n next_store \<Rightarrow> 'n next_store" where
  "rt_slist_insert l n nx = (let nx = nx(n := nx l) in nx(l := Some n))"

partial_function (option) slist_len_loop :: "'n option \<Rightarrow> u32 \<Rightarrow> 'n next_store \<Rightarrow> u32 option" where
  "slist_len_loop list len nx =
     (case list of None \<Rightarrow> Some len | Some n \<Rightarrow> slist_len_loop (nx n) (len + 1) nx)"

declare slist_len_loop.simps [code]

definition rt_slist_len :: "'n \<Rightarrow> 'n next_store \<Rightarrow> u32 option" where
  "rt_slist_len l nx = slist_len_loop (nx l) 0 nx"

text \<open>\<open>while (node->next && node->next != n) node = node->next;\<close>\<close>

partial_function (option) slist_before :: "'n \<Rightarrow> 'n \<Rightarrow> 'n next_store \<Rightarrow> 'n option" where
  "slist_before node n nx =
     (case nx node of None \<Rightarrow> Some node | Some m \<Rightarrow> if m \<noteq> n then slist_before m n nx else Some node)"

declare slist_before.simps [code]

definition rt_slist_remove :: "'n \<Rightarrow> 'n \<Rightarrow> 'n next_store \<Rightarrow> 'n next_store option" where
  "rt_slist_remove l n nx = do {
     node \<leftarrow> slist_before l n nx;
     Some (case nx node of None \<Rightarrow> nx | Some m \<Rightarrow> nx(node := nx m)) }"

definition rt_slist_first :: "'n \<Rightarrow> 'n next_store \<Rightarrow> 'n option" where
  "rt_slist_first l nx = nx l"

definition rt_slist_tail :: "'n \<Rightarrow> 'n next_store \<Rightarrow> 'n option" where
  "rt_slist_tail l nx = slist_walk l nx"

definition rt_slist_next :: "'n \<Rightarrow> 'n next_store \<Rightarrow> 'n option" where
  "rt_slist_next n nx = nx n"

definition rt_slist_isempty :: "'n \<Rightarrow> 'n next_store \<Rightarrow> bool" where
  "rt_slist_isempty l nx \<longleftrightarrow> nx l = None"

section \<open>Lists in the store\<close>

text \<open>The nodes behind \<open>l\<close>, in their order\<close>

primrec chained :: "'n next_store \<Rightarrow> 'n \<Rightarrow> 'n list \<Rightarrow> bool" where
  "chained nx l [] \<longleftrightarrow> nx l = None"
| "chained nx l (x # xs) \<longleftrightarrow> nx l = Some x \<and> chained nx x xs"

definition slist :: "'n next_store \<Rightarrow> 'n \<Rightarrow> 'n list \<Rightarrow> bool" where
  "slist nx l xs \<longleftrightarrow> chained nx l xs \<and> distinct (l # xs)"

lemma chained_upd [simp]: "n \<notin> set (l # xs) \<Longrightarrow> chained (nx(n := v)) l xs = chained nx l xs"
  by (induction xs arbitrary: l) auto

lemma slist_walk_chained: "chained nx l xs \<Longrightarrow> slist_walk l nx = Some (last (l # xs))"
proof (induction xs arbitrary: l)
  case Nil
  then show ?case by (subst slist_walk.simps) simp
next
  case (Cons x xs)
  then show ?case by (subst slist_walk.simps) simp
qed

lemma slist_len_chained: "chained nx l xs \<Longrightarrow> slist_len_loop (nx l) n nx = Some (n + of_nat (length xs))"
proof (induction xs arbitrary: l n)
  case Nil
  then show ?case by (subst slist_len_loop.simps) simp
next
  case (Cons x xs)
  then show ?case by (subst slist_len_loop.simps) (simp add: add.commute add.left_commute)
qed

lemma slist_before_chained:
  "chained nx l (xs @ n # ys) \<Longrightarrow> n \<notin> set xs \<Longrightarrow> slist_before l n nx = Some (last (l # xs))"
proof (induction xs arbitrary: l)
  case Nil
  then show ?case by (subst slist_before.simps) simp
next
  case (Cons x xs)
  then show ?case by (subst slist_before.simps) auto
qed

lemma slist_before_absent: "chained nx l xs \<Longrightarrow> n \<notin> set xs \<Longrightarrow> slist_before l n nx = Some (last (l # xs))"
proof (induction xs arbitrary: l)
  case Nil
  then show ?case by (subst slist_before.simps) simp
next
  case (Cons x xs)
  then show ?case by (subst slist_before.simps) auto
qed

lemma chained_last: "chained nx l xs \<Longrightarrow> m = last (l # xs) \<Longrightarrow> nx m = None"
  by (induction xs arbitrary: l) (auto split: if_splits)

lemma last_Cons_in: "m = last (l # xs) \<Longrightarrow> m \<in> set (l # xs)"
  using last_in_set [of "l # xs"] by simp

lemma chained_link:
  "chained nx l xs \<Longrightarrow> distinct (l # xs) \<Longrightarrow> n \<notin> set (l # xs) \<Longrightarrow> m = last (l # xs) \<Longrightarrow>
   chained ((nx(m := Some n))(n := None)) l (xs @ [n])"
proof (induction xs arbitrary: l)
  case (Cons x xs)
  have m: "m = last (x # xs)" using Cons.prems(4) by simp
  then have "chained ((nx(m := Some n))(n := None)) x (xs @ [n])" by (intro Cons.IH) (use Cons.prems in auto)
  moreover have "m \<noteq> l" using Cons.prems(2) last_Cons_in [OF m] by auto
  then have "((nx(m := Some n))(n := None)) l = Some x" using Cons.prems by auto
  ultimately show ?case by (simp only: append_Cons chained.simps)
qed simp

lemma chained_unlink:
  "chained nx l (xs @ n # ys) \<Longrightarrow> distinct (l # xs @ n # ys) \<Longrightarrow> m = last (l # xs) \<Longrightarrow>
   chained (nx(m := nx n)) l (xs @ ys)"
proof (induction xs arbitrary: l)
  case Nil
  then show ?case by (cases ys) (auto simp del: fun_upd_apply, simp_all)
next
  case (Cons x xs)
  have m: "m = last (x # xs)" using Cons.prems(3) by simp
  then have "chained (nx(m := nx n)) x (xs @ ys)" by (intro Cons.IH) (use Cons.prems in auto)
  moreover have "m \<noteq> l" using Cons.prems(2) last_Cons_in [OF m] by auto
  then have "(nx(m := nx n)) l = Some x" using Cons.prems by simp
  ultimately show ?case by (simp only: append_Cons chained.simps)
qed

section \<open>What the operations do\<close>

lemma rt_slist_init_ok: "slist (rt_slist_init l nx) l []"
  by (simp add: rt_slist_init_def slist_def)

lemma rt_slist_append_ok:
  assumes "slist nx l xs" "n \<notin> set (l # xs)"
  shows "\<exists>nx'. rt_slist_append l n nx = Some nx' \<and> slist nx' l (xs @ [n])"
  using assms chained_link [OF _ _ _ refl, of nx l xs n] slist_walk_chained [of nx l xs]
  by (auto simp: rt_slist_append_def slist_def simp del: last.simps)

lemma rt_slist_insert_ok:
  assumes "slist nx l xs" "n \<notin> set (l # xs)"
  shows "slist (rt_slist_insert l n nx) l (n # xs)"
proof -
  have "chained ((nx(n := nx l))(l := Some n)) n xs"
    using assms by (cases xs) (auto simp: slist_def)
  then show ?thesis using assms by (auto simp: rt_slist_insert_def slist_def)
qed

lemma rt_slist_len_ok: "slist nx l xs \<Longrightarrow> rt_slist_len l nx = Some (of_nat (length xs))"
  using slist_len_chained [of nx l xs 0] by (simp add: rt_slist_len_def slist_def)

lemma rt_slist_remove_ok:
  assumes "slist nx l xs"
  shows "\<exists>nx'. rt_slist_remove l n nx = Some nx' \<and> slist nx' l (remove1 n xs) \<and> (n \<in> set xs \<longrightarrow> nx' n = nx n)"
proof (cases "n \<in> set xs")
  case True
  then obtain ys zs where xs: "xs = ys @ n # zs" "n \<notin> set ys" by (metis split_list_first)
  have c: "chained nx l (ys @ n # zs)" "distinct (l # ys @ n # zs)" using assms xs(1) by (auto simp: slist_def)
  have "nx m = Some n" if "m = last (l # ys)" for m using c(1) that by (induction ys arbitrary: l) (auto split: if_splits)
  then have r: "rt_slist_remove l n nx = Some (nx(last (l # ys) := nx n))"
    using slist_before_chained [OF c(1) xs(2)] by (simp add: rt_slist_remove_def del: last.simps)
  have "n \<noteq> last (l # ys)" using c(2) last_in_set [of "l # ys"] by auto
  then show ?thesis using r chained_unlink [OF c refl] c(2) xs
    by (auto simp: slist_def remove1_append simp del: last.simps)
next
  case False
  then have "slist_before l n nx = Some (last (l # xs))" "nx (last (l # xs)) = None"
    using assms slist_before_absent chained_last [OF _ refl] False by (auto simp: slist_def simp del: last.simps)
  then have "rt_slist_remove l n nx = Some nx" by (simp add: rt_slist_remove_def del: last.simps)
  then show ?thesis using assms False by simp
qed

lemma rt_slist_ends:
  assumes "slist nx l xs"
  shows "rt_slist_tail l nx = Some (last (l # xs))" and "rt_slist_isempty l nx \<longleftrightarrow> xs = []"
    and "rt_slist_first l nx = (case xs of [] \<Rightarrow> None | x # _ \<Rightarrow> Some x)"
proof -
  have c: "chained nx l xs" using assms by (simp add: slist_def)
  then show "rt_slist_tail l nx = Some (last (l # xs))" by (simp add: rt_slist_tail_def slist_walk_chained del: last.simps)
  show "rt_slist_isempty l nx \<longleftrightarrow> xs = []" "rt_slist_first l nx = (case xs of [] \<Rightarrow> None | x # _ \<Rightarrow> Some x)"
    using c by (cases xs; simp add: rt_slist_isempty_def rt_slist_first_def)+
qed

end
