(* ===== verification/Ringblk.thy ===== *)
theory Ringblk
  imports Slist
begin

text \<open>
  \<open>components/drivers/src/ringblk_buf.c\<close> and \<open>include/ipc/ringblk_buf.h\<close> of the reference kernel: a buffer in
  which blocks of memory are handed out in a ring. A block is written in place (\<open>alloc\<close>, \<open>put\<close>) and
  read in place (\<open>get\<close>, \<open>free\<close>); the structures that describe blocks come from a fixed set. A pointer to
  such a structure is its index in the set, and an index outside the set is \<^const>\<open>None\<close>, as is a failed
  assertion. The functions lock interrupts while they change the list.
\<close>

section \<open>The structures\<close>

datatype rt_rbb_status = RT_RBB_BLK_UNUSED | RT_RBB_BLK_INITED | RT_RBB_BLK_PUT | RT_RBB_BLK_GET

record rt_rbb_blk =
  blk_status :: rt_rbb_status
  blk_size :: "24 word"
  blk_buf :: u32

text \<open>The list nodes: \<open>&rbb->blk_list\<close> and \<open>&rbb->blk_set[i].list\<close>\<close>

datatype rbb_node = Blk_List | Blk nat

record rt_rbb =
  rbb_buf :: u32
  rbb_buf_size :: u32
  blk_set :: "rt_rbb_blk list"
  blk_max_num :: u32
  blk_next :: "rbb_node next_store"

record rt_rbb_blk_queue =
  queue_blocks :: nat
  queue_blk_num :: u32

fun blk_entry :: "rbb_node \<Rightarrow> nat option" where
  "blk_entry (Blk i) = Some i"
| "blk_entry Blk_List = None"

definition blk_at :: "nat \<Rightarrow> rt_rbb \<Rightarrow> rt_rbb_blk option" where
  "blk_at i rbb = (if i < length (blk_set rbb) then Some (blk_set rbb ! i) else None)"

definition upd_blk :: "nat \<Rightarrow> (rt_rbb_blk \<Rightarrow> rt_rbb_blk) \<Rightarrow> rt_rbb \<Rightarrow> rt_rbb option" where
  "upd_blk i f rbb = (if i < length (blk_set rbb)
     then Some (rbb\<lparr>blk_set := (blk_set rbb)[i := f (blk_set rbb ! i)]\<rparr>) else None)"

abbreviation size_of :: "rt_rbb_blk \<Rightarrow> u32" where
  "size_of b \<equiv> ucast (blk_size b)"

section \<open>Initialisation\<close>

function init_status :: "nat \<Rightarrow> nat \<Rightarrow> rt_rbb \<Rightarrow> rt_rbb option" where
  "init_status i n rbb =
     (if i < n then do {
        rbb \<leftarrow> upd_blk i (\<lambda>b. b\<lparr>blk_status := RT_RBB_BLK_UNUSED\<rparr>) rbb;
        init_status (i + 1) n rbb }
      else Some rbb)"
  by pat_completeness auto
termination by (relation "measure (\<lambda>(i, n, _). n - i)") auto

declare init_status.simps [simp del]

definition rt_rbb_init :: "u32 \<Rightarrow> u32 \<Rightarrow> rt_rbb_blk list \<Rightarrow> u32 \<Rightarrow> rt_rbb \<Rightarrow> rt_rbb option" where
  "rt_rbb_init buf buf_sz block_set max_num rbb = do {
     _ \<leftarrow> RT_ASSERT (buf \<noteq> 0);
     let rbb = rbb\<lparr>rbb_buf := buf, rbb_buf_size := buf_sz, blk_set := block_set, blk_max_num := max_num\<rparr>;
     let rbb = rbb\<lparr>blk_next := rt_slist_init Blk_List (blk_next rbb)\<rparr>;
     init_status 0 (unat max_num) rbb }"

definition rt_rbb_get_buf_size :: "rt_rbb \<Rightarrow> u32" where
  "rt_rbb_get_buf_size rbb = rbb_buf_size rbb"

section \<open>Blocks\<close>

function find_empty_blk :: "nat \<Rightarrow> nat \<Rightarrow> rt_rbb \<Rightarrow> nat option option" where
  "find_empty_blk i n rbb =
     (if i < n then do {
        b \<leftarrow> blk_at i rbb;
        if blk_status b = RT_RBB_BLK_UNUSED then Some (Some i) else find_empty_blk (i + 1) n rbb }
      else Some None)"
  by pat_completeness auto
termination by (relation "measure (\<lambda>(i, n, _). n - i)") auto

declare find_empty_blk.simps [simp del]

definition find_empty_blk_in_set :: "rt_rbb \<Rightarrow> nat option option" where
  "find_empty_blk_in_set rbb = find_empty_blk 0 (unat (blk_max_num rbb)) rbb"

text \<open>The four statements with which every branch of \<open>rt_rbb_blk_alloc\<close> takes the new block\<close>

definition blk_take :: "nat \<Rightarrow> u32 \<Rightarrow> u32 \<Rightarrow> rt_rbb \<Rightarrow> (nat option \<times> rt_rbb) option" where
  "blk_take new buf sz rbb = do {
     nx \<leftarrow> rt_slist_append Blk_List (Blk new) (blk_next rbb);
     rbb \<leftarrow> upd_blk new (\<lambda>b. b\<lparr>blk_status := RT_RBB_BLK_INITED, blk_buf := buf, blk_size := ucast sz\<rparr>)
              (rbb\<lparr>blk_next := nx\<rparr>);
     Some (Some new, rbb) }"

definition rt_rbb_blk_alloc :: "u32 \<Rightarrow> rt_rbb \<Rightarrow> (nat option \<times> rt_rbb) option" where
  "rt_rbb_blk_alloc sz rbb = do {
     _ \<leftarrow> RT_ASSERT (sz < 2 ^ 24);
     empty_blk \<leftarrow> find_empty_blk_in_set rbb;
     n \<leftarrow> rt_slist_len Blk_List (blk_next rbb);
     case empty_blk of
       None \<Rightarrow> Some (None, rbb)
     | Some new \<Rightarrow>
         if n < blk_max_num rbb then
           if 0 < n then do {
             head \<leftarrow> Option.bind (rt_slist_first Blk_List (blk_next rbb)) blk_entry;
             tail \<leftarrow> Option.bind (rt_slist_tail Blk_List (blk_next rbb)) blk_entry;
             h \<leftarrow> blk_at head rbb;
             t \<leftarrow> blk_at tail rbb;
             let tail_end = blk_buf t + size_of t;
             if blk_buf h \<le> blk_buf t then
               (let empty1 = rbb_buf rbb + rbb_buf_size rbb - tail_end;
                    empty2 = blk_buf h - rbb_buf rbb
                in if empty1 \<ge> sz then blk_take new tail_end sz rbb
                   else if empty2 \<ge> sz then blk_take new (rbb_buf rbb) sz rbb
                   else Some (None, rbb))
             else
               (let empty1 = blk_buf h - tail_end
                in if empty1 \<ge> sz then blk_take new tail_end sz rbb else Some (None, rbb)) }
           else blk_take new (rbb_buf rbb) sz rbb
         else Some (None, rbb) }"

definition rt_rbb_blk_put :: "nat \<Rightarrow> rt_rbb \<Rightarrow> rt_rbb option" where
  "rt_rbb_blk_put block rbb = do {
     b \<leftarrow> blk_at block rbb;
     _ \<leftarrow> RT_ASSERT (blk_status b = RT_RBB_BLK_INITED);
     upd_blk block (\<lambda>b. b\<lparr>blk_status := RT_RBB_BLK_PUT\<rparr>) rbb }"

partial_function (option) blk_get_loop :: "rbb_node option \<Rightarrow> rt_rbb \<Rightarrow> (nat option \<times> rt_rbb) option" where
  "blk_get_loop node rbb = (case node of None \<Rightarrow> Some (None, rbb) | Some nd \<Rightarrow> do {
     block \<leftarrow> blk_entry nd;
     b \<leftarrow> blk_at block rbb;
     if blk_status b = RT_RBB_BLK_PUT then do {
       rbb \<leftarrow> upd_blk block (\<lambda>b. b\<lparr>blk_status := RT_RBB_BLK_GET\<rparr>) rbb;
       Some (Some block, rbb) }
     else blk_get_loop (rt_slist_next nd (blk_next rbb)) rbb })"

declare blk_get_loop.simps [code]

definition rt_rbb_blk_get :: "rt_rbb \<Rightarrow> (nat option \<times> rt_rbb) option" where
  "rt_rbb_blk_get rbb =
     (if rt_slist_isempty Blk_List (blk_next rbb) then Some (None, rbb)
      else blk_get_loop (rt_slist_first Blk_List (blk_next rbb)) rbb)"

definition rt_rbb_blk_size :: "nat \<Rightarrow> rt_rbb \<Rightarrow> u32 option" where
  "rt_rbb_blk_size block rbb = map_option size_of (blk_at block rbb)"

definition rt_rbb_blk_buf :: "nat \<Rightarrow> rt_rbb \<Rightarrow> u32 option" where
  "rt_rbb_blk_buf block rbb = map_option blk_buf (blk_at block rbb)"

definition rt_rbb_blk_free :: "nat \<Rightarrow> rt_rbb \<Rightarrow> rt_rbb option" where
  "rt_rbb_blk_free block rbb = do {
     b \<leftarrow> blk_at block rbb;
     _ \<leftarrow> RT_ASSERT (blk_status b \<noteq> RT_RBB_BLK_UNUSED);
     nx \<leftarrow> rt_slist_remove Blk_List (Blk block) (blk_next rbb);
     upd_blk block (\<lambda>b. b\<lparr>blk_status := RT_RBB_BLK_UNUSED\<rparr>) (rbb\<lparr>blk_next := nx\<rparr>) }"

section \<open>Queues of blocks\<close>

text \<open>
  \<open>last_block\<close> is \<^const>\<open>None\<close> until the first block is found. A block that is taken leaves the list, but
  its \<open>next\<close> field, by which the loop goes on, stays.
\<close>

datatype queue_step = Take rt_rbb_blk_queue | Pass_On | Stop_Here

partial_function (option) queue_get_loop ::
  "rbb_node option \<Rightarrow> nat option \<Rightarrow> u32 \<Rightarrow> u32 \<Rightarrow> rt_rbb_blk_queue \<Rightarrow> rt_rbb \<Rightarrow>
   (u32 \<times> rt_rbb_blk_queue \<times> rt_rbb) option" where
  "queue_get_loop node last_block data_total max_len q rbb =
     (case node of None \<Rightarrow> Some (data_total, q, rbb) | Some nd \<Rightarrow> do {
        block \<leftarrow> blk_entry nd;
        b \<leftarrow> blk_at block rbb;
        step \<leftarrow> (case last_block of
            None \<Rightarrow> if blk_status b = RT_RBB_BLK_PUT
                    then Some (Take (q\<lparr>queue_blocks := block, queue_blk_num := 0\<rparr>)) else Some (Pass_On)
          | Some l \<Rightarrow> do {
              lb \<leftarrow> blk_at l rbb;
              if blk_status b \<noteq> RT_RBB_BLK_PUT \<or> blk_buf lb > blk_buf b \<or> data_total + size_of b > max_len
              then Some (Stop_Here) else Some (Take q) });
        case step of
          Take q \<Rightarrow> do {
            nx \<leftarrow> rt_slist_remove Blk_List (Blk block) (blk_next rbb);
            rbb \<leftarrow> upd_blk block (\<lambda>b. b\<lparr>blk_status := RT_RBB_BLK_GET\<rparr>) (rbb\<lparr>blk_next := nx\<rparr>);
            queue_get_loop (rt_slist_next nd (blk_next rbb)) (Some block) (data_total + size_of b) max_len
              (q\<lparr>queue_blk_num := queue_blk_num q + 1\<rparr>) rbb }
        | Pass_On \<Rightarrow> queue_get_loop (rt_slist_next nd (blk_next rbb)) None data_total max_len q rbb
        | Stop_Here \<Rightarrow> Some (data_total, q, rbb) })"

declare queue_get_loop.simps [code]

definition rt_rbb_blk_queue_get :: "u32 \<Rightarrow> rt_rbb_blk_queue \<Rightarrow> rt_rbb \<Rightarrow>
    (u32 \<times> rt_rbb_blk_queue \<times> rt_rbb) option" where
  "rt_rbb_blk_queue_get queue_data_len blk_queue rbb =
     (if rt_slist_isempty Blk_List (blk_next rbb) then Some (0, blk_queue, rbb)
      else queue_get_loop (rt_slist_first Blk_List (blk_next rbb)) None 0 queue_data_len blk_queue rbb)"

primrec queue_len_loop :: "nat \<Rightarrow> nat \<Rightarrow> u32 \<Rightarrow> rt_rbb \<Rightarrow> u32 option" where
  "queue_len_loop 0 block data_total rbb = Some data_total"
| "queue_len_loop (Suc n) block data_total rbb = do {
     b \<leftarrow> blk_at block rbb;
     queue_len_loop n (block + 1) (data_total + size_of b) rbb }"

definition rt_rbb_blk_queue_len :: "rt_rbb_blk_queue \<Rightarrow> rt_rbb \<Rightarrow> u32 option" where
  "rt_rbb_blk_queue_len q rbb = queue_len_loop (unat (queue_blk_num q)) (queue_blocks q) 0 rbb"

definition rt_rbb_blk_queue_buf :: "rt_rbb_blk_queue \<Rightarrow> rt_rbb \<Rightarrow> u32 option" where
  "rt_rbb_blk_queue_buf q rbb = map_option blk_buf (blk_at (queue_blocks q) rbb)"

primrec queue_free_loop :: "nat \<Rightarrow> nat \<Rightarrow> rt_rbb \<Rightarrow> rt_rbb option" where
  "queue_free_loop 0 block rbb = Some rbb"
| "queue_free_loop (Suc n) block rbb = do {
     rbb \<leftarrow> rt_rbb_blk_free block rbb;
     queue_free_loop n (block + 1) rbb }"

definition rt_rbb_blk_queue_free :: "rt_rbb_blk_queue \<Rightarrow> rt_rbb \<Rightarrow> rt_rbb option" where
  "rt_rbb_blk_queue_free q rbb = queue_free_loop (unat (queue_blk_num q)) (queue_blocks q) rbb"

partial_function (option) next_len_loop :: "rbb_node option \<Rightarrow> nat option \<Rightarrow> u32 \<Rightarrow> rt_rbb \<Rightarrow> u32 option" where
  "next_len_loop node last_block len rbb =
     (case node of None \<Rightarrow> Some len | Some nd \<Rightarrow> do {
        block \<leftarrow> blk_entry nd;
        b \<leftarrow> blk_at block rbb;
        let nxt = rt_slist_next nd (blk_next rbb);
        case last_block of
          None \<Rightarrow> if blk_status b \<noteq> RT_RBB_BLK_PUT then next_len_loop nxt None len rbb
                  else next_len_loop nxt (Some block) (len + size_of b) rbb
        | Some l \<Rightarrow> do {
            lb \<leftarrow> blk_at l rbb;
            if blk_status b \<noteq> RT_RBB_BLK_PUT \<or> blk_buf lb > blk_buf b then Some len
            else next_len_loop nxt (Some block) (len + size_of b) rbb } })"

declare next_len_loop.simps [code]

definition rt_rbb_next_blk_queue_len :: "rt_rbb \<Rightarrow> u32 option" where
  "rt_rbb_next_blk_queue_len rbb =
     (if rt_slist_isempty Blk_List (blk_next rbb) then Some 0
      else next_len_loop (rt_slist_first Blk_List (blk_next rbb)) None 0 rbb)"

end
