(* ===== verification/Ringblk_Inv.thy ===== *)
theory Ringblk_Inv
  imports Ringblk
begin

text \<open>
  The invariant of the ring block buffer: the blocks in the list lie in the buffer in the order of the
  list, from the oldest on, at most once around its end, and no two overlap. Every operation on
  blocks keeps it.
\<close>

section \<open>Spans around a ring\<close>

text \<open>\<open>f\<close> gives start and end of a block, \<open>b\<close> and \<open>t\<close> are the ends of the buffer.\<close>

type_synonym spans = "nat \<Rightarrow> nat \<times> nat"

definition before :: "spans \<Rightarrow> nat \<Rightarrow> nat \<Rightarrow> bool" where
  "before f i j \<longleftrightarrow> snd (f i) \<le> fst (f j)"

definition fits :: "nat \<Rightarrow> nat \<Rightarrow> nat \<times> nat \<Rightarrow> bool" where
  "fits b t e \<longleftrightarrow> b \<le> fst e \<and> fst e < snd e \<and> snd e \<le> t"

definition in_ring :: "spans \<Rightarrow> nat \<Rightarrow> nat \<Rightarrow> nat list \<Rightarrow> bool" where
  "in_ring f b t xs \<longleftrightarrow>
     (\<exists>hi lo. xs = hi @ lo \<and> sorted_wrt (before f) (lo @ hi)) \<and> (\<forall>i\<in>set xs. fits b t (f i))"

lemma in_ring_cong: "(\<And>i. i \<in> set xs \<Longrightarrow> g i = f i) \<Longrightarrow> in_ring g b t xs = in_ring f b t xs"
proof -
  assume e: "\<And>i. i \<in> set xs \<Longrightarrow> g i = f i"
  have "sorted_wrt (before g) (lo @ hi) = sorted_wrt (before f) (lo @ hi)" if "xs = hi @ lo" for hi lo
    using e that by (intro iffI; elim sorted_wrt_mono_rel [rotated]) (auto simp: before_def)
  then show ?thesis using e by (auto simp: in_ring_def)
qed

lemma in_ring_filter: "in_ring f b t xs \<Longrightarrow> in_ring f b t (filter P xs)"
proof -
  assume i: "in_ring f b t xs"
  then obtain hi lo where "xs = hi @ lo" "sorted_wrt (before f) (lo @ hi)" by (auto simp: in_ring_def)
  then have "filter P xs = filter P hi @ filter P lo" "sorted_wrt (before f) (filter P lo @ filter P hi)"
    using sorted_wrt_filter [of "before f" "lo @ hi" P] by simp_all
  moreover have "\<forall>j\<in>set (filter P xs). fits b t (f j)" using i by (simp add: in_ring_def)
  ultimately show ?thesis unfolding in_ring_def by blast
qed

lemma in_ring_remove1: "in_ring f b t xs \<Longrightarrow> distinct xs \<Longrightarrow> in_ring f b t (remove1 i xs)"
  by (simp add: distinct_remove1_removeAll removeAll_filter_not_eq in_ring_filter)

lemma sorted_wrt_pair: "sorted_wrt R xs \<Longrightarrow> i \<in> set xs \<Longrightarrow> j \<in> set xs \<Longrightarrow> i \<noteq> j \<Longrightarrow> R i j \<or> R j i"
  by (induction xs) auto

lemma in_ring_apart:
  assumes "in_ring f b t xs" "i \<in> set xs" "j \<in> set xs" "i \<noteq> j"
  shows "before f i j \<or> before f j i"
proof -
  obtain hi lo where x: "xs = hi @ lo" "sorted_wrt (before f) (lo @ hi)" using assms(1) by (auto simp: in_ring_def)
  show ?thesis by (rule sorted_wrt_pair [OF x(2)]) (use x(1) assms(2-4) in auto)
qed

text \<open>The code's comparison of the first block with the last one tells whether the list goes around the end.\<close>

lemma in_ring_flat:
  assumes "in_ring f b t xs" "xs \<noteq> []" "fst (f (hd xs)) \<le> fst (f (last xs))"
  shows "sorted_wrt (before f) xs"
proof -
  obtain hi lo where x: "xs = hi @ lo" "sorted_wrt (before f) (lo @ hi)" and fit: "\<forall>i\<in>set xs. fits b t (f i)"
    using assms(1) by (auto simp: in_ring_def)
  have "hi = [] \<or> lo = []"
  proof (rule ccontr)
    assume "\<not> (hi = [] \<or> lo = [])"
    then have e: "hd xs \<in> set hi" "last xs \<in> set lo" using x(1) by auto
    then have "before f (last xs) (hd xs)" using x(2) by (auto simp: sorted_wrt_append)
    moreover have "fits b t (f (last xs))" using e fit x(1) by simp
    ultimately show False using assms(3) by (auto simp: before_def fits_def)
  qed
  then show ?thesis using x by auto
qed

lemma in_ring_wrapped:
  assumes "in_ring f b t xs" "xs \<noteq> []" "fst (f (last xs)) < fst (f (hd xs))"
  obtains hi lo where "xs = hi @ lo" "sorted_wrt (before f) (lo @ hi)" "hi \<noteq> []" "lo \<noteq> []"
proof -
  obtain hi lo where x: "xs = hi @ lo" "sorted_wrt (before f) (lo @ hi)" and fit: "\<forall>i\<in>set xs. fits b t (f i)"
    using assms(1) by (auto simp: in_ring_def)
  have "\<not> sorted_wrt (before f) xs"
  proof
    assume s: "sorted_wrt (before f) xs"
    then have "hd xs = last xs \<or> before f (hd xs) (last xs)" using assms(2) by (cases xs) auto
    moreover have "fits b t (f (hd xs))" using fit assms(2) by simp
    ultimately show False using assms(3) by (auto simp: before_def fits_def)
  qed
  then have "hi \<noteq> []" "lo \<noteq> []" using x by auto
  then show ?thesis using that x by blast
qed

lemma in_ring_add:
  assumes "in_ring f b t xs" "n \<notin> set xs" "fits b t e"
    and "xs \<noteq> [] \<Longrightarrow> fst (f (hd xs)) \<le> fst (f (last xs)) \<Longrightarrow> fst e = snd (f (last xs)) \<or> snd e \<le> fst (f (hd xs))"
    and "xs \<noteq> [] \<Longrightarrow> fst (f (last xs)) < fst (f (hd xs)) \<Longrightarrow> fst e = snd (f (last xs)) \<and> snd e \<le> fst (f (hd xs))"
  shows "in_ring (f(n := e)) b t (xs @ [n])"
proof -
  let ?f = "f(n := e)"
  have fit: "\<forall>i\<in>set (xs @ [n]). fits b t (?f i)" using assms(1,3) by (auto simp: in_ring_def)
  have fit0: "fits b t (f i)" if "i \<in> set xs" for i using assms(1) that by (simp add: in_ring_def)
  have mono: "sorted_wrt (before ?f) ys" if "sorted_wrt (before f) ys" "set ys \<subseteq> set xs" for ys
    using that assms(2) by (elim sorted_wrt_mono_rel [rotated]) (auto simp: before_def)
  have last: "snd (f i) \<le> snd (f (last ys))" if a: "sorted_wrt (before f) ys" "i \<in> set ys" "set ys \<subseteq> set xs" for i ys
  proof -
    obtain us v where ys: "ys = us @ [v]" using a(2) by (cases ys rule: rev_cases) auto
    then have "i = v \<or> before f i v" using a(1,2) by (auto simp: sorted_wrt_append)
    moreover have "fits b t (f v)" using fit0 a(3) ys by auto
    ultimately show ?thesis unfolding ys by (auto simp: before_def fits_def)
  qed
  have first: "fst (f (hd ys)) \<le> fst (f i)" if a: "sorted_wrt (before f) ys" "i \<in> set ys" "set ys \<subseteq> set xs" for i ys
  proof -
    obtain v us where ys: "ys = v # us" using a(2) by (cases ys) auto
    then have "i = v \<or> before f v i" using a(1,2) by auto
    moreover have "fits b t (f v)" using fit0 a(3) ys by auto
    ultimately show ?thesis unfolding ys by (auto simp: before_def fits_def)
  qed
  have "\<exists>hi lo. xs @ [n] = hi @ lo \<and> sorted_wrt (before ?f) (lo @ hi)"
  proof (cases "xs = []")
    case True
    then show ?thesis by (intro exI [of _ "[]"] exI [of _ "[n]"]) simp
  next
    case ne: False
    show ?thesis
    proof (cases "fst (f (hd xs)) \<le> fst (f (last xs))")
      case True
      have s: "sorted_wrt (before f) xs" by (rule in_ring_flat [OF assms(1) ne True])
      consider "fst e = snd (f (last xs))" | "snd e \<le> fst (f (hd xs))" using assms(4) ne True by blast
      then show ?thesis
      proof cases
        case 1
        have "before ?f i n" if "i \<in> set xs" for i using last [OF s that] 1 assms(2) that by (auto simp: before_def)
        then have "sorted_wrt (before ?f) (xs @ [n])" using mono [OF s] by (simp add: sorted_wrt_append)
        then show ?thesis by (intro exI [of _ "xs @ [n]"] exI [of _ "[]"]) simp
      next
        case 2
        have "before ?f n i" if "i \<in> set xs" for i using first [OF s that] 2 assms(2) that by (auto simp: before_def)
        then have "sorted_wrt (before ?f) ([n] @ xs)" using mono [OF s] by simp
        then show ?thesis by (intro exI [of _ xs] exI [of _ "[n]"]) simp
      qed
    next
      case False
      then obtain hi lo where x: "xs = hi @ lo" "sorted_wrt (before f) (lo @ hi)" "hi \<noteq> []" "lo \<noteq> []"
        using in_ring_wrapped [OF assms(1) ne] by (metis not_le)
      have e: "fst e = snd (f (last lo))" "snd e \<le> fst (f (hd hi))" using assms(5) ne False x by auto
      have sl: "sorted_wrt (before f) lo" "sorted_wrt (before f) hi" using x(2) by (auto simp: sorted_wrt_append)
      have "before ?f i n" if "i \<in> set lo" for i using last [OF sl(1) that] e x(1) assms(2) that by (auto simp: before_def)
      moreover have "before ?f n i" if "i \<in> set hi" for i using first [OF sl(2) that] e x(1) assms(2) that by (auto simp: before_def)
      moreover have "sorted_wrt (before ?f) (lo @ hi)" by (rule mono [OF x(2)]) (use x(1) in auto)
      ultimately have "sorted_wrt (before ?f) ((lo @ [n]) @ hi)" by (auto simp: sorted_wrt_append)
      then show ?thesis using x(1) by (intro exI [of _ hi] exI [of _ "lo @ [n]"]) simp
    qed
  qed
  then show ?thesis using fit by (simp add: in_ring_def)
qed

section \<open>The invariant\<close>

definition blk_span :: "rt_rbb \<Rightarrow> spans" where
  "blk_span rbb i = (unat (blk_buf (blk_set rbb ! i)),
     unat (blk_buf (blk_set rbb ! i)) + unat (blk_size (blk_set rbb ! i)))"

abbreviation status_of :: "rt_rbb \<Rightarrow> nat \<Rightarrow> rt_rbb_status" where
  "status_of rbb i \<equiv> blk_status (blk_set rbb ! i)"

abbreviation rbb_base :: "rt_rbb \<Rightarrow> nat" where "rbb_base rbb \<equiv> unat (rbb_buf rbb)"
abbreviation rbb_top :: "rt_rbb \<Rightarrow> nat" where "rbb_top rbb \<equiv> unat (rbb_buf rbb) + unat (rbb_buf_size rbb)"

text \<open>\<open>xs\<close> are the blocks in the list, oldest first.\<close>

definition rbb_inv :: "rt_rbb \<Rightarrow> nat list \<Rightarrow> bool" where
  "rbb_inv rbb xs \<longleftrightarrow>
     slist (blk_next rbb) Blk_List (map Blk xs) \<and> length (blk_set rbb) = unat (blk_max_num rbb) \<and>
     (\<forall>i\<in>set xs. i < length (blk_set rbb) \<and> status_of rbb i \<noteq> RT_RBB_BLK_UNUSED) \<and>
     (\<forall>i < length (blk_set rbb). status_of rbb i \<in> {RT_RBB_BLK_INITED, RT_RBB_BLK_PUT} \<longrightarrow> i \<in> set xs) \<and>
     rbb_top rbb < 2 ^ 32 \<and> in_ring (blk_span rbb) (rbb_base rbb) (rbb_top rbb) xs"

lemma rbb_invD:
  assumes "rbb_inv rbb xs"
  shows "slist (blk_next rbb) Blk_List (map Blk xs)" "length (blk_set rbb) = unat (blk_max_num rbb)" "distinct xs"
    "i \<in> set xs \<Longrightarrow> i < length (blk_set rbb)" "i \<in> set xs \<Longrightarrow> status_of rbb i \<noteq> RT_RBB_BLK_UNUSED"
    "i \<in> set xs \<Longrightarrow> blk_at i rbb = Some (blk_set rbb ! i)"
    "rbb_top rbb < 2 ^ 32" "in_ring (blk_span rbb) (rbb_base rbb) (rbb_top rbb) xs"
    "i \<in> set xs \<Longrightarrow> fits (rbb_base rbb) (rbb_top rbb) (blk_span rbb i)"
  using assms by (auto simp: rbb_inv_def slist_def distinct_map in_ring_def blk_at_def)

lemma map_Blk_inj [simp]: "Blk i \<in> Blk ` A \<longleftrightarrow> i \<in> A" "remove1 (Blk i) (map Blk xs) = map Blk (remove1 i xs)"
  "Blk_List \<notin> Blk ` A"
  by (auto simp: map_remove1 inj_def)

text \<open>Only a status that changes, not to or from unused\<close>

definition upd_status :: "nat \<Rightarrow> rt_rbb_status \<Rightarrow> rt_rbb \<Rightarrow> rt_rbb" where
  "upd_status i st rbb = rbb\<lparr>blk_set := (blk_set rbb)[i := (blk_set rbb ! i)\<lparr>blk_status := st\<rparr>]\<rparr>"

lemma upd_status_simps [simp]:
  "blk_next (upd_status i st rbb) = blk_next rbb" "blk_max_num (upd_status i st rbb) = blk_max_num rbb"
  "rbb_buf (upd_status i st rbb) = rbb_buf rbb" "rbb_buf_size (upd_status i st rbb) = rbb_buf_size rbb"
  "length (blk_set (upd_status i st rbb)) = length (blk_set rbb)"
  by (simp_all add: upd_status_def)

lemma upd_status_nth:
  "i < length (blk_set rbb) \<Longrightarrow> blk_set (upd_status i st rbb) ! j =
     (if j = i then (blk_set rbb ! i)\<lparr>blk_status := st\<rparr> else blk_set rbb ! j)"
  by (simp add: upd_status_def nth_list_update)

lemma blk_span_upd_status [simp]: "i < length (blk_set rbb) \<Longrightarrow> blk_span (upd_status i st rbb) = blk_span rbb"
  by (simp add: blk_span_def upd_status_nth fun_eq_iff)

lemma upd_blk_status:
  "i < length (blk_set rbb) \<Longrightarrow> upd_blk i (\<lambda>b. b\<lparr>blk_status := st\<rparr>) rbb = Some (upd_status i st rbb)"
  by (simp add: upd_blk_def upd_status_def)

lemma rbb_inv_status:
  assumes "rbb_inv rbb xs" "i \<in> set xs" "st \<noteq> RT_RBB_BLK_UNUSED"
  shows "rbb_inv (upd_status i st rbb) xs"
  using assms rbb_invD(4) [OF assms(1,2)] by (auto simp: rbb_inv_def upd_status_nth)

text \<open>A block leaves the list.\<close>

lemma rbb_inv_leave:
  assumes "rbb_inv rbb xs" "slist nx Blk_List (map Blk (remove1 i xs))" "st \<in> {RT_RBB_BLK_UNUSED, RT_RBB_BLK_GET}"
    and "i < length (blk_set rbb)"
  shows "rbb_inv (upd_status i st (rbb\<lparr>blk_next := nx\<rparr>)) (remove1 i xs)"
proof -
  have d: "distinct xs" by (rule rbb_invD(3) [OF assms(1)])
  have "in_ring (blk_span rbb) (rbb_base rbb) (rbb_top rbb) (remove1 i xs)"
    by (rule in_ring_remove1 [OF rbb_invD(8) [OF assms(1)] d])
  moreover have "blk_span (rbb\<lparr>blk_next := nx\<rparr>) = blk_span rbb" by (simp add: blk_span_def fun_eq_iff)
  ultimately show ?thesis
    using assms d by (auto simp: rbb_inv_def upd_status_nth dest: notin_set_remove1)
qed

section \<open>Allocating a block\<close>

lemma find_empty_blk_ok:
  "n \<le> length (blk_set rbb) \<Longrightarrow> \<exists>r. find_empty_blk i n rbb = Some r \<and>
     (r = None \<longrightarrow> (\<forall>k. i \<le> k \<and> k < n \<longrightarrow> status_of rbb k \<noteq> RT_RBB_BLK_UNUSED)) \<and>
     (\<forall>k. r = Some k \<longrightarrow> k < n \<and> status_of rbb k = RT_RBB_BLK_UNUSED)"
proof (induction i n rbb rule: find_empty_blk.induct)
  case (1 i n rbb)
  show ?case
  proof (cases "i < n")
    case True
    then have b: "blk_at i rbb = Some (blk_set rbb ! i)" using 1(2) by (simp add: blk_at_def)
    show ?thesis
    proof (cases "status_of rbb i = RT_RBB_BLK_UNUSED")
      case False
      then obtain r where r: "find_empty_blk (i + 1) n rbb = Some r"
        "r = None \<Longrightarrow> \<forall>k. i + 1 \<le> k \<and> k < n \<longrightarrow> status_of rbb k \<noteq> RT_RBB_BLK_UNUSED"
        "\<forall>k. r = Some k \<longrightarrow> k < n \<and> status_of rbb k = RT_RBB_BLK_UNUSED"
        using 1(1) [OF True b] 1(2) by blast
      have e: "find_empty_blk i n rbb = Some r" using True b False r(1) by (subst find_empty_blk.simps) simp
      have "\<forall>k. i \<le> k \<and> k < n \<longrightarrow> status_of rbb k \<noteq> RT_RBB_BLK_UNUSED" if "r = None"
        using r(2) [OF that] False by (metis Suc_eq_plus1 Suc_leI le_neq_implies_less)
      then show ?thesis using e r(3) by blast
    qed (use True b in \<open>subst find_empty_blk.simps, simp\<close>)
  qed (subst find_empty_blk.simps, auto)
qed

lemma blk_fields [simp]:
  "(b :: rt_rbb_blk)\<lparr>blk_status := s, blk_buf := p, blk_size := n\<rparr> = \<lparr>blk_status = s, blk_size = n, blk_buf = p\<rparr>"
  by (cases b) simp

lemma unat_add_small: "unat a + unat b < 2 ^ 32 \<Longrightarrow> unat (a + b) = unat a + unat b" for a b :: u32
  by (simp add: unat_word_ariths)

lemma unat_size_of: "unat (size_of b) = unat (blk_size b)"
proof -
  have "unat (blk_size b) < 2 ^ 32" using unsigned_less [of "blk_size b", where 'a = nat] by simp
  then show ?thesis by (simp add: unsigned_ucast_eq take_bit_nat_eq_self)
qed

lemma unat_24: "unat (sz :: u32) < 2 ^ 24 \<Longrightarrow> unat (ucast sz :: 24 word) = unat sz"
  by (simp add: unsigned_ucast_eq take_bit_nat_eq_self)

text \<open>The state after the new block has been taken\<close>

definition blk_taken :: "nat \<Rightarrow> u32 \<Rightarrow> u32 \<Rightarrow> rt_rbb \<Rightarrow> rt_rbb \<Rightarrow> bool" where
  "blk_taken new buf sz rbb rbb' \<longleftrightarrow>
     blk_set rbb' = (blk_set rbb)[new := \<lparr>blk_status = RT_RBB_BLK_INITED, blk_size = ucast sz, blk_buf = buf\<rparr>] \<and>
     rbb_buf rbb' = rbb_buf rbb \<and> rbb_buf_size rbb' = rbb_buf_size rbb \<and> blk_max_num rbb' = blk_max_num rbb"

lemma blk_take_ok:
  assumes I: "rbb_inv rbb xs" and new: "new < length (blk_set rbb)" "new \<notin> set xs"
    and sz: "unat sz < 2 ^ 24" and e: "e = (unat buf, unat buf + unat sz)" "fits (rbb_base rbb) (rbb_top rbb) e"
    and f: "xs \<noteq> [] \<Longrightarrow> fst (blk_span rbb (hd xs)) \<le> fst (blk_span rbb (last xs)) \<Longrightarrow>
        fst e = snd (blk_span rbb (last xs)) \<or> snd e \<le> fst (blk_span rbb (hd xs))"
    and w: "xs \<noteq> [] \<Longrightarrow> fst (blk_span rbb (last xs)) < fst (blk_span rbb (hd xs)) \<Longrightarrow>
        fst e = snd (blk_span rbb (last xs)) \<and> snd e \<le> fst (blk_span rbb (hd xs))"
  shows "\<exists>rbb'. blk_take new buf sz rbb = Some (Some new, rbb') \<and> rbb_inv rbb' (xs @ [new]) \<and> blk_taken new buf sz rbb rbb'"
proof -
  obtain nx where nx: "rt_slist_append Blk_List (Blk new) (blk_next rbb) = Some nx" "slist nx Blk_List (map Blk xs @ [Blk new])"
    using rt_slist_append_ok [OF rbb_invD(1) [OF I], of "Blk new"] new(2) by auto
  let ?b = "\<lparr>blk_status = RT_RBB_BLK_INITED, blk_size = ucast sz, blk_buf = buf\<rparr>"
  let ?rbb = "rbb\<lparr>blk_next := nx, blk_set := (blk_set rbb)[new := ?b]\<rparr>"
  have r: "blk_take new buf sz rbb = Some (Some new, ?rbb)"
    using nx(1) new(1) by (simp add: blk_take_def upd_blk_def)
  have sp: "blk_span ?rbb i = ((blk_span rbb)(new := e)) i" for i
    using new(1) e(1) unat_24 [OF sz] by (simp add: blk_span_def nth_list_update)
  have "in_ring (blk_span ?rbb) (rbb_base rbb) (rbb_top rbb) (xs @ [new])"
    unfolding sp [abs_def] by (rule in_ring_add [OF rbb_invD(8) [OF I] new(2) e(2) f w])
  then have "rbb_inv ?rbb (xs @ [new])"
    using I nx(2) new by (auto simp: rbb_inv_def nth_list_update)
  then show ?thesis using r by (auto simp: blk_taken_def)
qed

lemma rbb_inv_length:
  assumes "rbb_inv rbb xs"
  shows "length xs < 2 ^ 32" and "length xs \<le> length (blk_set rbb)"
proof -
  have "set xs \<subseteq> {..<length (blk_set rbb)}" using rbb_invD(4) [OF assms] by auto
  then have "card (set xs) \<le> length (blk_set rbb)" using card_mono [of "{..<length (blk_set rbb)}"] by simp
  then show "length xs \<le> length (blk_set rbb)" using rbb_invD(3) [OF assms] by (simp add: distinct_card)
  then show "length xs < 2 ^ 32"
    using rbb_invD(2) [OF assms] unsigned_less [of "blk_max_num rbb", where 'a = nat] by simp
qed

lemma wrapped_apart:
  assumes "rbb_inv rbb xs" "xs \<noteq> []" "fst (blk_span rbb (last xs)) < fst (blk_span rbb (hd xs))"
  shows "snd (blk_span rbb (last xs)) \<le> fst (blk_span rbb (hd xs))"
proof -
  obtain hi lo where x: "xs = hi @ lo" "sorted_wrt (before (blk_span rbb)) (lo @ hi)" "hi \<noteq> []" "lo \<noteq> []"
    using in_ring_wrapped [OF rbb_invD(8) [OF assms(1)] assms(2,3)] by blast
  have "last xs \<in> set lo" "hd xs \<in> set hi" using x(1,3,4) by simp_all
  then show ?thesis using x(2) by (auto simp: sorted_wrt_append before_def)
qed

text \<open>The decisions of the code, on numbers instead of addresses\<close>

lemma alloc_decides:
  assumes I: "rbb_inv rbb xs" and sz: "unat sz < 2 ^ 24" and new: "find_empty_blk_in_set rbb = Some (Some new)"
    and room: "length xs < unat (blk_max_num rbb)" and ne: "xs \<noteq> []"
  defines "h \<equiv> blk_span rbb (hd xs)" and "t \<equiv> blk_span rbb (last xs)"
  shows "\<exists>te. unat te = snd t \<and> rt_rbb_blk_alloc sz rbb =
    (if fst h \<le> fst t then
       if snd t + unat sz \<le> rbb_top rbb then blk_take new te sz rbb
       else if rbb_base rbb + unat sz \<le> fst h then blk_take new (rbb_buf rbb) sz rbb else Some (None, rbb)
     else if snd t + unat sz \<le> fst h then blk_take new te sz rbb else Some (None, rbb))"
proof -
  have len: "rt_slist_len Blk_List (blk_next rbb) = Some (of_nat (length xs))"
    using rt_slist_len_ok [OF rbb_invD(1) [OF I]] by simp
  have ul: "unat (of_nat (length xs) :: u32) = length xs"
    using rbb_inv_length(1) [OF I] by (simp add: unat_of_nat take_bit_nat_eq_self)
  have in_list: "hd xs \<in> set xs" "last xs \<in> set xs" using ne by simp_all
  have ends: "rt_slist_first Blk_List (blk_next rbb) = Some (Blk (hd xs))"
    "rt_slist_tail Blk_List (blk_next rbb) = Some (Blk (last xs))"
    using rt_slist_ends(1,3) [OF rbb_invD(1) [OF I]] ne by (simp_all add: last_map, cases xs) auto
  let ?h = "blk_set rbb ! hd xs" and ?t = "blk_set rbb ! last xs"
  let ?te = "blk_buf ?t + size_of ?t"
  have sp: "h = (unat (blk_buf ?h), unat (blk_buf ?h) + unat (blk_size ?h))"
    "t = (unat (blk_buf ?t), unat (blk_buf ?t) + unat (blk_size ?t))" by (simp_all add: h_def t_def blk_span_def)
  have fit: "rbb_base rbb \<le> fst h" "fst h \<le> rbb_top rbb" "snd t \<le> rbb_top rbb"
    using rbb_invD(9) [OF I in_list(1)] rbb_invD(9) [OF I in_list(2)] by (auto simp: fits_def h_def t_def)
  note top = rbb_invD(7) [OF I]
  have te: "unat ?te = snd t"
    using unat_add_small [of "blk_buf ?t" "size_of ?t"] unat_size_of [of ?t] fit(3) top by (simp add: sp)
  have tp: "unat (rbb_buf rbb + rbb_buf_size rbb) = rbb_top rbb" by (rule unat_add_small [OF top])
  have "unat (rbb_buf rbb + rbb_buf_size rbb - ?te) = rbb_top rbb - snd t"
    using fit(3) by (subst unat_sub) (simp_all add: word_le_nat_alt tp te)
  then have 1: "sz \<le> rbb_buf rbb + rbb_buf_size rbb - ?te \<longleftrightarrow> snd t + unat sz \<le> rbb_top rbb"
    using fit(3) by (simp add: word_le_nat_alt) linarith
  have "unat (blk_buf ?h - rbb_buf rbb) = fst h - rbb_base rbb"
    using fit(1) by (subst unat_sub) (simp_all add: word_le_nat_alt sp)
  then have 2: "sz \<le> blk_buf ?h - rbb_buf rbb \<longleftrightarrow> rbb_base rbb + unat sz \<le> fst h"
    using fit(1) by (simp add: word_le_nat_alt) linarith
  have 3: "sz \<le> blk_buf ?h - ?te \<longleftrightarrow> snd t + unat sz \<le> fst h" if "fst t < fst h"
  proof -
    have b: "snd t \<le> fst h" using wrapped_apart [OF I ne] that by (simp add: h_def t_def)
    then have "unat (blk_buf ?h - ?te) = fst h - snd t"
      using te by (subst unat_sub) (simp_all add: word_le_nat_alt sp(1))
    then show ?thesis using b by (simp add: word_le_nat_alt) linarith
  qed
  have le: "blk_buf ?h \<le> blk_buf ?t \<longleftrightarrow> fst h \<le> fst t" by (simp add: sp word_le_nat_alt)
  have as: "RT_ASSERT (sz < 16777216) = Some ()" using sz by (simp add: RT_ASSERT_def word_less_nat_alt)
  have "0 < (of_nat (length xs) :: u32)" "(of_nat (length xs) :: u32) < blk_max_num rbb"
    using ne room ul by (simp_all add: word_less_nat_alt)
  then have "rt_rbb_blk_alloc sz rbb = (if blk_buf ?h \<le> blk_buf ?t then
      (if sz \<le> rbb_buf rbb + rbb_buf_size rbb - ?te then blk_take new ?te sz rbb
       else if sz \<le> blk_buf ?h - rbb_buf rbb then blk_take new (rbb_buf rbb) sz rbb else Some (None, rbb))
      else if sz \<le> blk_buf ?h - ?te then blk_take new ?te sz rbb else Some (None, rbb))"
    using rbb_invD(6) [OF I in_list(1)] rbb_invD(6) [OF I in_list(2)]
    by (simp add: rt_rbb_blk_alloc_def as new len ends Let_def)
  then show ?thesis using te 1 2 3 unfolding le by (intro exI [of _ ?te]) auto
qed

lemma alloc_first:
  assumes "rbb_inv rbb []" "unat sz < 2 ^ 24" "find_empty_blk_in_set rbb = Some (Some new)" "0 < blk_max_num rbb"
  shows "rt_rbb_blk_alloc sz rbb = blk_take new (rbb_buf rbb) sz rbb"
  using assms rt_slist_len_ok [OF rbb_invD(1) [OF assms(1)]]
  by (simp add: rt_rbb_blk_alloc_def RT_ASSERT_def word_less_nat_alt)

lemma alloc_none:
  assumes "rbb_inv rbb xs" "unat sz < 2 ^ 24"
    and "find_empty_blk_in_set rbb = Some None \<or>
      (\<exists>new. find_empty_blk_in_set rbb = Some (Some new)) \<and> \<not> length xs < unat (blk_max_num rbb)"
  shows "rt_rbb_blk_alloc sz rbb = Some (None, rbb)"
proof -
  have "\<not> (of_nat (length xs) :: u32) < blk_max_num rbb" if "\<not> length xs < unat (blk_max_num rbb)"
    using that rbb_inv_length(1) [OF assms(1)] by (simp add: word_less_nat_alt unat_of_nat take_bit_nat_eq_self)
  then show ?thesis
    using assms(2,3) rt_slist_len_ok [OF rbb_invD(1) [OF assms(1)]]
    by (auto simp: rt_rbb_blk_alloc_def RT_ASSERT_def word_less_nat_alt)
qed

lemma rt_rbb_blk_alloc_ok:
  assumes I: "rbb_inv rbb xs" and sz: "0 < sz" "unat sz < 2 ^ 24" and empty: "xs = [] \<Longrightarrow> sz \<le> rbb_buf_size rbb"
  shows "rt_rbb_blk_alloc sz rbb = Some (None, rbb) \<or>
    (\<exists>new buf rbb'. rt_rbb_blk_alloc sz rbb = Some (Some new, rbb') \<and> new < length (blk_set rbb) \<and>
       status_of rbb new = RT_RBB_BLK_UNUSED \<and> rbb_inv rbb' (xs @ [new]) \<and> blk_taken new buf sz rbb rbb')"
proof -
  obtain r where r: "find_empty_blk_in_set rbb = Some r"
    "\<forall>k. r = Some k \<longrightarrow> k < length (blk_set rbb) \<and> status_of rbb k = RT_RBB_BLK_UNUSED"
    using find_empty_blk_ok [of "unat (blk_max_num rbb)" rbb 0] rbb_invD(2) [OF I]
    by (auto simp: find_empty_blk_in_set_def)
  show ?thesis
  proof (cases "r = None \<or> \<not> length xs < unat (blk_max_num rbb)")
    case True
    then show ?thesis using alloc_none [OF I sz(2)] r(1) by (cases r) auto
  next
    case False
    then obtain new where n: "find_empty_blk_in_set rbb = Some (Some new)" "new < length (blk_set rbb)"
      "status_of rbb new = RT_RBB_BLK_UNUSED" and room: "length xs < unat (blk_max_num rbb)" using r by auto
    have nx: "new \<notin> set xs" using rbb_invD(5) [OF I] n(3) by auto
    let ?h = "blk_span rbb (hd xs)" and ?t = "blk_span rbb (last xs)"
    have pos: "0 < unat sz" using sz(1) by (simp add: word_less_nat_alt)
    have take: ?thesis if e: "rt_rbb_blk_alloc sz rbb = blk_take new buf sz rbb"
      and u: "rbb_base rbb \<le> unat buf" "unat buf + unat sz \<le> rbb_top rbb"
      and f: "xs \<noteq> [] \<Longrightarrow> fst ?h \<le> fst ?t \<Longrightarrow> unat buf = snd ?t \<or> unat buf + unat sz \<le> fst ?h"
      and w: "xs \<noteq> [] \<Longrightarrow> fst ?t < fst ?h \<Longrightarrow> unat buf = snd ?t \<and> unat buf + unat sz \<le> fst ?h" for buf
    proof -
      have fit: "fits (rbb_base rbb) (rbb_top rbb) (unat buf, unat buf + unat sz)" using u pos by (simp add: fits_def)
      have "\<exists>rbb'. blk_take new buf sz rbb = Some (Some new, rbb') \<and> rbb_inv rbb' (xs @ [new]) \<and> blk_taken new buf sz rbb rbb'"
        by (rule blk_take_ok [OF I n(2) nx sz(2) refl fit]) (use f w in auto)
      then show ?thesis using e n(2,3) by metis
    qed
    show ?thesis
    proof (cases "xs = []")
      case True
      have "0 < blk_max_num rbb" using room by (simp add: word_less_nat_alt)
      then have "rt_rbb_blk_alloc sz rbb = blk_take new (rbb_buf rbb) sz rbb"
        using alloc_first [of rbb sz new] I sz(2) n(1) True by simp
      then show ?thesis by (rule take) (use True empty in \<open>simp_all add: word_le_nat_alt\<close>)
    next
      case False
      obtain te where te: "unat te = snd ?t" and e: "rt_rbb_blk_alloc sz rbb =
        (if fst ?h \<le> fst ?t then
           if snd ?t + unat sz \<le> rbb_top rbb then blk_take new te sz rbb
           else if rbb_base rbb + unat sz \<le> fst ?h then blk_take new (rbb_buf rbb) sz rbb else Some (None, rbb)
         else if snd ?t + unat sz \<le> fst ?h then blk_take new te sz rbb else Some (None, rbb))"
        using alloc_decides [OF I sz(2) n(1) room False] by blast
      have fit: "rbb_base rbb \<le> snd ?t" "fst ?h \<le> rbb_top rbb"
        using rbb_invD(9) [OF I, of "hd xs"] rbb_invD(9) [OF I, of "last xs"] False by (auto simp: fits_def)
      consider "rt_rbb_blk_alloc sz rbb = Some (None, rbb)"
        | "rt_rbb_blk_alloc sz rbb = blk_take new te sz rbb" "fst ?h \<le> fst ?t" "snd ?t + unat sz \<le> rbb_top rbb"
        | "rt_rbb_blk_alloc sz rbb = blk_take new (rbb_buf rbb) sz rbb" "fst ?h \<le> fst ?t" "rbb_base rbb + unat sz \<le> fst ?h"
        | "rt_rbb_blk_alloc sz rbb = blk_take new te sz rbb" "fst ?t < fst ?h" "snd ?t + unat sz \<le> fst ?h"
        using e by (auto split: if_splits)
      then show ?thesis
      proof cases
        case 2
        show ?thesis by (rule take [OF 2(1)]) (use 2 te fit in auto)
      next
        case 3
        show ?thesis by (rule take [OF 3(1)]) (use 3 te fit in auto)
      next
        case 4
        show ?thesis by (rule take [OF 4(1)]) (use 4 te fit in auto)
      qed blast
    qed
  qed
qed

section \<open>Putting, getting and freeing a block\<close>

lemma rt_rbb_blk_put_ok:
  assumes I: "rbb_inv rbb xs" and i: "i < length (blk_set rbb)" "status_of rbb i = RT_RBB_BLK_INITED"
  shows "rt_rbb_blk_put i rbb = Some (upd_status i RT_RBB_BLK_PUT rbb) \<and> rbb_inv (upd_status i RT_RBB_BLK_PUT rbb) xs"
proof -
  have "i \<in> set xs" using I i by (auto simp: rbb_inv_def)
  then show ?thesis using i rbb_inv_status [OF I] by (simp add: rt_rbb_blk_put_def blk_at_def upd_blk_status)
qed

lemma blk_get_loop_chained:
  "chained (blk_next rbb) l (map Blk ys) \<Longrightarrow> \<forall>i\<in>set ys. i < length (blk_set rbb) \<Longrightarrow>
   blk_get_loop (blk_next rbb l) rbb = (case find (\<lambda>i. status_of rbb i = RT_RBB_BLK_PUT) ys of
      None \<Rightarrow> Some (None, rbb) | Some i \<Rightarrow> Some (Some i, upd_status i RT_RBB_BLK_GET rbb))"
proof (induction ys arbitrary: l)
  case Nil
  then show ?case by (subst blk_get_loop.simps) simp
next
  case (Cons y ys)
  then have "blk_at y rbb = Some (blk_set rbb ! y)" by (simp add: blk_at_def)
  then show ?case using Cons
    by (subst blk_get_loop.simps) (simp add: upd_blk_status rt_slist_next_def)
qed

lemma rt_rbb_blk_get_ok:
  assumes I: "rbb_inv rbb xs"
  shows "rt_rbb_blk_get rbb = (case find (\<lambda>i. status_of rbb i = RT_RBB_BLK_PUT) xs of
      None \<Rightarrow> Some (None, rbb) | Some i \<Rightarrow> Some (Some i, upd_status i RT_RBB_BLK_GET rbb))"
    and "find (\<lambda>i. status_of rbb i = RT_RBB_BLK_PUT) xs = Some i \<Longrightarrow> rbb_inv (upd_status i RT_RBB_BLK_GET rbb) xs"
proof -
  have c: "chained (blk_next rbb) Blk_List (map Blk xs)" using rbb_invD(1) [OF I] by (simp add: slist_def)
  have "\<forall>i\<in>set xs. i < length (blk_set rbb)" using rbb_invD(4) [OF I] by blast
  then show "rt_rbb_blk_get rbb = (case find (\<lambda>i. status_of rbb i = RT_RBB_BLK_PUT) xs of
      None \<Rightarrow> Some (None, rbb) | Some i \<Rightarrow> Some (Some i, upd_status i RT_RBB_BLK_GET rbb))"
    using blk_get_loop_chained [OF c] rt_slist_ends(2) [OF rbb_invD(1) [OF I]]
    by (cases xs) (simp_all add: rt_rbb_blk_get_def rt_slist_first_def)
  assume "find (\<lambda>i. status_of rbb i = RT_RBB_BLK_PUT) xs = Some i"
  then have "i \<in> set xs" by (auto simp: find_Some_iff)
  then show "rbb_inv (upd_status i RT_RBB_BLK_GET rbb) xs" by (rule rbb_inv_status [OF I]) simp
qed

lemma leave_list:
  assumes I: "rbb_inv rbb xs" and i: "i < length (blk_set rbb)" and st: "st \<in> {RT_RBB_BLK_UNUSED, RT_RBB_BLK_GET}"
  obtains nx where "rt_slist_remove Blk_List (Blk i) (blk_next rbb) = Some nx"
    "rbb_inv (upd_status i st (rbb\<lparr>blk_next := nx\<rparr>)) (remove1 i xs)" "i \<in> set xs \<Longrightarrow> nx (Blk i) = blk_next rbb (Blk i)"
    "upd_blk i (\<lambda>b. b\<lparr>blk_status := st\<rparr>) (rbb\<lparr>blk_next := nx\<rparr>) = Some (upd_status i st (rbb\<lparr>blk_next := nx\<rparr>))"
proof -
  obtain nx where nx: "rt_slist_remove Blk_List (Blk i) (blk_next rbb) = Some nx"
    "slist nx Blk_List (map Blk (remove1 i xs))" "i \<in> set xs \<longrightarrow> nx (Blk i) = blk_next rbb (Blk i)"
    using rt_slist_remove_ok [OF rbb_invD(1) [OF I], of "Blk i"] by auto
  have "rbb_inv (upd_status i st (rbb\<lparr>blk_next := nx\<rparr>)) (remove1 i xs)"
    by (rule rbb_inv_leave [OF I nx(2) st i])
  moreover have "upd_blk i (\<lambda>b. b\<lparr>blk_status := st\<rparr>) (rbb\<lparr>blk_next := nx\<rparr>) = Some (upd_status i st (rbb\<lparr>blk_next := nx\<rparr>))"
    by (rule upd_blk_status) (use i in simp)
  ultimately show ?thesis using that nx(1,3) by blast
qed

lemma rt_rbb_blk_free_ok:
  assumes I: "rbb_inv rbb xs" and i: "i < length (blk_set rbb)" "status_of rbb i \<noteq> RT_RBB_BLK_UNUSED"
  shows "\<exists>rbb'. rt_rbb_blk_free i rbb = Some rbb' \<and> rbb_inv rbb' (remove1 i xs) \<and>
    blk_set rbb' = (blk_set rbb)[i := (blk_set rbb ! i)\<lparr>blk_status := RT_RBB_BLK_UNUSED\<rparr>]"
proof -
  obtain nx where "rt_slist_remove Blk_List (Blk i) (blk_next rbb) = Some nx"
    "rbb_inv (upd_status i RT_RBB_BLK_UNUSED (rbb\<lparr>blk_next := nx\<rparr>)) (remove1 i xs)"
    "upd_blk i (\<lambda>b. b\<lparr>blk_status := RT_RBB_BLK_UNUSED\<rparr>) (rbb\<lparr>blk_next := nx\<rparr>) =
      Some (upd_status i RT_RBB_BLK_UNUSED (rbb\<lparr>blk_next := nx\<rparr>))"
    by (rule leave_list [OF I i(1), of RT_RBB_BLK_UNUSED]) auto
  then show ?thesis using i by (auto simp: rt_rbb_blk_free_def RT_ASSERT_def blk_at_def upd_status_def)
qed

end
