(* ===== verification/Ringblk_Queue.thy ===== *)
theory Ringblk_Queue
  imports Ringblk_Inv
begin

text \<open>
  Queues of blocks of the ring block buffer: which blocks \<open>rt_rbb_blk_queue_get\<close> takes from the list and
  what it leaves, and the length that \<open>rt_rbb_next_blk_queue_len\<close> answers.
\<close>

section \<open>The blocks of a queue\<close>

text \<open>The blocks that \<open>rt_rbb_blk_queue_get\<close> takes\<close>

fun run_after :: "rt_rbb \<Rightarrow> u32 \<Rightarrow> nat \<Rightarrow> u32 \<Rightarrow> nat list \<Rightarrow> nat list" where
  "run_after rbb m l data_total [] = []"
| "run_after rbb m l data_total (i # is) =
     (if status_of rbb i \<noteq> RT_RBB_BLK_PUT \<or> blk_buf (blk_set rbb ! l) > blk_buf (blk_set rbb ! i) \<or>
         data_total + size_of (blk_set rbb ! i) > m
      then [] else i # run_after rbb m i (data_total + size_of (blk_set rbb ! i)) is)"

fun queue_run :: "rt_rbb \<Rightarrow> u32 \<Rightarrow> nat list \<Rightarrow> nat list" where
  "queue_run rbb m [] = []"
| "queue_run rbb m (i # is) = (if status_of rbb i \<noteq> RT_RBB_BLK_PUT then queue_run rbb m is
     else i # run_after rbb m i (size_of (blk_set rbb ! i)) is)"

definition run_size :: "rt_rbb \<Rightarrow> nat list \<Rightarrow> u32" where
  "run_size rbb is = sum_list (map (\<lambda>i. size_of (blk_set rbb ! i)) is)"

lemma run_after_cong:
  "blk_buf (blk_set rbb' ! l) = blk_buf (blk_set rbb ! l) \<Longrightarrow>
   \<forall>i\<in>set ys. blk_set rbb' ! i = blk_set rbb ! i \<Longrightarrow> run_after rbb' m l n ys = run_after rbb m l n ys"
  by (induction ys arbitrary: l n) auto

lemma run_after_set: "set (run_after rbb m l n ys) \<subseteq> set ys"
  by (induction ys arbitrary: l n) auto

lemma run_after_prefix: "run_after rbb m l n ys = take (length (run_after rbb m l n ys)) ys"
  by (induction ys arbitrary: l n) auto

text \<open>What a run leaves: its blocks have the status \<open>GET\<close>, everything else is as it was.\<close>

definition got :: "nat list \<Rightarrow> rt_rbb \<Rightarrow> rt_rbb \<Rightarrow> bool" where
  "got run rbb rbb' \<longleftrightarrow> length (blk_set rbb') = length (blk_set rbb) \<and> rbb_buf rbb' = rbb_buf rbb \<and>
     rbb_buf_size rbb' = rbb_buf_size rbb \<and>
     (\<forall>j. blk_set rbb' ! j = (if j \<in> set run then (blk_set rbb ! j)\<lparr>blk_status := RT_RBB_BLK_GET\<rparr> else blk_set rbb ! j))"

lemma chained_next: "chained nx l (us @ x # vs) \<Longrightarrow> nx x = (case vs of [] \<Rightarrow> None | v # _ \<Rightarrow> Some v)"
  by (induction us arbitrary: l) (auto split: list.splits)

definition node_of :: "nat list \<Rightarrow> rbb_node option" where
  "node_of ys = (case ys of [] \<Rightarrow> None | y # _ \<Rightarrow> Some (Blk y))"

lemma next_node: "rbb_inv rbb (us @ y # ys) \<Longrightarrow> blk_next rbb (Blk y) = node_of ys"
  using chained_next [of "blk_next rbb" Blk_List "map Blk us" "Blk y" "map Blk ys"]
  by (auto simp: rbb_inv_def slist_def node_of_def split: list.splits)

lemma queue_take_loop:
  "rbb_inv rbb (us @ ys) \<Longrightarrow> l < length (blk_set rbb) \<Longrightarrow> run = run_after rbb m l n ys \<Longrightarrow>
   \<exists>rbb'. queue_get_loop (node_of ys) (Some l) n m q rbb =
       Some (n + run_size rbb run, q\<lparr>queue_blk_num := queue_blk_num q + of_nat (length run)\<rparr>, rbb') \<and>
     rbb_inv rbb' (us @ drop (length run) ys) \<and> got run rbb rbb'"
proof (induction ys arbitrary: l n q rbb run)
  case Nil
  then show ?case by (subst queue_get_loop.simps) (simp add: node_of_def run_size_def got_def)
next
  case (Cons y ys)
  have y: "y < length (blk_set rbb)" "blk_at y rbb = Some (blk_set rbb ! y)" "blk_at l rbb = Some (blk_set rbb ! l)"
    using rbb_invD(4,6) [OF Cons.prems(1), of y] Cons.prems(2) by (auto simp: blk_at_def)
  let ?stop = "status_of rbb y \<noteq> RT_RBB_BLK_PUT \<or> blk_buf (blk_set rbb ! l) > blk_buf (blk_set rbb ! y) \<or>
    n + size_of (blk_set rbb ! y) > m"
  show ?case
  proof (cases ?stop)
    case True
    then have "run = []" using Cons.prems(3) by simp
    moreover have "queue_get_loop (node_of (y # ys)) (Some l) n m q rbb = Some (n, q, rbb)"
      using y True by (subst queue_get_loop.simps) (auto simp: node_of_def)
    ultimately show ?thesis using Cons.prems(1) by (simp add: run_size_def got_def)
  next
    case False
    have d: "y \<notin> set us \<union> set ys" using rbb_invD(3) [OF Cons.prems(1)] by auto
    obtain nx where nx: "rt_slist_remove Blk_List (Blk y) (blk_next rbb) = Some nx"
      "rbb_inv (upd_status y RT_RBB_BLK_GET (rbb\<lparr>blk_next := nx\<rparr>)) (remove1 y (us @ y # ys))" "nx (Blk y) = blk_next rbb (Blk y)"
      "upd_blk y (\<lambda>b. b\<lparr>blk_status := RT_RBB_BLK_GET\<rparr>) (rbb\<lparr>blk_next := nx\<rparr>) =
        Some (upd_status y RT_RBB_BLK_GET (rbb\<lparr>blk_next := nx\<rparr>))"
      by (rule leave_list [OF Cons.prems(1) y(1), of RT_RBB_BLK_GET]) auto
    let ?rbb = "upd_status y RT_RBB_BLK_GET (rbb\<lparr>blk_next := nx\<rparr>)" and ?n = "n + size_of (blk_set rbb ! y)"
    have I1: "rbb_inv ?rbb (us @ ys)" using nx(2) d by (simp add: remove1_append)
    have b: "blk_set ?rbb ! j = (if j = y then (blk_set rbb ! y)\<lparr>blk_status := RT_RBB_BLK_GET\<rparr> else blk_set rbb ! j)" for j
      using upd_status_nth [of y "rbb\<lparr>blk_next := nx\<rparr>" RT_RBB_BLK_GET j] y(1) by simp
    have run: "run = y # run_after ?rbb m y ?n ys"
      using Cons.prems(3) False run_after_cong [of ?rbb y rbb ys m ?n] b d by auto
    let ?run = "run_after ?rbb m y ?n ys" and ?q = "q\<lparr>queue_blk_num := queue_blk_num q + 1\<rparr>"
    obtain rbb' where r: "queue_get_loop (node_of ys) (Some y) ?n m ?q ?rbb =
        Some (?n + run_size ?rbb ?run, ?q\<lparr>queue_blk_num := queue_blk_num ?q + of_nat (length ?run)\<rparr>, rbb')"
      "rbb_inv rbb' (us @ drop (length ?run) ys)" "got ?run ?rbb rbb'"
      using Cons.IH [OF I1 _ refl, of y ?n ?q] y(1) by auto
    have e: "queue_get_loop (node_of (y # ys)) (Some l) n m q rbb = queue_get_loop (node_of ys) (Some y) ?n m ?q ?rbb"
      using y False nx(1,3,4) next_node [OF Cons.prems(1)]
      by (subst queue_get_loop.simps) (auto simp: node_of_def rt_slist_next_def)
    have "y \<notin> set ?run" using run_after_set d by fastforce
    then have "run_size ?rbb ?run = run_size rbb ?run" "got run rbb rbb'"
      using r(3) b unfolding run by (auto simp: run_size_def got_def intro!: arg_cong [where f = sum_list])
    moreover have "n + run_size rbb run = ?n + run_size rbb ?run" unfolding run by (simp add: run_size_def)
    ultimately show ?thesis using r(1,2) unfolding e run by (intro exI [of _ rbb']) (simp add: add.assoc)
  qed
qed

lemma rbb_inv_distinct_drop:
  "distinct (us @ ys) \<Longrightarrow> set run \<subseteq> set ys \<Longrightarrow> run = take (length run) ys \<Longrightarrow>
   us @ drop (length run) ys = filter (\<lambda>i. i \<notin> set run) (us @ ys)"
proof -
  assume d: "distinct (us @ ys)" and r: "run = take (length run) ys"
  obtain zs where y: "ys = run @ zs" using r by (metis append_take_drop_id)
  then have "filter (\<lambda>i. i \<notin> set run) us = us" "filter (\<lambda>i. i \<notin> set run) zs = zs" using d by (auto intro!: filter_True)
  then show ?thesis unfolding y by (simp add: filter_empty_conv)
qed

lemma filter_notin_Cons: "y \<notin> set zs \<Longrightarrow> filter (\<lambda>i. i \<notin> set (y # R)) zs = filter (\<lambda>i. i \<notin> set R) zs"
  by (auto intro!: filter_cong)

lemma queue_skip_loop:
  "rbb_inv rbb (us @ ys) \<Longrightarrow> run = queue_run rbb m ys \<Longrightarrow>
   \<exists>rbb'. queue_get_loop (node_of ys) None 0 m q rbb =
       Some (run_size rbb run, if run = [] then q else \<lparr>queue_blocks = hd run, queue_blk_num = of_nat (length run)\<rparr>, rbb') \<and>
     rbb_inv rbb' (filter (\<lambda>i. i \<notin> set run) (us @ ys)) \<and> got run rbb rbb'"
proof (induction ys arbitrary: us)
  case Nil
  then show ?case
    by (subst queue_get_loop.simps) (simp add: node_of_def run_size_def got_def)
next
  case (Cons y ys)
  have y: "y < length (blk_set rbb)" "blk_at y rbb = Some (blk_set rbb ! y)"
    using rbb_invD(4,6) [OF Cons.prems(1), of y] by auto
  have nxt: "rt_slist_next (Blk y) (blk_next rbb) = node_of ys"
    using next_node [OF Cons.prems(1)] by (simp add: rt_slist_next_def)
  show ?case
  proof (cases "status_of rbb y = RT_RBB_BLK_PUT")
    case False
    then have e: "queue_get_loop (node_of (y # ys)) None 0 m q rbb = queue_get_loop (node_of ys) None 0 m q rbb"
      using y nxt by (subst queue_get_loop.simps) (simp add: node_of_def)
    show ?thesis using Cons.IH [of "us @ [y]"] Cons.prems False unfolding e by simp
  next
    case True
    have d: "distinct (us @ y # ys)" using rbb_invD(3) [OF Cons.prems(1)] .
    obtain nx where nx: "rt_slist_remove Blk_List (Blk y) (blk_next rbb) = Some nx"
      "rbb_inv (upd_status y RT_RBB_BLK_GET (rbb\<lparr>blk_next := nx\<rparr>)) (remove1 y (us @ y # ys))" "nx (Blk y) = blk_next rbb (Blk y)"
      "upd_blk y (\<lambda>b. b\<lparr>blk_status := RT_RBB_BLK_GET\<rparr>) (rbb\<lparr>blk_next := nx\<rparr>) =
        Some (upd_status y RT_RBB_BLK_GET (rbb\<lparr>blk_next := nx\<rparr>))"
      by (rule leave_list [OF Cons.prems(1) y(1), of RT_RBB_BLK_GET]) auto
    let ?rbb = "upd_status y RT_RBB_BLK_GET (rbb\<lparr>blk_next := nx\<rparr>)" and ?n = "size_of (blk_set rbb ! y)"
    have I1: "rbb_inv ?rbb (us @ ys)" using nx(2) d by (simp add: remove1_append)
    have b: "blk_set ?rbb ! j = (if j = y then (blk_set rbb ! y)\<lparr>blk_status := RT_RBB_BLK_GET\<rparr> else blk_set rbb ! j)" for j
      using upd_status_nth [of y "rbb\<lparr>blk_next := nx\<rparr>" RT_RBB_BLK_GET j] y(1) by simp
    let ?run = "run_after ?rbb m y ?n ys" and ?q = "\<lparr>queue_blocks = y, queue_blk_num = 1\<rparr>"
    have run: "run = y # ?run"
      using Cons.prems(2) True run_after_cong [of ?rbb y rbb ys m ?n] b d by auto
    obtain rbb' where r: "queue_get_loop (node_of ys) (Some y) ?n m ?q ?rbb =
        Some (?n + run_size ?rbb ?run, ?q\<lparr>queue_blk_num := queue_blk_num ?q + of_nat (length ?run)\<rparr>, rbb')"
      "rbb_inv rbb' (us @ drop (length ?run) ys)" "got ?run ?rbb rbb'"
      using queue_take_loop [OF I1 _ refl, of y ?n m ?q] y(1) by auto
    have e: "queue_get_loop (node_of (y # ys)) None 0 m q rbb = queue_get_loop (node_of ys) (Some y) ?n m ?q ?rbb"
      using y True nx(1,3,4) nxt by (cases q, subst queue_get_loop.simps) (simp add: node_of_def rt_slist_next_def)
    have sub: "set ?run \<subseteq> set ys" by (rule run_after_set)
    have n: "y \<notin> set ?run" using sub d by auto
    have dr: "us @ drop (length ?run) ys = filter (\<lambda>i. i \<notin> set run) (us @ y # ys)"
      using rbb_inv_distinct_drop [OF _ sub run_after_prefix, of us] d filter_notin_Cons [of y us ?run] filter_notin_Cons [of y ys ?run]
      unfolding run by simp
    have "run_size ?rbb ?run = run_size rbb ?run" "got run rbb rbb'"
      using n r(3) b unfolding run by (auto simp: run_size_def got_def intro!: arg_cong [where f = sum_list])
    moreover have "run_size rbb run = ?n + run_size rbb ?run" unfolding run by (simp add: run_size_def)
    ultimately show ?thesis using r(1,2) unfolding e dr by (intro exI [of _ rbb']) (simp add: run)
  qed
qed

lemma first_node: "rbb_inv rbb xs \<Longrightarrow> rt_slist_first Blk_List (blk_next rbb) = node_of xs"
  using rt_slist_ends(3) [OF rbb_invD(1), of rbb xs] by (cases xs) (simp_all add: node_of_def)

text \<open>
  \<open>rt_rbb_blk_queue_get\<close> takes from the list the first put block and the put blocks that follow it, as long as
  their addresses rise and their sizes together stay within the limit; it answers with the sum of the sizes,
  and the queue names the first of them and their number. They are got then and no longer in the list.
\<close>

lemma rt_rbb_blk_queue_get_ok:
  assumes I: "rbb_inv rbb xs" and run: "run = queue_run rbb m xs"
  shows "\<exists>rbb'. rt_rbb_blk_queue_get m q rbb =
       Some (run_size rbb run, if run = [] then q else \<lparr>queue_blocks = hd run, queue_blk_num = of_nat (length run)\<rparr>, rbb') \<and>
     rbb_inv rbb' (filter (\<lambda>i. i \<notin> set run) xs) \<and> got run rbb rbb'"
proof (cases "xs = []")
  case True
  then show ?thesis using I run rt_slist_ends(2) [OF rbb_invD(1) [OF I]]
    by (simp add: rt_rbb_blk_queue_get_def run_size_def got_def)
next
  case False
  then show ?thesis using queue_skip_loop [of rbb "[]" xs run m q] I run first_node [OF I]
      rt_slist_ends(2) [OF rbb_invD(1) [OF I]]
    by (simp add: rt_rbb_blk_queue_get_def)
qed

text \<open>The length of the next queue: the blocks that \<open>rt_rbb_blk_queue_get\<close> would take without its limit\<close>

fun all_after :: "rt_rbb \<Rightarrow> nat \<Rightarrow> nat list \<Rightarrow> nat list" where
  "all_after rbb l [] = []"
| "all_after rbb l (i # is) =
     (if status_of rbb i \<noteq> RT_RBB_BLK_PUT \<or> blk_buf (blk_set rbb ! l) > blk_buf (blk_set rbb ! i)
      then [] else i # all_after rbb i is)"

fun all_run :: "rt_rbb \<Rightarrow> nat list \<Rightarrow> nat list" where
  "all_run rbb [] = []"
| "all_run rbb (i # is) = (if status_of rbb i \<noteq> RT_RBB_BLK_PUT then all_run rbb is else i # all_after rbb i is)"

lemma next_len_take:
  "rbb_inv rbb (us @ ys) \<Longrightarrow> l < length (blk_set rbb) \<Longrightarrow>
   next_len_loop (node_of ys) (Some l) n rbb = Some (n + run_size rbb (all_after rbb l ys))"
proof (induction ys arbitrary: us l n)
  case Nil
  then show ?case by (subst next_len_loop.simps) (simp add: node_of_def run_size_def)
next
  case (Cons y ys)
  have y: "y < length (blk_set rbb)" "blk_at y rbb = Some (blk_set rbb ! y)" "blk_at l rbb = Some (blk_set rbb ! l)"
    using rbb_invD(4,6) [OF Cons.prems(1), of y] Cons.prems(2) by (auto simp: blk_at_def)
  show ?case using Cons.IH [of "us @ [y]" y "n + size_of (blk_set rbb ! y)"] Cons.prems y next_node [OF Cons.prems(1)]
    by (subst next_len_loop.simps) (auto simp: node_of_def [of "y # ys"] run_size_def rt_slist_next_def Let_def add.assoc)
qed

lemma next_len_skip:
  "rbb_inv rbb (us @ ys) \<Longrightarrow> next_len_loop (node_of ys) None 0 rbb = Some (run_size rbb (all_run rbb ys))"
proof (induction ys arbitrary: us)
  case Nil
  then show ?case by (subst next_len_loop.simps) (simp add: node_of_def run_size_def)
next
  case (Cons y ys)
  have y: "y < length (blk_set rbb)" "blk_at y rbb = Some (blk_set rbb ! y)"
    using rbb_invD(4,6) [OF Cons.prems(1), of y] by auto
  have I: "rbb_inv rbb ((us @ [y]) @ ys)" using Cons.prems by simp
  show ?case using Cons.IH [OF I] next_len_take [OF I, of y "size_of (blk_set rbb ! y)"] y next_node [OF Cons.prems]
    by (subst next_len_loop.simps) (auto simp: node_of_def [of "y # ys"] run_size_def rt_slist_next_def Let_def)
qed

lemma rt_rbb_next_blk_queue_len_ok:
  assumes I: "rbb_inv rbb xs"
  shows "rt_rbb_next_blk_queue_len rbb = Some (run_size rbb (all_run rbb xs))"
  using next_len_skip [of rbb "[]" xs] I first_node [OF I] rt_slist_ends(2) [OF rbb_invD(1) [OF I]]
  by (cases "xs = []") (simp_all add: rt_rbb_next_blk_queue_len_def run_size_def)

end
