(* ===== verification/Ringblk_Props.thy ===== *)
theory Ringblk_Props
  imports Ringblk_Queue
begin

text \<open>
  The ring block buffer from its initialisation on: every run of its operations keeps the invariant,
  the properties of the component, and where the code does less than its comments promise.
\<close>


section \<open>Initialisation\<close>

lemma init_status_ok:
  "n \<le> length (blk_set rbb) \<Longrightarrow> \<exists>bs. init_status i n rbb = Some (rbb\<lparr>blk_set := bs\<rparr>) \<and> length bs = length (blk_set rbb) \<and>
     (\<forall>k < length bs. bs ! k = (if i \<le> k \<and> k < n then (blk_set rbb ! k)\<lparr>blk_status := RT_RBB_BLK_UNUSED\<rparr> else blk_set rbb ! k))"
proof (induction i n rbb rule: init_status.induct)
  case (1 i n rbb)
  show ?case
  proof (cases "i < n")
    case True
    then have e: "upd_blk i (\<lambda>b. b\<lparr>blk_status := RT_RBB_BLK_UNUSED\<rparr>) rbb = Some (upd_status i RT_RBB_BLK_UNUSED rbb)"
      using 1(2) by (intro upd_blk_status) simp
    let ?rbb = "upd_status i RT_RBB_BLK_UNUSED rbb"
    obtain bs where bs: "init_status (i + 1) n ?rbb = Some (?rbb\<lparr>blk_set := bs\<rparr>)" "length bs = length (blk_set rbb)"
      "\<forall>k < length bs. bs ! k = (if i + 1 \<le> k \<and> k < n then (blk_set ?rbb ! k)\<lparr>blk_status := RT_RBB_BLK_UNUSED\<rparr> else blk_set ?rbb ! k)"
      using 1(1) [OF True e] 1(2) by auto
    have "init_status i n rbb = Some (rbb\<lparr>blk_set := bs\<rparr>)"
      using True e bs(1) by (subst init_status.simps) (simp add: upd_status_def)
    then show ?thesis using bs(2,3) True 1(2) by (intro exI [of _ bs]) (auto simp: upd_status_nth)
  next
    case False
    then show ?thesis by (subst init_status.simps) (auto intro: exI [of _ "blk_set rbb"])
  qed
qed

definition rbb_fresh :: "u32 \<Rightarrow> u32 \<Rightarrow> u32 \<Rightarrow> rt_rbb \<Rightarrow> bool" where
  "rbb_fresh buf sz n rbb \<longleftrightarrow> rbb_inv rbb [] \<and> rbb_buf rbb = buf \<and> rbb_buf_size rbb = sz \<and> blk_max_num rbb = n \<and>
     (\<forall>i < length (blk_set rbb). status_of rbb i = RT_RBB_BLK_UNUSED)"

lemma rt_rbb_init_ok:
  assumes "buf \<noteq> 0" "length block_set = unat n" "unat buf + unat sz < 2 ^ 32"
  shows "\<exists>rbb'. rt_rbb_init buf sz block_set n rbb = Some rbb' \<and> rbb_fresh buf sz n rbb'"
proof -
  let ?rbb = "rbb\<lparr>rbb_buf := buf, rbb_buf_size := sz, blk_set := block_set, blk_max_num := n,
    blk_next := rt_slist_init Blk_List (blk_next rbb)\<rparr>"
  obtain bs where "init_status 0 (unat n) ?rbb = Some (?rbb\<lparr>blk_set := bs\<rparr>)" "length bs = unat n"
    "\<forall>k < length bs. blk_status (bs ! k) = RT_RBB_BLK_UNUSED"
    using init_status_ok [of "unat n" ?rbb 0] assms(2) by auto
  moreover have "slist (rt_slist_init Blk_List (blk_next rbb)) Blk_List []" by (simp add: rt_slist_init_def slist_def)
  ultimately show ?thesis using assms
    by (intro exI [of _ "?rbb\<lparr>blk_set := bs\<rparr>"])
      (auto simp: rt_rbb_init_def RT_ASSERT_def Let_def rbb_fresh_def rbb_inv_def in_ring_def)
qed

section \<open>Length and release of a queue\<close>

lemma queue_len_loop_ok:
  "block + n \<le> length (blk_set rbb) \<Longrightarrow>
   queue_len_loop n block t rbb = Some (t + run_size rbb [block..<block + n])"
proof (induction n arbitrary: block t)
  case (Suc n)
  have "[block..<block + Suc n] = block # [block + 1..<block + 1 + n]" by (simp add: upt_conv_Cons del: upt_Suc)
  then show ?case using Suc.IH [of "block + 1" "t + size_of (blk_set rbb ! block)"] Suc.prems
    by (simp add: blk_at_def run_size_def add.assoc del: upt_Suc)
qed (simp add: run_size_def)

lemma queue_free_loop_inv:
  "rbb_inv rbb xs \<Longrightarrow> queue_free_loop n block rbb = Some rbb' \<Longrightarrow> \<exists>xs'. rbb_inv rbb' xs'"
proof (induction n arbitrary: block rbb xs)
  case (Suc n)
  then obtain rbb1 where r: "rt_rbb_blk_free block rbb = Some rbb1" "queue_free_loop n (block + 1) rbb1 = Some rbb'"
    by (auto simp: bind_eq_Some_conv)
  then have i: "block < length (blk_set rbb)" "status_of rbb block \<noteq> RT_RBB_BLK_UNUSED"
    by (auto simp: rt_rbb_blk_free_def RT_ASSERT_def bind_eq_Some_conv blk_at_def split: if_splits)
  show ?case using rt_rbb_blk_free_ok [OF Suc.prems(1) i] r Suc.IH by fastforce
qed auto

lemma queue_free_loop_ok:
  "rbb_inv rbb xs \<Longrightarrow> block + n \<le> length (blk_set rbb) \<Longrightarrow>
   \<forall>i\<in>{block..<block + n}. status_of rbb i \<noteq> RT_RBB_BLK_UNUSED \<Longrightarrow>
   \<exists>rbb'. queue_free_loop n block rbb = Some rbb' \<and> rbb_inv rbb' (filter (\<lambda>i. i \<notin> {block..<block + n}) xs) \<and>
     length (blk_set rbb') = length (blk_set rbb) \<and>
     (\<forall>j < length (blk_set rbb). blk_set rbb' ! j = (if j \<in> {block..<block + n}
        then (blk_set rbb ! j)\<lparr>blk_status := RT_RBB_BLK_UNUSED\<rparr> else blk_set rbb ! j))"
proof (induction n arbitrary: block rbb xs)
  case (Suc n)
  obtain rbb1 where r: "rt_rbb_blk_free block rbb = Some rbb1" "rbb_inv rbb1 (remove1 block xs)"
    "blk_set rbb1 = (blk_set rbb)[block := (blk_set rbb ! block)\<lparr>blk_status := RT_RBB_BLK_UNUSED\<rparr>]"
    using rt_rbb_blk_free_ok [OF Suc.prems(1), of block] Suc.prems(2,3) by auto
  obtain rbb' where s: "queue_free_loop n (block + 1) rbb1 = Some rbb'"
    "rbb_inv rbb' (filter (\<lambda>i. i \<notin> {block + 1..<block + 1 + n}) (remove1 block xs))"
    "length (blk_set rbb') = length (blk_set rbb1)"
    "\<forall>j < length (blk_set rbb1). blk_set rbb' ! j = (if j \<in> {block + 1..<block + 1 + n}
        then (blk_set rbb1 ! j)\<lparr>blk_status := RT_RBB_BLK_UNUSED\<rparr> else blk_set rbb1 ! j)"
    using Suc.IH [OF r(2), of "block + 1"] r(3) Suc.prems(2,3) by (auto simp: nth_list_update)
  have e: "filter (\<lambda>i. i \<notin> {block + 1..<block + 1 + n}) (remove1 block xs) = filter (\<lambda>i. i \<notin> {block..<block + Suc n}) xs"
    using rbb_invD(3) [OF Suc.prems(1)]
    by (auto simp: distinct_remove1_removeAll removeAll_filter_not_eq intro!: filter_cong)
  have "\<forall>j < length (blk_set rbb). blk_set rbb' ! j = (if j \<in> {block..<block + Suc n}
      then (blk_set rbb ! j)\<lparr>blk_status := RT_RBB_BLK_UNUSED\<rparr> else blk_set rbb ! j)"
  proof (intro allI impI)
    fix j assume "j < length (blk_set rbb)"
    then show "blk_set rbb' ! j = (if j \<in> {block..<block + Suc n}
      then (blk_set rbb ! j)\<lparr>blk_status := RT_RBB_BLK_UNUSED\<rparr> else blk_set rbb ! j)"
      using r(3) s(4) by (cases "j = block") (auto simp: nth_list_update Suc_le_eq)
  qed
  moreover have "queue_free_loop (Suc n) block rbb = Some rbb'" using r(1) s(1) by simp
  ultimately show ?case using s(2,3) r(3) unfolding e by simp
qed auto

section \<open>Runs of the buffer\<close>

inductive rbb_blk_step :: "rt_rbb \<Rightarrow> rt_rbb \<Rightarrow> bool" where
  alloc: "rt_rbb_blk_alloc sz rbb = Some (r, rbb') \<Longrightarrow> 0 < sz \<Longrightarrow> sz \<le> rbb_buf_size rbb \<Longrightarrow> rbb_blk_step rbb rbb'"
| put: "rt_rbb_blk_put i rbb = Some rbb' \<Longrightarrow> rbb_blk_step rbb rbb'"
| get: "rt_rbb_blk_get rbb = Some (r, rbb') \<Longrightarrow> rbb_blk_step rbb rbb'"
| free: "rt_rbb_blk_free i rbb = Some rbb' \<Longrightarrow> rbb_blk_step rbb rbb'"

inductive rbb_step :: "rt_rbb \<Rightarrow> rt_rbb \<Rightarrow> bool" where
  block: "rbb_blk_step rbb rbb' \<Longrightarrow> rbb_step rbb rbb'"
| queue_get: "rt_rbb_blk_queue_get m q rbb = Some (n, q', rbb') \<Longrightarrow> rbb_step rbb rbb'"
| queue_free: "rt_rbb_blk_queue_free q rbb = Some rbb' \<Longrightarrow> rbb_step rbb rbb'"

text \<open>The blocks that are in use without queues are all in the list.\<close>

definition all_listed :: "rt_rbb \<Rightarrow> nat list \<Rightarrow> bool" where
  "all_listed rbb xs \<longleftrightarrow> (\<forall>i < length (blk_set rbb). status_of rbb i \<noteq> RT_RBB_BLK_UNUSED \<longrightarrow> i \<in> set xs)"

lemma put_status: "rt_rbb_blk_put i rbb = Some rbb' \<Longrightarrow>
    i < length (blk_set rbb) \<and> status_of rbb i = RT_RBB_BLK_INITED \<and> rbb' = upd_status i RT_RBB_BLK_PUT rbb"
  by (auto simp: rt_rbb_blk_put_def RT_ASSERT_def bind_eq_Some_conv blk_at_def upd_blk_status split: if_splits)

lemma free_status: "rt_rbb_blk_free i rbb = Some rbb' \<Longrightarrow>
    i < length (blk_set rbb) \<and> status_of rbb i \<noteq> RT_RBB_BLK_UNUSED"
  by (auto simp: rt_rbb_blk_free_def RT_ASSERT_def bind_eq_Some_conv blk_at_def split: if_splits)

lemma alloc_size: "rt_rbb_blk_alloc sz rbb = Some (r, rbb') \<Longrightarrow> unat sz < 2 ^ 24"
  by (auto simp: rt_rbb_blk_alloc_def RT_ASSERT_def word_less_nat_alt split: if_splits)

lemma rbb_blk_step_inv:
  "rbb_blk_step rbb rbb' \<Longrightarrow> rbb_inv rbb xs \<Longrightarrow> \<exists>xs'. rbb_inv rbb' xs' \<and> (all_listed rbb xs \<longrightarrow> all_listed rbb' xs')"
proof (induction rule: rbb_blk_step.induct)
  case (alloc sz rbb r rbb')
  then consider "rbb' = rbb" | new buf where "rbb_inv rbb' (xs @ [new])" "blk_taken new buf sz rbb rbb'"
    using rt_rbb_blk_alloc_ok [OF alloc.prems alloc.hyps(2) alloc_size [OF alloc.hyps(1)]] by fastforce
  then show ?case
  proof cases
    case 2
    then show ?thesis
      by (intro exI [of _ "xs @ [new]"]) (auto simp: all_listed_def blk_taken_def nth_list_update)
  qed (use alloc.prems in blast)
next
  case (put i rbb rbb')
  then show ?case using put_status [OF put.hyps] rt_rbb_blk_put_ok [OF put.prems]
    by (intro exI [of _ xs]) (auto simp: all_listed_def upd_status_nth)
next
  case (get rbb r rbb')
  show ?case
  proof (cases "find (\<lambda>i. status_of rbb i = RT_RBB_BLK_PUT) xs")
    case None
    then show ?thesis using get rt_rbb_blk_get_ok(1) [OF get.prems] by (intro exI [of _ xs]) simp
  next
    case (Some i)
    then have i: "i \<in> set xs" by (auto simp: find_Some_iff)
    then have "i < length (blk_set rbb)" by (rule rbb_invD(4) [OF get.prems])
    then show ?thesis using get Some i rt_rbb_blk_get_ok [OF get.prems]
      by (intro exI [of _ xs]) (auto simp: all_listed_def upd_status_nth split: if_splits)
  qed
next
  case (free i rbb rbb')
  then obtain "rbb_inv rbb' (remove1 i xs)" "blk_set rbb' = (blk_set rbb)[i := (blk_set rbb ! i)\<lparr>blk_status := RT_RBB_BLK_UNUSED\<rparr>]"
    using rt_rbb_blk_free_ok [OF free.prems, of i] free_status [OF free.hyps] by auto
  moreover have "i < length (blk_set rbb)" using free_status [OF free.hyps] by simp
  ultimately show ?case
    by (intro exI [of _ "remove1 i xs"]) (auto simp: all_listed_def nth_list_update split: if_splits)
qed

lemma rbb_step_inv: "rbb_step rbb rbb' \<Longrightarrow> rbb_inv rbb xs \<Longrightarrow> \<exists>xs'. rbb_inv rbb' xs'"
proof (induction rule: rbb_step.induct)
  case (block rbb rbb')
  then show ?case using rbb_blk_step_inv by blast
next
  case (queue_get m q rbb n q' rbb')
  then show ?case using rt_rbb_blk_queue_get_ok [OF queue_get.prems refl, of m q] by auto
next
  case (queue_free q rbb rbb')
  then show ?case using queue_free_loop_inv by (auto simp: rt_rbb_blk_queue_free_def)
qed

lemma rbb_steps_inv: "rbb_step\<^sup>*\<^sup>* rbb rbb' \<Longrightarrow> rbb_inv rbb xs \<Longrightarrow> \<exists>xs'. rbb_inv rbb' xs'"
  by (induction rule: rtranclp_induct) (auto dest: rbb_step_inv)

lemma rbb_blk_steps_inv: "rbb_blk_step\<^sup>*\<^sup>* rbb rbb' \<Longrightarrow> rbb_inv rbb xs \<Longrightarrow> all_listed rbb xs \<Longrightarrow>
    \<exists>xs'. rbb_inv rbb' xs' \<and> all_listed rbb' xs'"
  by (induction rule: rtranclp_induct) (auto dest: rbb_blk_step_inv)

definition blocks_apart :: "rt_rbb \<Rightarrow> rt_rbb_status set \<Rightarrow> bool" where
  "blocks_apart rbb used \<longleftrightarrow>
     (\<forall>i < length (blk_set rbb). status_of rbb i \<in> used \<longrightarrow>
        rbb_base rbb \<le> fst (blk_span rbb i) \<and> fst (blk_span rbb i) < snd (blk_span rbb i) \<and>
        snd (blk_span rbb i) \<le> rbb_top rbb \<and>
        (\<forall>j < length (blk_set rbb). status_of rbb j \<in> used \<and> i \<noteq> j \<longrightarrow>
           snd (blk_span rbb i) \<le> fst (blk_span rbb j) \<or> snd (blk_span rbb j) \<le> fst (blk_span rbb i)))"

lemma blocks_apartI:
  assumes "rbb_inv rbb xs" "\<forall>i < length (blk_set rbb). status_of rbb i \<in> used \<longrightarrow> i \<in> set xs"
  shows "blocks_apart rbb used"
  using assms(2) rbb_invD(9) [OF assms(1)] in_ring_apart [OF rbb_invD(8) [OF assms(1)]]
  by (auto simp: blocks_apart_def fits_def before_def)


lemma all_listed_apart:
  "rbb_inv rbb xs \<Longrightarrow> all_listed rbb xs \<Longrightarrow> blocks_apart rbb {RT_RBB_BLK_INITED, RT_RBB_BLK_PUT, RT_RBB_BLK_GET}"
  by (rule blocks_apartI) (auto simp: all_listed_def)

lemma inv_apart: "rbb_inv rbb xs \<Longrightarrow> blocks_apart rbb {RT_RBB_BLK_INITED, RT_RBB_BLK_PUT}"
  by (rule blocks_apartI, assumption, unfold rbb_inv_def, elim conjE)

lemma fresh_listed: "rbb_fresh buf sz n rbb \<Longrightarrow> all_listed rbb [] \<and> rbb_inv rbb []"
  by (simp add: rbb_fresh_def all_listed_def)

text \<open>An allocation when the list is empty takes the start of the buffer.\<close>

lemma alloc_empty:
  assumes I: "rbb_inv rbb []" and k: "k < length (blk_set rbb)" "status_of rbb k = RT_RBB_BLK_UNUSED"
    and sz: "0 < sz" "unat sz < 2 ^ 24" "sz \<le> rbb_buf_size rbb"
  shows "\<exists>new rbb'. rt_rbb_blk_alloc sz rbb = Some (Some new, rbb') \<and> new < length (blk_set rbb) \<and>
    status_of rbb new = RT_RBB_BLK_UNUSED \<and> rbb_inv rbb' [new] \<and> blk_taken new (rbb_buf rbb) sz rbb rbb'"
proof -
  have m: "length (blk_set rbb) = unat (blk_max_num rbb)" by (rule rbb_invD(2) [OF I])
  obtain r where r: "find_empty_blk_in_set rbb = Some r"
    "r = None \<longrightarrow> (\<forall>k. 0 \<le> k \<and> k < unat (blk_max_num rbb) \<longrightarrow> status_of rbb k \<noteq> RT_RBB_BLK_UNUSED)"
    using find_empty_blk_ok [of "unat (blk_max_num rbb)" rbb 0] m by (auto simp: find_empty_blk_in_set_def)
  then obtain new where new: "find_empty_blk_in_set rbb = Some (Some new)" using k m by (cases r) auto
  have "0 < blk_max_num rbb" using k(1) m by (cases "blk_max_num rbb = 0") (simp_all add: word_neq_0_conv)
  then have e: "rt_rbb_blk_alloc sz rbb = blk_take new (rbb_buf rbb) sz rbb" using alloc_first [OF I sz(2) new] by simp
  consider "rt_rbb_blk_alloc sz rbb = Some (None, rbb)"
    | i rbb' where "rt_rbb_blk_alloc sz rbb = Some (Some i, rbb')" "i < length (blk_set rbb)"
      "status_of rbb i = RT_RBB_BLK_UNUSED" "rbb_inv rbb' [i]"
    using rt_rbb_blk_alloc_ok [OF I sz(1,2)] sz(3) by auto
  then show ?thesis
  proof cases
    case 1
    then show ?thesis unfolding e by (simp add: blk_take_def bind_eq_Some_conv)
  next
    case 2
    then have "blk_take new (rbb_buf rbb) sz rbb = Some (Some i, rbb')" using e by simp
    then have "i = new \<and> blk_taken new (rbb_buf rbb) sz rbb rbb'"
      by (simp add: blk_take_def upd_blk_def blk_taken_def bind_eq_Some_conv split: if_splits) auto
    then show ?thesis using 2 by blast
  qed
qed

definition sample_blk :: rt_rbb_blk where
  "sample_blk = \<lparr>blk_status = RT_RBB_BLK_UNUSED, blk_size = 0, blk_buf = 0\<rparr>"

definition sample_rbb :: rt_rbb where
  "sample_rbb = \<lparr>rbb_buf = 0, rbb_buf_size = 0, blk_set = [], blk_max_num = 0, blk_next = (\<lambda>_. None)\<rparr>"

lemma sample_put:
  "\<exists>rbb i. rbb_inv rbb [i] \<and> status_of rbb i = RT_RBB_BLK_PUT \<and> blk_size (blk_set rbb ! i) = 10"
proof -
  obtain rbb where "rbb_fresh 0x20000000 64 3 rbb"
    using rt_rbb_init_ok [of "0x20000000" "replicate 3 sample_blk" 3 64 sample_rbb] by auto
  then have f: "rbb_inv rbb []" "blk_max_num rbb = 3" "rbb_buf_size rbb = 64"
    and u: "\<forall>i < length (blk_set rbb). status_of rbb i = RT_RBB_BLK_UNUSED" by (simp_all add: rbb_fresh_def)
  have n: "0 < length (blk_set rbb)" using rbb_invD(2) [OF f(1)] f(2) by simp
  obtain i rbb' where a: "i < length (blk_set rbb)" "rbb_inv rbb' [i]" "blk_taken i (rbb_buf rbb) 10 rbb rbb'"
    using alloc_empty [OF f(1) n, of 10] f(3) u n by auto
  then have b: "i < length (blk_set rbb')"
    "blk_set rbb' ! i = \<lparr>blk_status = RT_RBB_BLK_INITED, blk_size = 10, blk_buf = rbb_buf rbb\<rparr>"
    by (simp_all add: blk_taken_def)
  then show ?thesis using rt_rbb_blk_put_ok [OF a(2) b(1)]
    by (intro exI [of _ "upd_status i RT_RBB_BLK_PUT rbb'"] exI [of _ i]) (simp add: upd_status_nth)
qed

section \<open>Properties\<close>

text \<open>
  C15. From \<open>rt_rbb_init\<close> on, whatever blocks are allocated (not larger than the buffer), put, got and
  freed in whatever order: the blocks in use, be they allocated, put or got, lie in the buffer and no two of
  them overlap. With the operations on queues besides, this is still so of the allocated and the put blocks.
\<close>

theorem rt_rbb_blocks_apart:
  assumes "buf \<noteq> 0" and "length block_set = unat n" and "unat buf + unat sz < 2 ^ 32"
  shows "\<exists>rbb'. rt_rbb_init buf sz block_set n rbb = Some rbb' \<and>
    (\<forall>r. rbb_blk_step\<^sup>*\<^sup>* rbb' r \<longrightarrow> blocks_apart r {RT_RBB_BLK_INITED, RT_RBB_BLK_PUT, RT_RBB_BLK_GET}) \<and>
    (\<forall>r. rbb_step\<^sup>*\<^sup>* rbb' r \<longrightarrow> blocks_apart r {RT_RBB_BLK_INITED, RT_RBB_BLK_PUT})"
proof -
  obtain rbb' where r: "rt_rbb_init buf sz block_set n rbb = Some rbb'" "rbb_fresh buf sz n rbb'"
    using rt_rbb_init_ok [OF assms] by blast
  then have f: "all_listed rbb' []" "rbb_inv rbb' []" using fresh_listed by auto
  have "blocks_apart s {RT_RBB_BLK_INITED, RT_RBB_BLK_PUT, RT_RBB_BLK_GET}" if "rbb_blk_step\<^sup>*\<^sup>* rbb' s" for s
    using rbb_blk_steps_inv [OF that f(2,1)] all_listed_apart by blast
  moreover have "blocks_apart s {RT_RBB_BLK_INITED, RT_RBB_BLK_PUT}" if "rbb_step\<^sup>*\<^sup>* rbb' s" for s
    using rbb_steps_inv [OF that f(2)] inv_apart by blast
  ultimately show ?thesis using r(1) by blast
qed

theorem rt_rbb_blocks_apart_witness:
  "\<exists>rbb'. rt_rbb_init 0x20000000 64 (replicate 3 sample_blk) 3 sample_rbb = Some rbb' \<and>
    blocks_apart rbb' {RT_RBB_BLK_INITED, RT_RBB_BLK_PUT, RT_RBB_BLK_GET}"
  using rt_rbb_blocks_apart [of "0x20000000" "replicate 3 sample_blk" 3 64 sample_rbb] by auto

text \<open>
  C16. No permitted operation faults, and each keeps the buffer well formed (the list of blocks linked and free of
  repetitions, every allocated and put block in it, the blocks in the order of the ring). An allocation of not
  more than the buffer either changes nothing or puts an unused structure at the end of the list; \<open>put\<close> of an allocated block
  marks it; \<open>get\<close> hands out the first put block of the list, the oldest; \<open>free\<close> takes the block out and makes it unused.
\<close>

theorem rt_rbb_ops_well_formed:
  assumes "rbb_inv rbb xs"
  shows "(0 < sz \<and> sz < 2 ^ 24 \<and> sz \<le> rbb_buf_size rbb \<longrightarrow> (\<exists>r rbb'. rt_rbb_blk_alloc sz rbb = Some (r, rbb') \<and>
      (case r of None \<Rightarrow> rbb' = rbb | Some new \<Rightarrow> status_of rbb new = RT_RBB_BLK_UNUSED \<and>
         status_of rbb' new = RT_RBB_BLK_INITED \<and> rt_rbb_blk_size new rbb' = Some sz \<and> rbb_inv rbb' (xs @ [new])))) \<and>
    (i < length (blk_set rbb) \<and> status_of rbb i = RT_RBB_BLK_INITED \<longrightarrow>
      (\<exists>rbb'. rt_rbb_blk_put i rbb = Some rbb' \<and> status_of rbb' i = RT_RBB_BLK_PUT \<and> rbb_inv rbb' xs)) \<and>
    (\<exists>r rbb'. rt_rbb_blk_get rbb = Some (r, rbb') \<and> r = find (\<lambda>i. status_of rbb i = RT_RBB_BLK_PUT) xs \<and>
      (case r of None \<Rightarrow> rbb' = rbb | Some i \<Rightarrow> status_of rbb' i = RT_RBB_BLK_GET \<and> rbb_inv rbb' xs)) \<and>
    (i < length (blk_set rbb) \<and> status_of rbb i \<noteq> RT_RBB_BLK_UNUSED \<longrightarrow>
      (\<exists>rbb'. rt_rbb_blk_free i rbb = Some rbb' \<and> status_of rbb' i = RT_RBB_BLK_UNUSED \<and> rbb_inv rbb' (remove1 i xs)))"
proof (intro conjI)
  show "0 < sz \<and> sz < 2 ^ 24 \<and> sz \<le> rbb_buf_size rbb \<longrightarrow> (\<exists>r rbb'. rt_rbb_blk_alloc sz rbb = Some (r, rbb') \<and>
      (case r of None \<Rightarrow> rbb' = rbb | Some new \<Rightarrow> status_of rbb new = RT_RBB_BLK_UNUSED \<and>
         status_of rbb' new = RT_RBB_BLK_INITED \<and> rt_rbb_blk_size new rbb' = Some sz \<and> rbb_inv rbb' (xs @ [new])))"
  proof
    assume a: "0 < sz \<and> sz < 2 ^ 24 \<and> sz \<le> rbb_buf_size rbb"
    then have u: "unat sz < 2 ^ 24" by (simp add: word_less_nat_alt)
    have "size_of \<lparr>blk_status = RT_RBB_BLK_INITED, blk_size = ucast sz, blk_buf = buf\<rparr> = sz" for buf
      by (rule word_unat_eq_iff [THEN iffD2]) (subst unat_size_of, simp only: rt_rbb_blk.simps unat_24 [OF u])
    then show "\<exists>r rbb'. rt_rbb_blk_alloc sz rbb = Some (r, rbb') \<and>
      (case r of None \<Rightarrow> rbb' = rbb | Some new \<Rightarrow> status_of rbb new = RT_RBB_BLK_UNUSED \<and>
         status_of rbb' new = RT_RBB_BLK_INITED \<and> rt_rbb_blk_size new rbb' = Some sz \<and> rbb_inv rbb' (xs @ [new]))"
      using rt_rbb_blk_alloc_ok [OF assms _ u] a
      by (auto simp: blk_taken_def rt_rbb_blk_size_def blk_at_def)
  qed
  show "i < length (blk_set rbb) \<and> status_of rbb i = RT_RBB_BLK_INITED \<longrightarrow>
      (\<exists>rbb'. rt_rbb_blk_put i rbb = Some rbb' \<and> status_of rbb' i = RT_RBB_BLK_PUT \<and> rbb_inv rbb' xs)"
    using rt_rbb_blk_put_ok [OF assms, of i] by (auto simp: upd_status_nth)
  show "\<exists>r rbb'. rt_rbb_blk_get rbb = Some (r, rbb') \<and> r = find (\<lambda>i. status_of rbb i = RT_RBB_BLK_PUT) xs \<and>
      (case r of None \<Rightarrow> rbb' = rbb | Some i \<Rightarrow> status_of rbb' i = RT_RBB_BLK_GET \<and> rbb_inv rbb' xs)"
  proof (cases "find (\<lambda>i. status_of rbb i = RT_RBB_BLK_PUT) xs")
    case None
    then show ?thesis using rt_rbb_blk_get_ok(1) [OF assms] by simp
  next
    case (Some i)
    then have "i \<in> set xs" by (auto simp: find_Some_iff)
    then have "i < length (blk_set rbb)" by (rule rbb_invD(4) [OF assms])
    then show ?thesis using Some rt_rbb_blk_get_ok [OF assms] by (simp add: upd_status_nth)
  qed
  show "i < length (blk_set rbb) \<and> status_of rbb i \<noteq> RT_RBB_BLK_UNUSED \<longrightarrow>
      (\<exists>rbb'. rt_rbb_blk_free i rbb = Some rbb' \<and> status_of rbb' i = RT_RBB_BLK_UNUSED \<and> rbb_inv rbb' (remove1 i xs))"
    using rt_rbb_blk_free_ok [OF assms, of i] by auto
qed


theorem rt_rbb_ops_well_formed_witness:
  "\<exists>rbb i rbb'. status_of rbb i = RT_RBB_BLK_PUT \<and> rt_rbb_blk_get rbb = Some (Some i, rbb') \<and> rbb_inv rbb' [i]"
proof -
  obtain rbb i where "rbb_inv rbb [i]" "status_of rbb i = RT_RBB_BLK_PUT" using sample_put by blast
  then show ?thesis using rt_rbb_ops_well_formed [of rbb "[i]" 1 i] by fastforce
qed

section \<open>The length of the next queue\<close>

definition run_bytes :: "rt_rbb \<Rightarrow> nat list \<Rightarrow> nat" where
  "run_bytes rbb is = sum_list (map (\<lambda>i. unat (blk_size (blk_set rbb ! i))) is)"

lemma run_bytes_simps [simp]:
  "run_bytes rbb [] = 0" "run_bytes rbb (i # is) = unat (blk_size (blk_set rbb ! i)) + run_bytes rbb is"
  by (simp_all add: run_bytes_def)

text \<open>The blocks of a queue lie one after the other, so their sizes fit behind the start of the first.\<close>

lemma all_after_fits:
  "rbb_inv rbb xs \<Longrightarrow> l \<in> set xs \<Longrightarrow> set ys \<subseteq> set xs \<Longrightarrow> distinct (l # ys) \<Longrightarrow>
   snd (blk_span rbb l) + run_bytes rbb (all_after rbb l ys) \<le> rbb_top rbb"
proof (induction ys arbitrary: l)
  case Nil
  then show ?case using rbb_invD(9) [OF Nil.prems(1,2)] by (simp add: fits_def)
next
  case (Cons y ys)
  have y: "y \<in> set xs" "l \<noteq> y" using Cons.prems(3,4) by auto
  have p: "before (blk_span rbb) l y \<or> before (blk_span rbb) y l"
    by (rule in_ring_apart [OF rbb_invD(8) [OF Cons.prems(1)] Cons.prems(2) y])
  have f: "fits (rbb_base rbb) (rbb_top rbb) (blk_span rbb l)" "fits (rbb_base rbb) (rbb_top rbb) (blk_span rbb y)"
    using rbb_invD(9) [OF Cons.prems(1)] Cons.prems(2) y(1) by blast+
  show ?case
  proof (cases "status_of rbb y \<noteq> RT_RBB_BLK_PUT \<or> blk_buf (blk_set rbb ! l) > blk_buf (blk_set rbb ! y)")
    case True
    then show ?thesis using f(1) by (simp add: fits_def)
  next
    case False
    then have "fst (blk_span rbb l) \<le> fst (blk_span rbb y)" by (simp add: blk_span_def word_less_nat_alt)
    then have "snd (blk_span rbb l) \<le> fst (blk_span rbb y)" using p f by (auto simp: before_def fits_def)
    moreover have "snd (blk_span rbb y) + run_bytes rbb (all_after rbb y ys) \<le> rbb_top rbb"
      using Cons.IH [OF Cons.prems(1) y(1)] Cons.prems(3,4) by simp
    moreover have "snd (blk_span rbb y) = fst (blk_span rbb y) + unat (blk_size (blk_set rbb ! y))" by (simp add: blk_span_def)
    ultimately show ?thesis using False by simp
  qed
qed

lemma run_after_all:
  "unat n + run_bytes rbb (all_after rbb l ys) \<le> unat m \<Longrightarrow> run_after rbb m l n ys = all_after rbb l ys"
proof (induction ys arbitrary: l n)
  case (Cons y ys)
  show ?case
  proof (cases "status_of rbb y \<noteq> RT_RBB_BLK_PUT \<or> blk_buf (blk_set rbb ! l) > blk_buf (blk_set rbb ! y)")
    case False
    then have le: "unat n + unat (blk_size (blk_set rbb ! y)) + run_bytes rbb (all_after rbb y ys) \<le> unat m"
      using Cons.prems by simp
    then have u: "unat (n + size_of (blk_set rbb ! y)) = unat n + unat (blk_size (blk_set rbb ! y))"
      using unat_add_small [of n "size_of (blk_set rbb ! y)"] unsigned_less [of m, where 'a = nat] by (simp only: unat_size_of) simp
    then have "\<not> n + size_of (blk_set rbb ! y) > m" using le by (simp add: word_less_nat_alt)
    then show ?thesis using False Cons.IH [of "n + size_of (blk_set rbb ! y)" y] le u by simp
  qed auto
qed simp

lemma run_size_bytes: "run_bytes rbb is < 2 ^ 32 \<Longrightarrow> unat (run_size rbb is) = run_bytes rbb is"
proof (induction "is")
  case (Cons i "is")
  then have "unat (run_size rbb is) = run_bytes rbb is" by simp
  then show ?case using Cons.prems unat_add_small [of "size_of (blk_set rbb ! i)" "run_size rbb is"]
    by (simp add: run_size_def) (simp only: unat_size_of)
qed (simp add: run_size_def)

lemma queue_run_all:
  "rbb_inv rbb xs \<Longrightarrow> set ys \<subseteq> set xs \<Longrightarrow> distinct ys \<Longrightarrow>
   run_bytes rbb (all_run rbb ys) < 2 ^ 32 \<and> queue_run rbb (run_size rbb (all_run rbb ys)) ys = all_run rbb ys"
proof (induction ys)
  case (Cons y ys)
  show ?case
  proof (cases "status_of rbb y = RT_RBB_BLK_PUT")
    case True
    then have e: "all_run rbb (y # ys) = y # all_after rbb y ys" by simp
    have "snd (blk_span rbb y) + run_bytes rbb (all_after rbb y ys) \<le> rbb_top rbb"
      by (rule all_after_fits [OF Cons.prems(1)]) (use Cons.prems(2,3) in auto)
    then have l: "run_bytes rbb (y # all_after rbb y ys) < 2 ^ 32" using rbb_invD(7) [OF Cons.prems(1)] by (simp add: blk_span_def)
    have "run_after rbb (run_size rbb (y # all_after rbb y ys)) y (size_of (blk_set rbb ! y)) ys = all_after rbb y ys"
      by (rule run_after_all) (use run_size_bytes [OF l] in \<open>simp only: unat_size_of run_bytes_simps\<close>)
    then show ?thesis using l True unfolding e by simp
  qed (use Cons in simp)
qed simp

text \<open>
  C17. The length that \<open>rt_rbb_next_blk_queue_len\<close> answers is that of the queue which \<open>rt_rbb_blk_queue_get\<close> makes
  when it is given that length as its limit.
\<close>

theorem rt_rbb_next_blk_queue_len_exact:
  assumes "rbb_inv rbb xs"
  shows "\<exists>n q' rbb'. rt_rbb_next_blk_queue_len rbb = Some n \<and> rt_rbb_blk_queue_get n q rbb = Some (n, q', rbb') \<and>
    got (all_run rbb xs) rbb rbb'"
  using rt_rbb_next_blk_queue_len_ok [OF assms] queue_run_all [OF assms subset_refl rbb_invD(3) [OF assms]]
    rt_rbb_blk_queue_get_ok [OF assms refl, of "run_size rbb (all_run rbb xs)" q] by auto

theorem rt_rbb_next_blk_queue_len_exact_witness:
  "\<exists>rbb i. status_of rbb i = RT_RBB_BLK_PUT \<and> rt_rbb_next_blk_queue_len rbb = Some 10 \<and>
     (\<forall>q. \<exists>q' rbb'. rt_rbb_blk_queue_get 10 q rbb = Some (10, q', rbb') \<and> status_of rbb' i = RT_RBB_BLK_GET)"
proof -
  obtain rbb i where r: "rbb_inv rbb [i]" "status_of rbb i = RT_RBB_BLK_PUT" "blk_size (blk_set rbb ! i) = 10"
    using sample_put by blast
  then have a: "all_run rbb [i] = [i]" "rt_rbb_next_blk_queue_len rbb = Some 10"
    using rt_rbb_next_blk_queue_len_ok [OF r(1)] by (simp_all add: run_size_def)
  have "\<exists>q' rbb'. rt_rbb_blk_queue_get 10 q rbb = Some (10, q', rbb') \<and> status_of rbb' i = RT_RBB_BLK_GET" for q
    using rt_rbb_next_blk_queue_len_exact [OF r(1), of q] a by (auto simp: got_def)
  then show ?thesis using r(2) a(2) by blast
qed

section \<open>Where the code falls short\<close>

text \<open>When the list is empty, \<open>rt_rbb_blk_alloc\<close> does not compare the size with that of the buffer.\<close>

lemma rt_rbb_blk_alloc_unchecked:
  assumes I: "rbb_inv rbb []" and k: "k < length (blk_set rbb)" "status_of rbb k = RT_RBB_BLK_UNUSED"
    and sz: "unat sz < 2 ^ 24" "rbb_buf_size rbb < sz"
  shows "\<exists>new rbb'. rt_rbb_blk_alloc sz rbb = Some (Some new, rbb') \<and>
    rbb_top rbb' < snd (blk_span rbb' new)"
proof -
  have m: "length (blk_set rbb) = unat (blk_max_num rbb)" by (rule rbb_invD(2) [OF I])
  obtain new where new: "find_empty_blk_in_set rbb = Some (Some new)" "new < length (blk_set rbb)"
    using find_empty_blk_ok [of "unat (blk_max_num rbb)" rbb 0] m k
    by (auto simp: find_empty_blk_in_set_def)
  have "0 < blk_max_num rbb" using k(1) m by (cases "blk_max_num rbb = 0") (simp_all add: word_neq_0_conv)
  then have e: "rt_rbb_blk_alloc sz rbb = blk_take new (rbb_buf rbb) sz rbb" using alloc_first [OF I sz(1) new(1)] by simp
  obtain nx where "rt_slist_append Blk_List (Blk new) (blk_next rbb) = Some nx"
    using rt_slist_append_ok [OF rbb_invD(1) [OF I], of "Blk new"] by auto
  then show ?thesis using new(2) sz(2) unat_24 [OF sz(1)]
    by (auto simp: e blk_take_def upd_blk_def blk_span_def word_less_nat_alt)
qed

text \<open>The first block of a queue is not compared with \<open>queue_data_len\<close>.\<close>

lemma rt_rbb_blk_queue_get_exceeds:
  assumes "rbb_inv rbb [i]" "status_of rbb i = RT_RBB_BLK_PUT" "m < size_of (blk_set rbb ! i)"
  shows "\<exists>n q' rbb'. rt_rbb_blk_queue_get m q rbb = Some (n, q', rbb') \<and> m < n"
  using rt_rbb_blk_queue_get_ok [OF assms(1) refl, of m q] assms(2,3) by (auto simp: run_size_def)

text \<open>The blocks of a queue are no longer in the list, so their memory is handed out again while they are read.\<close>

lemma rt_rbb_blk_queue_get_loses_memory:
  assumes I: "rbb_inv rbb [i]" and i: "status_of rbb i = RT_RBB_BLK_PUT" "blk_buf (blk_set rbb ! i) = rbb_buf rbb"
    and k: "k < length (blk_set rbb)" "status_of rbb k = RT_RBB_BLK_UNUSED"
    and sz: "0 < sz" "unat sz < 2 ^ 24" "sz \<le> rbb_buf_size rbb"
  shows "\<exists>n q' rbb1 new rbb2. rt_rbb_blk_queue_get m q rbb = Some (n, q', rbb1) \<and>
    rt_rbb_blk_alloc sz rbb1 = Some (Some new, rbb2) \<and> new \<noteq> i \<and> status_of rbb2 i = RT_RBB_BLK_GET \<and>
    blk_buf (blk_set rbb2 ! new) = blk_buf (blk_set rbb2 ! i)"
proof -
  have run: "queue_run rbb m [i] = [i]" using i(1) by simp
  obtain n q' rbb1 where g: "rt_rbb_blk_queue_get m q rbb = Some (n, q', rbb1)" "rbb_inv rbb1 []" "got [i] rbb rbb1"
    using rt_rbb_blk_queue_get_ok [OF I run [symmetric], of q] by auto
  then have s: "length (blk_set rbb1) = length (blk_set rbb)" "rbb_buf rbb1 = rbb_buf rbb" "rbb_buf_size rbb1 = rbb_buf_size rbb"
    "blk_set rbb1 ! j = (if j = i then (blk_set rbb ! i)\<lparr>blk_status := RT_RBB_BLK_GET\<rparr> else blk_set rbb ! j)" for j
    by (simp_all add: got_def)
  have "k \<noteq> i" using i(1) k(2) by auto
  then obtain new rbb2 where a: "rt_rbb_blk_alloc sz rbb1 = Some (Some new, rbb2)" "new < length (blk_set rbb1)"
    "status_of rbb1 new = RT_RBB_BLK_UNUSED" "blk_taken new (rbb_buf rbb1) sz rbb1 rbb2"
    using alloc_empty [OF g(2), of k sz] k sz s by auto
  then have "new \<noteq> i" using s(4) [of i] by auto
  then show ?thesis using g(1) a s i(2) by (auto simp: blk_taken_def nth_list_update)
qed

text \<open>
  The structures of a queue need not be neighbours in the set, but \<open>rt_rbb_blk_queue_len\<close> and
  \<open>rt_rbb_blk_queue_free\<close> take them to be. Where they are, the length is that which \<open>rt_rbb_blk_queue_get\<close>
  answered, and the release frees them.
\<close>

definition queue_client :: "rt_rbb \<Rightarrow> (u32 \<times> rt_rbb_blk_queue \<times> rt_rbb) option" where
  "queue_client rbb = do {
     rbb \<leftarrow> rt_rbb_init 0x20000000 64 (replicate 3 sample_blk) 3 rbb;
     (_, rbb) \<leftarrow> rt_rbb_blk_alloc 8 rbb;
     (_, rbb) \<leftarrow> rt_rbb_blk_alloc 8 rbb;
     (_, rbb) \<leftarrow> rt_rbb_blk_alloc 8 rbb;
     rbb \<leftarrow> rt_rbb_blk_put 0 rbb;
     rbb \<leftarrow> rt_rbb_blk_put 1 rbb;
     rbb \<leftarrow> rt_rbb_blk_put 2 rbb;
     (b, rbb) \<leftarrow> rt_rbb_blk_get rbb;
     i \<leftarrow> b;
     rbb \<leftarrow> rt_rbb_blk_free i rbb;
     (b, rbb) \<leftarrow> rt_rbb_blk_alloc 8 rbb;
     i \<leftarrow> b;
     rbb \<leftarrow> rt_rbb_blk_put i rbb;
     rt_rbb_blk_queue_get 64 \<lparr>queue_blocks = 0, queue_blk_num = 0\<rparr> rbb }"

lemma rt_rbb_blk_queue_len_out_of_bounds:
  "map_option (\<lambda>(n, q, rbb). (n, q, rt_rbb_blk_queue_len q rbb, Option.is_none (rt_rbb_blk_queue_free q rbb))) (queue_client sample_rbb) =
     Some (24, \<lparr>queue_blocks = 1, queue_blk_num = 3\<rparr>, None, True)"
  by code_simp


lemma queue_run_set: "set (queue_run rbb m xs) \<subseteq> set xs"
  by (induction xs) (use run_after_set in \<open>fastforce split: if_splits\<close>)+

lemma rt_rbb_blk_queue_len_neighbours:
  assumes I: "rbb_inv rbb xs" and run: "run = queue_run rbb m xs" "run = [i..<i + length run]" "run \<noteq> []"
  shows "\<exists>n q' rbb' rbb''. rt_rbb_blk_queue_get m q rbb = Some (n, q', rbb') \<and> rt_rbb_blk_queue_len q' rbb' = Some n \<and>
    rt_rbb_blk_queue_buf q' rbb' = Some (blk_buf (blk_set rbb ! hd run)) \<and>
    rt_rbb_blk_queue_free q' rbb' = Some rbb'' \<and> rbb_inv rbb'' (filter (\<lambda>i. i \<notin> set run) xs) \<and>
    (\<forall>i\<in>set run. status_of rbb'' i = RT_RBB_BLK_UNUSED)"
proof -
  let ?q = "\<lparr>queue_blocks = hd run, queue_blk_num = of_nat (length run)\<rparr>"
  obtain rbb' where r: "rt_rbb_blk_queue_get m q rbb = Some (run_size rbb run, ?q, rbb')"
    "rbb_inv rbb' (filter (\<lambda>i. i \<notin> set run) xs)" "got run rbb rbb'"
    using rt_rbb_blk_queue_get_ok [OF I run(1), of q] run(3) by auto
  have hd: "hd run = i" using arg_cong [OF run(2), of hd] run(3) hd_upt [of i "i + length run"] by (cases run) auto
  have sub: "set run \<subseteq> set xs" using run(1) queue_run_set by blast
  have len: "length (blk_set rbb') = length (blk_set rbb)" using r(3) by (simp add: got_def)
  have s: "set run = {i..<i + length run}" using arg_cong [OF run(2), of set] by simp
  have l: "0 < length run" using run(3) by simp
  then have "i + length run - 1 \<in> set run" unfolding s by (simp del: length_greater_0_conv)
  then have "i + length run - 1 < length (blk_set rbb)" using sub rbb_invD(4) [OF I] by blast
  then have b: "i + length run \<le> length (blk_set rbb')" using len run(3) by simp
  have "length run \<le> length (blk_set rbb)" using b len by simp
  then have n: "unat (of_nat (length run) :: u32) = length run"
    using rbb_invD(2) [OF I] unsigned_less [of "blk_max_num rbb", where 'a = nat] by (simp add: unat_of_nat take_bit_nat_eq_self)
  have "run_size rbb' run = run_size rbb run" using r(3)
    by (auto simp: run_size_def got_def intro!: arg_cong [where f = sum_list])
  then have 1: "rt_rbb_blk_queue_len ?q rbb' = Some (run_size rbb run)"
    using queue_len_loop_ok [OF b, of 0] unfolding run(2) [symmetric] by (simp add: rt_rbb_blk_queue_len_def n hd)
  have "i < length (blk_set rbb')" using b l by linarith
  then have 2: "rt_rbb_blk_queue_buf ?q rbb' = Some (blk_buf (blk_set rbb ! hd run))"
    using r(3) by (simp add: rt_rbb_blk_queue_buf_def blk_at_def got_def hd)
  have "\<forall>j\<in>{i..<i + length run}. status_of rbb' j \<noteq> RT_RBB_BLK_UNUSED" unfolding s [symmetric] using r(3) by (simp add: got_def)
  from queue_free_loop_ok [OF r(2) b this] obtain rbb'' where
    "queue_free_loop (length run) i rbb' = Some rbb''" "rbb_inv rbb'' (filter (\<lambda>i. i \<notin> set run) (filter (\<lambda>i. i \<notin> set run) xs))"
    "\<forall>j < length (blk_set rbb'). blk_set rbb'' ! j = (if j \<in> set run
        then (blk_set rbb' ! j)\<lparr>blk_status := RT_RBB_BLK_UNUSED\<rparr> else blk_set rbb' ! j)"
    unfolding s [symmetric] by blast
  moreover have "\<forall>j\<in>set run. j < length (blk_set rbb')" using sub rbb_invD(4) [OF I] len by auto
  ultimately have "rt_rbb_blk_queue_free ?q rbb' = Some rbb''" "rbb_inv rbb'' (filter (\<lambda>i. i \<notin> set run) xs)"
    "\<forall>j\<in>set run. status_of rbb'' j = RT_RBB_BLK_UNUSED"
    by (simp_all add: rt_rbb_blk_queue_free_def n hd)
  then show ?thesis using r(1) 1 2 by blast
qed

end
