(* ===== verification/Heap_Rbb.thy ===== *)
theory Heap_Rbb
  imports Heap_Use Ringblk_Props
begin

text \<open>
  \<open>rt_rbb_create\<close> and \<open>rt_rbb_destroy\<close> of \<open>ringblk_buf.c\<close>: a ring block buffer with its memory and its block structures
  on the heap. A buffer is known by the address of its structure (20 bytes); with it goes the address of the
  set of block structures (12 bytes each), which the list \<open>blk_set\<close> stands for. What the fresh memory holds before
  \<open>rt_rbb_init\<close> is a parameter: \<open>junk_blks\<close> for the structures of blocks, \<open>junk\<close> for the buffer's own.
\<close>

section \<open>The functions\<close>

type_synonym rbbs = "u32 \<rightharpoonup> u32 \<times> rt_rbb"

definition rt_rbb_create :: "(nat \<Rightarrow> rt_rbb_blk list) \<Rightarrow> rt_rbb \<Rightarrow> u32 \<Rightarrow> u32 \<Rightarrow> heap \<Rightarrow> rbbs \<Rightarrow>
    (u32 \<times> heap \<times> rbbs) option" where
  "rt_rbb_create junk_blks junk buf_sz max_num h rbbs = do {
     (rbb, h) \<leftarrow> rt_malloc 20 h;
     if rbb = 0 then Some (0, h, rbbs)
     else do {
       (buf, h) \<leftarrow> rt_malloc buf_sz h;
       if buf = 0 then do {
         h \<leftarrow> rt_free rbb h;
         Some (0, h, rbbs) }
       else do {
         (block_set, h) \<leftarrow> rt_malloc (12 * max_num) h;
         if block_set = 0 then do {
           h \<leftarrow> rt_free buf h;
           h \<leftarrow> rt_free rbb h;
           Some (0, h, rbbs) }
         else do {
           r \<leftarrow> rt_rbb_init buf buf_sz (junk_blks (unat (12 * max_num) div 12)) max_num junk;
           Some (rbb, h, rbbs(rbb \<mapsto> (block_set, r))) } } } }"

text \<open>
  The structure is read after it has been given back. \<open>rt_free\<close> does not touch the bytes of a block, so they are
  still there, as long as nobody else allocates in between.
\<close>

definition rt_rbb_destroy :: "u32 \<Rightarrow> heap \<Rightarrow> rbbs \<Rightarrow> (heap \<times> rbbs) option" where
  "rt_rbb_destroy rbb h rbbs = do {
     _ \<leftarrow> RT_ASSERT (rbb \<noteq> 0);
     h \<leftarrow> rt_free rbb h;
     (block_set, r) \<leftarrow> rbbs rbb;
     h \<leftarrow> rt_free (rbb_buf r) h;
     h \<leftarrow> rt_free block_set h;
     Some (h, rbbs(rbb := None)) }"

section \<open>What they take and give back\<close>

lemma malloc_takes:
  assumes "holds_blocks live h bs" "unat n + 3 < 2 ^ 32"
  obtains h' bs' where "rt_malloc n h = Some (0, h')" "holds_blocks live h' bs'"
  | p h' bs' where "rt_malloc n h = Some (p, h')" "p \<noteq> 0" "holds_blocks ((p, n) # live) h' bs'"
proof -
  obtain p h' bs' where "rt_malloc n h = Some (p, h')" "holds_blocks (if p = 0 then live else (p, n) # live) h' bs'"
    using malloc_holds_blocks [OF assms] by blast
  then show ?thesis using that by (cases "p = 0") auto
qed

lemma free_gives_back:
  assumes "holds_blocks (xs @ (p, n) # ys) h bs"
  obtains h' bs' where "rt_free p h = Some h'" "holds_blocks (xs @ ys) h' bs'"
  using free_holds_blocks [OF assms, of "length xs"] by auto

lemma held_nonzero: "holds_blocks live h bs \<Longrightarrow> (p, n) \<in> set live \<Longrightarrow> p \<noteq> 0"
  by (erule holds_blocks_in_heap, assumption) auto

lemma rt_rbb_destroy_ok:
  assumes h: "holds_blocks ((block_set, m) # (rbb_buf r, n) # (p, 20) # live) h bs" and p: "rbbs p = Some (block_set, r)"
  shows "\<exists>h' bs'. rt_rbb_destroy p h rbbs = Some (h', rbbs(p := None)) \<and> holds_blocks live h' bs'"
proof -
  obtain h1 bs1 where 1: "rt_free p h = Some h1" "holds_blocks ([(block_set, m), (rbb_buf r, n)] @ live) h1 bs1"
    by (rule free_gives_back [of "[(block_set, m), (rbb_buf r, n)]" p 20 live h bs]) (use h in auto)
  obtain h2 bs2 where 2: "rt_free (rbb_buf r) h1 = Some h2" "holds_blocks ([(block_set, m)] @ live) h2 bs2"
    by (rule free_gives_back [of "[(block_set, m)]" "rbb_buf r" n live h1 bs1]) (use 1(2) in auto)
  obtain h3 bs3 where 3: "rt_free block_set h2 = Some h3" "holds_blocks ([] @ live) h3 bs3"
    by (rule free_gives_back [of "[]" block_set m live h2 bs2]) (use 2(2) in auto)
  have "p \<noteq> 0" by (rule held_nonzero [OF h, of p 20]) simp
  then show ?thesis using 1(1) 2(1) 3 p by (auto simp: rt_rbb_destroy_def RT_ASSERT_def)
qed

lemma rt_rbb_create_ok:
  assumes h: "holds_blocks live h bs" and sz: "unat buf_sz + 3 < 2 ^ 32" "12 * unat max_num + 3 < 2 ^ 32"
    and junk: "\<And>k. length (junk_blks k) = k"
  shows "\<exists>p h' rbbs' bs'. rt_rbb_create junk_blks junk buf_sz max_num h rbbs = Some (p, h', rbbs') \<and>
    (p = 0 \<and> rbbs' = rbbs \<and> holds_blocks live h' bs' \<or>
     (\<exists>block_set r. rbbs' = rbbs(p \<mapsto> (block_set, r)) \<and> rbb_fresh (rbb_buf r) buf_sz max_num r \<and>
        holds_blocks ((block_set, 12 * max_num) # (rbb_buf r, buf_sz) # (p, 20) # live) h' bs'))"
proof -
  have m: "unat (12 * max_num) = 12 * unat max_num" using sz(2) by (simp add: unat_word_ariths)
  show ?thesis
  proof (cases rule: malloc_takes [OF h, of 20])
    case (3 p h1 bs1)
    note r1 = 3
    show ?thesis
    proof (cases rule: malloc_takes [OF r1(3) sz(1)])
      case (1 h2 bs2)
      obtain h3 bs3 where "rt_free p h2 = Some h3" "holds_blocks ([] @ live) h3 bs3"
        by (rule free_gives_back [of "[]" p 20 live h2 bs2]) (use 1(2) in auto)
      then show ?thesis using r1(1,2) 1(1) by (auto simp: rt_rbb_create_def)
    next
      case (2 q h2 bs2)
      note r2 = 2
      have u: "unat (12 * max_num) + 3 < 2 ^ 32" using sz(2) m by simp
      show ?thesis
      proof (cases rule: malloc_takes [OF r2(3) u])
        case (1 h3 bs3)
        obtain h4 bs4 where 4: "rt_free q h3 = Some h4" "holds_blocks ([] @ (p, 20) # live) h4 bs4"
          by (rule free_gives_back [of "[]" q buf_sz "(p, 20) # live" h3 bs3]) (use 1(2) in auto)
        obtain h5 bs5 where "rt_free p h4 = Some h5" "holds_blocks ([] @ live) h5 bs5"
          by (rule free_gives_back [of "[]" p 20 live h4 bs4]) (use 4(2) in auto)
        then show ?thesis using r1(1,2) r2(1,2) 1(1) 4(1) by (auto simp: rt_rbb_create_def)
      next
        case (2 s h3 bs3)
        have "unat q + unat buf_sz < 2 ^ 32" by (rule held_block(2) [OF r2(3)]) simp
        then obtain r where r: "rt_rbb_init q buf_sz (junk_blks (unat (12 * max_num) div 12)) max_num junk = Some r"
          "rbb_fresh q buf_sz max_num r"
          using rt_rbb_init_ok [OF r2(2), of "junk_blks (unat (12 * max_num) div 12)" max_num buf_sz junk] m
          by (auto simp: junk)
        moreover have "rbb_buf r = q" using r(2) by (simp add: rbb_fresh_def)
        ultimately show ?thesis using r1(1,2) r2(1,2) 2 by (auto simp: rt_rbb_create_def)
      qed
    qed
  next
    case (2 h1 bs1)
    then show ?thesis by (auto simp: rt_rbb_create_def)
  qed simp
qed

text \<open>The product of size and number is not checked. When it wraps, \<open>rt_rbb_init\<close> writes past the set.\<close>

lemma init_status_past: "i \<le> length (blk_set rbb) \<Longrightarrow> length (blk_set rbb) < n \<Longrightarrow> init_status i n rbb = None"
proof (induction i n rbb rule: init_status.induct)
  case (1 i n rbb)
  show ?case
  proof (cases "i < length (blk_set rbb)")
    case True
    then have "init_status (i + 1) n (upd_status i RT_RBB_BLK_UNUSED rbb) = None"
      using 1(1) [OF _ upd_blk_status [OF True]] 1(3) by simp
    then show ?thesis using True upd_blk_status [OF True] 1(3) by (subst init_status.simps) simp
  next
    case False
    then show ?thesis using 1(2,3) by (subst init_status.simps) (simp add: upd_blk_def)
  qed
qed

lemma rt_rbb_create_wraps:
  assumes "rt_malloc 20 h = Some (p, h1)" "p \<noteq> 0" "rt_malloc buf_sz h1 = Some (q, h2)" "q \<noteq> 0"
    and "rt_malloc (12 * max_num) h2 = Some (s, h3)" "s \<noteq> 0"
    and big: "2 ^ 32 \<le> 12 * unat max_num" and junk: "\<And>k. length (junk_blks k) = k"
  shows "rt_rbb_create junk_blks junk buf_sz max_num h rbbs = None"
proof -
  have "unat (12 * max_num) < 12 * unat max_num" using big unsigned_less [of "12 * max_num", where 'a = nat] by simp
  then have "unat (12 * max_num) div 12 < unat max_num" by linarith
  then have "rt_rbb_init q buf_sz (junk_blks (unat (12 * max_num) div 12)) max_num junk = None"
    using assms(4) by (simp add: rt_rbb_init_def RT_ASSERT_def init_status_past junk)
  then show ?thesis using assms(1-6) by (simp add: rt_rbb_create_def)
qed

section \<open>Properties\<close>

text \<open>
  C18. \<open>rt_rbb_create\<close> fails and leaves the program with the blocks it had, whichever of its three allocations
  found no memory, or the program holds three blocks more and the buffer is the fresh one, all its structures unused.
  \<open>rt_rbb_destroy\<close> gives the three blocks back, whatever has been done with the buffer (its memory stays where it is).
\<close>

theorem rt_rbb_create_destroy:
  assumes "holds_blocks live h bs" and "unat buf_sz + 3 < 2 ^ 32" and "12 * unat max_num + 3 < 2 ^ 32"
    and "\<And>k. length (junk_blks k) = k"
  shows "\<exists>p h' rbbs' bs'. rt_rbb_create junk_blks junk buf_sz max_num h rbbs = Some (p, h', rbbs') \<and>
    (p = 0 \<and> rbbs' = rbbs \<and> holds_blocks live h' bs' \<or>
     (\<exists>block_set r. rbbs' = rbbs(p \<mapsto> (block_set, r)) \<and> rbb_fresh (rbb_buf r) buf_sz max_num r \<and>
        holds_blocks ((block_set, 12 * max_num) # (rbb_buf r, buf_sz) # (p, 20) # live) h' bs' \<and>
        (\<forall>r'. rbb_buf r' = rbb_buf r \<longrightarrow> (\<exists>h'' bs''.
           rt_rbb_destroy p h' (rbbs(p \<mapsto> (block_set, r'))) = Some (h'', rbbs(p := None)) \<and> holds_blocks live h'' bs''))))"
proof -
  obtain p h' rbbs' bs' where c: "rt_rbb_create junk_blks junk buf_sz max_num h rbbs = Some (p, h', rbbs')"
    "p = 0 \<and> rbbs' = rbbs \<and> holds_blocks live h' bs' \<or>
     (\<exists>block_set r. rbbs' = rbbs(p \<mapsto> (block_set, r)) \<and> rbb_fresh (rbb_buf r) buf_sz max_num r \<and>
        holds_blocks ((block_set, 12 * max_num) # (rbb_buf r, buf_sz) # (p, 20) # live) h' bs')"
    using rt_rbb_create_ok [OF assms, of junk rbbs] by blast
  have d: "\<exists>h'' bs''. rt_rbb_destroy p h' (rbbs(p \<mapsto> (block_set, r'))) = Some (h'', rbbs(p := None)) \<and> holds_blocks live h'' bs''"
    if "holds_blocks ((block_set, 12 * max_num) # (rbb_buf r, buf_sz) # (p, 20) # live) h' bs'" "rbb_buf r' = rbb_buf r"
    for block_set r r'
    using rt_rbb_destroy_ok [of block_set _ r' _ p live h' bs' "rbbs(p \<mapsto> (block_set, r'))"] that by simp
  from c(2) show ?thesis
  proof
    assume "\<exists>block_set r. rbbs' = rbbs(p \<mapsto> (block_set, r)) \<and> rbb_fresh (rbb_buf r) buf_sz max_num r \<and>
        holds_blocks ((block_set, 12 * max_num) # (rbb_buf r, buf_sz) # (p, 20) # live) h' bs'"
    then show ?thesis using c(1) d by blast
  qed (use c(1) in blast)
qed

theorem rt_rbb_create_destroy_witness:
  "\<exists>p h' rbbs'. rt_rbb_create (\<lambda>k. replicate k sample_blk) sample_rbb 32 3
     (sample_heap\<lparr>user_bytes := \<lambda>_. Some 7\<rparr>) (\<lambda>_. None) = Some (p, h', rbbs')"
  using rt_rbb_create_destroy [OF sample_holds(1), of 32 3 "\<lambda>k. replicate k sample_blk" sample_rbb "\<lambda>_. None"] by auto

end
