(* ===== verification/Dfs_Path.thy ===== *)
theory Dfs_Path
  imports Heap_Use Printf_Props
begin

text \<open>
  Paths of the device file system of the reference kernel: \<open>dfs_normalize_path\<close> and \<open>dfs_subdir\<close> of
  \<open>components/dfs/src/dfs.c\<close>. A path is put into a block of the heap and normalised in place, with one
  pointer that reads and one that writes behind it. The loop is first shown to be a function on lists of
  bytes, then that function is compared with the path as a list of names.
\<close>

section \<open>The functions\<close>

text \<open>\<open>while (*src == '/' && *src != 0) src++\<close>\<close>

partial_function (option) skip_slashes :: "u32 \<Rightarrow> mem \<Rightarrow> u32 option" where
  "skip_slashes src m = do {
     c \<leftarrow> load8 src m;
     if c = ch CHR ''/'' \<and> c \<noteq> 0 then skip_slashes (src + 1) m else Some src }"

text \<open>\<open>while ((c = *src++) != 0 && c != '/') *dst++ = c\<close>: the last byte read, the pointers, the memory\<close>

partial_function (option) copy_name :: "u32 \<Rightarrow> u32 \<Rightarrow> mem \<Rightarrow> (u8 \<times> u32 \<times> u32 \<times> mem) option" where
  "copy_name src dst m = do {
     c \<leftarrow> load8 src m;
     let src = src + 1;
     if c \<noteq> 0 \<and> c \<noteq> ch CHR ''/'' then do { m \<leftarrow> store8 dst c m; copy_name src (dst + 1) m }
     else Some (c, src, dst, m) }"

text \<open>\<open>while (c == '/') c = *src++\<close>\<close>

partial_function (option) eat_slashes :: "u8 \<Rightarrow> u32 \<Rightarrow> mem \<Rightarrow> u32 option" where
  "eat_slashes c src m =
     (if c = ch CHR ''/'' then do { c \<leftarrow> load8 src m; eat_slashes c (src + 1) m } else Some src)"

text \<open>\<open>while (dst0 < dst && dst[-1] != '/') dst--\<close>\<close>

partial_function (option) back_to_slash :: "u32 \<Rightarrow> u32 \<Rightarrow> mem \<Rightarrow> u32 option" where
  "back_to_slash dst0 dst m =
     (if dst0 < dst then do {
        c \<leftarrow> load8 (dst - 1) m;
        if c \<noteq> ch CHR ''/'' then back_to_slash dst0 (dst - 1) m else Some dst }
      else Some dst)"

text \<open>\<open>up_one\<close>: \<open>None\<close> inside when the path is given back\<close>

definition up_one :: "u32 \<Rightarrow> u32 \<Rightarrow> mem \<Rightarrow> u32 option option" where
  "up_one dst0 dst m =
     (let dst = dst - 1
      in if dst < dst0 then Some None else map_option Some (back_to_slash dst0 dst m))"

text \<open>Where the first half of the loop goes: on to the copy, to the next round, or to \<open>up_one\<close>\<close>

datatype turn = Copy u32 | Continue u32 | Up_one u32

definition look_at_dots :: "u32 \<Rightarrow> mem \<Rightarrow> turn option" where
  "look_at_dots src m = do {
     c \<leftarrow> load8 src m;
     if c = ch CHR ''.'' then do {
       c1 \<leftarrow> load8 (src + 1) m;
       if c1 = 0 then Some (Copy (src + 1))
       else if c1 = ch CHR ''/'' then map_option Continue (skip_slashes (src + 2) m)
       else if c1 = ch CHR ''.'' then do {
         c2 \<leftarrow> load8 (src + 2) m;
         if c2 = 0 then Some (Up_one (src + 2))
         else if c2 = ch CHR ''/'' then map_option Up_one (skip_slashes (src + 3) m)
         else Some (Copy src) }
       else Some (Copy src) }
     else Some (Copy src) }"

text \<open>\<open>while (1)\<close>: the end of the path, or \<open>None\<close> inside for \<open>return NULL\<close>, and the memory\<close>

partial_function (option) normalize_loop :: "u32 \<Rightarrow> u32 \<Rightarrow> u32 \<Rightarrow> mem \<Rightarrow> (u32 option \<times> mem) option" where
  "normalize_loop dst0 src dst m = do {
     t \<leftarrow> look_at_dots src m;
     case t of
       Copy src \<Rightarrow> do {
         (c, src, dst, m) \<leftarrow> copy_name src dst m;
         if c = ch CHR ''/'' then do {
           m \<leftarrow> store8 dst (ch CHR ''/'') m;
           src \<leftarrow> eat_slashes c src m;
           normalize_loop dst0 (src - 1) (dst + 1) m }
         else if c = 0 then Some (Some dst, m)
         else normalize_loop dst0 src dst m }
     | Continue src \<Rightarrow> normalize_loop dst0 src dst m
     | Up_one src \<Rightarrow> do {
         r \<leftarrow> up_one dst0 dst m;
         case r of None \<Rightarrow> Some (None, m) | Some dst \<Rightarrow> normalize_loop dst0 src dst m } }"

text \<open>What comes after the loop: the end of the string, no slash at the end, a path that is not empty\<close>

definition finish_path :: "u32 \<Rightarrow> u32 \<Rightarrow> mem \<Rightarrow> mem option" where
  "finish_path fullpath dst m = do {
     m \<leftarrow> store8 dst 0 m;
     let dst = dst - 1;
     m \<leftarrow> (if dst \<noteq> fullpath then do {
            c \<leftarrow> load8 dst m;
            if c = ch CHR ''/'' then store8 dst 0 m else Some m }
          else Some m);
     c \<leftarrow> load8 fullpath m;
     if c = 0 then do { m \<leftarrow> store8 fullpath (ch CHR ''/'') m; store8 (fullpath + 1) 0 m }
     else Some m }"

text \<open>
  The path before it is normalised. The address of the string literal \<open>"%s/%s"\<close> is the parameter \<open>fmt\<close>; a
  pointer is null when there is no memory.
\<close>

definition build_path :: "u32 \<Rightarrow> u32 \<Rightarrow> u32 \<Rightarrow> heap \<Rightarrow> (u32 \<times> heap) option" where
  "build_path fmt directory filename h = do {
     c \<leftarrow> load8 filename (user_bytes h);
     if c \<noteq> ch CHR ''/'' then do {
       l1 \<leftarrow> rt_strlen directory (user_bytes h);
       l2 \<leftarrow> rt_strlen filename (user_bytes h);
       (fullpath, h) \<leftarrow> rt_malloc (l1 + l2 + 2) h;
       if fullpath = 0 then Some (0, h)
       else do {
         l1 \<leftarrow> rt_strlen directory (user_bytes h);
         l2 \<leftarrow> rt_strlen filename (user_bytes h);
         (_, b) \<leftarrow> rt_snprintf fullpath (l1 + l2 + 2) fmt [directory, filename] (user_bytes h);
         Some (fullpath, h\<lparr>user_bytes := b\<rparr>) } }
     else rt_strdup filename h }"

text \<open>\<open>working_directory\<close> is the address of that array with \<open>DFS_USING_WORKDIR\<close>, \<open>None\<close> without.\<close>

definition chosen_directory :: "u32 option \<Rightarrow> u32 \<Rightarrow> u32" where
  "chosen_directory working_directory directory =
     (case working_directory of Some w \<Rightarrow> if directory = 0 then w else directory | None \<Rightarrow> directory)"

definition dfs_normalize_path :: "u32 option \<Rightarrow> u32 \<Rightarrow> u32 \<Rightarrow> u32 \<Rightarrow> heap \<Rightarrow> (u32 \<times> heap) option" where
  "dfs_normalize_path working_directory fmt directory filename h = do {
     _ \<leftarrow> RT_ASSERT (filename \<noteq> 0);
     c \<leftarrow> load8 filename (user_bytes h);
     if working_directory = None \<and> directory = 0 \<and> c \<noteq> ch CHR ''/'' then Some (0, h)
     else do {
       (fullpath, h) \<leftarrow> build_path fmt (chosen_directory working_directory directory) filename h;
       if fullpath = 0 then Some (0, h)
       else do {
         (r, b) \<leftarrow> normalize_loop fullpath fullpath fullpath (user_bytes h);
         let h = h\<lparr>user_bytes := b\<rparr>;
         case r of
           None \<Rightarrow> do { h \<leftarrow> rt_free fullpath h; Some (0, h) }
         | Some dst \<Rightarrow> do {
             b \<leftarrow> finish_path fullpath dst (user_bytes h);
             Some (fullpath, h\<lparr>user_bytes := b\<rparr>) } } } }"

definition dfs_subdir :: "u32 \<Rightarrow> u32 \<Rightarrow> mem \<Rightarrow> u32 option" where
  "dfs_subdir directory filename m = do {
     l1 \<leftarrow> rt_strlen directory m;
     l2 \<leftarrow> rt_strlen filename m;
     if l1 = l2 then Some 0
     else do {
       let dir = filename + l1;
       c \<leftarrow> load8 dir m;
       Some (if c \<noteq> ch CHR ''/'' \<and> dir \<noteq> filename then dir - 1 else dir) } }"

section \<open>The loop on lists of bytes\<close>

text \<open>\<open>path_up\<close>: the last name goes, with its slash; \<open>path_run out xs\<close>: what is written when \<open>xs\<close> is still to be read\<close>

abbreviation (input) slash :: "u8 \<Rightarrow> bool" where "slash c \<equiv> c = 47"
abbreviation (input) in_name :: "u8 \<Rightarrow> bool" where "in_name c \<equiv> c \<noteq> 47"

definition path_up :: "u8 list \<Rightarrow> u8 list option" where
  "path_up out = (if out = [] then None else Some (rev (dropWhile in_name (rev (butlast out)))))"

function path_run :: "u8 list \<Rightarrow> u8 list \<Rightarrow> u8 list option" where
  "path_run out xs =
     (if xs = [46] then Some out
      else if prefix [46, 47] xs then path_run out (dropWhile slash (drop 2 xs))
      else if xs = [46, 46] then Option.bind (path_up out) (\<lambda>out. path_run out [])
      else if prefix [46, 46, 47] xs then Option.bind (path_up out) (\<lambda>out. path_run out (dropWhile slash (drop 3 xs)))
      else let name = takeWhile in_name xs; rest = dropWhile in_name xs
           in if rest = [] then Some (out @ name) else path_run (out @ name @ [47]) (dropWhile slash rest))"
  by pat_completeness auto

lemma length_dropWhile_Suc: "xs \<noteq> [] \<Longrightarrow> P (hd xs) \<Longrightarrow> length (dropWhile P xs) < length xs"
  by (cases xs) (auto simp: less_Suc_eq_le length_dropWhile_le)

termination path_run
proof (relation "measure (\<lambda>(out, xs). length xs)", goal_cases)
  case (2 out xs)
  then show ?case using length_dropWhile_le [of slash "drop 2 xs"] by (auto simp: prefix_def)
next
  case (4 out xs out')
  then show ?case using length_dropWhile_le [of slash "drop 3 xs"] by (auto simp: prefix_def)
next
  case (5 out xs name rest)
  then have "length (dropWhile slash rest) < length rest"
    using hd_dropWhile [of in_name xs] by (intro length_dropWhile_Suc) auto
  then show ?case using 5 length_dropWhile_le [of in_name xs] by simp
qed (auto simp: prefix_def)

declare path_run.simps [simp del]


section \<open>The loop does what it does on lists\<close>

text \<open>\<open>text_to m e xs\<close>: the bytes \<open>xs\<close> are still to be read, and the zero behind them is at \<open>e\<close>.\<close>

definition text_to :: "mem \<Rightarrow> u32 \<Rightarrow> u8 list \<Rightarrow> bool" where
  "text_to m e xs \<longleftrightarrow> holds_at m (e - of_nat (length xs)) (xs @ [0]) \<and> 0 \<notin> set xs"

lemma text_to_Nil [simp]: "text_to m e [] \<longleftrightarrow> m e = Some 0"
  by (simp add: text_to_def)

lemma text_to_Cons [simp]:
  "text_to m e (x # xs) \<longleftrightarrow> m (e - of_nat (length (x # xs))) = Some x \<and> x \<noteq> 0 \<and> text_to m e xs"
  by (auto simp: text_to_def algebra_simps)

lemma text_to_suffix: "text_to m e (ys @ xs) \<Longrightarrow> text_to m e xs"
  by (induction ys) auto

lemma text_to_dropWhile: "text_to m e xs \<Longrightarrow> text_to m e (dropWhile P xs)"
  using text_to_suffix [of m e "takeWhile P xs" "dropWhile P xs"] by simp

lemma skip_slashes_eq:
  "text_to m e xs \<Longrightarrow> skip_slashes (e - of_nat (length xs)) m = Some (e - of_nat (length (dropWhile slash xs)))"
proof (induction xs)
  case (Cons x xs)
  then show ?case
    using skip_slashes.simps [of "e - of_nat (length (x # xs))" m]
    by (simp add: load8_def algebra_simps)
qed (simp add: skip_slashes.simps [of e] load8_def)

lemma eat_slashes_eq:
  "text_to m e xs \<Longrightarrow>
   eat_slashes (hd (xs @ [0])) (e - of_nat (length xs) + 1) m = Some (e - of_nat (length (dropWhile slash xs)) + 1)"
proof (induction xs)
  case (Cons x xs)
  have "m (e - of_nat (length xs)) = Some (hd (xs @ [0]))" using Cons.prems by (cases xs) auto
  then show ?case using Cons eat_slashes.simps [of x "e - of_nat (length (x # xs)) + 1" m]
    by (simp add: load8_def algebra_simps)
qed (simp add: eat_slashes.simps [of 0])

lemma look_at_dots_eq:
  assumes "text_to m e xs"
  shows "look_at_dots (e - of_nat (length xs)) m = Some
    (if xs = [46] then Copy e
     else if prefix [46, 47] xs then Continue (e - of_nat (length (dropWhile slash (drop 2 xs))))
     else if xs = [46, 46] then Up_one e
     else if prefix [46, 46, 47] xs then Up_one (e - of_nat (length (dropWhile slash (drop 3 xs))))
     else Copy (e - of_nat (length xs)))"
proof (cases xs)
  case Nil
  then show ?thesis using assms by (simp add: look_at_dots_def load8_def)
next
  case xs: (Cons x ys)
  show ?thesis
  proof (cases ys)
    case Nil
    then show ?thesis using assms xs by (auto simp: look_at_dots_def load8_def)
  next
    case ys: (Cons y zs)
    show ?thesis
    proof (cases zs)
      case Nil
      then show ?thesis using assms xs ys skip_slashes_eq [of m e zs]
        by (auto simp: look_at_dots_def load8_def algebra_simps)
    next
      case (Cons z ws)
      then show ?thesis using assms xs ys skip_slashes_eq [of m e zs] skip_slashes_eq [of m e ws]
        by (auto simp: look_at_dots_def load8_def algebra_simps)
    qed
  qed
qed

text \<open>Addresses in the block of the path\<close>

lemma text_at: "length xs \<le> N \<Longrightarrow> base + of_nat N - of_nat (length xs) = (base + of_nat (N - length xs) :: u32)"
  by (simp add: of_nat_diff)

lemma text_to_upd:
  assumes "j + length xs < N" "N < 2 ^ 32"
  shows "text_to (m(base + of_nat j \<mapsto> v)) (base + of_nat N) xs = text_to m (base + of_nat N) xs"
proof -
  have "j + 1 \<le> N - length xs" "N - length xs + (length xs + 1) \<le> N + 1" using assms(1) by simp_all
  from range_at_apart [OF this, of base] assms(2)
  have "base + of_nat j \<notin> range_at (base + of_nat (N - length xs)) (length (xs @ [0]))"
    by (auto simp: range_at_Suc)
  then have "holds_at (m(base + of_nat j \<mapsto> v)) (base + of_nat (N - length xs)) (xs @ [0]) =
      holds_at m (base + of_nat (N - length xs)) (xs @ [0])" by (rule holds_at_upd)
  then show ?thesis using assms(1) by (simp only: text_to_def text_at [of xs N base] less_imp_le add_leD2)
qed

lemma holds_at_upd_end:
  assumes "length out \<le> N" "N < 2 ^ 32"
  shows "holds_at (m(base + of_nat (length out) \<mapsto> v)) base out = holds_at m base out"
  using range_at_apart [of 0 "length out" "length out" 1 "N + 1" base] assms
  by (intro holds_at_upd) (auto simp: range_at_Suc)

text \<open>The bytes read and the bytes written; \<open>N\<close> is the length of the path.\<close>

definition path_inv :: "u32 \<Rightarrow> nat \<Rightarrow> mem \<Rightarrow> u8 list \<Rightarrow> u8 list \<Rightarrow> bool" where
  "path_inv base N m out xs \<longleftrightarrow>
     holds_at m base out \<and> text_to m (base + of_nat N) xs \<and> length out + length xs \<le> N \<and>
     mapped m base (N + 1) \<and> unat base + N + 1 < 2 ^ 32"

lemma path_inv_mapped: "path_inv base N m out xs \<Longrightarrow> j \<le> N \<Longrightarrow> base + of_nat j \<in> dom m"
proof -
  assume "path_inv base N m out xs" "j \<le> N"
  then have "range_at base (N + 1) \<subseteq> dom m" "base + of_nat j \<in> range_at base (N + 1)"
    by (auto simp: path_inv_def mapped_def range_at_def)
  then show ?thesis by blast
qed

lemma path_inv_write:
  assumes "path_inv base N m out (x # xs)"
  shows "path_inv base N (m(base + of_nat (length out) \<mapsto> v)) (out @ [v]) xs"
proof -
  have "length out + length xs < N" "length out \<le> N" "N < 2 ^ 32" using assms by (auto simp: path_inv_def)
  moreover have "base + of_nat (length out) \<in> dom m" by (rule path_inv_mapped [OF assms]) (use calculation in simp)
  ultimately show ?thesis using assms holds_at_upd_end [of out N m base v]
    by (simp add: path_inv_def holds_at_append text_to_upd)
qed

lemma path_inv_suffix: "path_inv base N m out (ys @ xs) \<Longrightarrow> path_inv base N m out xs"
  using text_to_suffix [of m "base + of_nat N" ys xs] by (simp add: path_inv_def)

lemma path_inv_dropWhile: "path_inv base N m out xs \<Longrightarrow> path_inv base N m out (dropWhile P xs)"
  using path_inv_suffix [of base N m out "takeWhile P xs" "dropWhile P xs"] by simp

text \<open>The rest after a name is cut off where the name ends.\<close>

lemma copy_name_eq:
  "path_inv base N m out xs \<Longrightarrow>
   \<exists>m'. copy_name (base + of_nat N - of_nat (length xs)) (base + of_nat (length out)) m =
     Some (hd (dropWhile in_name xs @ [0]), base + of_nat N - of_nat (length (dropWhile in_name xs)) + 1,
       base + of_nat (length (out @ takeWhile in_name xs)), m') \<and>
     path_inv base N m' (out @ takeWhile in_name xs) (dropWhile in_name xs) \<and> same_outside base (N + 1) m m'"
proof (induction xs arbitrary: out m)
  case Nil
  then have "m (base + of_nat N) = Some 0" by (simp add: path_inv_def)
  then show ?case using Nil copy_name.simps [of "base + of_nat N" "base + of_nat (length out)" m]
    by (simp add: load8_def)
next
  case (Cons x xs)
  define src where "src = base + of_nat N - of_nat (length (x # xs))"
  have x: "m src = Some x" "x \<noteq> 0" using Cons.prems by (simp_all add: path_inv_def src_def)
  show ?case
  proof (cases "x = 47")
    case True
    then have "copy_name src (base + of_nat (length out)) m = Some (47, src + 1, base + of_nat (length out), m)"
      using x copy_name.simps [of src "base + of_nat (length out)" m] by (simp add: load8_def)
    then show ?thesis using Cons.prems True by (simp add: src_def)
  next
    case False
    let ?m = "m(base + of_nat (length out) \<mapsto> x)"
    have l: "length out \<le> N" using Cons.prems by (simp add: path_inv_def)
    have d: "base + of_nat (length out) \<in> dom m" by (rule path_inv_mapped [OF Cons.prems l])
    have n: "src + 1 = base + of_nat N - of_nat (length xs)" by (simp add: src_def algebra_simps)
    obtain m' where m': "copy_name (src + 1) (base + of_nat (length (out @ [x]))) ?m =
        Some (hd (dropWhile in_name xs @ [0]), base + of_nat N - of_nat (length (dropWhile in_name xs)) + 1,
          base + of_nat (length ((out @ [x]) @ takeWhile in_name xs)), m')"
      "path_inv base N m' ((out @ [x]) @ takeWhile in_name xs) (dropWhile in_name xs)" "same_outside base (N + 1) ?m m'"
      using Cons.IH [OF path_inv_write [OF Cons.prems, of x]] unfolding n by blast
    have "same_outside base (N + 1) m m'"
      using same_outside_trans [OF same_outside_upd m'(3)] l by simp
    moreover have "copy_name src (base + of_nat (length out)) m = Some (hd (dropWhile in_name xs @ [0]),
        base + of_nat N - of_nat (length (dropWhile in_name xs)) + 1,
        base + of_nat (length ((out @ [x]) @ takeWhile in_name xs)), m')"
      using m'(1) x False d copy_name.simps [of src "base + of_nat (length out)" m]
      by (simp add: load8_def ac_simps)
    ultimately show ?thesis using m'(2) False unfolding src_def by (intro exI [of _ m']) simp
  qed
qed

lemma back_to_slash_eq:
  assumes "holds_at m base out" "unat base + length out < 2 ^ 32"
  shows "back_to_slash base (base + of_nat (length out)) m =
    Some (base + of_nat (length (rev (dropWhile in_name (rev out)))))"
  using assms
proof (induction out rule: rev_induct)
  case (snoc y ys)
  have "unat (base + of_nat (length (ys @ [y]))) = unat base + length (ys @ [y])"
    using snoc.prems(2) by (simp add: unat_word_ariths unat_of_nat)
  then have "base < base + of_nat (length (ys @ [y]))" by (simp add: word_less_nat_alt)
  moreover have "m (base + of_nat (length ys)) = Some y" "holds_at m base ys"
    using snoc.prems(1) by (simp_all add: holds_at_append)
  ultimately show ?case using snoc.IH snoc.prems(2) back_to_slash.simps [of base "base + of_nat (length (ys @ [y]))" m]
    by (auto simp: load8_def algebra_simps)
qed (simp add: back_to_slash.simps [of base base])

lemma prefix_up_to: "prefix (rev (dropWhile P (rev xs))) xs"
  using suffix_dropWhile [of P "rev xs"] by (simp add: suffix_to_prefix)

lemma path_up_prefix:
  assumes "path_up out = Some out'"
  shows "prefix out' out"
proof -
  have "prefix out' (butlast out)" using assms prefix_up_to [of in_name "butlast out"]
    by (auto simp: path_up_def split: if_splits)
  also have "prefix (butlast out) out" by (rule prefixeq_butlast)
  finally show ?thesis .
qed

lemma up_one_eq:
  assumes "path_inv base N m out xs" "base \<noteq> 0"
  shows "up_one base (base + of_nat (length out)) m = Some (map_option (\<lambda>o'. base + of_nat (length o')) (path_up out))"
proof (cases out rule: rev_cases)
  case Nil
  have "base - 1 < base" using assms(2) by (simp add: word_less_nat_alt unat_minus_one word_neq_0_conv)
  then show ?thesis using Nil by (simp add: up_one_def path_up_def)
next
  case (snoc ys y)
  have b: "holds_at m base ys" "unat base + length ys < 2 ^ 32"
    using assms(1) snoc by (auto simp: path_inv_def holds_at_append)
  have "unat (base + of_nat (length ys)) = unat base + length ys"
    using b(2) by (simp add: unat_word_ariths unat_of_nat)
  then have "\<not> base + of_nat (length ys) < base" by (simp add: word_less_nat_alt)
  then show ?thesis using back_to_slash_eq [OF b] snoc by (simp add: up_one_def path_up_def Let_def)
qed

text \<open>The whole loop\<close>

lemma path_inv_up:
  assumes "path_inv base N m out xs" "path_up out = Some out'"
  shows "path_inv base N m out' xs"
proof -
  obtain zs where "out = out' @ zs" using path_up_prefix [OF assms(2)] by (auto simp: prefix_def)
  then show ?thesis using assms(1) by (auto simp: path_inv_def holds_at_append)
qed

text \<open>\<open>path_result base N m r res\<close>: the loop that started with \<open>m\<close> ends with \<open>res\<close>, and that is \<open>r\<close> on lists.\<close>

definition path_result :: "u32 \<Rightarrow> nat \<Rightarrow> mem \<Rightarrow> u8 list option \<Rightarrow> (u32 option \<times> mem) option \<Rightarrow> bool" where
  "path_result base N m r res \<longleftrightarrow> (\<exists>m'.
     res = Some (map_option (\<lambda>t. base + of_nat (length t)) r, m') \<and>
     same_outside base (N + 1) m m' \<and> mapped m' base (N + 1) \<and> (\<forall>t. r = Some t \<longrightarrow> path_inv base N m' t []))"

lemma path_result_from:
  "path_result base N m1 r res \<Longrightarrow> same_outside base (N + 1) m m1 \<Longrightarrow> path_result base N m r res"
  unfolding path_result_def using same_outside_trans by blast

lemma path_result_end: "path_inv base N m t [] \<Longrightarrow> path_result base N m (Some t) (Some (Some (base + of_nat (length t)), m))"
  by (simp add: path_result_def path_inv_def)

lemma path_result_null: "path_inv base N m out xs \<Longrightarrow> path_result base N m None (Some (None, m))"
  by (simp add: path_result_def path_inv_def)

text \<open>One round that copies a name\<close>

lemma normalize_name:
  assumes i: "path_inv base N m out xs"
    and no: "xs \<noteq> [46]" "\<not> prefix [46, 47] xs" "xs \<noteq> [46, 46]" "\<not> prefix [46, 46, 47] xs"
  defines "name \<equiv> takeWhile in_name xs" and "rest \<equiv> dropWhile in_name xs"
    and "res \<equiv> normalize_loop base (base + of_nat N - of_nat (length xs)) (base + of_nat (length out)) m"
  shows "rest = [] \<Longrightarrow> path_result base N m (Some (out @ name)) res"
    and "rest \<noteq> [] \<Longrightarrow> \<exists>m1. path_inv base N m1 (out @ name @ [47]) (dropWhile slash rest) \<and> same_outside base (N + 1) m m1 \<and>
      res = normalize_loop base (base + of_nat N - of_nat (length (dropWhile slash rest)))
        (base + of_nat (length (out @ name @ [47]))) m1"
proof -
  define e src dst where "e = base + of_nat N" and "src = e - of_nat (length xs)" and "dst = base + of_nat (length out)"
  have t: "text_to m e xs" using i by (simp add: path_inv_def e_def)
  have loop: "res = Option.bind (copy_name src dst m) (\<lambda>(c, src, dst, m).
      if c = ch CHR ''/'' then Option.bind (store8 dst (ch CHR ''/'') m) (\<lambda>m. Option.bind (eat_slashes c src m)
        (\<lambda>src. normalize_loop base (src - 1) (dst + 1) m))
      else if c = 0 then Some (Some dst, m) else normalize_loop base src dst m)"
    using normalize_loop.simps [of base src dst m, unfolded look_at_dots_eq [OF t, folded src_def]] no
    by (simp add: res_def src_def dst_def e_def)
  obtain m1 where m1: "copy_name src dst m = Some (hd (rest @ [0]), e - of_nat (length rest) + 1,
      base + of_nat (length (out @ name)), m1)"
    "path_inv base N m1 (out @ name) rest" "same_outside base (N + 1) m m1"
    using copy_name_eq [OF i] unfolding name_def rest_def src_def dst_def e_def by blast
  show "path_result base N m (Some (out @ name)) res" if "rest = []"
    using path_result_from [OF path_result_end [OF m1(2) [unfolded that]] m1(3)] loop m1(1) that by simp
  assume "rest \<noteq> []"
  moreover have "hd rest = 47" using hd_dropWhile [of in_name xs] calculation by (simp add: rest_def)
  ultimately obtain rest' where c: "rest = 47 # rest'" by (cases rest) simp_all
  let ?m = "m1(base + of_nat (length (out @ name)) \<mapsto> 47)"
  note w = path_inv_write [OF m1(2) [unfolded c], of 47]
  have l: "length (out @ name) \<le> N" using m1(2) by (simp add: path_inv_def)
  have "text_to ?m e rest'" using w by (simp add: path_inv_def e_def)
  then have "eat_slashes 47 (e - of_nat (length rest) + 1) ?m = Some (e - of_nat (length (dropWhile slash rest')) + 1)"
    using eat_slashes_eq [of ?m e rest'] eat_slashes.simps [of 47 "e - of_nat (length rest) + 1" ?m] c
    by (cases rest') (simp_all add: load8_def algebra_simps)
  then have "res = normalize_loop base (e - of_nat (length (dropWhile slash rest'))) (base + of_nat (length (out @ name)) + 1) ?m"
    using loop m1(1) c path_inv_mapped [OF m1(2) l] by (simp add: add.assoc)
  then have "res = normalize_loop base (e - of_nat (length (dropWhile slash rest'))) (base + of_nat (length (out @ name @ [47]))) ?m"
    by (simp add: ac_simps)
  moreover have "same_outside base (N + 1) m ?m"
    by (rule same_outside_trans [OF m1(3) same_outside_upd]) (use l in simp)
  moreover have "path_inv base N ?m (out @ name @ [47]) (dropWhile slash rest')" using path_inv_dropWhile [OF w] by simp
  ultimately show "\<exists>m1. path_inv base N m1 (out @ name @ [47]) (dropWhile slash rest) \<and> same_outside base (N + 1) m m1 \<and>
      res = normalize_loop base (base + of_nat N - of_nat (length (dropWhile slash rest)))
        (base + of_nat (length (out @ name @ [47]))) m1"
    unfolding e_def c by (intro exI [of _ ?m]) (simp del: length_append)
qed

lemma normalize_loop_eq:
  "path_inv base N m out xs \<Longrightarrow> base \<noteq> 0 \<Longrightarrow> path_result base N m (path_run out xs)
     (normalize_loop base (base + of_nat N - of_nat (length xs)) (base + of_nat (length out)) m)"
proof (induction out xs arbitrary: m rule: path_run.induct)
  case (1 out xs)
  define e where "e = base + of_nat N"
  define src where "src = e - of_nat (length xs)"
  define dst where "dst = base + of_nat (length out)"
  have t: "text_to m e xs" using "1.prems"(1) by (simp add: path_inv_def e_def)
  note loop = normalize_loop.simps [of base src dst m, unfolded look_at_dots_eq [OF t, folded src_def]]
  note up = up_one_eq [OF "1.prems", folded dst_def]
  have inv: "path_inv base N m out (dropWhile slash (drop k xs))" for k
    using path_inv_suffix [of base N m out "take k xs" "drop k xs"] "1.prems"(1) by (auto intro: path_inv_dropWhile)
  have inv0: "path_inv base N m out []" using path_inv_suffix [of base N m out xs "[]"] "1.prems"(1) by simp
  consider "xs = [46]" | "prefix [46, 47] xs" | "xs = [46, 46]" | "prefix [46, 46, 47] xs"
    | "xs \<noteq> [46]" "\<not> prefix [46, 47] xs" "xs \<noteq> [46, 46]" "\<not> prefix [46, 46, 47] xs" by blast
  then have "path_result base N m (path_run out xs) (normalize_loop base src dst m)"
  proof cases
    case 1
    then have "m e = Some 0" using t by simp
    then have "normalize_loop base src dst m = Some (Some dst, m)"
      using loop 1 copy_name.simps [of e dst m] by (simp add: load8_def)
    then show ?thesis using path_result_end [OF inv0] 1 by (simp add: path_run.simps dst_def)
  next
    case 2
    then have n: "xs \<noteq> [46]" by auto
    have "normalize_loop base src dst m = normalize_loop base (e - of_nat (length (dropWhile slash (drop 2 xs)))) dst m"
      using loop 2 n by simp
    then show ?thesis using "1.IH"(1) [OF n 2 inv "1.prems"(2)] path_run.simps [of out xs] 2 n
      by (simp add: e_def dst_def)
  next
    case 3
    then have n: "xs \<noteq> [46]" "\<not> prefix [46, 47] xs" by auto
    show ?thesis
    proof (cases "path_up out")
      case None
      then show ?thesis using loop 3 n up path_result_null [OF inv0] path_run.simps [of out xs] by simp
    next
      case (Some o')
      then have "normalize_loop base src dst m = normalize_loop base e (base + of_nat (length o')) m"
        using loop 3 n up by simp
      then show ?thesis using "1.IH"(2) [OF n 3 Some path_inv_up [OF inv0 Some] "1.prems"(2)] Some path_run.simps [of out xs] 3 n
        by (simp add: e_def)
    qed
  next
    case 4
    then have n: "xs \<noteq> [46]" "\<not> prefix [46, 47] xs" "xs \<noteq> [46, 46]" by (auto simp: prefix_def)
    show ?thesis
    proof (cases "path_up out")
      case None
      then show ?thesis using loop 4 n up path_result_null [OF inv0] path_run.simps [of out xs] by simp
    next
      case (Some o')
      then have "normalize_loop base src dst m =
          normalize_loop base (e - of_nat (length (dropWhile slash (drop 3 xs)))) (base + of_nat (length o')) m"
        using loop 4 n up by simp
      then show ?thesis using "1.IH"(3) [OF n 4 Some path_inv_up [OF inv Some] "1.prems"(2)] Some path_run.simps [of out xs] 4 n
        by (simp add: e_def)
    qed
  next
    case 5
    define name rest where "name = takeWhile in_name xs" and "rest = dropWhile in_name xs"
    note step = normalize_name [OF "1.prems"(1) 5, folded name_def rest_def e_def, folded src_def dst_def]
    have r: "path_run out xs = (if rest = [] then Some (out @ name) else path_run (out @ name @ [47]) (dropWhile slash rest))"
      unfolding name_def rest_def by (subst path_run.simps) (simp only: 5 Let_def if_False simp_thms)
    show ?thesis
    proof (cases "rest = []")
      case True
      then show ?thesis using step(1) r by simp
    next
      case False
      then obtain m1 where m1: "path_inv base N m1 (out @ name @ [47]) (dropWhile slash rest)"
        "same_outside base (N + 1) m m1" "normalize_loop base src dst m =
          normalize_loop base (e - of_nat (length (dropWhile slash rest))) (base + of_nat (length (out @ name @ [47]))) m1"
        using step(2) by blast
      note ih = "1.IH"(4) [OF 5 name_def rest_def False m1(1) "1.prems"(2), folded e_def]
      show ?thesis using path_result_from [OF ih m1(2)] r False unfolding m1(3) by simp
    qed
  qed
  then show ?case by (simp only: src_def dst_def e_def)
qed

text \<open>The end of the path\<close>

definition trim_path :: "u8 list \<Rightarrow> u8 list" where
  "trim_path t = (if 1 < length t \<and> last t = 47 then butlast t else t)"

lemma finish_path_step:
  assumes "a \<in> dom m" "b \<in> dom m" "a - 1 = b" "(m(a \<mapsto> 0)) b = Some y"
    and "m1 = (if b \<noteq> base \<and> y = 47 then m(a \<mapsto> 0, b \<mapsto> 0) else m(a \<mapsto> 0))" "m1 base = Some c" "c \<noteq> 0"
  shows "finish_path base a m = Some m1"
  using assms(1-4,6,7) unfolding assms(5) by (simp add: finish_path_def load8_def Let_def split: if_splits)

lemma finish_path_eq:
  assumes i: "path_inv base N m t []" and t: "t \<noteq> []" "0 \<notin> set t"
  shows "\<exists>m'. finish_path base (base + of_nat (length t)) m = Some m' \<and> string_at m' base (trim_path t) \<and>
    same_outside base (N + 1) m m'"
proof -
  have l: "length t \<le> N" "N < 2 ^ 32" using i by (auto simp: path_inv_def)
  obtain ys y where y: "t = ys @ [y]" using t(1) by (cases t rule: rev_cases) auto
  have d: "base + of_nat (length t) \<in> dom m" "base + of_nat (length ys) \<in> dom m"
    by (rule path_inv_mapped [OF i], use l y in simp)+
  let ?m = "m(base + of_nat (length t) \<mapsto> 0)" let ?n = "?m(base + of_nat (length ys) \<mapsto> 0)"
  have h: "holds_at ?m base t" using i l holds_at_upd_end by (auto simp: path_inv_def)
  then have hy: "?m (base + of_nat (length ys)) = Some y" "holds_at ?m base ys" using y by (simp_all add: holds_at_append)
  have 1: "string_at ?m base t" using h t(2) by (simp add: string_at_def holds_at_append)
  have 2: "string_at ?n base ys" using hy(2) t(2) y l holds_at_upd_end [of ys N ?m base 0]
    by (simp add: string_at_def holds_at_append)
  have s: "same_outside base (N + 1) m ?m" "same_outside base (N + 1) ?m ?n"
    by (rule same_outside_upd, use l y in simp)+
  have e: "base + of_nat (length t) - 1 = base + of_nat (length ys)" using y by simp
  have b: "base + of_nat (length ys) = base \<longleftrightarrow> ys = []"
    using l y by (simp add: word_of_nat_eq_0_iff) (auto dest: dvd_imp_le)
  show ?thesis
  proof (cases "ys \<noteq> [] \<and> y = 47")
    case True
    have "?n base = Some (hd ys)" "hd ys \<noteq> 0" using 2 True by (cases ys; simp)+
    then have "finish_path base (base + of_nat (length t)) m = Some ?n"
      by (intro finish_path_step [OF d e hy(1)]) (use True b in simp_all)
    then show ?thesis using 2 True y same_outside_trans [OF s] by (auto simp: trim_path_def)
  next
    case False
    have "?m base = Some (hd t)" "hd t \<noteq> 0" using 1 t(1) by (cases t; simp)+
    then have "finish_path base (base + of_nat (length t)) m = Some ?m"
      by (intro finish_path_step [OF d e hy(1)]) (use False b in auto)
    then show ?thesis using 1 False y s(1) by (auto simp: trim_path_def)
  qed
qed

section \<open>Paths as lists of names\<close>

text \<open>
  \<open>components\<close>: the names between the slashes. \<open>resolve st cs\<close>: where the names \<open>cs\<close> lead from the directory \<open>st\<close>,
  or nothing when a \<open>".."\<close> leads above the root. \<open>path_text\<close>: the path written out.
\<close>

function components :: "u8 list \<Rightarrow> u8 list list" where
  "components xs = (case dropWhile slash xs of [] \<Rightarrow> [] | y # ys \<Rightarrow> (y # takeWhile in_name ys) # components (dropWhile in_name ys))"
  by pat_completeness auto

termination
proof (relation "measure length", goal_cases)
  case (2 xs y ys)
  then show ?case using length_dropWhile_le [of slash xs] length_dropWhile_le [of in_name ys] by simp
qed simp

declare components.simps [simp del]

fun resolve :: "u8 list list \<Rightarrow> u8 list list \<Rightarrow> u8 list list option" where
  "resolve st [] = Some st"
| "resolve st (c # cs) =
     (if c = [46] then resolve st cs
      else if c = [46, 46] then (if st = [] then None else resolve (butlast st) cs)
      else resolve (st @ [c]) cs)"

definition path_text :: "u8 list list \<Rightarrow> u8 list" where
  "path_text cs = (if cs = [] then [47] else concat (map (\<lambda>c. 47 # c) cs))"

text \<open>What the loop has written when it has come to a directory\<close>

definition dir_text :: "u8 list list \<Rightarrow> u8 list" where
  "dir_text st = 47 # concat (map (\<lambda>c. c @ [47]) st)"

definition is_name :: "u8 list \<Rightarrow> bool" where
  "is_name c \<longleftrightarrow> c \<noteq> [] \<and> 47 \<notin> set c \<and> 0 \<notin> set c"

lemma dir_text_snoc: "dir_text (st @ [c]) = dir_text st @ c @ [47]"
  by (simp add: dir_text_def)

lemma path_dir_text: "cs \<noteq> [] \<Longrightarrow> dir_text cs = path_text cs @ [47]"
proof (induction cs)
  case (Cons c cs)
  then show ?case by (cases cs) (simp_all add: dir_text_def path_text_def)
qed simp

lemma path_up_dir:
  assumes "is_name c"
  shows "path_up (dir_text (st @ [c])) = Some (dir_text st)"
proof -
  have "dropWhile in_name (rev (dir_text st @ c)) = dropWhile in_name (rev (dir_text st))"
    using assms by (simp add: is_name_def dropWhile_append)
  moreover have "dropWhile in_name (rev (dir_text st)) = rev (dir_text st)"
    by (cases st rule: rev_cases) (simp_all add: dir_text_def)
  ultimately show ?thesis by (simp add: path_up_def dir_text_snoc butlast_append)
qed

lemma components_Nil [simp]: "components [] = []"
  by (simp add: components.simps)

lemma components_skip: "components (dropWhile slash xs) = components xs"
proof -
  have "dropWhile slash (dropWhile slash xs) = dropWhile slash xs" by (rule dropWhile_idem)
  then show ?thesis using components.simps [of xs] components.simps [of "dropWhile slash xs"] by simp
qed

lemma components_name:
  assumes "c \<noteq> []" "47 \<notin> set c" "rest = [] \<or> hd rest = 47"
  shows "components (c @ rest) = c # components rest"
proof -
  obtain y ys where y: "c = y # ys" "y \<noteq> 47" using assms(1,2) by (cases c) auto
  have "takeWhile in_name (ys @ rest) = ys" "dropWhile in_name (ys @ rest) = rest"
    using assms(2,3) y by (cases rest; auto simp: takeWhile_append dropWhile_append)+
  then show ?thesis using y components.simps [of "c @ rest"] by simp
qed

lemma path_run_Nil: "path_run out [] = Some out"
  by (simp add: path_run.simps)

text \<open>One name of the path at a time\<close>

lemma path_run_dot:
  assumes "rest = [] \<or> hd rest = 47"
  shows "path_run out (46 # rest) = path_run out (dropWhile slash rest)"
proof (cases rest)
  case (Cons x r)
  then show ?thesis using assms path_run.simps [of out "46 # rest"] by simp
qed (simp add: path_run.simps [of out "[46]"] path_run_Nil)

lemma path_run_dotdot:
  assumes "rest = [] \<or> hd rest = 47"
  shows "path_run out (46 # 46 # rest) = Option.bind (path_up out) (\<lambda>out. path_run out (dropWhile slash rest))"
proof (cases rest)
  case (Cons x r)
  then show ?thesis using assms path_run.simps [of out "46 # 46 # rest"] by simp
qed (simp add: path_run.simps [of out "[46, 46]"])

text \<open>No byte comes from nowhere.\<close>

lemma path_run_set: "path_run out xs = Some t \<Longrightarrow> set t \<subseteq> set out \<union> set xs \<union> {47}"
proof (induction out xs arbitrary: t rule: path_run.induct)
  case (1 out xs)
  have up: "set o' \<subseteq> set out" if "path_up out = Some o'" for o' using path_up_prefix [OF that] by (rule set_mono_prefix)
  have d: "set (dropWhile slash (drop k xs)) \<subseteq> set xs" for k
    using set_dropWhileD [of _ slash "drop k xs"] set_drop_subset [of k xs] by blast
  consider "xs = [46]" | "xs \<noteq> [46]" "prefix [46, 47] xs" | "xs = [46, 46]"
    | "xs \<noteq> [46]" "\<not> prefix [46, 47] xs" "xs \<noteq> [46, 46]" "prefix [46, 46, 47] xs"
    | "xs \<noteq> [46]" "\<not> prefix [46, 47] xs" "xs \<noteq> [46, 46]" "\<not> prefix [46, 46, 47] xs" by blast
  then show ?case
  proof cases
    case 1
    then show ?thesis using "1.prems" path_run.simps [of out xs] by auto
  next
    case 2
    then show ?thesis using "1.IH"(1) [OF 2, of t] "1.prems" path_run.simps [of out xs] d [of 2] by auto
  next
    case 3
    then obtain o' where "path_up out = Some o'" "path_run o' [] = Some t"
      using "1.prems" path_run_dotdot [of "[]" out] by (auto elim: bind_SomeE)
    then show ?thesis using up by (auto simp: path_run_Nil)
  next
    case 4
    then obtain o' where o: "path_up out = Some o'" "path_run o' (dropWhile slash (drop 3 xs)) = Some t"
      using "1.prems" path_run.simps [of out xs] by (auto elim: bind_SomeE)
    show ?thesis using "1.IH"(3) [OF 4 o] up [OF o(1)] d [of 3] by blast
  next
    case 5
    have s: "set (takeWhile in_name xs) \<subseteq> set xs" "set (dropWhile slash (dropWhile in_name xs)) \<subseteq> set xs"
      by (auto dest: set_takeWhileD set_dropWhileD)
    show ?thesis using "1.IH"(4) [OF 5 refl refl, of t] "1.prems" path_run.simps [of out xs] 5 s
      by (auto simp: Let_def split: if_splits)
  qed
qed

lemma path_run_name:
  assumes "47 \<notin> set c" "c \<noteq> [46]" "c \<noteq> [46, 46]" "rest = [] \<or> hd rest = 47"
  shows "path_run out (c @ rest) =
    (if rest = [] then Some (out @ c) else path_run (out @ c @ [47]) (dropWhile slash rest))"
proof -
  have "c @ rest \<noteq> [46]" "\<not> prefix [46, 47] (c @ rest)" "c @ rest \<noteq> [46, 46]" "\<not> prefix [46, 46, 47] (c @ rest)"
    using assms by (auto simp: append_eq_Cons_conv prefix_def Cons_eq_append_conv)
  moreover have "takeWhile in_name (c @ rest) = c" "dropWhile in_name (c @ rest) = rest"
    using assms(1,4) by (cases rest; auto simp: takeWhile_append dropWhile_append)+
  ultimately show ?thesis using path_run.simps [of out "c @ rest"] by (simp only: Let_def if_False)
qed

lemma path_run_resolve:
  assumes "\<forall>c \<in> set st. is_name c" "xs = [] \<or> hd xs \<noteq> 47" "0 \<notin> set xs" "resolve st (components xs) = Some cs"
  shows "(\<forall>c \<in> set cs. is_name c) \<and> (\<exists>t. path_run (dir_text st) xs = Some t \<and> (t = dir_text cs \<or> dir_text cs = t @ [47] \<and> cs \<noteq> []))"
  using assms
proof (induction xs arbitrary: st rule: length_induct)
  case (1 xs)
  show ?case
  proof (cases xs)
    case Nil
    then show ?thesis using "1.prems" by (simp add: path_run_Nil)
  next
    case (Cons x ys)
    define c rest where "c = takeWhile in_name xs" and "rest = dropWhile in_name xs"
    have xs: "xs = c @ rest" by (simp add: c_def rest_def)
    have c: "is_name c" "rest = [] \<or> hd rest = 47"
      using "1.prems"(2,3) Cons hd_dropWhile [of in_name xs]
      by (auto simp: is_name_def c_def rest_def dest: set_takeWhileD)
    have cs: "components xs = c # components (dropWhile slash rest)"
      using components_name [of c rest] c by (simp add: xs is_name_def components_skip)
    have shorter: "length (dropWhile slash rest) < length xs"
      using c(1) length_dropWhile_le [of slash rest] by (cases c) (auto simp: xs is_name_def)
    have later: "dropWhile slash rest = [] \<or> hd (dropWhile slash rest) \<noteq> 47" "0 \<notin> set (dropWhile slash rest)"
      using "1.prems"(3) hd_dropWhile [of slash rest] by (auto simp: xs dest: set_dropWhileD)
    note ih = "1.IH" [rule_format, OF shorter _ later]
    show ?thesis
    proof (cases "c = [46] \<or> c = [46, 46]")
      case True
      then show ?thesis
      proof
        assume d: "c = [46]"
        then show ?thesis using ih [of st] "1.prems"(1,4) cs path_run_dot [OF c(2), of "dir_text st"] xs by simp
      next
        assume d: "c = [46, 46]"
        then have "st \<noteq> []" using "1.prems"(4) cs by auto
        then obtain st' n where st: "st = st' @ [n]" by (cases st rule: rev_cases) auto
        then have "path_run (dir_text st) xs = path_run (dir_text st') (dropWhile slash rest)"
          using "1.prems"(1) d path_run_dotdot [OF c(2), of "dir_text st"] path_up_dir [of n st'] xs by simp
        then show ?thesis using ih [of st'] "1.prems"(1,4) cs st d by simp
      qed
    next
      case False
      then have r: "path_run (dir_text st) xs =
          (if rest = [] then Some (dir_text st @ c) else path_run (dir_text (st @ [c])) (dropWhile slash rest))"
        using path_run_name [of c rest "dir_text st"] c xs by (simp add: is_name_def dir_text_snoc)
      have t: "resolve (st @ [c]) (components (dropWhile slash rest)) = Some cs" using "1.prems"(4) cs False by simp
      show ?thesis
      proof (cases "rest = []")
        case True
        then have "cs = st @ [c]" using t by simp
        then show ?thesis using r True c(1) "1.prems"(1) by (auto simp: dir_text_snoc)
      next
        case rest: False
        have "is_name n" if "n \<in> set (st @ [c])" for n using that c(1) "1.prems"(1) by auto
        from ih [OF this t] show ?thesis using r rest by simp
      qed
    qed
  qed
qed

text \<open>An absolute path that does not lead above the root comes out as the names it resolves to.\<close>

lemma trim_dir_text:
  assumes "\<forall>c \<in> set cs. is_name c" "t = dir_text cs \<or> dir_text cs = t @ [47] \<and> cs \<noteq> []"
  shows "trim_path t = path_text cs"
proof (cases "cs = []")
  case True
  then show ?thesis using assms(2) by (auto simp: trim_path_def path_text_def dir_text_def)
next
  case False
  then obtain st c where c: "cs = st @ [c]" by (cases cs rule: rev_cases) auto
  have "c \<noteq> []" "last c \<noteq> 47" using assms(1) c last_in_set [of c] by (auto simp: is_name_def simp del: last_in_set)
  then have "last (path_text cs) \<noteq> 47" "path_text cs \<noteq> []" using assms(1) c by (auto simp: path_text_def is_name_def)
  then show ?thesis using assms(2) path_dir_text [OF False] by (auto simp: trim_path_def)
qed

lemma path_run_absolute:
  assumes "prefix [47] xs" "0 \<notin> set xs" "resolve [] (components xs) = Some cs"
  shows "\<exists>t. path_run [] xs = Some t \<and> t \<noteq> [] \<and> 0 \<notin> set t \<and> trim_path t = path_text cs"
proof -
  obtain ys where ys: "xs = 47 # ys" using assms(1) by (auto simp: prefix_def)
  have r: "path_run [] xs = path_run (dir_text []) (dropWhile slash ys)"
    using path_run.simps [of "[]" xs] by (simp add: ys dir_text_def)
  have "dropWhile slash ys = [] \<or> hd (dropWhile slash ys) \<noteq> 47" "0 \<notin> set (dropWhile slash ys)"
    using assms(2) hd_dropWhile [of slash ys] by (auto simp: ys dest: set_dropWhileD)
  moreover have "components (dropWhile slash ys) = components xs"
    using components_skip [of xs] by (simp add: ys)
  ultimately obtain t where cs: "\<forall>c \<in> set cs. is_name c" and t: "path_run [] xs = Some t"
    "t = dir_text cs \<or> dir_text cs = t @ [47] \<and> cs \<noteq> []"
    using path_run_resolve [of "[]" "dropWhile slash ys" cs] assms(3) unfolding r by auto
  have "0 \<notin> set (dir_text cs)" using cs by (auto simp: dir_text_def is_name_def)
  then have "0 \<notin> set t" using t(2) by auto
  moreover have "t \<noteq> []" using t(2) by (auto simp: dir_text_def)
  ultimately show ?thesis using t(1) trim_dir_text [OF cs t(2)] by blast
qed

text \<open>
  A \<open>".."\<close> above the root takes the first slash away: the path that comes out is not absolute any more. A second
  one makes the function answer with a null pointer.
\<close>

lemma path_above_root: "path_run [] (47 # 46 # 46 # 47 # xs) = path_run [] (dropWhile slash xs)"
  by (simp add: path_run.simps [of "[]" "47 # 46 # 46 # 47 # xs"] path_run_dotdot [of "47 # xs"] path_up_def)

lemma path_above_root_relative: "path_run [] (47 # 46 # 46 # 47 # map ch ''a'') = Some (map ch ''a'')"
  unfolding path_above_root by (simp add: path_run.simps)

lemma path_above_root_empty: "path_run [] (47 # map ch ''..'') = Some []"
  using path_run_dotdot [of "[]" "[47]"] path_run.simps [of "[]" "[47, 46, 46]"] by (simp add: path_up_def path_run_Nil)

lemma path_above_root_twice: "path_run [] (47 # 46 # 46 # 47 # map ch ''..'') = None"
  unfolding path_above_root using path_run_dotdot [of "[]" "[]"] by (simp add: path_up_def)

section \<open>The path before it is normalised\<close>

lemma read_string_eq: "string_at m s cs \<Longrightarrow> read_string s m = Some cs"
  by (induction cs arbitrary: s) (simp_all add: read_string.simps [of _ m] load8_def)

text \<open>The format \<open>"%s/%s"\<close>\<close>

definition join_format :: "u8 list" where "join_format = map ch ''%s/%s''"

lemma directive_text_s:
  assumes "load8 fmt m = Some (ch CHR ''s'')" "string_at m s cs" "s \<noteq> 0" "length cs \<le> 2 ^ 29"
  shows "directive_text m fmt 0 (- 1) (- 1) 0 (s # args) = Some (cs, fmt, args)"
  using assms by (simp add: directive_text_def moderate_minus_1 va_arg_def string_arg_def read_string_eq string_text_def)

lemma format_text_s:
  assumes "load8 fmt m = Some (ch CHR ''%'')" "load8 (fmt + 1) m = Some (ch CHR ''s'')"
    and "string_at m s cs" "s \<noteq> 0" "length cs \<le> 2 ^ 29" "format_text m (fmt + 2) args = Some t"
  shows "format_text m fmt (s # args) = Some (cs @ t)"
proof -
  have "\<not> is_digit (ch CHR ''s'')" by (simp add: is_digit_def)
  then show ?thesis using format_text_directive [OF assms(1,2) _ _ directive_text_s [OF assms(2-5)] assms(6)] by simp
qed

lemma format_text_join:
  assumes "string_at m fmt join_format" and "string_at m d xs" "d \<noteq> 0" "length xs \<le> 2 ^ 29"
    and "string_at m f ys" "f \<noteq> 0" "length ys \<le> 2 ^ 29"
  shows "format_text m fmt [d, f] = Some (xs @ 47 # ys)"
proof -
  have b: "load8 fmt m = Some (ch CHR ''%'')" "load8 (fmt + 1) m = Some (ch CHR ''s'')"
    "load8 (fmt + 2) m = Some 47" "load8 (fmt + 3) m = Some (ch CHR ''%'')"
    "load8 (fmt + 4) m = Some (ch CHR ''s'')" "load8 (fmt + 5) m = Some 0"
    using assms(1) by (simp_all add: join_format_def load8_def add.assoc)
  have "format_text m (fmt + 3) [f] = Some (ys @ [])"
    by (rule format_text_s [OF b(4) _ assms(5,6,7) format_text_end]) (simp_all add: b add.assoc)
  then have "format_text m (fmt + 2) [f] = Some (47 # ys)"
    by (intro format_text_plain [OF b(3)]) (simp_all add: add.assoc)
  from format_text_s [OF b(1,2) assms(2-4) this] show ?thesis by simp
qed

lemma string_at_outside:
  assumes "string_at m a xs" "range_at a (length xs + 1) \<inter> range_at p n = {}"
  shows "string_at (outside m p n) a xs"
proof -
  have "outside m p n x = m x" if "x \<in> range_at a (length (xs @ [0]))" for x
  proof -
    have "x \<notin> range_at p n" using assms(2) that by auto
    then show ?thesis by (simp add: outside_def)
  qed
  then have "holds_at (outside m p n) a (xs @ [0]) = holds_at m a (xs @ [0])" by (rule holds_at_cong)
  then show ?thesis using assms(1) by (simp add: string_at_def)
qed

text \<open>A string the function reads: not at address 0, and where a fresh block cannot be\<close>

definition readable :: "(u32 \<times> u32) list \<Rightarrow> heap \<Rightarrow> u32 \<Rightarrow> u8 list \<Rightarrow> bool" where
  "readable live h a xs \<longleftrightarrow> a \<noteq> 0 \<and> string_at (user_bytes h) a xs \<and> keeps_clear live h (range_at a (length xs + 1))"

definition full_path :: "u8 list \<Rightarrow> u8 list \<Rightarrow> u8 list" where
  "full_path xs ys = (if prefix [47] ys then ys else xs @ 47 # ys)"

text \<open>The block \<open>p\<close> of \<open>n\<close> bytes has been taken, the path is in it, and no other byte of \<open>m\<close> has changed.\<close>

definition path_block :: "(u32 \<times> u32) list \<Rightarrow> mem \<Rightarrow> nat \<Rightarrow> u8 list \<Rightarrow> u32 \<Rightarrow> heap \<Rightarrow> bool" where
  "path_block live m n xs p h \<longleftrightarrow> (\<exists>bs. holds_blocks ((p, of_nat n) # live) h bs) \<and> string_at (user_bytes h) p xs \<and>
     same_outside p n m (user_bytes h)"

lemma build_absolute:
  assumes h: "holds_blocks live h bs" "heap_mapped h" and f: "readable live h filename ys" "prefix [47] ys" "length ys + 4 < 2 ^ 32"
  shows "\<exists>p h'. build_path fmt directory filename h = Some (p, h') \<and>
    (if p = 0 then rt_malloc (of_nat (length ys + 1)) h = Some (0, h) \<and> h' = h else path_block live (user_bytes h) (length ys + 1) ys p h')"
proof -
  have s: "string_at (user_bytes h) filename ys" "keeps_clear live h (range_at filename (length ys + 1))"
    using f(1) by (simp_all add: readable_def)
  have "load8 filename (user_bytes h) = Some (ch CHR ''/'')"
    using f(2) s(1) by (cases ys) (simp_all add: load8_def prefix_def)
  then have b: "build_path fmt directory filename h = rt_strdup filename h" by (simp add: build_path_def)
  obtain p h' bs' where r: "rt_strdup filename h = Some (p, h')"
    "if p = 0 then h' = h
     else holds_blocks ((p, of_nat (length ys + 1)) # live) h' bs' \<and>
       string_at (user_bytes h') p ys \<and> string_at (user_bytes h') filename ys \<and>
       same_outside p (length ys + 1) (user_bytes h) (user_bytes h')"
    using rt_strdup_ok [OF h s(1) f(3) s(2)] by blast
  have "rt_malloc (of_nat (length ys + 1)) h = Some (0, h)" if "p = 0"
    using r that unfolding rt_strdup_def rt_strlen_eq [OF s(1)]
    by (auto simp: Let_def add.commute elim!: bind_SomeE split: if_splits)
  then show ?thesis using b r by (auto simp: path_block_def)
qed

lemma build_relative:
  assumes h: "holds_blocks live h bs" "heap_mapped h"
    and f: "readable live h filename ys" "\<not> prefix [47] ys" and d: "readable live h directory xs"
    and fmt: "readable live h fmt join_format" and l: "length xs + length ys + 1 \<le> 2 ^ 29"
  shows "\<exists>p h'. build_path fmt directory filename h = Some (p, h') \<and>
    (if p = 0 then rt_malloc (of_nat (length (xs @ 47 # ys) + 1)) h = Some (0, h) \<and> h' = h
     else path_block live (user_bytes h) (length (xs @ 47 # ys) + 1) (xs @ 47 # ys) p h')"
proof -
  define t where "t = xs @ 47 # ys"
  define n :: u32 where "n = of_nat (length t + 1)"
  have n: "unat n = length t + 1" unfolding n_def using l by (subst unat_small) (auto simp: t_def)
  have nl: "of_nat (length xs) + of_nat (length ys) + 2 = n" by (simp add: n_def t_def)
  have s: "string_at (user_bytes h) filename ys" "string_at (user_bytes h) directory xs"
    using f(1) d by (simp_all add: readable_def)
  have c: "\<exists>c. load8 filename (user_bytes h) = Some c \<and> c \<noteq> ch CHR ''/''"
    using f(2) s(1) by (cases ys) (auto simp: load8_def)
  obtain p h1 bs1 where r: "rt_malloc n h = Some (p, h1)"
    "holds_blocks (if p = 0 then live else (p, n) # live) h1 bs1" "heap_base_same h h1"
    using malloc_holds_blocks [OF h(1), of n] n l by (auto simp: t_def)
  have ub: "user_bytes h1 = user_bytes h" using r(3) by (simp add: heap_base_same_def)
  show ?thesis unfolding t_def [symmetric] n_def [symmetric]
  proof (cases "p = 0")
    case True
    have "0 < n" using n by (metis unat_gt_0 zero_less_Suc Suc_eq_plus1 word_neq_0_conv)
    then have "h1 = h" using malloc_null_same [OF h(1) _ _ r(1) [unfolded True]] n l by (simp add: t_def)
    then show "\<exists>p h'. build_path fmt directory filename h = Some (p, h') \<and>
      (if p = 0 then rt_malloc n h = Some (0, h) \<and> h' = h else path_block live (user_bytes h) (length t + 1) t p h')"
      using c r(1) True rt_strlen_eq [OF s(1)] rt_strlen_eq [OF s(2)] by (auto simp: build_path_def nl)
  next
    case False
    have hb: "holds_blocks ((p, n) # live) h1 bs1" using r(2) False by simp
    have mp: "mapped (user_bytes h1) p (unat n)" "unat p + unat n < 2 ^ 32"
      using held_block [OF hb, of p n] heap_mapped_base [OF r(3)] h(2) by auto
    have out: "string_at (outside (user_bytes h1) p (unat n)) a zs" if "readable live h a zs" for a zs
      using that held_clear [OF hb _ r(3)] ub by (intro string_at_outside) (auto simp: readable_def)
    have "format_text (outside (user_bytes h1) p (unat n)) fmt [directory, filename] = Some t"
      unfolding t_def using l f(1) d by (intro format_text_join out fmt) (auto simp: readable_def)
    then have "rt_snprintf p n fmt [directory, filename] (user_bytes h1) =
        Some (of_nat (length t), write_at p (fitted (unat n) t) (user_bytes h1))"
      unfolding rt_snprintf_def by (rule rt_vsnprintf_eq) (use mp n in auto)
    moreover have "fitted (unat n) t = t @ [0]" using n by (simp add: fitted_def)
    ultimately have b: "build_path fmt directory filename h = Some (p, h1\<lparr>user_bytes := write_at p (t @ [0]) (user_bytes h1)\<rparr>)"
      using c r(1) False rt_strlen_eq [OF s(1)] rt_strlen_eq [OF s(2)] by (auto simp: build_path_def nl ub)
    have "holds_at (write_at p (t @ [0]) (user_bytes h1)) p (t @ [0])"
      by (rule holds_at_write_at) (use l in \<open>simp add: t_def\<close>)
    moreover have "0 \<notin> set t" using s by (auto simp: t_def string_at_def)
    moreover have "same_outside p (length t + 1) (user_bytes h) (write_at p (t @ [0]) (user_bytes h1))"
      using same_outside_write [of "t @ [0]" "length t + 1" p "user_bytes h1"] ub by simp
    ultimately have "path_block live (user_bytes h) (length t + 1) t p (h1\<lparr>user_bytes := write_at p (t @ [0]) (user_bytes h1)\<rparr>)"
      using hb by (auto simp: path_block_def string_at_def n_def)
    then show "\<exists>p h'. build_path fmt directory filename h = Some (p, h') \<and>
      (if p = 0 then rt_malloc n h = Some (0, h) \<and> h' = h else path_block live (user_bytes h) (length t + 1) t p h')" using b False by auto
  qed
qed

section \<open>The whole function\<close>

text \<open>What is known of the arguments: the directory and the format are only read when the path is relative.\<close>

definition path_args :: "(u32 \<times> u32) list \<Rightarrow> heap \<Rightarrow> u32 \<Rightarrow> u32 \<Rightarrow> u32 \<Rightarrow> u8 list \<Rightarrow> u8 list \<Rightarrow> bool" where
  "path_args live h fmt directory filename xs ys \<longleftrightarrow>
     readable live h filename ys \<and> length (full_path xs ys) \<le> 2 ^ 29 \<and>
     (prefix [47] ys \<or> readable live h directory xs \<and> readable live h fmt join_format)"

lemma build_path_ok:
  assumes "holds_blocks live h bs" "heap_mapped h" "path_args live h fmt directory filename xs ys"
  shows "\<exists>p h'. build_path fmt directory filename h = Some (p, h') \<and>
    (if p = 0 then rt_malloc (of_nat (length (full_path xs ys) + 1)) h = Some (0, h) \<and> h' = h
     else path_block live (user_bytes h) (length (full_path xs ys) + 1) (full_path xs ys) p h')"
proof (cases "prefix [47] ys")
  case True
  then show ?thesis using build_absolute [OF assms(1,2)] assms(3) by (simp add: path_args_def full_path_def)
next
  case False
  then have e: "full_path xs ys = xs @ 47 # ys" by (simp add: full_path_def)
  show ?thesis unfolding e
    by (rule build_relative [OF assms(1,2)]) (use assms(3) False e in \<open>auto simp: path_args_def\<close>)
qed

lemma dfs_normalize_path_runs:
  assumes h: "holds_blocks live h bs" "heap_mapped h"
    and a: "path_args live h fmt (chosen_directory working_directory directory) filename xs ys"
  defines "full \<equiv> full_path xs ys"
  defines "n \<equiv> of_nat (length full + 1)"
  assumes no: "path_run [] full \<noteq> Some []"
  shows "\<exists>p h'. dfs_normalize_path working_directory fmt directory filename h = Some (p, h') \<and>
    (p = 0 \<and> rt_malloc n h = Some (0, h) \<and> h' = h \<or>
     (case path_run [] full of
        None \<Rightarrow> p = 0 \<and> (\<exists>bs. holds_blocks live h' bs)
      | Some t \<Rightarrow> p \<noteq> 0 \<and> path_block live (user_bytes h) (length full + 1) (trim_path t) p h'))"
proof -
  have f: "filename \<noteq> 0" "string_at (user_bytes h) filename ys" using a by (auto simp: path_args_def readable_def)
  obtain p h1 where b: "build_path fmt (chosen_directory working_directory directory) filename h = Some (p, h1)"
    "if p = 0 then rt_malloc n h = Some (0, h) \<and> h1 = h else path_block live (user_bytes h) (length full + 1) full p h1"
    using build_path_ok [OF h a] unfolding full_def n_def by blast
  obtain c where c: "load8 filename (user_bytes h) = Some c" using f(2) by (cases ys) (auto simp: load8_def)
  have "\<not> (working_directory = None \<and> directory = 0 \<and> c \<noteq> ch CHR ''/'')"
    using a c f(2) by (cases ys; cases working_directory) (auto simp: path_args_def readable_def chosen_directory_def load8_def)
  then have e: "dfs_normalize_path working_directory fmt directory filename h =
    (if p = 0 then Some (0, h1)
     else Option.bind (normalize_loop p p p (user_bytes h1)) (\<lambda>(r, b). case r of
       None \<Rightarrow> Option.bind (rt_free p (h1\<lparr>user_bytes := b\<rparr>)) (\<lambda>h. Some (0, h))
     | Some dst \<Rightarrow> Option.bind (finish_path p dst (user_bytes (h1\<lparr>user_bytes := b\<rparr>)))
         (\<lambda>b'. Some (p, h1\<lparr>user_bytes := b, user_bytes := b'\<rparr>))))"
    using f(1) c b(1) by (auto simp: dfs_normalize_path_def Let_def split: option.splits)
  show ?thesis
  proof (cases "p = 0")
    case True
    then show ?thesis using e b(2) by simp
  next
    case False
    obtain bs1 where hb: "holds_blocks ((p, n) # live) h1 bs1" and s: "string_at (user_bytes h1) p full"
      and o: "same_outside p (length full + 1) (user_bytes h) (user_bytes h1)"
      using b(2) False by (auto simp: path_block_def n_def)
    have "length full < 2 ^ 32 - 1" using a by (simp add: full_def path_args_def)
    then have "unat n = length full + 1" unfolding n_def by (subst unat_small) auto
    then have "unat p + length full + 1 < 2 ^ 32" using held_block(2) [OF hb, of p n] by simp
    moreover have "holds_at (user_bytes h1) p (full @ [0])" using s by (simp add: string_at_def)
    ultimately have "path_inv p (length full) (user_bytes h1) [] full"
      using s holds_at_mapped [of "user_bytes h1" p "full @ [0]"] by (simp add: path_inv_def text_to_def string_at_def)
    from normalize_loop_eq [OF this False]
    obtain m' where m': "normalize_loop p p p (user_bytes h1) =
        Some (map_option (\<lambda>t. p + of_nat (length t)) (path_run [] full), m')"
      "same_outside p (length full + 1) (user_bytes h1) m'"
      "\<forall>t. path_run [] full = Some t \<longrightarrow> path_inv p (length full) m' t []"
      by (auto simp: path_result_def)
    show ?thesis
    proof (cases "path_run [] full")
      case None
      obtain h2 bs2 where "rt_free p (h1\<lparr>user_bytes := m'\<rparr>) = Some h2" "holds_blocks live h2 bs2"
        using free_holds_blocks [of "(p, n) # live" "h1\<lparr>user_bytes := m'\<rparr>" bs1 0] hb by auto
      then show ?thesis using e False m'(1) None by auto
    next
      case (Some t)
      have "0 \<notin> set t" using path_run_set [OF Some] s by (auto simp: string_at_def)
      then obtain m2 where m2: "finish_path p (p + of_nat (length t)) m' = Some m2" "string_at m2 p (trim_path t)"
        "same_outside p (length full + 1) m' m2"
        using finish_path_eq [of p "length full" m' t] m'(3) Some no by auto
      have "same_outside p (length full + 1) (user_bytes h) m2"
        using same_outside_trans [OF same_outside_trans [OF o m'(2)] m2(3)] .
      then show ?thesis using e False m'(1) m2(1,2) Some hb by (auto simp: path_block_def n_def)
    qed
  qed
qed

text \<open>The part of a path below a mount point\<close>

lemma string_at_append:
  "string_at m a (xs @ ys) \<longleftrightarrow> holds_at m a xs \<and> 0 \<notin> set xs \<and> string_at m (a + of_nat (length xs)) ys"
  by (auto simp: string_at_def holds_at_append add.assoc)

lemma dfs_subdir_rest:
  assumes d: "string_at m directory xs" and f: "string_at m filename (xs @ ys)" and l: "length (xs @ ys) < 2 ^ 32"
    and y: "ys \<noteq> []" "hd ys = 47 \<or> xs \<noteq> [] \<and> last xs = 47"
  shows "\<exists>r. dfs_subdir directory filename m = Some r \<and> string_at m r (if hd ys = 47 then ys else 47 # ys)"
proof -
  let ?dir = "filename + of_nat (length xs)"
  have s: "string_at m ?dir ys" using f by (simp add: string_at_append)
  then have c: "load8 ?dir m = Some (hd ys)" using y(1) by (cases ys) (simp_all add: load8_def)
  have "(of_nat (length xs) :: u32) \<noteq> of_nat (length (xs @ ys))"
  proof
    assume "(of_nat (length xs) :: u32) = of_nat (length (xs @ ys))"
    then have "unat (of_nat (length xs) :: u32) = unat (of_nat (length (xs @ ys)) :: u32)" by (rule arg_cong)
    then have "length xs = length (xs @ ys)" using l by (subst (asm) (1 2) unat_small) auto
    then show False using y(1) by simp
  qed
  then have e: "dfs_subdir directory filename m = Some (if hd ys \<noteq> 47 \<and> ?dir \<noteq> filename then ?dir - 1 else ?dir)"
    using rt_strlen_eq [OF d] rt_strlen_eq [OF f] c by (simp add: dfs_subdir_def Let_def)
  show ?thesis
  proof (cases "hd ys = 47")
    case False
    then obtain zs where z: "xs = zs @ [47]" using y(2) by (metis append_butlast_last_id)
    then have "string_at m (?dir - 1) (47 # ys)" using f by (simp add: string_at_append)
    moreover have "?dir \<noteq> filename" using z l by (auto simp: word_of_nat_eq_0_iff simp del: of_nat_add of_nat_Suc dest: dvd_imp_le)
    ultimately show ?thesis using e False by simp
  qed (use e s in simp)
qed

section \<open>Properties\<close>

text \<open>
  C20. \<open>dfs_normalize_path\<close> in terms of names: the directory and the file name, joined by a slash unless the file
  name is absolute, are split at the slashes; empty names and \<open>"."\<close> count for nothing and \<open>".."\<close> takes the name in front of
  it away. When no \<open>".."\<close> leads above the root, the function never faults; it answers with a null pointer only if \<open>rt_malloc\<close> does, and
  otherwise with a block the program then holds besides, with the names that are left in it, each behind one
  slash. No byte outside that block changes.
\<close>

theorem dfs_normalize_path_resolves:
  assumes "holds_blocks live h bs" and "heap_mapped h"
    and "path_args live h fmt (chosen_directory working_directory directory) filename xs ys"
    and "prefix [47] (full_path xs ys)" and "resolve [] (components (full_path xs ys)) = Some cs"
  shows "\<exists>p h'. dfs_normalize_path working_directory fmt directory filename h = Some (p, h') \<and>
    (if p = 0 then rt_malloc (of_nat (length (full_path xs ys) + 1)) h = Some (0, h) \<and> h' = h
     else \<exists>bs'. holds_blocks ((p, of_nat (length (full_path xs ys) + 1)) # live) h' bs' \<and>
       string_at (user_bytes h') p (path_text cs) \<and>
       (\<forall>a. a \<notin> range_at p (length (full_path xs ys) + 1) \<longrightarrow> user_bytes h' a = user_bytes h a))"
proof -
  have "0 \<notin> set (full_path xs ys)" using assms(3)
    by (auto simp: path_args_def readable_def string_at_def full_path_def split: if_splits)
  then obtain t where t: "path_run [] (full_path xs ys) = Some t" "t \<noteq> []" "trim_path t = path_text cs"
    using path_run_absolute [OF assms(4) _ assms(5)] by blast
  then have "path_run [] (full_path xs ys) \<noteq> Some []" by simp
  from dfs_normalize_path_runs [OF assms(1-3) this] show ?thesis
    using t by (auto simp: path_block_def same_outside_def)
qed

text \<open>Going up twice from the root: the path is given back, and the answer is a null pointer.\<close>

theorem dfs_normalize_path_far_above:
  assumes "holds_blocks live h bs" and "heap_mapped h"
    and "path_args live h fmt (chosen_directory working_directory directory) filename xs ys"
    and "full_path xs ys = 47 # 46 # 46 # 47 # 46 # 46 # rest" and "rest = [] \<or> hd rest = 47"
  shows "\<exists>h' bs'. dfs_normalize_path working_directory fmt directory filename h = Some (0, h') \<and> holds_blocks live h' bs'"
proof -
  have "path_run [] (full_path xs ys) = None"
    unfolding assms(4) path_above_root using path_run_dotdot [OF assms(5), of "[]"] by (simp add: path_up_def)
  then show ?thesis using dfs_normalize_path_runs [OF assms(1-3)] assms(1) by auto
qed

text \<open>A concrete path: \<open>"/d"\<close> and \<open>"x//../b"\<close>\<close>

definition sample_paths :: mem where
  "sample_paths = write_at 100 (map ch ''/d'' @ [0]) (write_at 110 (map ch ''x//../b'' @ [0])
     (write_at 130 (join_format @ [0]) (\<lambda>_. Some 7)))"

abbreviation sample_path_heap :: heap where
  "sample_path_heap \<equiv> sample_heap\<lparr>user_bytes := sample_paths\<rparr>"

lemma sample_path_heap_ok: "heap_ok sample_path_heap [(False, 244)]"
  using sample_heap_ok by (simp add: heap_ok_def heap_shape_def)

lemma sample_readable:
  assumes "string_at sample_paths a xs" "0 < a" "a < 0x1000" "length xs < 0x1000"
  shows "readable [] sample_path_heap a xs"
proof -
  have "unat (mem_size_aligned sample_heap) + 12 = 244"
    using sample_path_heap_ok by (simp add: heap_ok_def heap_shape_def extent_def)
  moreover have "unat a < 0x1000" "unat (0x20000000 :: u32) = 0x20000000" using assms(3) by (simp_all add: word_less_nat_alt)
  ultimately have "range_at a (length xs + 1) \<inter> range_at 0x20000000 (unat (mem_size_aligned sample_heap) + 12) = {}"
    using assms(4) by (auto simp: range_at_no_wrap)
  then show ?thesis using assms(1,2) sample_heap_ptr by (auto simp: readable_def keeps_clear_def)
qed

theorem dfs_normalize_path_resolves_witness:
  "\<exists>p h'. dfs_normalize_path None 130 100 110 sample_path_heap = Some (p, h') \<and> p \<noteq> 0 \<and>
    string_at (user_bytes h') p (map ch ''/d/b'')"
proof -
  let ?xs = "map ch ''/d''" and ?ys = "map ch ''x//../b''"
  have a: "holds_blocks [] sample_path_heap [(False, 244)]" using sample_path_heap_ok by (simp add: holds_blocks_def)
  have "dom (\<lambda>_ :: u32. Some (7 :: u8)) = UNIV" by (simp add: dom_def)
  then have "dom sample_paths = UNIV" by (simp only: sample_paths_def dom_write_at) simp
  then have b: "heap_mapped sample_path_heap" by (simp add: heap_mapped_def mapped_def)
  have c: "path_args [] sample_path_heap 130 (chosen_directory None 100) 110 ?xs ?ys"
    unfolding path_args_def chosen_directory_def
    by (auto simp: full_path_def intro!: sample_readable) (simp_all add: sample_paths_def join_format_def)
  have d: "prefix [47] (full_path ?xs ?ys)" by (simp add: full_path_def)
  have e: "resolve [] (components (full_path ?xs ?ys)) = Some [[ch CHR ''d''], [ch CHR ''b'']]"
    by (simp add: full_path_def components.simps)
  have l: "of_nat (length (full_path ?xs ?ys) + 1) = (11 :: u32)" by (simp add: full_path_def)
  have t: "path_text [[ch CHR ''d''], [ch CHR ''b'']] = map ch ''/d/b''" by (simp add: path_text_def)
  obtain p h' where r: "dfs_normalize_path None 130 100 110 sample_path_heap = Some (p, h')"
    "if p = 0 then rt_malloc 11 sample_path_heap = Some (0, sample_path_heap) else string_at (user_bytes h') p (map ch ''/d/b'')"
    using dfs_normalize_path_resolves [OF a b c d e, unfolded l t]
    by (elim exE conjE) (rule that, assumption, simp split: if_splits)
  have "rt_malloc 11 sample_path_heap \<noteq> Some (0, sample_path_heap)"
    using rt_malloc_ok [OF sample_path_heap_ok, of 11] by (auto simp: one_block request_def no_room_def sample_heap_ptr)
  then show ?thesis using r by (cases "p = 0") auto
qed

end
