(* ===== verification/Dfs_Fs.thy ===== *)
theory Dfs_Fs
  imports Dfs_Path
begin

text \<open>
  The tables of the device file system of the reference kernel, \<open>components/dfs/src/dfs_fs.c\<close>: which file systems are
  mounted where (\<open>dfs_filesystem_lookup\<close>, \<open>dfs_filesystem_get_mounted_path\<close>), which kinds of file systems there are
  (\<open>dfs_register\<close>), and the partition table of a disk (\<open>dfs_filesystem_get_partition\<close>). The functions hold the lock of
  the file system while they look at a table, so that each is one step here.
\<close>

section \<open>The functions\<close>

record dfs_filesystem =
  fs_dev_id :: u32
  fs_path :: u32
  fs_ops :: u32
  fs_data :: u32

text \<open>The loop of \<open>dfs_filesystem_lookup\<close>; a pointer into the table is an index.\<close>

primrec lookup_loop :: "dfs_filesystem list \<Rightarrow> nat \<Rightarrow> nat option \<Rightarrow> u32 \<Rightarrow> u32 \<Rightarrow> mem \<Rightarrow> nat option option" where
  "lookup_loop [] i fs prefixlen path m = Some fs"
| "lookup_loop (iter # rest) i fs prefixlen path m =
     (if fs_path iter = 0 \<or> fs_ops iter = 0 then lookup_loop rest (i + 1) fs prefixlen path m
      else do {
        fspath \<leftarrow> rt_strlen (fs_path iter) m;
        other \<leftarrow> (if fspath < prefixlen then Some True
                 else map_option (\<lambda>r. r \<noteq> 0) (rt_strncmp (fs_path iter) path fspath m));
        if other then lookup_loop rest (i + 1) fs prefixlen path m
        else do {
          longer \<leftarrow> (if fspath > 1 then map_option (\<lambda>l. l > fspath) (rt_strlen path m) else Some False);
          inside \<leftarrow> (if longer then map_option (\<lambda>c. c \<noteq> ch CHR ''/'') (load8 (path + fspath) m) else Some False);
          if inside then lookup_loop rest (i + 1) fs prefixlen path m
          else lookup_loop rest (i + 1) (Some i) fspath path m } })"

definition dfs_filesystem_lookup :: "dfs_filesystem list \<Rightarrow> u32 \<Rightarrow> mem \<Rightarrow> nat option option" where
  "dfs_filesystem_lookup filesystem_table path m = do {
     _ \<leftarrow> RT_ASSERT (path \<noteq> 0);
     lookup_loop filesystem_table 0 None 0 path m }"

primrec dfs_filesystem_get_mounted_path :: "dfs_filesystem list \<Rightarrow> u32 \<Rightarrow> u32" where
  "dfs_filesystem_get_mounted_path [] device = 0"
| "dfs_filesystem_get_mounted_path (iter # rest) device =
     (if fs_ops iter = 0 then dfs_filesystem_get_mounted_path rest device
      else if fs_dev_id iter = device then fs_path iter
      else dfs_filesystem_get_mounted_path rest device)"

text \<open>
  The loop of \<open>dfs_register\<close>: the first empty entry and whether the name is taken. \<open>ops_name\<close> gives the member \<open>name\<close> of
  the structure at an address.
\<close>

primrec register_loop :: "u32 list \<Rightarrow> nat \<Rightarrow> nat option \<Rightarrow> (u32 \<rightharpoonup> u32) \<Rightarrow> u32 \<Rightarrow> mem \<Rightarrow> (nat option \<times> bool) option" where
  "register_loop [] i free ops_name ops m = Some (free, False)"
| "register_loop (iter # rest) i free ops_name ops m =
     (if iter = 0 then register_loop rest (i + 1) (if free = None then Some i else free) ops_name ops m
      else do {
        n1 \<leftarrow> ops_name iter;
        n2 \<leftarrow> ops_name ops;
        r \<leftarrow> rt_strcmp n1 n2 m;
        if r = 0 then Some (free, True) else register_loop rest (i + 1) free ops_name ops m })"

text \<open>The error numbers, with an \<open>ERROR_BASE_NO\<close> of 0\<close>

definition EEXIST :: u32 where "EEXIST = 17"
definition ENOSPC :: u32 where "ENOSPC = 28"
definition EIO :: u32 where "EIO = 5"

text \<open>The result, the error number, if one is set, and the table\<close>

definition dfs_register :: "u32 \<Rightarrow> (u32 \<rightharpoonup> u32) \<Rightarrow> mem \<Rightarrow> u32 list \<Rightarrow> (u32 \<times> u32 option \<times> u32 list) option" where
  "dfs_register ops ops_name m filesystem_operation_table = do {
     (free, exists) \<leftarrow> register_loop filesystem_operation_table 0 None ops_name ops m;
     let errno = (if exists then Some (- EEXIST) else None);
     Some (case free of
       None \<Rightarrow> (- 1, Some (- ENOSPC), filesystem_operation_table)
     | Some i \<Rightarrow> if exists then (- 1, errno, filesystem_operation_table) else (0, errno, filesystem_operation_table[i := ops])) }"

record dfs_partition =
  part_type :: u8
  part_offset :: u32
  part_size :: u32
  part_lock :: u32

definition dfs_filesystem_get_partition :: "u32 \<Rightarrow> u32 \<Rightarrow> mem \<Rightarrow> dfs_partition \<Rightarrow> (u32 \<times> dfs_partition) option" where
  "dfs_filesystem_get_partition buf pindex m part = do {
     _ \<leftarrow> RT_ASSERT (buf \<noteq> 0);
     let dpt = buf + 0x1be + pindex * 16;
     b \<leftarrow> load8 dpt m;
     if b \<noteq> 0x80 \<and> b \<noteq> 0 then Some (- EIO, part)
     else do {
       type \<leftarrow> load8 (dpt + 4) m;
       if type = 0 then Some (- EIO, part)
       else do {
         b8 \<leftarrow> load8 (dpt + 8) m; b9 \<leftarrow> load8 (dpt + 9) m; b10 \<leftarrow> load8 (dpt + 10) m; b11 \<leftarrow> load8 (dpt + 11) m;
         b12 \<leftarrow> load8 (dpt + 12) m; b13 \<leftarrow> load8 (dpt + 13) m; b14 \<leftarrow> load8 (dpt + 14) m; b15 \<leftarrow> load8 (dpt + 15) m;
         Some (0, part\<lparr>part_type := type,
           part_offset := ucast b8 OR push_bit 8 (ucast b9) OR push_bit 16 (ucast b10) OR push_bit 24 (ucast b11),
           part_size := ucast b12 OR push_bit 8 (ucast b13) OR push_bit 16 (ucast b14) OR push_bit 24 (ucast b15)\<rparr>) } } }"

section \<open>Where a path belongs\<close>

lemma components_path:
  assumes "\<forall>c \<in> set cs. is_name c" "rest = [] \<or> hd rest = 47"
  shows "components (concat (map (\<lambda>c. 47 # c) cs) @ rest) = cs @ components rest"
  using assms(1)
proof (induction cs)
  case (Cons c cs)
  let ?r = "concat (map (\<lambda>c. 47 # c) cs) @ rest"
  have "?r = [] \<or> hd ?r = 47" using assms(2) by (cases cs) auto
  then have "components (c @ ?r) = c # components ?r" using Cons.prems by (intro components_name) (auto simp: is_name_def)
  moreover have "components (47 # c @ ?r) = components (c @ ?r)"
    using components_skip [of "47 # c @ ?r"] components_skip [of "c @ ?r"] by simp
  ultimately show ?case using Cons by simp
qed simp

text \<open>A mount point is above a path if its names come first in it. The code compares bytes up to a slash.\<close>

definition text_above :: "u8 list \<Rightarrow> u8 list \<Rightarrow> bool" where
  "text_above xs ys \<longleftrightarrow> take (length xs) ys = xs \<and> (1 < length xs \<and> length xs < length ys \<longrightarrow> ys ! length xs = 47)"

lemma path_text_length: "\<forall>c \<in> set cs. is_name c \<Longrightarrow> length (path_text cs) = 1 \<longleftrightarrow> cs = []"
  by (cases cs) (auto simp: path_text_def is_name_def)

lemma text_above_names:
  assumes c: "\<forall>c \<in> set cs. is_name c" and p: "\<forall>c \<in> set ps. is_name c"
  shows "text_above (path_text cs) (path_text ps) \<longleftrightarrow> prefix cs ps"
proof
  assume "prefix cs ps"
  then obtain zs where z: "ps = cs @ zs" by (auto simp: prefix_def)
  show "text_above (path_text cs) (path_text ps)"
  proof (cases "cs = []")
    case True
    then show ?thesis by (cases ps) (simp_all add: text_above_def path_text_def)
  next
    case False
    then have "path_text ps = path_text cs @ concat (map (\<lambda>c. 47 # c) zs)" by (simp add: path_text_def z)
    then show ?thesis by (cases zs) (auto simp: text_above_def nth_append)
  qed
next
  assume t: "text_above (path_text cs) (path_text ps)"
  show "prefix cs ps"
  proof (cases "cs = []")
    case False
    then have l: "1 < length (path_text cs)" using path_text_length [OF c] by (cases cs) (auto simp: path_text_def)
    then have ps: "ps \<noteq> []" using t by (auto simp: text_above_def path_text_def dest: arg_cong [of _ _ length])
    define rest where "rest = drop (length (path_text cs)) (path_text ps)"
    have r: "path_text ps = path_text cs @ rest" using t append_take_drop_id [of "length (path_text cs)" "path_text ps"]
      by (simp add: text_above_def rest_def)
    have "rest = [] \<or> hd rest = 47" using t l r by (cases rest) (auto simp: text_above_def nth_append)
    from components_path [OF c this] have "components (path_text ps) = cs @ components rest"
      using r False by (simp add: path_text_def)
    moreover have "components (path_text ps) = ps" using components_path [OF p, of "[]"] ps by (simp add: path_text_def)
    ultimately show ?thesis by (auto simp: prefix_def)
  qed simp
qed

lemma path_text_mono:
  assumes "prefix ds cs" "ds \<noteq> cs" "\<forall>c \<in> set cs. is_name c"
  shows "length (path_text ds) < length (path_text cs)"
proof -
  obtain zs where z: "cs = ds @ zs" "zs \<noteq> []" using assms(1,2) by (auto simp: prefix_def)
  then obtain y ys where y: "zs = y # ys" by (cases zs) auto
  then have "y \<noteq> []" using assms(3) z by (auto simp: is_name_def)
  then show ?thesis using z y by (cases "ds = []") (auto simp: path_text_def)
qed

lemma prefix_longest:
  assumes "prefix ds ps" "prefix cs ps" "\<forall>c \<in> set ps. is_name c"
  shows "length (path_text ds) \<le> length (path_text cs) \<longleftrightarrow> length ds \<le> length cs"
proof (cases "length ds \<le> length cs")
  case True
  then have "prefix ds cs" using assms(1,2) prefix_length_prefix by blast
  moreover have "\<forall>c \<in> set cs. is_name c" using assms(2,3) set_mono_prefix by blast
  ultimately have "length (path_text ds) \<le> length (path_text cs)"
    using path_text_mono [of ds cs] by (cases "ds = cs") auto
  then show ?thesis using True by simp
next
  case False
  then have "prefix cs ds" "cs \<noteq> ds" using assms(1,2) prefix_length_prefix [of cs ps ds] by auto
  moreover have "\<forall>c \<in> set ds. is_name c" using assms(1,3) set_mono_prefix by blast
  ultimately have "length (path_text cs) < length (path_text ds)" by (intro path_text_mono)
  then show ?thesis using False by simp
qed

section \<open>The lookup finds the innermost mount point\<close>

text \<open>The names of the mount point of an entry, if the entry is in use\<close>

definition entry_at :: "mem \<Rightarrow> dfs_filesystem \<Rightarrow> u8 list list option \<Rightarrow> bool" where
  "entry_at m e mo \<longleftrightarrow> (case mo of
     None \<Rightarrow> fs_path e = 0 \<or> fs_ops e = 0
   | Some cs \<Rightarrow> fs_path e \<noteq> 0 \<and> fs_ops e \<noteq> 0 \<and> string_at m (fs_path e) (path_text cs) \<and>
       (\<forall>c \<in> set cs. is_name c) \<and> length (path_text cs) < 2 ^ 32)"

definition innermost :: "u8 list list option list \<Rightarrow> u8 list list \<Rightarrow> nat option \<Rightarrow> bool" where
  "innermost ms ps r \<longleftrightarrow> (case r of
     None \<Rightarrow> \<forall>ds. Some ds \<in> set ms \<longrightarrow> \<not> prefix ds ps
   | Some k \<Rightarrow> k < length ms \<and> (\<exists>cs. ms ! k = Some cs \<and> prefix cs ps \<and>
       (\<forall>ds. Some ds \<in> set ms \<longrightarrow> prefix ds ps \<longrightarrow> length ds \<le> length cs)))"

text \<open>What the loop knows after the entries \<open>ms\<close>: the entry it has found and the length of its path\<close>

definition found_so_far :: "u8 list list option list \<Rightarrow> u8 list list \<Rightarrow> nat option \<Rightarrow> nat \<Rightarrow> bool" where
  "found_so_far ms ps fs l \<longleftrightarrow> innermost ms ps fs \<and>
     (case fs of None \<Rightarrow> l = 0 | Some k \<Rightarrow> \<exists>cs. ms ! k = Some cs \<and> l = length (path_text cs))"

lemma found_skip:
  assumes f: "found_so_far ms ps fs l" and p: "\<forall>c \<in> set ps. is_name c"
    and o: "\<And>cs. mo = Some cs \<Longrightarrow> prefix cs ps \<Longrightarrow> length (path_text cs) < l"
  shows "found_so_far (ms @ [mo]) ps fs l"
proof (cases fs)
  case None
  then show ?thesis using f o by (auto simp: found_so_far_def innermost_def)
next
  case (Some k)
  then obtain cs where k: "k < length ms" "ms ! k = Some cs" "prefix cs ps" "l = length (path_text cs)"
    "\<And>ds. Some ds \<in> set ms \<Longrightarrow> prefix ds ps \<Longrightarrow> length ds \<le> length cs"
    using f by (auto simp: found_so_far_def innermost_def)
  have "length ds \<le> length cs" if "mo = Some ds" "prefix ds ps" for ds
    using o [OF that] prefix_longest [OF that(2) k(3) p] k(4) by simp
  then show ?thesis using Some k by (auto simp: found_so_far_def innermost_def nth_append)
qed

lemma found_next:
  assumes f: "found_so_far ms ps fs l" and p: "\<forall>c \<in> set ps. is_name c" and c: "prefix cs ps" "l \<le> length (path_text cs)"
  shows "found_so_far (ms @ [Some cs]) ps (Some (length ms)) (length (path_text cs))"
proof -
  have "length ds \<le> length cs" if d: "Some ds \<in> set ms" "prefix ds ps" for ds
  proof (cases fs)
    case None
    then show ?thesis using f d by (auto simp: found_so_far_def innermost_def)
  next
    case (Some k)
    then obtain es where "prefix es ps" "l = length (path_text es)" "length ds \<le> length es"
      using f d by (auto simp: found_so_far_def innermost_def)
    then show ?thesis using prefix_longest [OF _ c(1) p, of es] c(2) by simp
  qed
  then show ?thesis using c(1) by (auto simp: found_so_far_def innermost_def)
qed

text \<open>One entry that is in use\<close>

lemma lookup_loop_entry:
  assumes path: "string_at m path ys" "length ys < 2 ^ 32"
    and e: "fs_path e \<noteq> 0" "fs_ops e \<noteq> 0" "string_at m (fs_path e) xs" "length xs < 2 ^ 32" and l: "l < 2 ^ 32"
  shows "lookup_loop (e # table) i fs (of_nat l) path m =
    (if l \<le> length xs \<and> text_above xs ys then lookup_loop table (i + 1) (Some i) (of_nat (length xs)) path m
     else lookup_loop table (i + 1) fs (of_nat l) path m)"
proof -
  let ?n = "of_nat (length xs) :: u32"
  have u: "unat ?n = length xs" "unat (of_nat l :: u32) = l" "unat (of_nat (length ys) :: u32) = length ys"
    using assms by (simp_all add: unat_small)
  have less: "?n < of_nat l \<longleftrightarrow> length xs < l" "1 < ?n \<longleftrightarrow> 1 < length xs" "?n < of_nat (length ys) \<longleftrightarrow> length xs < length ys"
    using u by (simp_all add: word_less_nat_alt)
  obtain r where r: "rt_strncmp (fs_path e) path ?n m = Some r" "r = 0 \<longleftrightarrow> xs = take (length xs) ys"
    using rt_strcmp_orders [OF e(3) path(1), of ?n] u(1) by auto
  have len: "rt_strlen (fs_path e) m = Some ?n" "rt_strlen path m = Some (of_nat (length ys))"
    using rt_strlen_eq e(3) path(1) by blast+
  have c: "load8 (path + ?n) m = Some (ys ! length xs)" if "length xs < length ys"
    using holds_at_nth [OF string_at_holds [OF path(1)] that] by (simp add: load8_def)
  show ?thesis
  proof (cases "l \<le> length xs \<and> xs = take (length xs) ys")
    case True
    then have "text_above xs ys \<longleftrightarrow> (1 < length xs \<and> length xs < length ys \<longrightarrow> ys ! length xs = 47)"
      by (auto simp: text_above_def)
    moreover have "r = 0" "l \<le> length xs" using True r(2) by simp_all
    ultimately show ?thesis using e(1,2) r(1) len c
      by (cases "1 < length xs"; cases "length xs < length ys") (simp_all add: less)
  next
    case False
    then have "\<not> (l \<le> length xs \<and> text_above xs ys)" by (auto simp: text_above_def)
    then show ?thesis using False e(1,2) r len by (auto simp: less)
  qed
qed

lemma lookup_loop_eq:
  assumes path: "string_at m path (path_text ps)" and p: "\<forall>c \<in> set ps. is_name c" "length (path_text ps) < 2 ^ 32"
  shows "list_all2 (entry_at m) table ms \<Longrightarrow> found_so_far before ps fs l \<Longrightarrow> l < 2 ^ 32 \<Longrightarrow>
    \<exists>r. lookup_loop table (length before) fs (of_nat l) path m = Some r \<and> innermost (before @ ms) ps r"
proof (induction table arbitrary: before ms fs l)
  case Nil
  then show ?case by (simp add: found_so_far_def)
next
  case (Cons e table)
  then obtain mo ms' where ms: "ms = mo # ms'" "entry_at m e mo" "list_all2 (entry_at m) table ms'"
    by (auto simp: list_all2_Cons1)
  note skip = Cons.IH [OF ms(3) found_skip [OF Cons.prems(2) p(1)] Cons.prems(3)]
  show ?case
  proof (cases mo)
    case None
    then show ?thesis using ms skip [of mo] by (simp add: entry_at_def)
  next
    case (Some cs)
    let ?n = "length (path_text cs)"
    have c: "fs_path e \<noteq> 0" "fs_ops e \<noteq> 0" "string_at m (fs_path e) (path_text cs)" "?n < 2 ^ 32"
      and names: "\<forall>c \<in> set cs. is_name c" using ms(2) Some by (simp_all add: entry_at_def)
    note step = lookup_loop_entry [OF path p(2) c Cons.prems(3), of table "length before" fs,
        unfolded text_above_names [OF names p(1)]]
    show ?thesis
    proof (cases "l \<le> ?n \<and> prefix cs ps")
      case True
      then have "found_so_far (before @ [Some cs]) ps (Some (length before)) ?n"
        using found_next [OF Cons.prems(2) p(1)] by blast
      from Cons.IH [OF ms(3) this c(4)] show ?thesis using step True ms(1) Some by simp
    next
      case False
      then have "lookup_loop (e # table) (length before) fs (of_nat l) path m =
          lookup_loop table (length (before @ [mo])) fs (of_nat l) path m"
        using step False by (simp del: lookup_loop.simps)
      then show ?thesis using skip [of mo] False Some ms(1) by fastforce
    qed
  qed
qed

section \<open>The other tables\<close>

lemma dfs_filesystem_get_mounted_path_first:
  "dfs_filesystem_get_mounted_path table device =
    (case List.find (\<lambda>e. fs_ops e \<noteq> 0 \<and> fs_dev_id e = device) table of None \<Rightarrow> 0 | Some e \<Rightarrow> fs_path e)"
  by (induction table) auto

text \<open>The names of the file systems that are registered\<close>

definition registered :: "(u32 \<rightharpoonup> u32) \<Rightarrow> mem \<Rightarrow> u32 \<Rightarrow> u8 list \<Rightarrow> bool" where
  "registered ops_name m ops name \<longleftrightarrow> (\<exists>n. ops_name ops = Some n \<and> string_at m n name)"

lemma register_loop_eq:
  assumes "registered ops_name m ops name"
  shows "\<forall>e \<in> set table. e = 0 \<or> registered ops_name m e (names e) \<Longrightarrow>
    \<exists>free. register_loop table i free0 ops_name ops m = Some (free, \<exists>e \<in> set table. e \<noteq> 0 \<and> names e = name) \<and>
      ((\<forall>e \<in> set table. e = 0 \<or> names e \<noteq> name) \<longrightarrow>
       free = (if free0 = None \<and> 0 \<in> set table then Some (i + length (takeWhile (\<lambda>e. e \<noteq> 0) table)) else free0))"
  using assms
proof (induction table arbitrary: i free0)
  case (Cons e table)
  let ?taken = "\<exists>e \<in> set table. e \<noteq> 0 \<and> names e = name"
  note ih = Cons.IH [OF _ Cons.prems(2)]
  show ?case
  proof (cases "e = 0")
    case True
    obtain free where "register_loop table (i + 1) (if free0 = None then Some i else free0) ops_name ops m = Some (free, ?taken)"
      "(\<forall>e \<in> set table. e = 0 \<or> names e \<noteq> name) \<longrightarrow> free = (if free0 = None then Some i else free0)"
      using ih [of "i + 1" "if free0 = None then Some i else free0"] Cons.prems(1) by auto
    then show ?thesis using True by auto
  next
    case False
    obtain n1 n2 where n: "ops_name e = Some n1" "string_at m n1 (names e)" "ops_name ops = Some n2" "string_at m n2 name"
      using Cons.prems False by (auto simp: registered_def)
    obtain r where r: "rt_strcmp n1 n2 m = Some r" "r = 0 \<longleftrightarrow> names e = name" using rt_strcmp_eq [OF n(2,4)] by auto
    obtain free where "register_loop table (i + 1) free0 ops_name ops m = Some (free, ?taken)"
      "(\<forall>e \<in> set table. e = 0 \<or> names e \<noteq> name) \<longrightarrow>
       free = (if free0 = None \<and> 0 \<in> set table then Some (i + 1 + length (takeWhile (\<lambda>e. e \<noteq> 0) table)) else free0)"
      using ih [of "i + 1" free0] Cons.prems(1) by auto
    then show ?thesis using False n(1,3) r by (cases "names e = name") auto
  qed
qed simp

text \<open>A name that is taken, or no room, leaves the table as it is; otherwise the first free entry is used.\<close>

lemma dfs_register_ok:
  assumes "registered ops_name m ops name" and "\<forall>e \<in> set table. e = 0 \<or> registered ops_name m e (names e)"
  shows "\<exists>errno. dfs_register ops ops_name m table = Some
    (if (\<exists>e \<in> set table. e \<noteq> 0 \<and> names e = name) \<or> 0 \<notin> set table then (- 1, Some errno, table)
     else (0, None, table[length (takeWhile (\<lambda>e. e \<noteq> 0) table) := ops]))"
proof -
  obtain free where f: "register_loop table 0 None ops_name ops m = Some (free, \<exists>e \<in> set table. e \<noteq> 0 \<and> names e = name)"
    "(\<forall>e \<in> set table. e = 0 \<or> names e \<noteq> name) \<longrightarrow>
     free = (if 0 \<in> set table then Some (length (takeWhile (\<lambda>e. e \<noteq> 0) table)) else None)"
    using register_loop_eq [OF assms, of 0 None] by auto
  show ?thesis
  proof (cases "\<exists>e \<in> set table. e \<noteq> 0 \<and> names e = name")
    case True
    then show ?thesis using f(1) by (auto simp: dfs_register_def Let_def split: option.splits)
  next
    case False
    then show ?thesis using f by (auto simp: dfs_register_def Let_def)
  qed
qed

text \<open>A partition entry that is written is read back.\<close>

lemma dfs_filesystem_get_partition_reads:
  assumes "buf \<noteq> 0" and "dpt = buf + 0x1be + pindex * 16" and "flag = 0x80 \<or> flag = 0" and "type \<noteq> 0"
    and "m dpt = Some flag" and "m (dpt + 4) = Some type"
    and "holds_at m (dpt + 8) (bytes_of_word offset @ bytes_of_word sectors)"
  shows "dfs_filesystem_get_partition buf pindex m part =
    Some (0, part\<lparr>part_type := type, part_offset := offset, part_size := sectors\<rparr>)"
proof -
  have w: "word_of_bytes (ucast w) (ucast (drop_bit 8 w)) (ucast (drop_bit 16 w)) (ucast (drop_bit 24 w)) = w" for w
    using load32_word [of "write_at 0 (bytes_of_word w) Map.empty" 0 w]
    by (simp add: bytes_of_word_def load32_def aligned4_def load8_def)
  have "m (dpt + 8) = Some (ucast offset)" "m (dpt + 9) = Some (ucast (drop_bit 8 offset))"
    "m (dpt + 10) = Some (ucast (drop_bit 16 offset))" "m (dpt + 11) = Some (ucast (drop_bit 24 offset))"
    "m (dpt + 12) = Some (ucast sectors)" "m (dpt + 13) = Some (ucast (drop_bit 8 sectors))"
    "m (dpt + 14) = Some (ucast (drop_bit 16 sectors))" "m (dpt + 15) = Some (ucast (drop_bit 24 sectors))"
    using assms(7) by (simp_all add: bytes_of_word_def add.assoc)
  then show ?thesis using assms(1,3-6) w [of offset] w [of sectors] unfolding dfs_filesystem_get_partition_def
    by (auto simp: RT_ASSERT_def load8_def Let_def word_of_bytes_def simp flip: assms(2))
qed

section \<open>Property\<close>

text \<open>
  C19. In a table whose mount points are normalised paths, \<open>dfs_filesystem_lookup\<close> of a normalised path finds the file
  system it belongs to: an entry whose mount point is a directory above the path, and among those one with the
  most names; it finds none only if none of them is above the path. A mount point of which only a part of a name
  agrees does not count.
\<close>

theorem dfs_filesystem_lookup_innermost:
  assumes "list_all2 (entry_at m) filesystem_table ms" and "path \<noteq> 0" and "string_at m path (path_text ps)"
    and "\<forall>c \<in> set ps. is_name c" and "length (path_text ps) < 2 ^ 32"
  shows "\<exists>r. dfs_filesystem_lookup filesystem_table path m = Some r \<and>
    (case r of
       None \<Rightarrow> \<forall>cs. Some cs \<in> set ms \<longrightarrow> \<not> prefix cs ps
     | Some k \<Rightarrow> k < length ms \<and> (\<exists>cs. ms ! k = Some cs \<and> prefix cs ps \<and>
         (\<forall>ds. Some ds \<in> set ms \<longrightarrow> prefix ds ps \<longrightarrow> length ds \<le> length cs)))"
proof -
  have "found_so_far [] ps None 0" by (simp add: found_so_far_def innermost_def)
  from lookup_loop_eq [OF assms(3-5,1) this] show ?thesis
    using assms(2) by (simp add: dfs_filesystem_lookup_def innermost_def)
qed

text \<open>Mounted: \<open>"/"\<close>, nothing, \<open>"/a"\<close>; the path is \<open>"/a/b"\<close>.\<close>

definition sample_mounts :: "dfs_filesystem list" where
  "sample_mounts =
    [\<lparr>fs_dev_id = 0, fs_path = 10, fs_ops = 1, fs_data = 0\<rparr>, \<lparr>fs_dev_id = 0, fs_path = 0, fs_ops = 0, fs_data = 0\<rparr>,
     \<lparr>fs_dev_id = 0, fs_path = 20, fs_ops = 1, fs_data = 0\<rparr>]"

definition sample_strings :: mem where
  "sample_strings = [10 \<mapsto> 47, 11 \<mapsto> 0, 20 \<mapsto> 47, 21 \<mapsto> 97, 22 \<mapsto> 0, 30 \<mapsto> 47, 31 \<mapsto> 97, 32 \<mapsto> 47, 33 \<mapsto> 98, 34 \<mapsto> 0]"

theorem dfs_filesystem_lookup_innermost_witness:
  "\<exists>k. dfs_filesystem_lookup sample_mounts 30 sample_strings = Some (Some k) \<and> k = 2"
proof -
  let ?ms = "[Some [], None, Some [[97 :: u8]]]"
  have m: "list_all2 (entry_at sample_strings) sample_mounts ?ms"
    by (simp add: sample_mounts_def entry_at_def sample_strings_def path_text_def is_name_def)
  have p: "string_at sample_strings 30 (path_text [[97], [98]])" by (simp add: sample_strings_def path_text_def)
  have n: "(30 :: u32) \<noteq> 0" "\<forall>c \<in> set [[97], [98]]. is_name c" "length (path_text [[97], [98]]) < 2 ^ 32"
    by (simp_all add: is_name_def path_text_def)
  obtain r where r: "dfs_filesystem_lookup sample_mounts 30 sample_strings = Some r"
    "case r of None \<Rightarrow> \<forall>cs. Some cs \<in> set ?ms \<longrightarrow> \<not> prefix cs [[97], [98]]
     | Some k \<Rightarrow> k < length ?ms \<and> (\<exists>cs. ?ms ! k = Some cs \<and> prefix cs [[97], [98]] \<and>
         (\<forall>ds. Some ds \<in> set ?ms \<longrightarrow> prefix ds [[97], [98]] \<longrightarrow> length ds \<le> length cs))"
    using dfs_filesystem_lookup_innermost [OF m n(1) p n(2,3)] by (elim exE conjE) (rule that)
  show ?thesis
  proof (cases r)
    case None
    then show ?thesis using r(2) by auto
  next
    case (Some k)
    then have "k = 0 \<or> k = 1 \<or> k = 2" using r(2) by auto
    then show ?thesis using r Some by (elim disjE) auto
  qed
qed

end
