(* ===== verification/Dfs_Fd.thy ===== *)
theory Dfs_Fd
  imports Heap_Use "HOL-Library.Multiset"
begin

text \<open>
  File descriptors of the reference kernel, \<open>components/dfs/src/dfs.c\<close>: \<open>fd_alloc\<close>, \<open>fd_new\<close>, \<open>fd_get\<close> and \<open>fd_put\<close>. The
  table of pointers and the descriptors are blocks of the heap; the pointers are read and written in memory,
  and a descriptor is known by the address of its block. The configuration is the default one of \<open>dfs.h\<close>, without lightweight
  processes and without a console behind the first three numbers, so that there is one table. \<open>fslock\<close> is how often the running thread holds the lock of the file system.
\<close>

section \<open>The functions\<close>

record dfs_fd =
  fd_magic :: u16
  fd_type :: u16
  fd_path :: u32
  fd_ref_count :: u32
  fd_fs :: u32
  fd_fops :: u32
  fd_flags :: u32
  fd_size :: u32
  fd_pos :: u32
  fd_data :: u32

record dfs =
  maxfd :: u32
  fds :: u32
  fd_at :: "u32 \<rightharpoonup> dfs_fd"
  fs_heap :: heap
  fslock :: nat

definition DFS_FD_MAX :: u32 where "DFS_FD_MAX = 4"
definition DFS_FD_OFFSET :: u32 where "DFS_FD_OFFSET = 3"
definition DFS_FD_MAGIC :: u16 where "DFS_FD_MAGIC = 0xfdfd"

definition dfs_lock :: "dfs \<Rightarrow> dfs" where
  "dfs_lock s = s\<lparr>fslock := fslock s + 1\<rparr>"

definition dfs_unlock :: "dfs \<Rightarrow> dfs option" where
  "dfs_unlock s = (if fslock s = 0 then None else Some (s\<lparr>fslock := fslock s - 1\<rparr>))"

text \<open>\<open>fdt->fds[idx]\<close>\<close>

definition get_slot :: "u32 \<Rightarrow> dfs \<Rightarrow> u32 option" where
  "get_slot idx s = load32 (fds s + 4 * idx) (user_bytes (fs_heap s))"

definition set_slot :: "u32 \<Rightarrow> u32 \<Rightarrow> dfs \<Rightarrow> dfs option" where
  "set_slot idx p s = do {
     b \<leftarrow> store32 (fds s + 4 * idx) p (user_bytes (fs_heap s));
     Some (s\<lparr>fs_heap := (fs_heap s)\<lparr>user_bytes := b\<rparr>\<rparr>) }"

text \<open>The three steps of \<open>fd_alloc\<close>: find an entry, make the table larger, allocate the descriptor\<close>

partial_function (option) find_slot :: "u32 \<Rightarrow> dfs \<Rightarrow> u32 option" where
  "find_slot idx s =
     (if sint idx < sint (maxfd s) then do {
        p \<leftarrow> get_slot idx s;
        if p = 0 then Some idx
        else do {
          d \<leftarrow> fd_at s p;
          if fd_ref_count d = 0 then Some idx else find_slot (idx + 1) s } }
      else Some idx)"

partial_function (option) clear_slots :: "u32 \<Rightarrow> u32 \<Rightarrow> u32 \<Rightarrow> mem \<Rightarrow> mem option" where
  "clear_slots a index cnt m =
     (if sint index < sint cnt then do {
        m \<leftarrow> store32 (a + 4 * index) 0 m;
        clear_slots a (index + 1) cnt m }
      else Some m)"

text \<open>\<open>False\<close>: \<open>goto __exit\<close>\<close>

definition grow_slots :: "dfs \<Rightarrow> (bool \<times> dfs) option" where
  "grow_slots s =
     (let cnt = maxfd s + 4;
          cnt = (if sint cnt > sint DFS_FD_MAX then DFS_FD_MAX else cnt)
      in do {
        (new_fds, h) \<leftarrow> rt_realloc (fds s) (cnt * 4) (fs_heap s);
        if new_fds = 0 then Some (False, s\<lparr>fs_heap := h\<rparr>)
        else do {
          b \<leftarrow> clear_slots new_fds (maxfd s) cnt (user_bytes h);
          Some (True, s\<lparr>fds := new_fds, maxfd := cnt, fs_heap := h\<lparr>user_bytes := b\<rparr>\<rparr>) } })"

definition zero_fd :: dfs_fd where
  "zero_fd = \<lparr>fd_magic = 0, fd_type = 0, fd_path = 0, fd_ref_count = 0, fd_fs = 0, fd_fops = 0, fd_flags = 0,
     fd_size = 0, fd_pos = 0, fd_data = 0\<rparr>"

definition fill_slot :: "u32 \<Rightarrow> dfs \<Rightarrow> (u32 \<times> dfs) option" where
  "fill_slot idx s =
     (if sint idx < sint (maxfd s) then do {
        p \<leftarrow> get_slot idx s;
        if p = 0 then do {
          (d, h) \<leftarrow> rt_calloc 1 36 (fs_heap s);
          s \<leftarrow> set_slot idx d (s\<lparr>fs_heap := h\<rparr>);
          if d = 0 then Some (maxfd s, s) else Some (idx, s\<lparr>fd_at := (fd_at s)(d \<mapsto> zero_fd)\<rparr>) }
        else Some (idx, s) }
      else Some (idx, s))"

definition fd_alloc :: "u32 \<Rightarrow> dfs \<Rightarrow> (u32 \<times> dfs) option" where
  "fd_alloc startfd s = do {
     idx \<leftarrow> find_slot startfd s;
     (go_on, s) \<leftarrow> (if idx = maxfd s \<and> maxfd s < DFS_FD_MAX then grow_slots s else Some (True, s));
     if go_on then fill_slot idx s else Some (idx, s) }"

definition fd_new :: "dfs \<Rightarrow> (u32 \<times> dfs) option" where
  "fd_new s = do {
     let s = dfs_lock s;
     (idx, s) \<leftarrow> fd_alloc 0 s;
     (idx, s) \<leftarrow>
       (if idx = maxfd s then Some (- (1 + DFS_FD_OFFSET), s)
        else do {
          p \<leftarrow> get_slot idx s;
          d \<leftarrow> fd_at s p;
          Some (idx, s\<lparr>fd_at := (fd_at s)(p \<mapsto> d\<lparr>fd_ref_count := 1, fd_magic := DFS_FD_MAGIC\<rparr>)\<rparr>) });
     s \<leftarrow> dfs_unlock s;
     Some (idx + DFS_FD_OFFSET, s) }"

definition fd_get :: "u32 \<Rightarrow> dfs \<Rightarrow> (u32 \<times> dfs) option" where
  "fd_get fd s =
     (let fd = fd - DFS_FD_OFFSET
      in if sint fd < 0 \<or> sint fd \<ge> sint (maxfd s) then Some (0, s)
         else do {
           let s = dfs_lock s;
           p \<leftarrow> get_slot fd s;
           if p = 0 then do { s \<leftarrow> dfs_unlock s; Some (0, s) }
           else do {
             d \<leftarrow> fd_at s p;
             if fd_magic d \<noteq> DFS_FD_MAGIC then do { s \<leftarrow> dfs_unlock s; Some (0, s) }
             else do {
               let s = s\<lparr>fd_at := (fd_at s)(p \<mapsto> d\<lparr>fd_ref_count := fd_ref_count d + 1\<rparr>)\<rparr>;
               s \<leftarrow> dfs_unlock s;
               Some (p, s) } } })"

text \<open>The loop of \<open>fd_put\<close>, which gives the descriptor back where it finds it\<close>

partial_function (option) drop_fd :: "u32 \<Rightarrow> u32 \<Rightarrow> dfs \<Rightarrow> dfs option" where
  "drop_fd fd index s =
     (if sint index < sint (maxfd s) then do {
        p \<leftarrow> get_slot index s;
        if p = fd then do {
          h \<leftarrow> rt_free fd (fs_heap s);
          set_slot index 0 (s\<lparr>fs_heap := h, fd_at := (fd_at s)(fd := None)\<rparr>) }
        else drop_fd fd (index + 1) s }
      else Some s)"

definition fd_put :: "u32 \<Rightarrow> dfs \<Rightarrow> dfs option" where
  "fd_put fd s = do {
     _ \<leftarrow> RT_ASSERT (fd \<noteq> 0);
     let s = dfs_lock s;
     d \<leftarrow> fd_at s fd;
     let d = d\<lparr>fd_ref_count := fd_ref_count d - 1\<rparr>;
     let s = s\<lparr>fd_at := (fd_at s)(fd \<mapsto> d)\<rparr>;
     s \<leftarrow> (if fd_ref_count d = 0 then drop_fd fd 0 s else Some s);
     dfs_unlock s }"

section \<open>Words in memory\<close>

definition words_at :: "mem \<Rightarrow> u32 \<Rightarrow> u32 list \<Rightarrow> bool" where
  "words_at m a ws \<longleftrightarrow> holds_at m a (concat (map bytes_of_word ws))"

lemma bytes_of_word_length [simp]: "length (bytes_of_word w) = 4"
  by (simp add: bytes_of_word_def)

lemma words_length [simp]: "length (concat (map bytes_of_word ws)) = 4 * length ws"
  by (induction ws) simp_all

lemma aligned4_index: "aligned4 a \<Longrightarrow> aligned4 (a + 4 * of_nat i)"
proof (induction i)
  case (Suc i)
  have e: "a + 4 * of_nat (Suc i) = a + 4 * of_nat i + 4" by (simp add: algebra_simps)
  show ?case unfolding e aligned4_plus4 by (rule Suc.IH [OF Suc.prems])
qed simp

lemma words_at_split:
  "words_at m a (us @ vs) \<longleftrightarrow> words_at m a us \<and> words_at m (a + 4 * of_nat (length us)) vs"
  by (simp add: words_at_def holds_at_append)

lemma load32_words:
  assumes "words_at m a ws" "aligned4 a" "i < length ws"
  shows "load32 (a + 4 * of_nat i) m = Some (ws ! i)"
proof -
  have "ws = take i ws @ ws ! i # drop (Suc i) ws" using assms(3) by (rule id_take_nth_drop)
  then have "words_at m (a + 4 * of_nat i) (ws ! i # drop (Suc i) ws)"
    using assms(1,3) words_at_split [of m a "take i ws" "ws ! i # drop (Suc i) ws"] by simp
  then have "holds_at m (a + 4 * of_nat i) (bytes_of_word (ws ! i))" by (simp add: words_at_def holds_at_append)
  then show ?thesis using load32_word aligned4_index [OF assms(2)] by blast
qed

lemma words_at_mapped: "words_at m a ws \<Longrightarrow> mapped m a (4 * length ws)"
  unfolding words_at_def using holds_at_mapped [of m a "concat (map bytes_of_word ws)"] by simp

lemma store32_words:
  assumes "words_at m a ws" "aligned4 a" "i < length ws" "4 * length ws < 2 ^ 32"
  shows "\<exists>m'. store32 (a + 4 * of_nat i) w m = Some m' \<and> words_at m' a (ws[i := w]) \<and>
    same_outside a (4 * length ws) m m' \<and> dom m' = dom m"
proof -
  let ?p = "a + 4 * of_nat i"
  have ws: "ws = take i ws @ ws ! i # drop (Suc i) ws" using assms(3) by (rule id_take_nth_drop)
  have parts: "words_at m a (take i ws)" "words_at m ?p (ws ! i # drop (Suc i) ws)"
    using assms(1,3) words_at_split [of m a "take i ws" "ws ! i # drop (Suc i) ws"] ws by simp_all
  then have mp: "mapped m ?p 4" and after: "words_at m (?p + 4) (drop (Suc i) ws)"
    using words_at_mapped [of m ?p "[ws ! i]"] by (simp_all add: words_at_def holds_at_append)
  let ?m = "write_at ?p (bytes_of_word w) m"
  have "range_at (a + of_nat 0) (4 * i) \<inter> range_at (a + of_nat (4 * i)) 4 = {}"
    by (rule range_at_apart [of _ _ _ _ "4 * length ws"]) (use assms(3,4) in auto)
  then have "words_at ?m a (take i ws)" using parts(1) assms(3) unfolding words_at_def
    by (subst holds_at_other) (simp_all add: min_absorb2)
  moreover have "range_at (a + of_nat (4 * i)) 4 \<inter> range_at (a + of_nat (4 * i + 4)) (4 * length (drop (Suc i) ws)) = {}"
    by (rule range_at_apart [of _ _ _ _ "4 * length ws"]) (use assms(3,4) in auto)
  then have "words_at ?m (?p + 4) (drop (Suc i) ws)" using after unfolding words_at_def
    by (subst holds_at_other) (auto simp: add.assoc)
  moreover have "holds_at ?m ?p (bytes_of_word w)" by (rule holds_at_write_at) simp
  ultimately have "words_at ?m a (take i ws @ w # drop (Suc i) ws)"
    using words_at_split [of ?m a "take i ws" "w # drop (Suc i) ws"] assms(3)
    by (simp add: words_at_def holds_at_append min_absorb2)
  moreover have "same_outside a (4 * length ws) m ?m"
    unfolding same_outside_def
  proof (intro allI impI)
    fix x assume "x \<notin> range_at a (4 * length ws)"
    moreover have "4 \<le> 4 * (length ws - i)" "4 * i + 4 * (length ws - i) = 4 * length ws" using assms(3) by simp_all
    then have "range_at ?p 4 \<subseteq> range_at a (4 * length ws)"
      using range_at_add [of a "4 * i" "4 * (length ws - i)"] range_at_mono [of 4 "4 * (length ws - i)" ?p] by auto
    ultimately show "?m x = m x" by (intro write_at_outside) auto
  qed
  moreover have "dom ?m = dom m" using mp by (simp add: dom_write_at mapped_def sup.absorb1)
  ultimately show ?thesis
    using store32_eq [OF mp aligned4_index [OF assms(2)]] assms(3) by (auto simp: upd_conv_take_nth_drop)
qed

section \<open>The table and the heap\<close>

text \<open>The order in which the program lists its blocks does not matter.\<close>

lemma holds_blocks_cong:
  assumes "mset live = mset live'"
  shows "holds_blocks live h bs = holds_blocks live' h bs"
proof -
  have "set live = set live'" using assms by (metis set_mset_mset)
  moreover have "mset (map fst live) = mset (map fst live')" using assms by simp
  then have "distinct (map fst live) = distinct (map fst live')" by (rule mset_eq_imp_distinct_iff)
  ultimately show ?thesis by (simp add: holds_blocks_def)
qed

text \<open>\<open>slots\<close> are the pointers of the table. The table and each descriptor are blocks the program holds besides \<open>live\<close>.\<close>

definition fd_blocks :: "u32 list \<Rightarrow> dfs \<Rightarrow> (u32 \<times> u32) list" where
  "fd_blocks slots s = (if slots = [] then [] else [(fds s, 16)]) @ map (\<lambda>p. (p, 36)) (filter (\<lambda>p. p \<noteq> 0) slots)"

definition fd_table :: "(u32 \<times> u32) list \<Rightarrow> u32 list \<Rightarrow> dfs \<Rightarrow> bool" where
  "fd_table live slots s \<longleftrightarrow>
     (slots = [] \<and> maxfd s = 0 \<and> fds s = 0 \<or> length slots = 4 \<and> maxfd s = 4 \<and> words_at (user_bytes (fs_heap s)) (fds s) slots) \<and>
     heap_mapped (fs_heap s) \<and> (\<exists>bs. holds_blocks (fd_blocks slots s @ live) (fs_heap s) bs)"

lemma fd_table_fields [simp]:
  "fd_table live slots (s\<lparr>fd_at := f\<rparr>) = fd_table live slots s"
  "fd_table live slots (s\<lparr>fslock := n\<rparr>) = fd_table live slots s"
  "get_slot i (s\<lparr>fd_at := f\<rparr>) = get_slot i s"
  "get_slot i (s\<lparr>fslock := n\<rparr>) = get_slot i s"
  unfolding fd_table_def fd_blocks_def get_slot_def by simp_all

lemma fd_table_blocks:
  assumes "fd_table live slots s"
  obtains bs where "holds_blocks (fd_blocks slots s @ live) (fs_heap s) bs"
  using assms by (auto simp: fd_table_def)

lemma fd_table_aligned: "fd_table live slots s \<Longrightarrow> slots \<noteq> [] \<Longrightarrow> aligned4 (fds s)"
  by (erule fd_table_blocks) (auto simp: fd_blocks_def aligned4_unat dvd_eq_mod_eq_0 [symmetric] dest: held_block(1) [where p = "fds s"])

lemma get_slot_eq:
  assumes "fd_table live slots s" "i < length slots"
  shows "get_slot (of_nat i) s = Some (slots ! i)"
proof -
  have "words_at (user_bytes (fs_heap s)) (fds s) slots" using assms by (auto simp: fd_table_def)
  moreover have "aligned4 (fds s)" using fd_table_aligned [OF assms(1)] assms(2) by force
  ultimately show ?thesis using load32_words assms(2) by (simp add: get_slot_def)
qed

lemma sint_index: "i < 2 ^ 31 \<Longrightarrow> sint (of_nat i :: u32) = int i"
  by (rule sint_of_nat) simp

lemma fd_table_bound: "fd_table live slots s \<Longrightarrow> sint (maxfd s) = int (length slots) \<and> length slots \<le> 4"
  by (auto simp: fd_table_def)

text \<open>Writing an entry: what is held must be known to be held afterwards.\<close>

lemma set_slot_eq:
  assumes t: "length slots = 4" "maxfd s = 4" "words_at (user_bytes (fs_heap s)) (fds s) slots" "aligned4 (fds s)"
    and m: "heap_mapped (fs_heap s)" and i: "i < length slots"
    and h: "holds_blocks (fd_blocks (slots[i := p]) s @ live) (fs_heap s) bs"
  shows "\<exists>s'. set_slot (of_nat i) p s = Some s' \<and> fd_table live (slots[i := p]) s' \<and>
    fd_at s' = fd_at s \<and> fslock s' = fslock s"
proof -
  obtain b where b: "store32 (fds s + 4 * of_nat i) p (user_bytes (fs_heap s)) = Some b"
    "words_at b (fds s) (slots[i := p])" "dom b = dom (user_bytes (fs_heap s))"
    using store32_words [OF t(3,4) i, of p] t(1) by auto
  have "heap_mapped ((fs_heap s)\<lparr>user_bytes := b\<rparr>)" using m b(3) by (simp add: heap_mapped_def mapped_def)
  moreover have "slots[i := p] \<noteq> []" using t(1) by auto
  ultimately show ?thesis using b t(1,2) h by (auto simp: set_slot_def fd_table_def fd_blocks_def)
qed

section \<open>The operations\<close>

lemma find_slot_eq:
  assumes t: "fd_table live slots s" and d: "\<forall>p \<in> set slots. p \<noteq> 0 \<longrightarrow> (\<exists>d. fd_at s p = Some d \<and> fd_ref_count d \<noteq> 0)"
  shows "k \<le> length slots \<Longrightarrow>
    find_slot (of_nat k) s = Some (of_nat (k + length (takeWhile (\<lambda>p. p \<noteq> 0) (drop k slots))))"
proof (induction "length slots - k" arbitrary: k)
  case 0
  then show ?case using fd_table_bound [OF t] find_slot.simps [of "of_nat k" s] sint_index [of k] by simp
next
  case (Suc n)
  then have k: "k < length slots" by simp
  then have less: "sint (of_nat k :: u32) < sint (maxfd s)" using fd_table_bound [OF t] sint_index [of k] by simp
  have dr: "drop k slots = slots ! k # drop (Suc k) slots" using k by (simp add: Cons_nth_drop_Suc)
  note step = find_slot.simps [of "of_nat k" s] less get_slot_eq [OF t k]
  show ?case
  proof (cases "slots ! k = 0")
    case False
    then obtain f where "fd_at s (slots ! k) = Some f" "fd_ref_count f \<noteq> 0" using d k nth_mem by blast
    moreover have "find_slot (of_nat (Suc k)) s = Some (of_nat (Suc k + length (takeWhile (\<lambda>p. p \<noteq> 0) (drop (Suc k) slots))))"
      by (rule Suc.hyps(1)) (use Suc.hyps(2) k in simp_all)
    ultimately show ?thesis using step False dr by (simp add: ac_simps)
  qed (use step dr in simp)
qed

text \<open>The table grows from nothing to its full size.\<close>

lemma mapped_words: "mapped m a (4 * k) \<Longrightarrow> \<exists>ws. length ws = k \<and> words_at m a ws"
proof (induction k arbitrary: a)
  case 0
  then show ?case by (simp add: words_at_def)
next
  case (Suc k)
  have p: "mapped m a 4" "mapped m (a + 4) (4 * k)" using Suc.prems mapped_add [of m a 4 "4 * k"] by simp_all
  obtain ws where ws: "length ws = k" "words_at m (a + 4) ws" using Suc.IH [OF p(2)] by blast
  obtain xs where xs: "length xs = 4" "holds_at m a xs" using mapped_holds [OF p(1)] by blast
  then obtain b0 b1 b2 b3 where "xs = [b0, b1, b2, b3]" by (auto simp: eval_nat_numeral length_Suc_conv)
  then have "words_at m a (word_of_bytes b0 b1 b2 b3 # ws)"
    using xs(2) ws(2) by (simp add: words_at_def bytes_word add.assoc)
  then show ?case using ws(1) by (metis length_Cons)
qed

lemma clear_slots_eq:
  assumes "aligned4 a"
  shows "words_at m a ws \<Longrightarrow> length ws = 4 \<Longrightarrow> k \<le> 4 \<Longrightarrow>
    \<exists>m'. clear_slots a (of_nat k) 4 m = Some m' \<and> words_at m' a (take k ws @ replicate (4 - k) 0) \<and> dom m' = dom m"
proof (induction "4 - k" arbitrary: k m ws)
  case 0
  then show ?case by (simp add: clear_slots.simps [of a 4])
next
  case (Suc n)
  then have k: "k < 4" and n: "n = 4 - Suc k" by simp_all
  obtain m1 where m1: "store32 (a + 4 * of_nat k) 0 m = Some m1" "words_at m1 a (ws[k := 0])" "dom m1 = dom m"
    using store32_words [OF Suc.prems(1) assms, of k 0] Suc.prems(2) k by auto
  obtain m2 where m2: "clear_slots a (of_nat (Suc k)) 4 m1 = Some m2"
    "words_at m2 a (take (Suc k) (ws[k := 0]) @ replicate (4 - Suc k) 0)" "dom m2 = dom m1"
    using Suc.hyps(1) [OF n m1(2)] Suc.prems(2) k by auto
  have "take (Suc k) (ws[k := 0]) @ replicate (4 - Suc k) 0 = take k ws @ replicate (4 - k) 0"
    using k Suc.prems(2) by (simp add: take_Suc_conv_app_nth Suc_diff_Suc [symmetric])
  moreover have "sint (of_nat k :: u32) < sint (4 :: u32)" using k sint_index [of k] by simp
  ultimately show ?case using m1 m2 clear_slots.simps [of a "of_nat k" 4 m] by (simp add: ac_simps)
qed

lemma rt_realloc_null: "rt_realloc 0 16 h = (if mem_size_aligned h < 16 then Some (0, h) else rt_malloc 16 h)"
proof -
  have "RT_ALIGN 16 = 16" by (simp add: RT_ALIGN_def)
  then show ?thesis by (simp add: rt_realloc_def)
qed

lemma grow_slots_eq:
  assumes "fd_table live [] s"
  shows "\<exists>ok s'. grow_slots s = Some (ok, s') \<and> fd_table live (if ok then replicate 4 0 else []) s' \<and>
    fd_at s' = fd_at s \<and> fslock s' = fslock s"
proof -
  obtain bs where h: "holds_blocks live (fs_heap s) bs" using assms by (auto simp: fd_table_def fd_blocks_def)
  have t: "maxfd s = 0" "fds s = 0" "heap_mapped (fs_heap s)" using assms by (auto simp: fd_table_def)
  have cnt: "(if sint (maxfd s + 4) > sint DFS_FD_MAX then DFS_FD_MAX else maxfd s + 4) = 4"
    by (simp add: t DFS_FD_MAX_def)
  obtain p h1 bs1 where r: "rt_realloc 0 16 (fs_heap s) = Some (p, h1)"
    "holds_blocks (if p = 0 then live else (p, 16) # live) h1 bs1" "heap_base_same (fs_heap s) h1"
    using malloc_holds_blocks [OF h, of 16] h unfolding rt_realloc_null
    by (cases "mem_size_aligned (fs_heap s) < 16") (auto simp: heap_base_same_def)
  have m: "heap_mapped h1" using heap_mapped_base [OF r(3)] t(3) by simp
  have g: "grow_slots s = (if p = 0 then Some (False, s\<lparr>fs_heap := h1\<rparr>)
      else Option.bind (clear_slots p 0 4 (user_bytes h1)) (\<lambda>b.
        Some (True, s\<lparr>fds := p, maxfd := 4, fs_heap := h1\<lparr>user_bytes := b\<rparr>\<rparr>)))"
    unfolding grow_slots_def Let_def cnt using r(1) t by simp
  show ?thesis
  proof (cases "p = 0")
    case True
    then show ?thesis using g r(2) t m by (auto simp: fd_table_def fd_blocks_def)
  next
    case False
    then have hb: "holds_blocks ((p, 16) # live) h1 bs1" using r(2) by simp
    have a: "aligned4 p" "mapped (user_bytes h1) p (4 * 4)"
      using held_block(1) [OF hb, of p 16] held_block(3) [OF hb, of p 16 , OF _ m]
      by (auto simp: aligned4_unat dvd_eq_mod_eq_0 [symmetric])
    obtain ws where "length ws = 4" "words_at (user_bytes h1) p ws" using mapped_words [OF a(2)] by blast
    then obtain b where b: "clear_slots p 0 4 (user_bytes h1) = Some b" "words_at b p (replicate 4 0)"
      "dom b = dom (user_bytes h1)"
      using clear_slots_eq [OF a(1), of "user_bytes h1" ws 0] by auto
    have "heap_mapped (h1\<lparr>user_bytes := b\<rparr>)" using m b(3) by (simp add: heap_mapped_def mapped_def)
    moreover have "fd_blocks (replicate 4 0) (s\<lparr>fds := p, maxfd := 4, fs_heap := h1\<lparr>user_bytes := b\<rparr>\<rparr>) = [(p, 16)]"
      by (simp add: fd_blocks_def)
    moreover have "holds_blocks ([(p, 16)] @ live) (h1\<lparr>user_bytes := b\<rparr>) bs1" using hb by simp
    ultimately have "fd_table live (replicate 4 0) (s\<lparr>fds := p, maxfd := 4, fs_heap := h1\<lparr>user_bytes := b\<rparr>\<rparr>)"
      using b(2) unfolding fd_table_def by (intro conjI disjI2 exI [of _ bs1]) simp_all
    then show ?thesis using g False b(1)
      by (intro exI [of _ True] exI [of _ "s\<lparr>fds := p, maxfd := 4, fs_heap := h1\<lparr>user_bytes := b\<rparr>\<rparr>"]) simp
  qed
qed

text \<open>A fresh descriptor goes into a free entry.\<close>

lemma slot_split:
  assumes "i < length slots" "slots ! i = q"
  obtains xs ys where "slots = xs @ q # ys" "\<And>p. slots[i := p] = xs @ p # ys" "length xs = i"
proof (rule that)
  show "slots = take i slots @ q # drop (Suc i) slots"
    unfolding assms(2) [symmetric] by (rule id_take_nth_drop [OF assms(1)])
  show "slots[i := p] = take i slots @ p # drop (Suc i) slots" for p by (rule upd_conv_take_nth_drop [OF assms(1)])
  show "length (take i slots) = i" using assms(1) by simp
qed

lemma filter_slot:
  assumes "i < length slots" "slots ! i = 0" "p \<noteq> 0"
  shows "mset (filter (\<lambda>p. p \<noteq> 0) (slots[i := p])) = add_mset p (mset (filter (\<lambda>p. p \<noteq> 0) slots))"
    and "set (slots[i := p]) - {0} = insert p (set slots - {0})"
proof -
  obtain xs ys where "slots = xs @ 0 # ys" "slots[i := p] = xs @ p # ys" by (rule slot_split [OF assms(1,2)]) blast
  then show "mset (filter (\<lambda>p. p \<noteq> 0) (slots[i := p])) = add_mset p (mset (filter (\<lambda>p. p \<noteq> 0) slots))"
    and "set (slots[i := p]) - {0} = insert p (set slots - {0})" using assms(3) by auto
qed

lemma fill_slot_eq:
  assumes t: "fd_table live slots s" "length slots = 4" and i: "i \<le> 4" "i < 4 \<Longrightarrow> slots ! i = 0"
  shows "\<exists>d s'. fill_slot (of_nat i) s = Some (if i < 4 \<and> d \<noteq> 0 then of_nat i else 4, s') \<and> fslock s' = fslock s \<and>
    (if i < 4 \<and> d \<noteq> 0 then d \<notin> set slots \<and> fd_table live (slots[i := d]) s' \<and> fd_at s' = (fd_at s)(d \<mapsto> zero_fd)
     else fd_table live slots s' \<and> fd_at s' = fd_at s)"
proof -
  have m: "maxfd s = 4" "words_at (user_bytes (fs_heap s)) (fds s) slots" "heap_mapped (fs_heap s)"
    using t by (auto simp: fd_table_def)
  show ?thesis
  proof (cases "i < 4")
    case False
    then have "i = 4" using i(1) by simp
    then show ?thesis using t(1) m(1) by (auto simp: fill_slot_def)
  next
    case True
    have less: "sint (of_nat i :: u32) < sint (maxfd s)" using sint_index [of i] True m(1) by simp
    have al: "aligned4 (fds s)" using fd_table_aligned [OF t(1)] t(2) by force
    obtain bs where hb: "holds_blocks (fd_blocks slots s @ live) (fs_heap s) bs" by (rule fd_table_blocks [OF t(1)])
    obtain d h1 bs1 where r: "rt_malloc 36 (fs_heap s) = Some (d, h1)"
      "holds_blocks (if d = 0 then fd_blocks slots s @ live else (d, 36) # fd_blocks slots s @ live) h1 bs1"
      "heap_base_same (fs_heap s) h1"
      using malloc_holds_blocks [OF hb, of 36] by auto
    have mp: "heap_mapped h1" using heap_mapped_base [OF r(3)] m(3) by simp
    have ub: "user_bytes h1 = user_bytes (fs_heap s)" using r(3) by (simp add: heap_base_same_def)
    show ?thesis
    proof (cases "d = 0")
      case d: True
      let ?s = "s\<lparr>fs_heap := h1\<rparr>"
      have e: "slots[i := 0] = slots" using i(2) True by (metis list_update_id)
      have "holds_blocks (fd_blocks slots ?s @ live) (fs_heap ?s) bs1" using r(2) d by (cases "slots = []") (simp_all add: fd_blocks_def)
      then obtain s' where s': "set_slot (of_nat i) 0 ?s = Some s'" "fd_table live slots s'" "fd_at s' = fd_at s" "fslock s' = fslock s"
        using set_slot_eq [of slots ?s i 0 live bs1, unfolded e] t(2) m(1,2) al mp ub True by auto
      have "maxfd s' = 4" using s'(2) t(2) by (auto simp: fd_table_def)
      then show ?thesis using s'  less get_slot_eq [OF t(1), of i] t(2) True i(2) r(1) d
        by (auto simp: fill_slot_def rt_calloc_def)
    next
      case d: False
      let ?b = "write_at d (replicate 36 0) (user_bytes h1)"
      let ?h = "h1\<lparr>user_bytes := ?b\<rparr>" and ?s = "s\<lparr>fs_heap := h1\<lparr>user_bytes := write_at d (replicate 36 0) (user_bytes h1)\<rparr>\<rparr>"
      have hd: "holds_blocks ((d, 36) # fd_blocks slots s @ live) h1 bs1" using r(2) d by simp
      have md: "mapped (user_bytes h1) d (unat (36 :: u32))" by (rule held_block(3) [OF hd _ mp]) simp
      have new: "d \<notin> fst ` set (fd_blocks slots s)" using hd by (auto simp: holds_blocks_def)
      have f: "(fds s, 16) \<in> set (fd_blocks slots s)" using t(2) by (auto simp: fd_blocks_def)
      have ds: "d \<notin> set slots" "fds s \<noteq> d"
      proof -
        have "fst (fds s, 16 :: u32) \<in> fst ` set (fd_blocks slots s)" using f by (rule imageI)
        then show "fds s \<noteq> d" using new by auto
        have "fst (d, 36 :: u32) \<in> fst ` set (fd_blocks slots s)" if "d \<in> set slots"
          by (rule imageI) (use that d in \<open>simp add: fd_blocks_def\<close>)
        then show "d \<notin> set slots" using new by auto
      qed
      have calloc: "rt_calloc 1 36 (fs_heap s) = Some (d, ?h)"
        using r(1) d rt_memset_eq [OF md, of 0] by (simp add: rt_calloc_def)
      have "range_at (fds s) (unat (16 :: u32)) \<inter> range_at d (unat (36 :: u32)) = {}"
        by (rule held_apart [OF hd]) (use f ds(2) in auto)
      then have w: "words_at ?b (fds s) slots" using m(2) t(2) ub unfolding words_at_def
        by (subst holds_at_other) simp_all
      have mb: "heap_mapped ?h" using mp md by (simp add: heap_mapped_def mapped_write_at)
      have "mset (fd_blocks (slots[i := d]) s) = add_mset (d, 36) (mset (fd_blocks slots s))"
      proof -
        have e: "mset (filter (\<lambda>p. p \<noteq> 0) (slots[i := d])) = add_mset d (mset (filter (\<lambda>p. p \<noteq> 0) slots))"
          by (rule filter_slot(1)) (use i(2) True d t(2) in auto)
        have "slots \<noteq> []" using t(2) by auto
        then show ?thesis unfolding fd_blocks_def mset_append mset_map e by simp
      qed
      then have "mset ((d, 36) # fd_blocks slots s @ live) = mset (fd_blocks (slots[i := d]) s @ live)" by simp
      from holds_blocks_cong [OF this] have "holds_blocks (fd_blocks (slots[i := d]) s @ live) h1 bs1" using hd by blast
      moreover have "fd_blocks (slots[i := d]) ?s = fd_blocks (slots[i := d]) s" by (simp add: fd_blocks_def)
      ultimately have "holds_blocks (fd_blocks (slots[i := d]) ?s @ live) (fs_heap ?s) bs1" by simp
      then obtain s' where s': "set_slot (of_nat i) d ?s = Some s'" "fd_table live (slots[i := d]) s'" "fd_at s' = fd_at s"
        "fslock s' = fslock s"
        using set_slot_eq [of slots ?s i d live bs1] t(2) m(1) al w mb True by auto
      then show ?thesis using less get_slot_eq [OF t(1), of i] t(2) True i(2) calloc s' d ds(1)
        by (intro exI [of _ d] exI [of _ "s'\<lparr>fd_at := (fd_at s)(d \<mapsto> zero_fd)\<rparr>"]) (simp add: fill_slot_def)
    qed
  qed
qed

text \<open>
  What a table and the references \<open>held\<close> by the program have to do with each other: the descriptors in the table are those
  the program holds a reference to, and each counts its references.
\<close>

definition fd_refs :: "u32 list \<Rightarrow> u32 list \<Rightarrow> dfs \<Rightarrow> bool" where
  "fd_refs held slots s \<longleftrightarrow> set held = set slots - {0} \<and>
     (\<forall>p \<in> set held. \<exists>d. fd_at s p = Some d \<and> fd_magic d = DFS_FD_MAGIC \<and> fd_ref_count d = of_nat (count_list held p))"

lemma fd_refs_fd:
  assumes "fd_refs held slots s" "length held < 2 ^ 31" "p \<in> set slots" "p \<noteq> 0"
  obtains d where "fd_at s p = Some d" "fd_magic d = DFS_FD_MAGIC" "unat (fd_ref_count d) = count_list held p"
    "fd_ref_count d \<noteq> 0" "0 < count_list held p"
proof -
  have p: "p \<in> set held" using assms(1,3,4) by (simp add: fd_refs_def)
  then obtain d where d: "fd_at s p = Some d" "fd_magic d = DFS_FD_MAGIC" "fd_ref_count d = of_nat (count_list held p)"
    using assms(1) by (auto simp: fd_refs_def)
  have c: "0 < count_list held p" using p by (meson count_list_0_iff gr0I)
  have "count_list held p \<le> length held" by (rule count_le_length)
  then have u: "unat (fd_ref_count d) = count_list held p" unfolding d(3) using assms(2) by (intro unat_small) simp
  then have "fd_ref_count d \<noteq> 0" using c by auto
  then show ?thesis using that d(1,2) u c by blast
qed

text \<open>What \<open>fd_alloc\<close> answers with: no room, or an entry with a fresh descriptor\<close>

definition fd_allocated :: "(u32 \<times> u32) list \<Rightarrow> u32 list \<Rightarrow> dfs \<Rightarrow> (u32 \<times> dfs) option \<Rightarrow> bool" where
  "fd_allocated live slots s r \<longleftrightarrow> (\<exists>idx s' slots'. r = Some (idx, s') \<and> fslock s' = fslock s \<and> fd_table live slots' s' \<and>
     (idx = maxfd s' \<and> set slots' - {0} = set slots - {0} \<and> fd_at s' = fd_at s \<or>
      (\<exists>i d. i < length slots' \<and> idx = of_nat i \<and> slots' ! i = d \<and> d \<noteq> 0 \<and> d \<notin> set slots \<and>
        set slots' - {0} = insert d (set slots - {0}) \<and> fd_at s' = (fd_at s)(d \<mapsto> zero_fd))))"

lemma fd_allocated_none:
  "fd_table live slots' s' \<Longrightarrow> fslock s' = fslock s \<Longrightarrow> set slots' - {0} = set slots - {0} \<Longrightarrow> fd_at s' = fd_at s \<Longrightarrow>
   idx = maxfd s' \<Longrightarrow> fd_allocated live slots s (Some (idx, s'))"
  unfolding fd_allocated_def by blast

lemma fd_allocated_fresh:
  assumes "fd_table live (slots1[i := d]) s'" "fslock s' = fslock s" "fd_at s' = (fd_at s)(d \<mapsto> zero_fd)"
    and "i < length slots1" "slots1 ! i = 0" "d \<noteq> 0" "d \<notin> set slots" "set slots1 - {0} = set slots - {0}"
  shows "fd_allocated live slots s (Some (of_nat i, s'))"
proof -
  have "set (slots1[i := d]) - {0} = insert d (set slots - {0})" using filter_slot(2) [OF assms(4-6)] assms(8) by simp
  moreover have "i < length (slots1[i := d])" "slots1[i := d] ! i = d" using assms(4) by simp_all
  ultimately show ?thesis unfolding fd_allocated_def using assms(1-3,6,7) by blast
qed

text \<open>\<open>fill_slot\<close> on a table that has its full size\<close>

lemma fill_allocated:
  assumes t: "fd_table live slots1 s1" "length slots1 = 4" and i: "i \<le> 4" "i < 4 \<Longrightarrow> slots1 ! i = 0"
    and s: "fd_at s1 = fd_at s" "fslock s1 = fslock s" "set slots1 - {0} = set slots - {0}"
  shows "fd_allocated live slots s (fill_slot (of_nat i) s1)"
proof -
  obtain d s2 where f: "fill_slot (of_nat i) s1 = Some (if i < 4 \<and> d \<noteq> 0 then of_nat i else 4, s2)" "fslock s2 = fslock s1"
    "if i < 4 \<and> d \<noteq> 0 then d \<notin> set slots1 \<and> fd_table live (slots1[i := d]) s2 \<and> fd_at s2 = (fd_at s1)(d \<mapsto> zero_fd)
     else fd_table live slots1 s2 \<and> fd_at s2 = fd_at s1"
    using fill_slot_eq [OF t i] by blast
  show ?thesis
  proof (cases "i < 4 \<and> d \<noteq> 0")
    case True
    then have "d \<notin> set slots" "fd_table live (slots1[i := d]) s2" "fd_at s2 = (fd_at s)(d \<mapsto> zero_fd)"
      using f(3) s(1,3) by auto
    then show ?thesis using fd_allocated_fresh [of live slots1 i d s2 s slots] f(1,2) True t(2) i(2) s(2,3) by simp
  next
    case False
    then have "fd_table live slots1 s2" "fd_at s2 = fd_at s" using f(3) s(1) by (simp_all only: if_False)
    moreover from this have "maxfd s2 = 4" using t(2) by (auto simp: fd_table_def)
    moreover have "fill_slot (of_nat i) s1 = Some (4, s2)" using f(1) by (simp only: False if_False)
    ultimately show ?thesis using fd_allocated_none [of live slots1 s2 s slots 4] f(2) s(2,3) by simp
  qed
qed

lemma fd_alloc_eq:
  assumes t: "fd_table live slots s" and r: "fd_refs held slots s" "length held < 2 ^ 31"
  shows "fd_allocated live slots s (fd_alloc 0 s)"
proof -
  let ?i = "length (takeWhile (\<lambda>p. p \<noteq> 0) slots)"
  have "\<forall>p \<in> set slots. p \<noteq> 0 \<longrightarrow> (\<exists>d. fd_at s p = Some d \<and> fd_ref_count d \<noteq> 0)"
    using fd_refs_fd [OF r] by metis
  then have find: "find_slot 0 s = Some (of_nat ?i)" using find_slot_eq [OF t, of 0] by simp
  show ?thesis
  proof (cases "slots = []")
    case True
    then have m: "maxfd s = 0" "maxfd s < DFS_FD_MAX" using t by (auto simp: fd_table_def DFS_FD_MAX_def)
    obtain ok s1 where g: "grow_slots s = Some (ok, s1)" "fd_table live (if ok then replicate 4 0 else []) s1"
      "fd_at s1 = fd_at s" "fslock s1 = fslock s"
      using grow_slots_eq t True by blast
    have a: "fd_alloc 0 s = (if ok then fill_slot (of_nat 0) s1 else Some (0, s1))"
      using find m g(1) True by (simp add: fd_alloc_def)
    show ?thesis
    proof (cases ok)
      case False
      then have "maxfd s1 = 0" using g(2) by (auto simp: fd_table_def)
      then show ?thesis using fd_allocated_none [of live "[]" s1 s slots 0] a g False True by simp
    next
      case ok: True
      then have "fd_table live (replicate 4 0) s1" using g(2) by simp
      then show ?thesis using fill_allocated [of live "replicate 4 0" s1 0 s slots] a ok g(3,4) True by simp
    qed
  next
    case False
    then have m: "length slots = 4" "maxfd s = 4" "\<not> maxfd s < DFS_FD_MAX" using t by (auto simp: fd_table_def DFS_FD_MAX_def)
    have "fd_alloc 0 s = fill_slot (of_nat ?i) s" using find m by (simp add: fd_alloc_def)
    moreover have "?i \<le> 4" using length_takeWhile_le [of "\<lambda>p. p \<noteq> 0" slots] m(1) by simp
    moreover have "slots ! ?i = 0" if "?i < 4" using nth_length_takeWhile [of "\<lambda>p. p \<noteq> 0" slots] that m(1) by simp
    ultimately show ?thesis using fill_allocated [OF t m(1), of ?i s slots] by simp
  qed
qed

text \<open>
  The state between two calls: there is a table, the references are counted exactly, the lock is free.
\<close>

definition fd_ok :: "(u32 \<times> u32) list \<Rightarrow> u32 list \<Rightarrow> dfs \<Rightarrow> bool" where
  "fd_ok live held s \<longleftrightarrow> (\<exists>slots. fd_table live slots s \<and> fd_refs held slots s) \<and> fslock s = 0"

lemma fd_ok_free: "fd_ok live held s \<Longrightarrow> fd_ok live held (s\<lparr>fslock := 0\<rparr>)"
  by (auto simp: fd_ok_def fd_refs_def)

lemma fd_new_ok:
  assumes k: "fd_ok live held s" "length held < 2 ^ 31"
  shows "\<exists>r s'. fd_new s = Some (r, s') \<and>
    (r = - 1 \<and> fd_ok live held s' \<or>
     (\<exists>p. r \<noteq> - 1 \<and> p \<notin> set held \<and> get_slot (r - DFS_FD_OFFSET) s' = Some p \<and> fd_ok live (held @ [p]) s'))"
proof -
  obtain slots where t: "fd_table live slots s" "fd_refs held slots s" "fslock s = 0" using k(1) by (auto simp: fd_ok_def)
  let ?s = "dfs_lock s"
  have l: "fd_table live slots ?s" "fd_refs held slots ?s" "fslock ?s = 1" "fd_at ?s = fd_at s"
    using t by (simp_all add: dfs_lock_def fd_refs_def)
  obtain idx s1 slots' where a: "fd_alloc 0 ?s = Some (idx, s1)" "fslock s1 = 1" "fd_table live slots' s1"
    "idx = maxfd s1 \<and> set slots' - {0} = set slots - {0} \<and> fd_at s1 = fd_at s \<or>
     (\<exists>i d. i < length slots' \<and> idx = of_nat i \<and> slots' ! i = d \<and> d \<noteq> 0 \<and> d \<notin> set slots \<and>
       set slots' - {0} = insert d (set slots - {0}) \<and> fd_at s1 = (fd_at s)(d \<mapsto> zero_fd))"
    using fd_alloc_eq [OF l(1,2) k(2)] l(3,4) unfolding fd_allocated_def by auto
  from a(4) show ?thesis
  proof
    assume no: "idx = maxfd s1 \<and> set slots' - {0} = set slots - {0} \<and> fd_at s1 = fd_at s"
    then have "fd_refs held slots' s1" using t(2) by (simp add: fd_refs_def)
    then have "fd_ok live held (s1\<lparr>fslock := 0\<rparr>)" using a(3) by (auto simp: fd_ok_def fd_refs_def)
    then show ?thesis using a(1,2) no by (auto simp: fd_new_def dfs_unlock_def DFS_FD_OFFSET_def)
  next
    assume "\<exists>i d. i < length slots' \<and> idx = of_nat i \<and> slots' ! i = d \<and> d \<noteq> 0 \<and> d \<notin> set slots \<and>
       set slots' - {0} = insert d (set slots - {0}) \<and> fd_at s1 = (fd_at s)(d \<mapsto> zero_fd)"
    then obtain i d where i: "i < length slots'" "idx = of_nat i" "slots' ! i = d" "d \<noteq> 0" "d \<notin> set slots"
      "set slots' - {0} = insert d (set slots - {0})" "fd_at s1 = (fd_at s)(d \<mapsto> zero_fd)" by blast
    have b: "i < 4" "maxfd s1 = 4" using i(1) fd_table_bound [OF a(3)] a(3) by (auto simp: fd_table_def)
    then have "i \<in> {0, 1, 2, 3}" by auto
    then have ne: "idx \<noteq> maxfd s1" "idx + DFS_FD_OFFSET \<noteq> - 1" using i(2) b(2) by (auto simp: DFS_FD_OFFSET_def)
    let ?f = "zero_fd\<lparr>fd_ref_count := 1, fd_magic := DFS_FD_MAGIC\<rparr>"
    let ?s' = "s1\<lparr>fd_at := (fd_at s1)(d \<mapsto> ?f), fslock := 0\<rparr>"
    have g: "get_slot idx s1 = Some d" using get_slot_eq [OF a(3) i(1)] i(2,3) by simp
    have n: "fd_new s = Some (idx + DFS_FD_OFFSET, ?s')"
      using a(1,2) ne(1) g i(7) by (simp add: fd_new_def dfs_unlock_def)
    have h: "set held = set slots - {0}" "d \<notin> set held" using t(2) i(5) by (auto simp: fd_refs_def)
    have "fd_refs (held @ [d]) slots' ?s'"
      unfolding fd_refs_def
    proof (intro conjI ballI)
      show "set (held @ [d]) = set slots' - {0}" using h i(6) by simp
      fix p assume "p \<in> set (held @ [d])"
      then show "\<exists>f. fd_at ?s' p = Some f \<and> fd_magic f = DFS_FD_MAGIC \<and> fd_ref_count f = of_nat (count_list (held @ [d]) p)"
        using t(2) h i(7) by (cases "p = d") (auto simp: fd_refs_def)
    qed
    then have "fd_ok live (held @ [d]) ?s'" using a(3) by (auto simp: fd_ok_def)
    moreover have "get_slot (idx + DFS_FD_OFFSET - DFS_FD_OFFSET) ?s' = Some d" using g by simp
    ultimately show ?thesis using n ne(2) h(2) by blast
  qed
qed

text \<open>A reference more, or less\<close>

lemma fd_refs_upd:
  assumes r: "fd_refs held slots s" and p: "fd_at s p = Some d" "p \<in> set held"
    and h: "\<And>q. count_list held' q = (if q = p then n else count_list held q)" "set held' = set held"
  shows "fd_refs held' slots (s\<lparr>fd_at := (fd_at s)(p \<mapsto> d\<lparr>fd_ref_count := of_nat n\<rparr>)\<rparr>)"
proof -
  have "fd_magic d = DFS_FD_MAGIC" using r p by (force simp: fd_refs_def)
  then show ?thesis using assms by (auto simp: fd_refs_def)
qed

lemma fd_get_ok:
  assumes k: "fd_ok live held s"
  shows "\<exists>p s'. fd_get fd s = Some (p, s') \<and> (p = 0 \<and> s' = s \<or> p \<in> set held \<and> fd_ok live (held @ [p]) s')"
proof -
  obtain slots where t: "fd_table live slots s" "fd_refs held slots s" "fslock s = 0" using k by (auto simp: fd_ok_def)
  let ?k = "fd - DFS_FD_OFFSET"
  show ?thesis
  proof (cases "sint ?k < 0 \<or> sint ?k \<ge> sint (maxfd s)")
    case True
    then show ?thesis by (auto simp: fd_get_def Let_def)
  next
    case False
    define i where "i = nat (sint ?k)"
    have i: "i < length slots" using False fd_table_bound [OF t(1)] by (simp add: i_def nat_less_iff)
    have "of_nat i = ?k" using False by (simp add: i_def)
    then have g: "get_slot ?k s = Some (slots ! i)" "slots ! i \<in> set slots" using get_slot_eq [OF t(1) i] i by simp_all
    define p where "p = slots ! i"
    show ?thesis
    proof (cases "p = 0")
      case True
      then show ?thesis using False g(1) t(3) by (auto simp: fd_get_def Let_def dfs_lock_def dfs_unlock_def p_def)
    next
      case p: False
      then have ph: "p \<in> set held" using t(2) g(2) by (simp add: fd_refs_def p_def)
      then obtain d where d: "fd_at s p = Some d" "fd_magic d = DFS_FD_MAGIC" "fd_ref_count d = of_nat (count_list held p)"
        using t(2) by (auto simp: fd_refs_def)
      let ?s' = "s\<lparr>fd_at := (fd_at s)(p \<mapsto> d\<lparr>fd_ref_count := of_nat (count_list held p + 1)\<rparr>)\<rparr>"
      have "fd_refs (held @ [p]) slots ?s'" by (rule fd_refs_upd [OF t(2) d(1) ph]) (use ph in auto)
      then have "fd_ok live (held @ [p]) ?s'" using t(1,3) by (auto simp: fd_ok_def)
      moreover have "fd_get fd s = Some (p, ?s')"
        using False g(1) t(3) p d by (simp add: fd_get_def Let_def dfs_lock_def dfs_unlock_def p_def [symmetric] add.commute)
      ultimately show ?thesis using ph by blast
    qed
  qed
qed

lemma drop_fd_here:
  assumes t: "fd_table live (xs @ p # ys) s" and p: "p \<noteq> 0"
  shows "p \<notin> set ys"
    and "\<exists>s'. drop_fd p (of_nat (length xs)) s = Some s' \<and> fd_table live (xs @ 0 # ys) s' \<and>
      fd_at s' = (fd_at s)(p := None) \<and> fslock s' = fslock s"
proof -
  let ?slots = "xs @ p # ys" and ?i = "length xs"
  let ?A = "(fds s, 16) # map (\<lambda>p. (p, 36)) (filter (\<lambda>p. p \<noteq> 0) xs)" and ?B = "map (\<lambda>p. (p, 36)) (filter (\<lambda>p. p \<noteq> 0) ys) @ live"
  have m: "length ?slots = 4" "maxfd s = 4" "words_at (user_bytes (fs_heap s)) (fds s) ?slots" "heap_mapped (fs_heap s)"
    using t by (auto simp: fd_table_def)
  obtain bs where "holds_blocks (fd_blocks ?slots s @ live) (fs_heap s) bs" by (rule fd_table_blocks [OF t])
  then have hb: "holds_blocks (?A @ (p, 36) # ?B) (fs_heap s) bs" using p by (simp add: fd_blocks_def)
  then show "p \<notin> set ys" using p by (auto simp: holds_blocks_def image_iff)
  obtain h' bs' where f: "rt_free p (fs_heap s) = Some h'" "holds_blocks (?A @ ?B) h' bs'" "heap_base_same (fs_heap s) h'"
    using free_holds_blocks [OF hb, of "length ?A"] by (auto simp: nth_append)
  let ?s = "s\<lparr>fs_heap := h', fd_at := (fd_at s)(p := None)\<rparr>"
  have e: "?slots[?i := 0] = xs @ 0 # ys" by simp
  have "holds_blocks (fd_blocks (?slots[?i := 0]) ?s @ live) (fs_heap ?s) bs'" using f(2) by (simp add: fd_blocks_def)
  then obtain s' where s': "set_slot (of_nat ?i) 0 ?s = Some s'" "fd_table live (xs @ 0 # ys) s'"
    "fd_at s' = (fd_at s)(p := None)" "fslock s' = fslock s"
    using set_slot_eq [of ?slots ?s ?i 0 live bs'] m heap_mapped_base [OF f(3)] fd_table_aligned [OF t] f(3)
    by (auto simp: heap_base_same_def)
  moreover have "sint (of_nat ?i :: u32) < sint (maxfd s)" using m(1,2) sint_index [of ?i] by simp
  moreover have "get_slot (of_nat ?i) s = Some p" using get_slot_eq [OF t, of ?i] by simp
  ultimately show "\<exists>s'. drop_fd p (of_nat ?i) s = Some s' \<and> fd_table live (xs @ 0 # ys) s' \<and>
      fd_at s' = (fd_at s)(p := None) \<and> fslock s' = fslock s"
    using f(1) drop_fd.simps [of p "of_nat ?i" s] by simp
qed

lemma drop_fd_search:
  assumes t: "fd_table live (xs @ p # ys) s" and x: "p \<notin> set xs"
  shows "k \<le> length xs \<Longrightarrow> drop_fd p (of_nat k) s = drop_fd p (of_nat (length xs)) s"
proof (induction "length xs - k" arbitrary: k)
  case 0
  then show ?case by simp
next
  case (Suc n)
  then have k: "k < length xs" by simp
  have "length (xs @ p # ys) \<le> 4" "sint (maxfd s) = int (length (xs @ p # ys))" using fd_table_bound [OF t] by simp_all
  then have "sint (of_nat k :: u32) < sint (maxfd s)" using k sint_index [of k] by simp
  moreover have "get_slot (of_nat k) s = Some (xs ! k)" using get_slot_eq [OF t, of k] k by (simp add: nth_append)
  moreover have "xs ! k \<noteq> p" using x k nth_mem by blast
  moreover have "drop_fd p (of_nat (Suc k)) s = drop_fd p (of_nat (length xs)) s"
    by (rule Suc.hyps(1)) (use Suc.hyps(2) k in simp_all)
  ultimately show ?case using drop_fd.simps [of p "of_nat k" s] by (simp add: add.commute)
qed

lemma fd_put_ok:
  assumes k: "fd_ok live held s" "length held < 2 ^ 31" and held: "held = us @ p # vs"
  shows "\<exists>s'. fd_put p s = Some s' \<and> fd_ok live (us @ vs) s'"
proof -
  obtain slots where t: "fd_table live slots s" "fd_refs held slots s" "fslock s = 0" using k(1) by (auto simp: fd_ok_def)
  have p: "p \<in> set held" "p \<in> set slots" "p \<noteq> 0" using t(2) held by (auto simp: fd_refs_def)
  obtain d where d: "fd_at s p = Some d" "fd_magic d = DFS_FD_MAGIC" "unat (fd_ref_count d) = count_list held p"
    by (rule fd_refs_fd [OF t(2) k(2) p(2,3)])
  define n where "n = count_list (us @ vs) p"
  have c: "count_list held p = n + 1" by (simp add: n_def held)
  have "count_list held p \<le> length held" by (rule count_le_length)
  then have n: "n < 2 ^ 31" using c k(2) by simp
  have "fd_ref_count d = of_nat (count_list held p)" using t(2) p(1) d(1) by (force simp: fd_refs_def)
  then have dec: "fd_ref_count d - 1 = of_nat n" by (simp add: c)
  have zero: "(of_nat n :: u32) = 0 \<longleftrightarrow> n = 0" using n unat_small [of n] by auto
  have one: "fd_ref_count d = 1 \<longleftrightarrow> n = 0" using zero unfolding dec [symmetric] by simp
  let ?s = "s\<lparr>fslock := 1, fd_at := (fd_at s)(p \<mapsto> d\<lparr>fd_ref_count := of_nat n\<rparr>)\<rparr>"
  have put: "fd_put p s = Option.bind (if n = 0 then drop_fd p 0 ?s else Some ?s) dfs_unlock"
    using p(3) d(1) t(3) dec one by (simp add: fd_put_def dfs_lock_def Let_def)
  show ?thesis
  proof (cases "n = 0")
    case False
    have "fd_refs (us @ vs) slots (s\<lparr>fd_at := (fd_at s)(p \<mapsto> d\<lparr>fd_ref_count := of_nat n\<rparr>)\<rparr>)"
    proof (rule fd_refs_upd [OF t(2) d(1) p(1)])
      show "count_list (us @ vs) q = (if q = p then n else count_list held q)" for q by (simp add: n_def held)
      have "p \<in> set (us @ vs)" using False by (simp add: n_def count_list_0_iff)
      then show "set (us @ vs) = set held" by (auto simp: held)
    qed
    then have "fd_ok live (us @ vs) (s\<lparr>fd_at := (fd_at s)(p \<mapsto> d\<lparr>fd_ref_count := of_nat n\<rparr>)\<rparr>)"
      using t(1,3) by (auto simp: fd_ok_def)
    from fd_ok_free [OF this] show ?thesis using put False t(3) by (simp add: dfs_unlock_def)
  next
    case True
    obtain xs ys where xs: "slots = xs @ p # ys" "p \<notin> set xs" using split_list_first [OF p(2)] by blast
    have ts: "fd_table live (xs @ p # ys) ?s" using t(1) xs(1) by simp
    obtain s' where s': "drop_fd p 0 ?s = Some s'" "fd_table live (xs @ 0 # ys) s'" "fd_at s' = (fd_at ?s)(p := None)" "fslock s' = 1"
      using drop_fd_here(2) [OF ts p(3)] drop_fd_search [OF ts xs(2), of 0] by auto
    have u: "p \<notin> set us" "p \<notin> set vs" using True by (simp_all add: n_def count_list_0_iff)
    have "fd_refs (us @ vs) (xs @ 0 # ys) s'"
      unfolding fd_refs_def
    proof (intro conjI ballI)
      have "set (us @ vs) = set held - {p}" using u by (auto simp: held)
      also have "\<dots> = set slots - {0} - {p}" using t(2) by (simp add: fd_refs_def)
      also have "\<dots> = set (xs @ 0 # ys) - {0}"
        using xs(2) p(3) drop_fd_here(1) [OF ts p(3)] unfolding xs(1) by auto
      finally show "set (us @ vs) = set (xs @ 0 # ys) - {0}" .
      fix q assume "q \<in> set (us @ vs)"
      then have q: "q \<in> set held" "q \<noteq> p" "count_list held q = count_list (us @ vs) q" using u by (auto simp: held)
      obtain f where "fd_at s q = Some f" "fd_magic f = DFS_FD_MAGIC" "fd_ref_count f = of_nat (count_list held q)"
        using t(2) q(1) by (auto simp: fd_refs_def)
      then show "\<exists>d. fd_at s' q = Some d \<and> fd_magic d = DFS_FD_MAGIC \<and> fd_ref_count d = of_nat (count_list (us @ vs) q)"
        using s'(3) q(2,3) by simp
    qed
    then have "fd_ok live (us @ vs) (s'\<lparr>fslock := 0\<rparr>)" using s'(2) by (auto simp: fd_ok_def fd_refs_def)
    then show ?thesis using put True s'(1,4) by (simp add: dfs_unlock_def)
  qed
qed

section \<open>A program that opens, uses and closes descriptors\<close>

datatype fd_request = New_Fd | Get_Fd u32 | Put_Fd nat

text \<open>The references the program holds; \<open>Put_Fd k\<close> gives the \<open>k\<close>-th one up.\<close>

fun fd_call :: "fd_request \<Rightarrow> u32 list \<times> dfs \<Rightarrow> (u32 list \<times> dfs) option" where
  "fd_call New_Fd (held, s) = do {
     (fd, s) \<leftarrow> fd_new s;
     if fd = - 1 then Some (held, s)
     else do { p \<leftarrow> get_slot (fd - DFS_FD_OFFSET) s; Some (held @ [p], s) } }"
| "fd_call (Get_Fd fd) (held, s) = do {
     (p, s) \<leftarrow> fd_get fd s;
     Some (if p = 0 then held else held @ [p], s) }"
| "fd_call (Put_Fd k) (held, s) =
     (if k < length held then do {
        s \<leftarrow> fd_put (held ! k) s;
        Some (take k held @ drop (Suc k) held, s) }
      else Some (held, s))"

primrec fd_calls :: "fd_request list \<Rightarrow> u32 list \<times> dfs \<Rightarrow> (u32 list \<times> dfs) option" where
  "fd_calls [] c = Some c"
| "fd_calls (r # rs) c = do { c \<leftarrow> fd_call r c; fd_calls rs c }"

lemma fd_call_ok:
  assumes "fd_ok live held s" "length held < 2 ^ 31"
  shows "\<exists>held' s'. fd_call r (held, s) = Some (held', s') \<and> fd_ok live held' s' \<and> length held' \<le> length held + 1"
proof (cases r)
  case New_Fd
  then show ?thesis using fd_new_ok [OF assms] by auto
next
  case (Get_Fd fd)
  obtain p s' where "fd_get fd s = Some (p, s')" "p = 0 \<and> s' = s \<or> p \<in> set held \<and> fd_ok live (held @ [p]) s'"
    using fd_get_ok [OF assms(1)] by blast
  moreover have "0 \<notin> set held" using assms(1) by (auto simp: fd_ok_def fd_refs_def)
  ultimately show ?thesis using Get_Fd assms(1) by auto
next
  case (Put_Fd k)
  show ?thesis
  proof (cases "k < length held")
    case True
    obtain s' where "fd_put (held ! k) s = Some s'" "fd_ok live (take k held @ drop (Suc k) held) s'"
      using fd_put_ok [OF assms id_take_nth_drop [OF True]] by blast
    then show ?thesis using Put_Fd True by simp
  qed (use Put_Fd assms in simp)
qed

lemma fd_calls_ok:
  "fd_ok live held s \<Longrightarrow> length held + length rs < 2 ^ 31 \<Longrightarrow>
   \<exists>held' s'. fd_calls rs (held, s) = Some (held', s') \<and> fd_ok live held' s' \<and> length held' \<le> length held + length rs"
proof (induction rs arbitrary: held s)
  case (Cons r rs)
  then obtain held1 s1 where "fd_call r (held, s) = Some (held1, s1)" "fd_ok live held1 s1" "length held1 \<le> length held + 1"
    using fd_call_ok [of live held s r] by auto
  then show ?case using Cons.IH [of held1 s1] Cons.prems(2) by fastforce
qed simp

text \<open>The blocks of the descriptors are those the program holds references to.\<close>

lemma fd_ok_blocks:
  assumes "fd_ok live held s"
  shows "\<exists>bs table. holds_blocks (table @ map (\<lambda>p. (p, 36)) (remdups held) @ live) (fs_heap s) bs \<and>
    (table = [] \<or> table = [(fds s, 16)])"
proof -
  obtain slots bs where t: "fd_table live slots s" "fd_refs held slots s" "holds_blocks (fd_blocks slots s @ live) (fs_heap s) bs"
    using assms by (auto simp: fd_ok_def fd_table_def)
  let ?ps = "filter (\<lambda>p. p \<noteq> 0) slots" and ?t = "if slots = [] then [] else [(fds s, 16)]"
  have "distinct (map fst (map (\<lambda>p. (p, 36 :: u32)) ?ps))"
    using t(3) unfolding holds_blocks_def fd_blocks_def map_append distinct_append by blast
  then have "distinct ?ps" by (simp add: comp_def)
  moreover have "set ?ps = set (remdups held)" using t(2) by (auto simp: fd_refs_def)
  ultimately have e: "mset ?ps = mset (remdups held)" using set_eq_iff_mset_eq_distinct distinct_remdups by blast
  have "mset (fd_blocks slots s @ live) = mset (?t @ map (\<lambda>p. (p, 36)) (remdups held) @ live)"
    unfolding fd_blocks_def mset_append mset_map e by simp
  from holds_blocks_cong [OF this] have "holds_blocks (?t @ map (\<lambda>p. (p, 36)) (remdups held) @ live) (fs_heap s) bs"
    using t(3) by blast
  then show ?thesis by (intro exI [of _ bs] exI [of _ ?t]) simp
qed

section \<open>Property\<close>

text \<open>Before the first call\<close>

definition no_fds :: "heap \<Rightarrow> dfs" where
  "no_fds h = \<lparr>maxfd = 0, fds = 0, fd_at = Map.empty, fs_heap = h, fslock = 0\<rparr>"

text \<open>
  C39. Whatever sequence of \<open>fd_new\<close>, \<open>fd_get\<close> (with any number) and \<open>fd_put\<close> (of references it has) a program calls, no call
  faults and the lock is free afterwards. Every descriptor the program has a reference to exists, and its count is
  the number of these references. Of the heap the program then holds, besides the blocks it held before, the table
  and exactly the descriptors it has references to: none is given back too early, and none is lost.
\<close>

theorem fd_references_exact:
  assumes "holds_blocks live h bs" and "heap_mapped h" and "length calls < 2 ^ 31"
  shows "\<exists>held s bs' table. fd_calls calls ([], no_fds h) = Some (held, s) \<and> fslock s = 0 \<and>
    (\<forall>p \<in> set held. \<exists>d. fd_at s p = Some d \<and> fd_magic d = DFS_FD_MAGIC \<and> unat (fd_ref_count d) = count_list held p) \<and>
    holds_blocks (table @ map (\<lambda>p. (p, 36)) (remdups held) @ live) (fs_heap s) bs' \<and> (table = [] \<or> table = [(fds s, 16)])"
proof -
  have "fd_table live [] (no_fds h)" using assms(1,2) by (auto simp: fd_table_def fd_blocks_def no_fds_def)
  then have "fd_ok live [] (no_fds h)" by (auto simp: fd_ok_def fd_refs_def no_fds_def)
  from fd_calls_ok [OF this, of calls] obtain held s where
    r: "fd_calls calls ([], no_fds h) = Some (held, s)" "fd_ok live held s" "length held < 2 ^ 31" using assms(3) by auto
  then obtain slots where s: "fd_refs held slots s" "fslock s = 0" by (auto simp: fd_ok_def)
  have "\<exists>d. fd_at s p = Some d \<and> fd_magic d = DFS_FD_MAGIC \<and> unat (fd_ref_count d) = count_list held p" if "p \<in> set held" for p
    by (rule fd_refs_fd [OF s(1) r(3), of p]) (use that s(1) in \<open>auto simp: fd_refs_def\<close>)
  then show ?thesis using r(1) s(2) fd_ok_blocks [OF r(2)] by blast
qed

theorem fd_references_exact_witness:
  "\<exists>held s. fd_calls [New_Fd, Get_Fd 3, New_Fd, Put_Fd 0, Get_Fd 1, Put_Fd 0, Put_Fd 0]
     ([], no_fds (sample_heap\<lparr>user_bytes := \<lambda>_. Some 7\<rparr>)) = Some (held, s) \<and> fslock s = 0"
  using fd_references_exact [OF sample_holds, of "[New_Fd, Get_Fd 3, New_Fd, Put_Fd 0, Get_Fd 1, Put_Fd 0, Put_Fd 0]"]
  by (simp del: fd_calls.simps) blast

end
