(* ===== verification/Spec2Isabelle.thy ===== *)
theory Spec2Isabelle
  imports System_Props Kernel_Props Demo Ringbuffer Printf_Props Heap_Rbb Dfs_Fs Dfs_Fd
begin

text \<open>
  A verification library for a small real-time kernel on Cortex-M3 and for parts of the kernel it
  was derived from.

  \<^bold>\<open>The program.\<close> The repository holds a kernel written after RT-Thread (\<open>src/rtt_source\<close>, \<open>src/rtt_ports\<close>,
  \<open>src/include\<close>), a demonstration that runs on it (\<open>src/User/main.c\<close>) and, for comparison, the sources of
  RT-Thread itself (\<open>src/rt-thread_reference\<close>). The kernel keeps threads in one ready list per priority
  and a word whose bit \<open>p\<close> says that list \<open>p\<close> is not empty; a thread that waits for a semaphore is in the
  list of the semaphore; a wait that is bounded also has a timer, in a list ordered by the tick at which
  it runs out. The clock interrupt advances the tick, ends time slices and calls the functions of the
  timers that are due; the function of a thread's timer makes the thread ready. The scheduler
  requests a context switch, which the exception PendSV carries out. Every list is intrusive: its
  nodes are members of the structures, and the same member \<open>tlist\<close> of a thread is in a ready list at one
  time and in a waiting list at another.

  \<^bold>\<open>How it is modelled.\<close> A C function is a HOL function on an explicit state, in the option monad:
  \<open>None\<close> is undefined behaviour (a null pointer that is followed, an index out of range, a loop that
  never ends), an error code is an ordinary result. Machine integers are words of their width, so sums
  wrap around as in C. Loops are recursive functions; where a loop follows pointers it is a
  \<open>partial_function\<close>, and that it ends is part of what is proved of it. Function pointers are
  values of a datatype, the application's timeout functions an argument (\<open>user\<close>). The definitions
  compute, so that they can be run on concrete states.

  \<^bold>\<open>Foundations\<close>
  \<^item> \<open>Prelude\<close>: integer types, error codes, the option monad, facts on lists and words.
  \<^item> \<open>Rt_List\<close>: the lists of \<open>include/rtservice.h\<close> on a store of \<open>next\<close> and \<open>prev\<close> pointers. A layout says which
    list holds which nodes (\<open>rings\<close>); each operation is shown to change the layout as its name says and
    to leave every other list alone (the locale \<open>intrusive_list\<close>). This is the separation argument on
    which the kernel's proofs rest.
  \<^item> \<open>Memory\<close>: byte-addressed memory, for the parts that are about bytes.

  \<^bold>\<open>The kernel\<close>
  \<^item> \<open>Kernel_State\<close>: the structures of \<open>include/rtdef.h\<close> as records, the global variables, \<open>irq.c\<close>, and the
    rules by which an operation that returns is composed from others (\<open>returns\<close>, \<open>succeeds\<close>).
  \<^item> \<open>Kservice\<close>: \<open>kservice.c\<close> (\<open>rt_strncpy\<close>, \<open>__rt_ffs\<close>). \<open>Object\<close>: \<open>object.c\<close>. \<open>Cpuport\<close>: \<open>cpuport.c\<close> and the
    assembler of \<open>context_rvde.s\<close>.
  \<^item> \<open>Timer\<close>: \<open>timer.c\<close>; the timer list stays ordered by the time left. \<open>Scheduler\<close>: \<open>scheduler.c\<close>.
    \<open>Thread\<close>: \<open>thread.c\<close>. \<open>Ipc\<close>: the semaphores of \<open>ipc.c\<close> and the lists of waiting threads.
    \<open>Clock\<close>: \<open>clock.c\<close>, \<open>idle.c\<close>, \<open>main\<close> and \<open>SysTick_Handler\<close> of \<open>User/main.c\<close>.
  \<^item> \<open>Invariant\<close>: the invariant \<open>kinv\<close>. The stores of all lists are well formed; the bit mask says which
    ready lists are not empty; a thread is in the ready list of its priority exactly if its state is
    ready, in a waiting list only if it is suspended; the running timers are ordered and none is further
    away than ticks can be compared; a semaphore that has a waiter has the value 0. \<open>Thread_Inv\<close>, \<open>Ipc\<close>,
    \<open>Clock\<close> and \<open>Boot\<close> show of every operation that it returns and keeps \<open>kinv\<close>, and what it
    does to the lists.
  \<^item> \<open>Boot\<close>: creating threads and semaphores, and the start-up of \<open>main\<close>. \<open>Samples\<close>: reachable states for
    the examples.
  \<^item> \<open>System\<close>: services and clock interrupts as a step relation, the rules a program keeps to
    (\<open>permitted\<close>), and the invariant of reachable states. \<open>System_Props\<close> and \<open>Kernel_Props\<close> state the
    properties: no step faults, no timer is late, a delayed thread wakes on time; who is scheduled, who
    gets a semaphore, what a timeout does; and what goes wrong (\<open>main\<close> as it is written follows a null
    pointer, \<open>rt_thread_delete\<close> always faults, a release leaves the timer of the thread it wakes running).
  \<^item> \<open>Demo\<close>: the entry functions of the four threads of \<open>User/main.c\<close>, statement by statement, with clock
    interrupts in between. The invariant \<open>demo_ok\<close> says in which state the running thread is and who has
    the scheduler locked; from it no statement faults and no increment of \<open>sharecounter\<close> is lost.

  \<^bold>\<open>Parts of the reference kernel\<close>
  \<^item> \<open>Fifo\<close> and \<open>Ringbuffer\<close>: \<open>components/drivers/src/ringbuffer.c\<close> as a refinement of bounded queues. The
    locale \<open>bounded_fifo\<close> of \<open>Fifo\<close> is interpreted on the code's functions.
  \<^item> \<open>Kservice_Mem\<close>, \<open>Kservice_Str\<close>, \<open>Printf\<close>, \<open>Printf_Props\<close>: \<open>src/kservice.c\<close>. The word-wise loops of \<open>rt_memset\<close> and
    \<open>rt_memcpy\<close> do what the byte-wise ones would; the string functions agree with functions on lists;
    \<open>rt_vsnprintf\<close> writes the text that a specification computes without a buffer, cut off to fit.
  \<^item> \<open>Mem\<close>, \<open>Allocator\<close>, \<open>Mem_Blocks\<close>, \<open>Mem_Free\<close>, \<open>Mem_Realloc\<close>, \<open>Mem_Props\<close>: \<open>src/mem.c\<close>. The heap is a chain of blocks
    (\<open>heap_shape\<close>, \<open>heap_ok\<close>) without two free neighbours; every operation keeps it, and by the locale
    \<open>block_allocator\<close> no sequence of calls makes blocks overlap.
  \<^item> \<open>Heap_Use\<close>: what stands on the heap: \<open>rt_strdup\<close>, \<open>rt_malloc_align\<close>, \<open>rt_free_align\<close>, creating and destroying ring
    buffers; what a call takes it hands out or gives back.
  \<^item> \<open>Slist\<close>: the singly linked lists of \<open>include/rtservice.h\<close>. \<open>Ringblk\<close>, \<open>Ringblk_Inv\<close>, \<open>Ringblk_Queue\<close>,
    \<open>Ringblk_Props\<close>: \<open>components/drivers/src/ringblk_buf.c\<close>, which hands out blocks of memory in a ring. The
    invariant \<open>rbb_inv\<close> says that the blocks in the list go around the buffer at most once without overlapping. \<open>Heap_Rbb\<close>:
    creating and destroying such a buffer.
  \<^item> \<open>Dfs_Path\<close>: the paths of the device file system (\<open>components/dfs/src/dfs.c\<close>). The loop of \<open>dfs_normalize_path\<close>, which
    reads and writes the same block, is a function on lists of bytes (\<open>path_run\<close>), and that function comes to where the
    names of the path lead (\<open>resolve\<close>). \<open>Dfs_Fs\<close>: the tables of \<open>dfs_fs.c\<close>; comparing bytes up to a slash,
    \<open>dfs_filesystem_lookup\<close> finds the mount point with the most names of the path.
    \<open>Dfs_Fd\<close>: the table of file descriptors, which with its descriptors is on the heap; the invariant \<open>fd_ok\<close> says
    that a program holds exactly the descriptors it has references to.

  \<^bold>\<open>Bounds.\<close> Ticks are 32-bit words and wrap around. A timeout is at most \<open>longest_timeout\<close>, one less than
  the largest difference the code's comparison takes for the future: one tick may pass before the timer
  list is looked at. The invariant is stated relative to a tick \<open>b\<close>, the one from which the distances of
  the timers are counted: the current tick, or the one before while the clock interrupt is at work. The
  properties of the heap assume one of at least 36 bytes whose end address does not wrap around,
  and requests of at most \<open>2 ^ 32 - 4\<close> bytes; what happens beyond is stated separately. The table of
  file descriptors has the default size of \<open>dfs.h\<close>, 4. No fuel is used.

  \<^bold>\<open>Concurrency.\<close> Services change lists and fields with interrupts locked, so that a step of \<open>System\<close> is one
  service or one clock interrupt. What a service does after it has called the scheduler runs when the
  thread is next switched to; for \<open>rt_sem_take\<close> that part is a function of its own
  (\<open>rt_sem_take_resumed\<close>).

  \<^bold>\<open>Not modelled.\<close> \<open>rt_sem_create\<close> and \<open>rt_sem_delete\<close>, which \<open>rtconfig.h\<close> does not compile in; the registers the hardware saves by
  itself. Of the reference kernel: hooks, tracing, the console, what the device file system does by way of drivers
  (mounting, opening files) and \<open>fd_is_open\<close>, and the files not named above, which are
  not part of the program. Board support packages and drivers are third-party code.
\<close>

end
